(* ===== verification/Prelude.thy ===== *)
theory Prelude
  imports Main "HOL-Library.Word" "HOL-Library.Monad_Syntax" "HOL-Library.Char_ord"
begin

unbundle bit_operations_syntax

text \<open>
  Shared vocabulary of the development: the types that stand for C's machine integers
  and pointers, the model of heap buffers, the few functions of the C library that
  several components use, and the generic lemmas about lists and words.

  Undefined behaviour of the C code (an access outside a buffer, a read of memory that
  was never written, a dereferenced null pointer) is the value \<^const>\<open>None\<close> of an
  option type, threaded by the option monad.  Error codes that the C code returns are
  ordinary values.  Allocation is assumed to succeed: the code stops the process
  otherwise (\<open>PSC_Service_panic\<close> in \<open>util.c\<close>).
\<close>

section \<open>Machine types\<close>

type_synonym u8 = "8 word"
type_synonym u16 = "16 word"
type_synonym u32 = "32 word"
type_synonym u64 = "64 word"

text \<open>A byte string: C's \<open>(const void *, size_t)\<close> pairs.\<close>

type_synonym bytes = "u8 list"

text \<open>Pointers to objects the library does not look into; \<open>0\<close> is the null pointer.\<close>

type_synonym ptr = nat

abbreviation (input) NULL :: ptr where
  "NULL \<equiv> 0"

text \<open>
  Destructor callbacks.  The code only compares them with the null pointer and with the
  marker \<open>PSC_DICT_NODELETE\<close>; everything else is called.
\<close>

datatype deleter = NoFn | NoDelete | Fn nat

section \<open>Fact collections\<close>

named_theorems buf_simps \<open>evaluation of buffer accesses\<close>
named_theorems wf_defs \<open>definitions of the well-formedness invariants\<close>

section \<open>Heap buffers\<close>

text \<open>
  A buffer is the list of its cells; a cell that was never written is \<^const>\<open>None\<close>.
\<close>

type_synonym 'a buf = "'a option list"

definition buf_alloc :: "nat \<Rightarrow> 'a buf" where
  "buf_alloc n = replicate n None"

definition buf_realloc :: "'a buf \<Rightarrow> nat \<Rightarrow> 'a buf" where
  "buf_realloc b n = take n b @ replicate (n - length b) None"

definition buf_read :: "'a buf \<Rightarrow> nat \<Rightarrow> 'a option" where
  "buf_read b i = (if i < length b then b ! i else None)"

definition buf_write :: "'a buf \<Rightarrow> nat \<Rightarrow> 'a \<Rightarrow> 'a buf option" where
  "buf_write b i v = (if i < length b then Some (b[i := Some v]) else None)"

text \<open>\<open>memmove (b + dst, b + src, n)\<close>: the regions may overlap.\<close>

definition buf_move :: "'a buf \<Rightarrow> nat \<Rightarrow> nat \<Rightarrow> nat \<Rightarrow> 'a buf option" where
  "buf_move b dst src n =
     (if dst + n \<le> length b \<and> src + n \<le> length b
      then Some (take dst b @ take n (drop src b) @ drop (dst + n) b) else None)"

text \<open>\<open>memcpy (b + dst, b + src, n)\<close>: overlapping regions are undefined behaviour.\<close>

definition buf_copy :: "'a buf \<Rightarrow> nat \<Rightarrow> nat \<Rightarrow> nat \<Rightarrow> 'a buf option" where
  "buf_copy b dst src n =
     (if n = 0 \<or> dst + n \<le> src \<or> src + n \<le> dst then buf_move b dst src n else None)"

text \<open>Consecutive writes \<open>*p++ = v\<close>, starting at offset \<open>i\<close>.\<close>

fun buf_store :: "'a buf \<Rightarrow> nat \<Rightarrow> 'a list \<Rightarrow> 'a buf option" where
  "buf_store b i [] = Some b"
| "buf_store b i (v # vs) = do { b' \<leftarrow> buf_write b i v; buf_store b' (Suc i) vs }"

lemma length_buf_alloc [simp]: "length (buf_alloc n) = n"
  by (simp add: buf_alloc_def)

lemma length_buf_realloc [simp]: "length (buf_realloc b n) = n"
  by (simp add: buf_realloc_def)

lemma buf_read_in [buf_simps]: "i < length b \<Longrightarrow> buf_read b i = b ! i"
  by (simp add: buf_read_def)

lemma buf_write_in [buf_simps]: "i < length b \<Longrightarrow> buf_write b i v = Some (b[i := Some v])"
  by (simp add: buf_write_def)

lemma buf_write_Some_iff:
  "buf_write b i v = Some b' \<longleftrightarrow> i < length b \<and> b' = b[i := Some v]"
  by (auto simp: buf_write_def)

lemma buf_realloc_nth [buf_simps]:
  "i < n \<Longrightarrow> buf_realloc b n ! i = (if i < length b then b ! i else None)"
  by (auto simp: buf_realloc_def nth_append)

lemma buf_realloc_take [buf_simps]:
  "k \<le> n \<Longrightarrow> k \<le> length b \<Longrightarrow> take k (buf_realloc b n) = take k b"
  by (simp add: buf_realloc_def min_def)

lemma buf_store_eq:
  "i + length vs \<le> length b \<Longrightarrow>
   buf_store b i vs = Some (take i b @ map Some vs @ drop (i + length vs) b)"
proof (induction vs arbitrary: b i)
  case Nil
  then show ?case by simp
next
  case (Cons v vs)
  then have "buf_store b i (v # vs) = buf_store (b[i := Some v]) (Suc i) vs"
    by (simp add: buf_write_in)
  also have "\<dots> = Some (take (Suc i) (b[i := Some v]) @ map Some vs
                       @ drop (Suc i + length vs) (b[i := Some v]))"
    using Cons by simp
  also have "take (Suc i) (b[i := Some v]) = take i b @ [Some v]"
    using Cons.prems by (simp add: take_Suc_conv_app_nth)
  finally show ?case by simp
qed

lemma buf_store_overflow:
  "length b < i + length vs \<Longrightarrow> vs \<noteq> [] \<Longrightarrow> buf_store b i vs = None"
proof (induction vs arbitrary: b i)
  case Nil
  then show ?case by simp
next
  case (Cons v vs)
  show ?case
  proof (cases "i < length b")
    case True
    with Cons.prems have "vs \<noteq> []" by auto
    with True Cons show ?thesis by (simp add: buf_write_in)
  next
    case False
    then show ?thesis by (simp add: buf_write_def)
  qed
qed

lemma map_Some_the: "None \<notin> set b \<Longrightarrow> map Some (map the b) = b"
  by (induction b) auto

lemma map_Some_nth_take:
  "n \<le> length b \<Longrightarrow> take n b = map Some xs \<Longrightarrow> i < n \<Longrightarrow> b ! i = Some (xs ! i)"
  by (metis length_map length_take min.absorb2 nth_map nth_take)


section \<open>C strings\<close>

text \<open>
  A C string is the list of its characters without the terminator.  \<open>buf_cstr\<close> reads
  the string at the start of a buffer; it is undefined when there is no terminator.
\<close>

definition NUL :: char where
  "NUL = CHR 0x00"

fun buf_cstr :: "char buf \<Rightarrow> string option" where
  "buf_cstr [] = None"
| "buf_cstr (None # b) = None"
| "buf_cstr (Some c # b) = (if c = NUL then Some [] else map_option ((#) c) (buf_cstr b))"

text \<open>\<open>strcpy (b + i, s)\<close>\<close>

definition buf_strcpy :: "char buf \<Rightarrow> nat \<Rightarrow> string \<Rightarrow> char buf option" where
  "buf_strcpy b i s = buf_store b i (s @ [NUL])"

lemma buf_cstr_map: "NUL \<notin> set s \<Longrightarrow> buf_cstr (map Some s @ Some NUL # b) = Some s"
  by (induction s) auto

lemma buf_strcpy_eq:
  "i + length s < length b \<Longrightarrow>
   buf_strcpy b i s = Some (take i b @ map Some s @ Some NUL # drop (Suc (i + length s)) b)"
  by (simp add: buf_strcpy_def buf_store_eq)

text \<open>A string that is copied behind the first \<open>i\<close> characters extends them.\<close>

lemma buf_strcpy_append:
  assumes "i + length s < length b" "take i b = map Some t" "length t = i"
  shows "\<exists>b'. buf_strcpy b i s = Some b' \<and> length b' = length b \<and>
     take (i + length s) b' = map Some (t @ s) \<and> b' ! (i + length s) = Some NUL"
proof -
  have "buf_strcpy b i s = Some (map Some (t @ s) @ Some NUL # drop (Suc (i + length s)) b)"
    using assms by (simp add: buf_strcpy_eq)
  with assms show ?thesis by (auto simp: nth_append)
qed

lemma buf_cstr_take:
  assumes "NUL \<notin> set t" "take n b = map Some t" "n < length b" "b ! n = Some NUL"
  shows "buf_cstr b = Some t"
proof -
  have "b = map Some t @ Some NUL # drop (Suc n) b"
    using assms(2-4) by (metis id_take_nth_drop)
  then show ?thesis using assms(1) by (metis buf_cstr_map)
qed

text \<open>\<open>strchr\<close>, as an index: the terminator is found behind the last character.\<close>

fun strchr :: "string \<Rightarrow> char \<Rightarrow> nat option" where
  "strchr [] c = (if c = NUL then Some 0 else None)"
| "strchr (x # xs) c = (if x = c then Some 0 else map_option Suc (strchr xs c))"

lemma strchr_nth:
  "i < length xs \<Longrightarrow> distinct xs \<Longrightarrow> strchr xs (xs ! i) = Some i"
  by (induction xs arbitrary: i) (auto simp: nth_Cons in_set_conv_nth split: nat.splits)

section \<open>Bytes bit by bit\<close>

lemmas bit_idx = numeral_2_eq_2 [symmetric] numeral_3_eq_3 [symmetric]

lemma less8_cases: "n < 8 \<Longrightarrow> n = 0 \<or> n = 1 \<or> n = 2 \<or> n = 3 \<or> n = 4 \<or> n = 5 \<or> n = 6 \<or> n = 7" for n :: nat
  by arith

lemma byte_eqI:
  fixes x y :: u8
  assumes "bit x 0 \<longleftrightarrow> bit y 0" "bit x 1 \<longleftrightarrow> bit y 1" "bit x 2 \<longleftrightarrow> bit y 2" "bit x 3 \<longleftrightarrow> bit y 3"
    "bit x 4 \<longleftrightarrow> bit y 4" "bit x 5 \<longleftrightarrow> bit y 5" "bit x 6 \<longleftrightarrow> bit y 6" "bit x 7 \<longleftrightarrow> bit y 7"
  shows "x = y"
proof (rule bit_word_eqI)
  fix n assume "n < LENGTH(8)"
  then have "n = 0 \<or> n = 1 \<or> n = 2 \<or> n = 3 \<or> n = 4 \<or> n = 5 \<or> n = 6 \<or> n = 7"
    using less8_cases by simp
  then show "bit x n \<longleftrightarrow> bit y n" by (elim disjE) (simp_all only: assms)
qed

lemma bit_u8_high [simp]: "8 \<le> n \<Longrightarrow> \<not> bit (x :: u8) n"
  using bit_imp_le_length [of x n] by auto

end
