(* ===== verification/Interfaces.thy ===== *)
theory Interfaces
  imports Prelude
begin

text \<open>
  Contracts that several components provide or rely on, as locales: snapshot iterators
  (\<open>PSC_ListIterator\<close>, \<open>PSC_HashTableIterator\<close>) and finite maps
  (\<open>PSC_HashTable\<close>, \<open>PSC_Dictionary\<close>).  Client code is written over the operations
  as parameters; its lemmas are proved once inside the locale.
\<close>

section \<open>Snapshot iterators\<close>

text \<open>
  The usual client loop \<open>while (moveNext(it)) visit(current(it));\<close>.  The first
  argument bounds the number of rounds; \<^const>\<open>None\<close> is undefined behaviour or an
  exhausted bound.
\<close>

fun iter_collect :: "('i \<Rightarrow> 'i \<times> bool) \<Rightarrow> ('i \<Rightarrow> 'o option option) \<Rightarrow> nat \<Rightarrow> 'i
    \<Rightarrow> ('o list \<times> 'i) option" where
  "iter_collect move_next current 0 it = None"
| "iter_collect move_next current (Suc n) it =
     (let (it', more) = move_next it
      in if more then do {
           cur \<leftarrow> current it';
           x \<leftarrow> cur;
           (xs, it'') \<leftarrow> iter_collect move_next current n it';
           Some (x # xs, it'') }
         else Some ([], it'))"

locale snapshot_iterator =
  fixes move_next :: "'i \<Rightarrow> 'i \<times> bool"
    and current :: "'i \<Rightarrow> 'o option option"
    and elems :: "'i \<Rightarrow> 'o list"
    and pos :: "'i \<Rightarrow> nat"
    and ok :: "'i \<Rightarrow> bool"
  assumes move_ok: "ok it \<Longrightarrow> ok (fst (move_next it)) \<and> elems (fst (move_next it)) = elems it"
    and move_pos: "ok it \<Longrightarrow>
      pos (fst (move_next it)) = (if length (elems it) \<le> pos it then 0 else Suc (pos it))"
    and move_more: "ok it \<Longrightarrow> snd (move_next it) = (pos (fst (move_next it)) < length (elems it))"
    and current_law: "ok it \<Longrightarrow>
      current it = Some (if pos it < length (elems it) then Some (elems it ! pos it) else None)"
begin

lemma collect_from:
  assumes "ok it" "pos it < length (elems it)" "length (elems it) - pos it \<le> n"
  shows "\<exists>it'. iter_collect move_next current n it = Some (drop (Suc (pos it)) (elems it), it')
     \<and> ok it' \<and> elems it' = elems it \<and> length (elems it) \<le> pos it'"
  using assms
proof (induction n arbitrary: it)
  case 0
  then show ?case by simp
next
  case (Suc n)
  obtain it1 more where mv: "move_next it = (it1, more)" by force
  then have it1: "ok it1" "elems it1 = elems it" "pos it1 = Suc (pos it)"
      "more = (pos it1 < length (elems it))"
    using move_ok [of it] move_pos [of it] move_more [of it] Suc.prems by simp_all
  show ?case
  proof (cases "Suc (pos it) < length (elems it)")
    case True
    then have "length (elems it1) - pos it1 \<le> n"
      using it1(2,3) Suc.prems by simp
    with True Suc.IH [of it1] it1
    obtain it2 where "iter_collect move_next current n it1 =
          Some (drop (Suc (Suc (pos it))) (elems it), it2)" "ok it2" "elems it2 = elems it"
          "length (elems it) \<le> pos it2"
      by auto
    moreover have "current it1 = Some (Some (elems it ! Suc (pos it)))"
      using current_law [of it1] it1 True by simp
    ultimately show ?thesis
      using mv it1 True by (auto simp: Cons_nth_drop_Suc [symmetric])
  next
    case False
    then show ?thesis using mv it1 by auto
  qed
qed

text \<open>A loop over a fresh (or exhausted) iterator visits the snapshot once, in order, and
  leaves the iterator ready for another round.\<close>

lemma collect_all:
  assumes "ok it" "length (elems it) \<le> pos it" "length (elems it) < n"
  shows "\<exists>it'. iter_collect move_next current n it = Some (elems it, it')
     \<and> ok it' \<and> elems it' = elems it \<and> length (elems it) \<le> pos it'"
proof -
  obtain m where n: "n = Suc m" using assms(3) by (cases n) auto
  obtain it1 more where mv: "move_next it = (it1, more)" by force
  then have it1: "ok it1" "elems it1 = elems it" "pos it1 = 0" "more = (0 < length (elems it))"
    using move_ok [OF assms(1)] move_pos [OF assms(1)] move_more [OF assms(1)] assms(2) by simp_all
  show ?thesis
  proof (cases "elems it")
    case Nil
    with mv it1 n show ?thesis by auto
  next
    case (Cons x xs)
    with collect_from [of it1 m] it1 assms(3) n
    obtain it2 where "iter_collect move_next current m it1 = Some (xs, it2)" "ok it2"
        "elems it2 = elems it" "length (elems it) \<le> pos it2"
      by auto
    moreover have "current it1 = Some (Some x)"
      using current_law [OF it1(1)] it1 Cons by simp
    ultimately show ?thesis using mv it1 n Cons by auto
  qed
qed

end

section \<open>Finite maps\<close>

text \<open>
  A table with a partial update operation.  \<open>put t k (Some v)\<close> stores, \<open>put t k None\<close>
  removes; \<open>look\<close> is what a client observes.
\<close>

locale table =
  fixes put :: "'t \<Rightarrow> 'k \<Rightarrow> 'v option \<Rightarrow> 't option"
    and look :: "'t \<Rightarrow> 'k \<Rightarrow> 'v option"
    and ok :: "'t \<Rightarrow> bool"
  assumes put_law: "ok t \<Longrightarrow> \<exists>t'. put t k v = Some t' \<and> ok t' \<and> look t' = (look t)(k := v)"
begin

text \<open>A sequence of updates is observed as the same sequence of map updates.\<close>

lemma put_all:
  "ok t \<Longrightarrow> \<exists>t'. fold (\<lambda>(k, v) s. s \<bind> (\<lambda>t. put t k v)) kvs (Some t) = Some t' \<and> ok t'
     \<and> look t' = fold (\<lambda>(k, v) m. m(k := v)) kvs (look t)"
proof (induction kvs arbitrary: t)
  case Nil
  then show ?case by simp
next
  case (Cons kv kvs)
  obtain k v where kv: "kv = (k, v)" by force
  from put_law [OF Cons.prems, of k v]
  obtain t1 where t1: "put t k v = Some t1" "ok t1" "look t1 = (look t)(k := v)"
    by blast
  from Cons.IH [OF t1(2)] show ?case by (simp add: kv t1)
qed

end

end
