(* ===== verification/Poser_List.thy ===== *)
theory Poser_List
  imports Interfaces
begin

text \<open>
  \<open>PSC_List\<close> and \<open>PSC_ListIterator\<close> (\<open>src/lib/core/list.c\<close>): a list of objects in
  a growing array.  Objects are of any type; the destructors that an operation calls are
  returned as a list of \<open>(deleter, object)\<close> pairs, in the order of the calls.
\<close>

section \<open>Model\<close>

definition INITIALCAPA :: nat where
  "INITIALCAPA = 8"

record 'o PSC_ListItem =
  li_obj :: 'o
  li_deleter :: deleter

record 'o PSC_List =
  l_items :: "'o PSC_ListItem buf"
  l_capa :: nat
  l_count :: nat

record 'o PSC_ListIterator =
  it_count :: nat
  it_pos :: nat
  it_items :: "'o PSC_ListItem buf"

definition PSC_List_create :: "'o PSC_List" where
  "PSC_List_create = \<lparr>l_items = buf_alloc INITIALCAPA, l_capa = INITIALCAPA, l_count = 0\<rparr>"

definition PSC_List_size :: "'o PSC_List \<Rightarrow> nat" where
  "PSC_List_size self = l_count self"

definition PSC_List_at :: "'o PSC_List \<Rightarrow> nat \<Rightarrow> 'o option option" where
  "PSC_List_at self idx =
     (if l_count self \<le> idx then Some None
      else do { it \<leftarrow> buf_read (l_items self) idx; Some (Some (li_obj it)) })"

definition PSC_List_append :: "'o PSC_List \<Rightarrow> 'o \<Rightarrow> deleter \<Rightarrow> 'o PSC_List option" where
  "PSC_List_append self obj del = do {
     let self = (if l_count self = l_capa self
       then self\<lparr>l_capa := 2 * l_capa self,
                 l_items := buf_realloc (l_items self) (2 * l_capa self)\<rparr>
       else self);
     its \<leftarrow> buf_write (l_items self) (l_count self) \<lparr>li_obj = obj, li_deleter = del\<rparr>;
     Some (self\<lparr>l_items := its, l_count := Suc (l_count self)\<rparr>) }"

definition call_deleter :: "'o PSC_ListItem \<Rightarrow> (deleter \<times> 'o) list" where
  "call_deleter it = (if li_deleter it \<noteq> NoFn then [(li_deleter it, li_obj it)] else [])"

definition removeAt :: "'o PSC_List \<Rightarrow> nat \<Rightarrow> bool
    \<Rightarrow> ('o PSC_List \<times> (deleter \<times> 'o) list) option" where
  "removeAt self i del = do {
     calls \<leftarrow> (if del then do { it \<leftarrow> buf_read (l_items self) i; Some (call_deleter it) }
               else Some []);
     if l_count self = 0 then None
     else do {
       its \<leftarrow> (if i < l_count self - 1
               then buf_move (l_items self) i (i + 1) (l_count self - i - 1)
               else Some (l_items self));
       Some (self\<lparr>l_items := its, l_count := l_count self - 1\<rparr>, calls) } }"

function list_remove_loop :: "'o PSC_List \<Rightarrow> 'o \<Rightarrow> nat \<Rightarrow> 'o PSC_List option" where
  "list_remove_loop self obj i =
     (if i < l_count self
      then do {
        it \<leftarrow> buf_read (l_items self) i;
        if li_obj it = obj then map_option fst (removeAt self i False)
        else list_remove_loop self obj (Suc i) }
      else Some self)"
  by pat_completeness auto
termination
  by (relation "measure (\<lambda>(self, obj, i). l_count self - i)") auto

definition PSC_List_remove :: "'o PSC_List \<Rightarrow> 'o \<Rightarrow> 'o PSC_List option" where
  "PSC_List_remove self obj = list_remove_loop self obj 0"

lemma removeAt_count: "removeAt self i del = Some (self', calls) \<Longrightarrow>
  l_count self = Suc (l_count self')"
  by (auto simp: removeAt_def split: Option.bind_splits if_splits)

text \<open>
  In the loop of \<open>PSC_List_removeAll\<close> a removal is followed by \<open>--i\<close> and the
  loop's \<open>++i\<close> (both wrap around at 0), so the same index is looked at again.
\<close>

function list_removeAll_loop :: "'o PSC_List \<Rightarrow> ('o \<Rightarrow> bool) \<Rightarrow> nat
    \<Rightarrow> ('o PSC_List \<times> (deleter \<times> 'o) list) option" where
  "list_removeAll_loop self matcher i =
     (if i < l_count self
      then (case buf_read (l_items self) i of
          None \<Rightarrow> None
        | Some it \<Rightarrow>
            if matcher (li_obj it)
            then (case removeAt self i True of
                None \<Rightarrow> None
              | Some (self', calls) \<Rightarrow>
                  map_option (map_prod id ((@) calls)) (list_removeAll_loop self' matcher i))
            else list_removeAll_loop self matcher (Suc i))
      else Some (self, []))"
  by pat_completeness auto
termination
  by (relation "measure (\<lambda>(self, m, i). l_count self - i)") (auto dest!: removeAt_count)

definition PSC_List_removeAll :: "'o PSC_List \<Rightarrow> ('o \<Rightarrow> bool)
    \<Rightarrow> ('o PSC_List \<times> (deleter \<times> 'o) list) option" where
  "PSC_List_removeAll self matcher = list_removeAll_loop self matcher 0"

definition PSC_List_iterator :: "'o PSC_List \<Rightarrow> 'o PSC_ListIterator option" where
  "PSC_List_iterator self =
     (if l_count self \<le> length (l_items self)
      then Some \<lparr>it_count = l_count self, it_pos = l_count self,
                 it_items = take (l_count self) (l_items self)\<rparr>
      else None)"

fun list_clear_loop :: "'o PSC_List \<Rightarrow> nat \<Rightarrow> (deleter \<times> 'o) list option" where
  "list_clear_loop self 0 = Some []"
| "list_clear_loop self (Suc n) = do {
     it \<leftarrow> buf_read (l_items self) (l_count self - Suc n);
     rest \<leftarrow> list_clear_loop self n;
     Some (call_deleter it @ rest) }"

definition PSC_List_clear :: "'o PSC_List \<Rightarrow> ('o PSC_List \<times> (deleter \<times> 'o) list) option" where
  "PSC_List_clear self = do {
     calls \<leftarrow> list_clear_loop self (l_count self);
     Some (self\<lparr>l_count := 0\<rparr>, calls) }"

definition PSC_List_destroy :: "'o PSC_List option \<Rightarrow> (deleter \<times> 'o) list option" where
  "PSC_List_destroy self =
     (case self of None \<Rightarrow> Some [] | Some l \<Rightarrow> map_option snd (PSC_List_clear l))"

definition PSC_ListIterator_moveNext :: "'o PSC_ListIterator \<Rightarrow> 'o PSC_ListIterator \<times> bool" where
  "PSC_ListIterator_moveNext self =
     (let self = (if it_count self \<le> it_pos self then self\<lparr>it_pos := 0\<rparr>
                  else self\<lparr>it_pos := Suc (it_pos self)\<rparr>)
      in (self, it_pos self < it_count self))"

definition PSC_ListIterator_current :: "'o PSC_ListIterator \<Rightarrow> 'o option option" where
  "PSC_ListIterator_current self =
     (if it_count self \<le> it_pos self then Some None
      else do { it \<leftarrow> buf_read (it_items self) (it_pos self); Some (Some (li_obj it)) })"

text \<open>
  \<open>strsep\<close> of the C library: the word before the first delimiter and the rest after
  it, which is null when there is no delimiter.
\<close>

definition strsep :: "string \<Rightarrow> string \<Rightarrow> string \<times> string option" where
  "strsep bufp delim =
     (let word = takeWhile (\<lambda>c. c \<notin> set delim) bufp
      in (word, if length word < length bufp then Some (drop (Suc (length word)) bufp) else None))"

lemma strsep_shorter: "(word, Some rest) = strsep bufp delim \<Longrightarrow> length rest < length bufp"
  by (auto simp: strsep_def Let_def split: if_splits)

function fromString_loop :: "string PSC_List option \<Rightarrow> string option \<Rightarrow> string
    \<Rightarrow> string PSC_List option option" where
  "fromString_loop list None delim = Some list"
| "fromString_loop list (Some bufp) delim =
     (case strsep bufp delim of (word, rest) \<Rightarrow>
        (if word \<noteq> []
         then (case PSC_List_append (case list of None \<Rightarrow> PSC_List_create | Some l \<Rightarrow> l)
                      word (Fn 0) of
             None \<Rightarrow> None
           | Some l \<Rightarrow> fromString_loop (Some l) rest delim)
         else fromString_loop list rest delim))"
  by pat_completeness auto
termination
proof (relation "measure (\<lambda>(l, b, d). case b of None \<Rightarrow> 0 | Some s \<Rightarrow> Suc (length s))",
    goal_cases)
  case 1
  then show ?case by simp
qed (auto dest: strsep_shorter split: option.splits)

text \<open>\<open>Fn 0\<close> stands for \<open>free\<close>, the destructor of the copied words.\<close>

definition PSC_List_fromString :: "string \<Rightarrow> string \<Rightarrow> string PSC_List option option" where
  "PSC_List_fromString str delim = fromString_loop None (Some str) delim"


section \<open>Abstraction and invariant\<close>

declare list_remove_loop.simps [simp del] list_removeAll_loop.simps [simp del]

definition list_cells :: "'o PSC_List \<Rightarrow> 'o PSC_ListItem list" where
  "list_cells l = map the (take (l_count l) (l_items l))"

definition wf_list :: "'o PSC_List \<Rightarrow> bool" where
  [wf_defs]: "wf_list l \<longleftrightarrow> 0 < l_capa l \<and> length (l_items l) = l_capa l \<and>
     l_count l \<le> l_capa l \<and> None \<notin> set (take (l_count l) (l_items l))"

lemma wf_list_take: "wf_list l \<Longrightarrow> take (l_count l) (l_items l) = map Some (list_cells l)"
  using map_Some_the [of "take (l_count l) (l_items l)"] by (simp add: wf_list_def list_cells_def)

lemma length_list_cells [simp]: "wf_list l \<Longrightarrow> length (list_cells l) = l_count l"
  by (simp add: wf_list_def list_cells_def)

lemma wf_list_read:
  "wf_list l \<Longrightarrow> i < l_count l \<Longrightarrow> buf_read (l_items l) i = Some (list_cells l ! i)"
  using map_Some_nth_take [OF _ wf_list_take, of l i] by (simp add: buf_read_def wf_list_def)

text \<open>A state with the right cells in front is well formed and has these contents.\<close>

lemma wf_listI:
  assumes "0 < l_capa l" "length (l_items l) = l_capa l" "l_count l = length xs"
    "length xs \<le> l_capa l" "take (length xs) (l_items l) = map Some xs"
  shows "wf_list l \<and> list_cells l = xs"
  using assms by (auto simp: wf_list_def list_cells_def comp_def)

lemma wf_list_create: "wf_list PSC_List_create" "list_cells PSC_List_create = []"
  by (simp_all add: wf_list_def list_cells_def PSC_List_create_def INITIALCAPA_def)

lemma list_at_ok:
  "wf_list l \<Longrightarrow> PSC_List_at l i =
     Some (if i < length (list_cells l) then Some (li_obj (list_cells l ! i)) else None)"
  by (simp add: PSC_List_at_def wf_list_read)

lemma append_ok:
  assumes wf: "wf_list l"
  shows "\<exists>l'. PSC_List_append l obj del = Some l' \<and> wf_list l' \<and>
     list_cells l' = list_cells l @ [\<lparr>li_obj = obj, li_deleter = del\<rparr>]"
proof -
  let ?it = "\<lparr>li_obj = obj, li_deleter = del\<rparr>"
  define l1 where "l1 = (if l_count l = l_capa l
      then l\<lparr>l_capa := 2 * l_capa l, l_items := buf_realloc (l_items l) (2 * l_capa l)\<rparr> else l)"
  have b: "0 < l_capa l" "length (l_items l) = l_capa l" "l_count l \<le> l_capa l"
    using wf by (simp_all add: wf_list_def)
  have l1: "l_count l1 = l_count l" "length (l_items l1) = l_capa l1" "l_count l < l_capa l1"
    using b by (simp_all add: l1_def)
  have tk: "take (l_count l) (l_items l1) = map Some (list_cells l)"
    unfolding wf_list_take [OF wf, symmetric]
    using b by (simp add: l1_def buf_realloc_take)
  let ?l2 = "l1\<lparr>l_items := (l_items l1)[l_count l := Some ?it], l_count := Suc (l_count l)\<rparr>"
  have "PSC_List_append l obj del = Some ?l2"
    using l1(1-3) unfolding PSC_List_append_def Let_def l1_def [symmetric] by (simp add: buf_write_in)
  moreover have "take (Suc (l_count l)) (l_items ?l2) = map Some (list_cells l @ [?it])"
    using l1 tk by (simp add: take_Suc_conv_app_nth)
  then have "wf_list ?l2 \<and> list_cells ?l2 = list_cells l @ [?it]"
    using l1(1-3) wf by (intro wf_listI) simp_all
  ultimately show ?thesis by blast
qed

text \<open>Removal of index \<open>i\<close> from a list.\<close>

definition drop_at :: "nat \<Rightarrow> 'a list \<Rightarrow> 'a list" where
  "drop_at i xs = take i xs @ drop (Suc i) xs"

lemma removeAt_ok:
  assumes wf: "wf_list l" and i: "i < l_count l"
  shows "\<exists>l'. removeAt l i del = Some (l', if del then call_deleter (list_cells l ! i) else [])
     \<and> wf_list l' \<and> list_cells l' = drop_at i (list_cells l)"
proof -
  let ?xs = "list_cells l" and ?n = "l_count l"
  have n: "length ?xs = ?n" "length (l_items l) = l_capa l" "?n \<le> l_capa l"
    using wf by (simp_all add: wf_list_def)
  have front: "take ?n (l_items l) = map Some ?xs"
    by (rule wf_list_take [OF wf])
  define its where "its = (if i < ?n - 1 then take i (l_items l) @ take (?n - i - 1) (drop (i + 1) (l_items l))
      @ drop (?n - 1) (l_items l) else l_items l)"
  have move: "(if i < ?n - 1 then buf_move (l_items l) i (i + 1) (?n - i - 1) else Some (l_items l)) = Some its"
    using n i by (auto simp: its_def buf_move_def)
  have "take (?n - i - 1) (drop (i + 1) (l_items l)) = drop (i + 1) (take ?n (l_items l))"
    using i by (simp add: drop_take)
  also have "\<dots> = map Some (drop (i + 1) ?xs)"
    by (simp only: front drop_map)
  finally have tail: "take (?n - i - 1) (drop (i + 1) (l_items l)) = map Some (drop (i + 1) ?xs)" .
  have hd: "take i (l_items l) = map Some (take i ?xs)"
    using arg_cong [OF front, of "take i"] i by (simp add: take_map min_def)
  have cells: "take (?n - 1) its = map Some (drop_at i ?xs)"
  proof (cases "i < ?n - 1")
    case True
    then show ?thesis using hd tail n i by (simp add: its_def drop_at_def)
  next
    case False
    with i have "i = ?n - 1" "Suc i = ?n" by auto
    then show ?thesis using hd n by (simp add: its_def drop_at_def)
  qed
  have len: "length its = l_capa l" "length (drop_at i ?xs) = ?n - 1"
    using n i by (auto simp: its_def drop_at_def)
  let ?l' = "l\<lparr>l_items := its, l_count := ?n - 1\<rparr>"
  have "wf_list ?l' \<and> list_cells ?l' = drop_at i ?xs"
    using wf cells len n by (intro wf_listI) (auto simp: wf_list_def)
  moreover have "removeAt l i del = Some (?l', if del then call_deleter (?xs ! i) else [])"
    using i move wf_list_read [OF wf i] by (simp add: removeAt_def)
  ultimately show ?thesis by blast
qed


text \<open>\<open>PSC_List_remove\<close> removes the first item with this object and calls no destructor.\<close>

fun remove_first :: "'o \<Rightarrow> 'o PSC_ListItem list \<Rightarrow> 'o PSC_ListItem list" where
  "remove_first obj [] = []"
| "remove_first obj (x # xs) = (if li_obj x = obj then xs else x # remove_first obj xs)"

lemma list_remove_loop_ok:
  assumes "wf_list l"
  shows "\<exists>l'. list_remove_loop l obj i = Some l' \<and> wf_list l' \<and>
     list_cells l' = take i (list_cells l) @ remove_first obj (drop i (list_cells l))"
  using assms
proof (induction l obj i rule: list_remove_loop.induct)
  case (1 l obj i)
  let ?xs = "list_cells l"
  show ?case
  proof (cases "i < l_count l")
    case True
    have rd: "buf_read (l_items l) i = Some (?xs ! i)"
      using "1.prems" True by (rule wf_list_read)
    have dr: "drop i ?xs = ?xs ! i # drop (Suc i) ?xs"
      using "1.prems" True by (simp add: Cons_nth_drop_Suc)
    show ?thesis
    proof (cases "li_obj (?xs ! i) = obj")
      case eq: True
      obtain l' where "removeAt l i False = Some (l', [])" "wf_list l'" "list_cells l' = drop_at i ?xs"
        using removeAt_ok [OF "1.prems" True, of False] by auto
      with True rd eq dr show ?thesis
        by (subst list_remove_loop.simps) (simp add: drop_at_def)
    next
      case False
      have "take (Suc i) ?xs = take i ?xs @ [?xs ! i]"
        using "1.prems" True by (simp add: take_Suc_conv_app_nth)
      with "1.IH" [OF True rd False "1.prems"] True rd False dr show ?thesis
        by (subst list_remove_loop.simps) simp
    qed
  next
    case False
    with "1.prems" show ?thesis
      by (subst list_remove_loop.simps) simp
  qed
qed

text \<open>\<open>PSC_List_removeAll\<close> keeps the items that do not match, in order, and destroys the others.\<close>

lemma list_removeAll_loop_ok:
  assumes "wf_list l"
  shows "\<exists>l'. list_removeAll_loop l p i = Some (l', concat (map call_deleter
       (filter (\<lambda>x. p (li_obj x)) (drop i (list_cells l))))) \<and> wf_list l' \<and>
     list_cells l' = take i (list_cells l) @ filter (\<lambda>x. \<not> p (li_obj x)) (drop i (list_cells l))"
  using assms
proof (induction l p i rule: list_removeAll_loop.induct)
  case (1 l p i)
  let ?xs = "list_cells l"
  show ?case
  proof (cases "i < l_count l")
    case True
    have rd: "buf_read (l_items l) i = Some (?xs ! i)"
      using "1.prems" True by (rule wf_list_read)
    have dr: "drop i ?xs = ?xs ! i # drop (Suc i) ?xs"
      using "1.prems" True by (simp add: Cons_nth_drop_Suc)
    show ?thesis
    proof (cases "p (li_obj (?xs ! i))")
      case match: True
      obtain l' where l': "removeAt l i True = Some (l', call_deleter (?xs ! i))" "wf_list l'"
          "list_cells l' = drop_at i ?xs"
        using removeAt_ok [OF "1.prems" True, of True] by auto
      have cut: "drop i (drop_at i ?xs) = drop (Suc i) ?xs" "take i (drop_at i ?xs) = take i ?xs"
        using "1.prems" True by (simp_all add: drop_at_def)
      from "1.IH"(1) [OF True rd match l'(1) refl l'(2)] l' cut rd match dr True show ?thesis
        by (subst list_removeAll_loop.simps) auto
    next
      case False
      have tk: "take (Suc i) ?xs = take i ?xs @ [?xs ! i]"
        using "1.prems" True by (simp add: take_Suc_conv_app_nth)
      from "1.IH"(2) [OF True rd False "1.prems"] rd False dr tk True show ?thesis
        by (subst list_removeAll_loop.simps) simp
    qed
  next
    case False
    with "1.prems" show ?thesis
      by (subst list_removeAll_loop.simps) simp
  qed
qed

lemma list_clear_loop_ok:
  assumes "wf_list l"
  shows "n \<le> l_count l \<Longrightarrow> list_clear_loop l n =
     Some (concat (map call_deleter (drop (l_count l - n) (list_cells l))))"
proof (induction n)
  case 0
  with assms show ?case by simp
next
  case (Suc n)
  then have "drop (l_count l - Suc n) (list_cells l) =
      list_cells l ! (l_count l - Suc n) # drop (l_count l - n) (list_cells l)"
    using assms Suc_diff_Suc [of n "l_count l"] by (simp add: Cons_nth_drop_Suc [symmetric])
  with Suc assms show ?case by (simp add: wf_list_read)
qed

lemma list_clear_ok:
  "wf_list l \<Longrightarrow> \<exists>l'. PSC_List_clear l = Some (l', concat (map call_deleter (list_cells l)))
     \<and> wf_list l' \<and> list_cells l' = []"
  by (simp add: PSC_List_clear_def list_clear_loop_ok) (simp add: wf_list_def list_cells_def)

section \<open>Iterators\<close>

definition wf_list_iterator :: "'o PSC_ListIterator \<Rightarrow> bool" where
  [wf_defs]: "wf_list_iterator it \<longleftrightarrow> length (it_items it) = it_count it \<and> None \<notin> set (it_items it)"

definition iterator_elems :: "'o PSC_ListIterator \<Rightarrow> 'o list" where
  "iterator_elems it = map (\<lambda>x. li_obj (the x)) (it_items it)"

lemma iterator_read:
  assumes "wf_list_iterator it" "i < it_count it"
  shows "\<exists>x. buf_read (it_items it) i = Some x \<and> li_obj x = iterator_elems it ! i"
proof -
  have "it_items it ! i \<noteq> None"
    using assms by (metis nth_mem wf_list_iterator_def)
  with assms show ?thesis
    by (auto simp: wf_list_iterator_def iterator_elems_def buf_read_def)
qed

interpretation list_iter: snapshot_iterator PSC_ListIterator_moveNext PSC_ListIterator_current
    iterator_elems it_pos wf_list_iterator
proof (unfold_locales, goal_cases)
  case (4 it)
  then show ?case
    using iterator_read [of it "it_pos it"]
    by (auto simp: PSC_ListIterator_current_def iterator_elems_def wf_list_iterator_def)
qed (auto simp: PSC_ListIterator_moveNext_def iterator_elems_def wf_list_iterator_def Let_def)

lemma list_iterator_ok:
  assumes "wf_list l"
  shows "\<exists>it. PSC_List_iterator l = Some it \<and> wf_list_iterator it \<and>
     iterator_elems it = map li_obj (list_cells l) \<and> length (iterator_elems it) \<le> it_pos it"
  using assms wf_list_take [OF assms]
  by (auto simp: PSC_List_iterator_def wf_list_iterator_def iterator_elems_def wf_list_def comp_def)

section \<open>Splitting strings\<close>

text \<open>The non-empty words between delimiters: the reference for \<open>PSC_List_fromString\<close>.\<close>

fun split_words :: "string \<Rightarrow> string \<Rightarrow> string \<Rightarrow> string list" where
  "split_words delim w [] = (if w = [] then [] else [w])"
| "split_words delim w (c # cs) =
     (if c \<in> set delim then (if w = [] then [] else [w]) @ split_words delim [] cs
      else split_words delim (w @ [c]) cs)"

lemma split_words_strsep:
  "split_words delim w s =
     (case strsep s delim of (word, rest) \<Rightarrow>
        (if w @ word = [] then [] else [w @ word])
        @ (case rest of None \<Rightarrow> [] | Some r \<Rightarrow> split_words delim [] r))"
  by (induction delim w s rule: split_words.induct) (auto simp: strsep_def Let_def)

definition word_items :: "string list \<Rightarrow> string PSC_ListItem list" where
  "word_items ws = map (\<lambda>w. \<lparr>li_obj = w, li_deleter = Fn 0\<rparr>) ws"

definition olist_cells :: "'o PSC_List option \<Rightarrow> 'o PSC_ListItem list" where
  "olist_cells l = (case l of None \<Rightarrow> [] | Some l \<Rightarrow> list_cells l)"

lemma fromString_loop_ok:
  assumes "pred_option wf_list list"
  shows "\<exists>list'. fromString_loop list bufp delim = Some list' \<and> pred_option wf_list list' \<and>
     olist_cells list' = olist_cells list @ word_items
       (case bufp of None \<Rightarrow> [] | Some s \<Rightarrow> split_words delim [] s) \<and>
     (list' = None \<longleftrightarrow> list = None \<and> (case bufp of None \<Rightarrow> [] | Some s \<Rightarrow> split_words delim [] s) = [])"
  using assms
proof (induction list bufp delim rule: fromString_loop.induct)
  case (1 list delim)
  then show ?case by (simp add: word_items_def)
next
  case (2 list bufp delim)
  obtain word rest where st: "strsep bufp delim = (word, rest)" by force
  show ?case
  proof (cases "word = []")
    case True
    with "2.IH"(2) [OF st [symmetric]] "2.prems" st show ?thesis
      by (simp add: split_words_strsep [of delim "[]" bufp])
  next
    case False
    let ?l = "case list of None \<Rightarrow> PSC_List_create | Some l \<Rightarrow> l"
    have "wf_list ?l" "list_cells ?l = olist_cells list"
      using "2.prems" by (auto simp: wf_list_create olist_cells_def split: option.splits)
    then obtain l where l: "PSC_List_append ?l word (Fn 0) = Some l" "wf_list l"
        "list_cells l = olist_cells list @ word_items [word]"
      using append_ok [of ?l word "Fn 0"] by (auto simp: word_items_def)
    with "2.IH"(1) [OF st [symmetric] False l(1)] False st show ?thesis
      by (auto simp: split_words_strsep [of delim "[]" bufp] word_items_def olist_cells_def
          simp del: split_words.simps)
  qed
qed


section \<open>Properties\<close>

text \<open>Operation sequences, on the model and on plain lists of items.\<close>

datatype 'o lop = LAppend 'o deleter | LRemove 'o | LRemoveAll "'o \<Rightarrow> bool" | LClear

fun list_step :: "'o PSC_List \<Rightarrow> 'o lop \<Rightarrow> ('o PSC_List \<times> (deleter \<times> 'o) list) option" where
  "list_step l (LAppend obj del) = map_option (\<lambda>l'. (l', [])) (PSC_List_append l obj del)"
| "list_step l (LRemove obj) = map_option (\<lambda>l'. (l', [])) (PSC_List_remove l obj)"
| "list_step l (LRemoveAll p) = PSC_List_removeAll l p"
| "list_step l LClear = PSC_List_clear l"

fun items_step :: "'o PSC_ListItem list \<Rightarrow> 'o lop \<Rightarrow> 'o PSC_ListItem list \<times> (deleter \<times> 'o) list" where
  "items_step xs (LAppend obj del) = (xs @ [\<lparr>li_obj = obj, li_deleter = del\<rparr>], [])"
| "items_step xs (LRemove obj) = (remove_first obj xs, [])"
| "items_step xs (LRemoveAll p) = (filter (\<lambda>x. \<not> p (li_obj x)) xs,
     concat (map call_deleter (filter (\<lambda>x. p (li_obj x)) xs)))"
| "items_step xs LClear = ([], concat (map call_deleter xs))"

fun list_run :: "'o PSC_List \<Rightarrow> 'o lop list \<Rightarrow> ('o PSC_List \<times> (deleter \<times> 'o) list) option" where
  "list_run l [] = Some (l, [])"
| "list_run l (a # ops) = do {
     (l', calls) \<leftarrow> list_step l a;
     (l'', calls') \<leftarrow> list_run l' ops;
     Some (l'', calls @ calls') }"

fun items_run :: "'o PSC_ListItem list \<Rightarrow> 'o lop list \<Rightarrow> 'o PSC_ListItem list \<times> (deleter \<times> 'o) list" where
  "items_run xs [] = (xs, [])"
| "items_run xs (a # ops) = (let (xs', calls) = items_step xs a; (xs'', calls') = items_run xs' ops
     in (xs'', calls @ calls'))"

lemma list_step_ok:
  assumes "wf_list l"
  shows "\<exists>l'. list_step l a = Some (l', snd (items_step (list_cells l) a)) \<and> wf_list l' \<and>
     list_cells l' = fst (items_step (list_cells l) a)"
proof (cases a)
  case (LAppend obj del)
  then show ?thesis using append_ok [OF assms, of obj del] by auto
next
  case (LRemove obj)
  then show ?thesis using list_remove_loop_ok [OF assms, of obj 0] by (auto simp: PSC_List_remove_def)
next
  case (LRemoveAll p)
  then show ?thesis using list_removeAll_loop_ok [OF assms, of p 0] by (simp add: PSC_List_removeAll_def)
next
  case LClear
  then show ?thesis using list_clear_ok [OF assms] by simp
qed

lemma list_run_ok:
  "wf_list l \<Longrightarrow> \<exists>l'. list_run l ops = Some (l', snd (items_run (list_cells l) ops)) \<and> wf_list l' \<and>
     list_cells l' = fst (items_run (list_cells l) ops)"
proof (induction ops arbitrary: l)
  case (Cons a ops)
  obtain l1 where l1: "list_step l a = Some (l1, snd (items_step (list_cells l) a))" "wf_list l1"
      "list_cells l1 = fst (items_step (list_cells l) a)"
    using list_step_ok [OF Cons.prems] by blast
  with Cons.IH [OF l1(2)] show ?case by (auto simp: case_prod_beta)
qed simp

text \<open>
  Any sequence of append, remove, removeAll and clear on a new \<open>PSC_List\<close> stays inside
  its array and reads only initialised items; the list then holds, and the destructors called are,
  exactly what the same operations on a plain list give; and destroying the list calls the
  destructors of the remaining items in order.
\<close>

theorem list_refines:
  "\<exists>l. list_run PSC_List_create ops = Some (l, snd (items_run [] ops)) \<and> wf_list l \<and>
     PSC_List_size l = length (fst (items_run [] ops)) \<and>
     (\<forall>i. PSC_List_at l i = Some (if i < length (fst (items_run [] ops))
        then Some (li_obj (fst (items_run [] ops) ! i)) else None)) \<and>
     PSC_List_destroy (Some l) = Some (concat (map call_deleter (fst (items_run [] ops))))"
proof -
  obtain l where l: "list_run PSC_List_create ops = Some (l, snd (items_run [] ops))" "wf_list l"
      "list_cells l = fst (items_run [] ops)"
    using list_run_ok [OF wf_list_create(1), of ops] by (auto simp: wf_list_create)
  with list_clear_ok [OF l(2)] list_at_ok [OF l(2)] length_list_cells [OF l(2)] show ?thesis
    by (auto simp: PSC_List_size_def PSC_List_destroy_def)
qed

text \<open>
  A loop over a list iterator visits the objects the list held when the iterator was
  created, each once and in order, however the list is used meanwhile, and a second loop over
  the same iterator does so again.
\<close>

theorem list_iteration:
  assumes "wf_list l" "PSC_List_iterator l = Some it" "PSC_List_size l < n"
  shows "\<exists>it' it''. iter_collect PSC_ListIterator_moveNext PSC_ListIterator_current n it =
       Some (map li_obj (list_cells l), it') \<and>
     iter_collect PSC_ListIterator_moveNext PSC_ListIterator_current n it' =
       Some (map li_obj (list_cells l), it'')"
proof -
  have it: "wf_list_iterator it" "iterator_elems it = map li_obj (list_cells l)"
      "length (iterator_elems it) \<le> it_pos it" "length (iterator_elems it) < n"
    using list_iterator_ok [OF assms(1)] assms by (auto simp: PSC_List_size_def)
  from list_iter.collect_all [OF it(1,3,4)] obtain it' where
      "iter_collect PSC_ListIterator_moveNext PSC_ListIterator_current n it = Some (iterator_elems it, it')"
      "wf_list_iterator it'" "iterator_elems it' = iterator_elems it" "length (iterator_elems it) \<le> it_pos it'"
    by blast
  with list_iter.collect_all [of it' n] it show ?thesis by auto
qed

theorem list_iteration_witness:
  "\<exists>l it it' it''. list_run PSC_List_create [LAppend (5 :: nat) NoFn, LAppend 6 NoFn] = Some (l, []) \<and>
     PSC_List_iterator l = Some it \<and>
     iter_collect PSC_ListIterator_moveNext PSC_ListIterator_current 3 it = Some ([5, 6], it') \<and>
     iter_collect PSC_ListIterator_moveNext PSC_ListIterator_current 3 it' = Some ([5, 6], it'')"
proof -
  obtain l :: "nat PSC_List" where l: "list_run PSC_List_create [LAppend 5 NoFn, LAppend 6 NoFn] = Some (l, [])"
      "wf_list l" "map li_obj (list_cells l) = [5, 6]"
    using list_run_ok [OF wf_list_create(1), of "[LAppend (5 :: nat) NoFn, LAppend 6 NoFn]"]
    by (auto simp: wf_list_create)
  moreover obtain it where it: "PSC_List_iterator l = Some it"
    using list_iterator_ok [OF l(2)] by blast
  moreover have "PSC_List_size l < 3"
    using arg_cong [OF l(3), of length] l(2) by (simp add: PSC_List_size_def)
  ultimately show ?thesis
    using list_iteration [OF l(2) it, of 3] by auto
qed

text \<open>
  \<open>PSC_List_fromString\<close> returns null exactly when the string has no word, and otherwise
  a list of the non-empty words between delimiters, in order, each to be released with \<open>free\<close>.
\<close>

theorem fromString_splits:
  "\<exists>r. PSC_List_fromString str delim = Some r \<and>
     (case r of None \<Rightarrow> split_words delim [] str = []
      | Some l \<Rightarrow> wf_list l \<and> split_words delim [] str \<noteq> [] \<and>
          list_cells l = word_items (split_words delim [] str))"
  using fromString_loop_ok [of None "Some str" delim]
  by (auto simp: PSC_List_fromString_def olist_cells_def split: option.splits)

end
