(* ===== verification/Poser_Queue.thy ===== *)
theory Poser_Queue
  imports Prelude
begin

text \<open>
  \<open>PSC_Queue\<close> (\<open>src/lib/core/queue.c\<close>): a FIFO queue in a growing ring buffer.
  The model keeps the four counters and the entry buffer of the C structure; the
  abstraction \<open>queue_list\<close> reads the pending entries in order.  The locale
  \<open>fifo\<close> states the contract of a FIFO queue; it is interpreted on the model.
\<close>

section \<open>The contract of a FIFO queue\<close>

text \<open>
  \<open>enq\<close> and \<open>deq\<close> may be undefined (\<^const>\<open>None\<close>); the contract says that they
  never are on a state that satisfies the invariant \<open>ok\<close>.
\<close>

datatype 'a qop = Enq 'a | Deq

fun qrun :: "('q \<Rightarrow> 'a \<Rightarrow> 'q option) \<Rightarrow> ('q \<Rightarrow> ('o \<times> 'q) option) \<Rightarrow> 'q \<Rightarrow> 'a qop list
    \<Rightarrow> ('o list \<times> 'q) option" where
  "qrun enq deq q [] = Some ([], q)"
| "qrun enq deq q (Enq x # ops) = do { q' \<leftarrow> enq q x; qrun enq deq q' ops }"
| "qrun enq deq q (Deq # ops) =
     do { (r, q') \<leftarrow> deq q; (rs, q'') \<leftarrow> qrun enq deq q' ops; Some (r # rs, q'') }"

fun qspec :: "('a \<Rightarrow> 'o) \<Rightarrow> 'o \<Rightarrow> 'a list \<Rightarrow> 'a qop list \<Rightarrow> 'o list \<times> 'a list" where
  "qspec out none xs [] = ([], xs)"
| "qspec out none xs (Enq x # ops) = qspec out none (xs @ [x]) ops"
| "qspec out none [] (Deq # ops) = (let (rs, ys) = qspec out none [] ops in (none # rs, ys))"
| "qspec out none (x # xs) (Deq # ops) =
     (let (rs, ys) = qspec out none xs ops in (out x # rs, ys))"

locale fifo =
  fixes enq :: "'q \<Rightarrow> 'a \<Rightarrow> 'q option"
    and deq :: "'q \<Rightarrow> ('o \<times> 'q) option"
    and out :: "'a \<Rightarrow> 'o"
    and none :: "'o"
    and contents :: "'q \<Rightarrow> 'a list"
    and ok :: "'q \<Rightarrow> bool"
  assumes enq_law: "ok q \<Longrightarrow> \<exists>q'. enq q x = Some q' \<and> ok q' \<and> contents q' = contents q @ [x]"
    and deq_empty_law: "ok q \<Longrightarrow> contents q = [] \<Longrightarrow> deq q = Some (none, q)"
    and deq_law: "ok q \<Longrightarrow> contents q = x # xs \<Longrightarrow>
      \<exists>q'. deq q = Some (out x, q') \<and> ok q' \<and> contents q' = xs"
begin

lemma run_simulates:
  "ok q \<Longrightarrow> \<exists>q'. qrun enq deq q ops = Some (fst (qspec out none (contents q) ops), q')
     \<and> ok q' \<and> contents q' = snd (qspec out none (contents q) ops)"
proof (induction ops arbitrary: q)
  case Nil
  then show ?case by simp
next
  case (Cons a ops)
  show ?case
  proof (cases a)
    case (Enq x)
    obtain q1 where "enq q x = Some q1" "ok q1" "contents q1 = contents q @ [x]"
      using enq_law [OF Cons.prems] by blast
    with Enq Cons.IH [of q1] show ?thesis by simp
  next
    case Deq
    show ?thesis
    proof (cases "contents q")
      case Nil
      with deq_empty_law [OF Cons.prems] Cons.IH [OF Cons.prems] Deq
      show ?thesis by (auto split: prod.splits)
    next
      case (Cons x xs)
      obtain q1 where "deq q = Some (out x, q1)" "ok q1" "contents q1 = xs"
        using deq_law [OF Cons.prems Cons] by blast
      with Deq Cons Cons.IH [of q1] show ?thesis by (auto split: prod.splits)
    qed
  qed
qed

end

section \<open>The ring buffer\<close>

definition QUEUEINITIALCAPA :: nat where
  "QUEUEINITIALCAPA = 8"

record QueueEntry =
  qe_obj :: ptr
  qe_deleter :: deleter

record PSC_Queue =
  q_entries :: "QueueEntry buf"
  q_count :: nat
  q_capa :: nat
  q_front :: nat
  q_back :: nat

definition expand :: "PSC_Queue \<Rightarrow> PSC_Queue option" where
  "expand self = do {
     let newcapa = 2 * q_capa self;
     let es = buf_realloc (q_entries self) newcapa;
     self' \<leftarrow>
       (if q_front self \<noteq> 0 then do {
          es' \<leftarrow> buf_copy es (q_front self + q_capa self) (q_front self) (q_capa self - q_front self);
          Some (self\<lparr>q_entries := es', q_front := q_front self + q_capa self\<rparr>) }
        else Some (self\<lparr>q_entries := es, q_back := q_capa self\<rparr>));
     Some (self'\<lparr>q_capa := newcapa\<rparr>) }"

definition PSC_Queue_create :: PSC_Queue where
  "PSC_Queue_create =
     \<lparr>q_entries = buf_alloc QUEUEINITIALCAPA, q_count = 0, q_capa = QUEUEINITIALCAPA,
      q_front = 0, q_back = 0\<rparr>"

definition PSC_Queue_enqueue :: "PSC_Queue \<Rightarrow> ptr \<Rightarrow> deleter \<Rightarrow> PSC_Queue option" where
  "PSC_Queue_enqueue self obj del = do {
     self \<leftarrow> (if q_count self = q_capa self then expand self else Some self);
     es \<leftarrow> buf_write (q_entries self) (q_back self) \<lparr>qe_obj = obj, qe_deleter = del\<rparr>;
     let b = Suc (q_back self);
     let b = (if b = q_capa self then 0 else b);
     Some (self\<lparr>q_entries := es, q_back := b, q_count := Suc (q_count self)\<rparr>) }"

definition PSC_Queue_dequeue :: "PSC_Queue \<Rightarrow> (ptr \<times> PSC_Queue) option" where
  "PSC_Queue_dequeue self =
     (if q_count self = 0 then Some (NULL, self)
      else do {
        e \<leftarrow> buf_read (q_entries self) (q_front self);
        let f = Suc (q_front self);
        let f = (if f = q_capa self then 0 else f);
        Some (qe_obj e, self\<lparr>q_front := f, q_count := q_count self - 1\<rparr>) })"

text \<open>The loop of \<open>PSC_Queue_destroy\<close>: the destructor calls it makes, in order.\<close>

fun queue_destroy_loop :: "PSC_Queue \<Rightarrow> nat \<Rightarrow> nat \<Rightarrow> (deleter \<times> ptr) list option" where
  "queue_destroy_loop self 0 pos = Some []"
| "queue_destroy_loop self (Suc n) pos = do {
     e \<leftarrow> buf_read (q_entries self) pos;
     let calls = (if qe_deleter e \<noteq> NoFn then [(qe_deleter e, qe_obj e)] else []);
     let p = Suc pos;
     rest \<leftarrow> queue_destroy_loop self n (if p = q_capa self then 0 else p);
     Some (calls @ rest) }"

definition PSC_Queue_destroy :: "PSC_Queue option \<Rightarrow> (deleter \<times> ptr) list option" where
  "PSC_Queue_destroy self =
     (case self of None \<Rightarrow> Some []
      | Some q \<Rightarrow> if q_count q \<noteq> 0 then queue_destroy_loop q (q_count q) (q_front q) else Some [])"

section \<open>Abstraction and invariant\<close>

definition qslot :: "PSC_Queue \<Rightarrow> nat \<Rightarrow> nat" where
  "qslot q i = (q_front q + i) mod q_capa q"

definition queue_cells :: "PSC_Queue \<Rightarrow> QueueEntry option list" where
  "queue_cells q = map (\<lambda>i. q_entries q ! qslot q i) [0..<q_count q]"

definition queue_list :: "PSC_Queue \<Rightarrow> QueueEntry list" where
  "queue_list q = map the (queue_cells q)"

definition wf_queue :: "PSC_Queue \<Rightarrow> bool" where
  [wf_defs]: "wf_queue q \<longleftrightarrow>
     0 < q_capa q \<and> length (q_entries q) = q_capa q \<and> q_count q \<le> q_capa q \<and>
     q_front q < q_capa q \<and> q_back q = qslot q (q_count q) \<and> None \<notin> set (queue_cells q)"

lemma qslot_less [simp]: "0 < q_capa q \<Longrightarrow> qslot q i < q_capa q"
  by (simp add: qslot_def)

lemma queue_cells_eq: "None \<notin> set (queue_cells q) \<Longrightarrow> queue_cells q = map Some (queue_list q)"
  using map_Some_the [of "queue_cells q"] by (simp add: queue_list_def)

text \<open>Two states with the same cells hold the same entries.\<close>

lemma wf_queue_cells:
  assumes "wf_queue q" "queue_cells q' = map Some xs"
  shows "queue_list q' = xs" "None \<notin> set (queue_cells q')"
  using assms by (auto simp: queue_list_def comp_def)

lemma length_queue_list [simp]: "length (queue_list q) = q_count q"
  by (simp add: queue_list_def queue_cells_def)

lemma wf_queue_create: "wf_queue PSC_Queue_create" "queue_list PSC_Queue_create = []"
  by (simp_all add: wf_queue_def PSC_Queue_create_def QUEUEINITIALCAPA_def queue_cells_def
      queue_list_def qslot_def)


section \<open>Every operation keeps the invariant and refines a list\<close>

lemma queue_cells_nth: "i < q_count q \<Longrightarrow> queue_cells q ! i = q_entries q ! qslot q i"
  by (simp add: queue_cells_def)

text \<open>After \<open>expand\<close> the entries sit at the slots of the doubled ring, in the same order.\<close>

lemma expand_ok:
  assumes wf: "wf_queue q" and full: "q_count q = q_capa q"
  shows "\<exists>q'. expand q = Some q' \<and> queue_cells q' = queue_cells q \<and> q_count q' = q_count q
     \<and> q_capa q' = 2 * q_capa q \<and> length (q_entries q') = q_capa q' \<and> q_front q' < q_capa q'
     \<and> q_back q' = qslot q' (q_count q')"
proof -
  let ?c = "q_capa q" and ?f = "q_front q"
  let ?es = "buf_realloc (q_entries q) (2 * ?c)"
  have c: "0 < ?c" "length (q_entries q) = ?c" "?f < ?c" "q_back q = ?f"
    using wf full by (simp_all add: wf_queue_def qslot_def)
  show ?thesis
  proof (cases "?f = 0")
    case True
    with c full show ?thesis
      by (simp add: expand_def queue_cells_def qslot_def buf_realloc_nth Let_def)
  next
    case False
    let ?es' = "take (?f + ?c) ?es @ take (?c - ?f) (drop ?f ?es) @ drop (2 * ?c) ?es"
    have "buf_copy ?es (?f + ?c) ?f (?c - ?f) = Some ?es'"
      using c False by (simp add: buf_copy_def buf_move_def)
    then have ex: "expand q = Some (q\<lparr>q_entries := ?es', q_front := ?f + ?c, q_capa := 2 * ?c\<rparr>)"
      using False by (simp add: expand_def Let_def)
    have slots: "?es' ! ((?f + ?c + i) mod (2 * ?c)) = q_entries q ! ((?f + i) mod ?c)"
      if i: "i < ?c" for i
    proof (cases "?f + i < ?c")
      case True
      with c i show ?thesis by (simp add: nth_append buf_realloc_nth)
    next
      case False
      have "(?f + ?c + i) mod (2 * ?c) = ?f + i - ?c" "(?f + i) mod ?c = ?f + i - ?c"
        using False i c by (simp_all add: mod_if)
      moreover have "?f + i - ?c < ?c"
        using i c by linarith
      ultimately show ?thesis using False i c by (simp add: nth_append buf_realloc_nth)
    qed
    have "(?f + ?c + ?c) mod (2 * ?c) = ?f"
      using c by (simp add: mod_if)
    with ex c full slots show ?thesis
      by (simp add: queue_cells_def qslot_def)
  qed
qed


lemma enqueue_ok:
  assumes wf: "wf_queue q"
  shows "\<exists>q'. PSC_Queue_enqueue q obj del = Some q' \<and> wf_queue q' \<and>
     queue_list q' = queue_list q @ [\<lparr>qe_obj = obj, qe_deleter = del\<rparr>]"
proof -
  let ?e = "\<lparr>qe_obj = obj, qe_deleter = del\<rparr>"
  obtain q1 where q1: "(if q_count q = q_capa q then expand q else Some q) = Some q1"
      "queue_cells q1 = queue_cells q" "q_count q1 = q_count q" "q_count q1 < q_capa q1"
      "length (q_entries q1) = q_capa q1" "q_front q1 < q_capa q1" "q_back q1 = qslot q1 (q_count q1)"
    using expand_ok [OF wf] wf by (cases "q_count q = q_capa q") (fastforce simp: wf_queue_def)+
  let ?n = "q_count q1" and ?c = "q_capa q1"
  let ?q' = "q1\<lparr>q_entries := (q_entries q1)[q_back q1 := Some ?e],
      q_back := (if Suc (q_back q1) = ?c then 0 else Suc (q_back q1)), q_count := Suc ?n\<rparr>"
  have eq: "PSC_Queue_enqueue q obj del = Some ?q'"
    using q1 by (simp add: PSC_Queue_enqueue_def buf_write_in Let_def)
  have neq: "qslot q1 i \<noteq> qslot q1 ?n" if "i < ?n" for i
    using that q1(4,6) by (auto simp: qslot_def mod_if split: if_splits)
  have slot: "qslot ?q' = qslot q1"
    by (simp add: qslot_def fun_eq_iff)
  have "queue_cells ?q' = queue_cells q1 @ [Some ?e]"
    unfolding queue_cells_def slot using q1(4-7) neq by (auto simp: nth_list_update) metis
  then have cells: "queue_cells ?q' = map Some (queue_list q @ [?e])"
    using q1(2) wf by (simp add: queue_cells_eq wf_queue_def)
  have "q_back ?q' = qslot ?q' (q_count ?q')"
    using q1(4-7) by (auto simp: qslot_def mod_Suc)
  with q1 cells have "wf_queue ?q'"
    by (auto simp: wf_queue_def)
  with eq cells show ?thesis
    by (auto simp: queue_list_def comp_def)
qed

lemma dequeue_ok:
  assumes wf: "wf_queue q" and ne: "queue_list q = e # es"
  shows "\<exists>q'. PSC_Queue_dequeue q = Some (qe_obj e, q') \<and> wf_queue q' \<and> queue_list q' = es"
proof -
  obtain n where n: "q_count q = Suc n"
    using ne by (metis Suc_length_conv length_queue_list)
  have cells: "queue_cells q = map Some (e # es)"
    using wf ne by (simp add: queue_cells_eq wf_queue_def)
  have head: "q_entries q ! q_front q = Some e"
    using cells wf n queue_cells_nth [of 0 q] by (simp add: qslot_def wf_queue_def)
  let ?q' = "q\<lparr>q_front := (if Suc (q_front q) = q_capa q then 0 else Suc (q_front q)), q_count := n\<rparr>"
  have eq: "PSC_Queue_dequeue q = Some (qe_obj e, ?q')"
    using head wf n by (simp add: PSC_Queue_dequeue_def buf_read_def wf_queue_def Let_def)
  have slot: "qslot ?q' i = qslot q (Suc i)" for i
    using wf mod_add_self1 [of "q_capa q" i]
    by (auto simp: qslot_def wf_queue_def simp del: mod_add_self1) (metis add_Suc)
  have "queue_cells ?q' = tl (queue_cells q)"
    by (simp add: queue_cells_def slot n map_Suc_upt [symmetric] upt_rec [of 0 "Suc n"] del: upt_Suc)
  then have "queue_cells ?q' = map Some es"
    using cells by simp
  moreover have "q_back ?q' = qslot ?q' (q_count ?q')"
    using wf n by (simp add: slot wf_queue_def)
  ultimately have "wf_queue ?q'" "queue_list ?q' = es"
    using wf n by (auto simp: wf_queue_def queue_list_def comp_def)
  with eq show ?thesis by blast
qed

lemma dequeue_empty:
  "queue_list q = [] \<Longrightarrow> PSC_Queue_dequeue q = Some (NULL, q)"
  by (metis PSC_Queue_dequeue_def length_queue_list list.size(3))

interpretation queue_fifo: fifo "\<lambda>q e. PSC_Queue_enqueue q (qe_obj e) (qe_deleter e)"
    PSC_Queue_dequeue qe_obj NULL queue_list wf_queue
proof (unfold_locales, goal_cases)
  case (1 q x)
  then show ?case using enqueue_ok [of q "qe_obj x" "qe_deleter x"] by (cases x) simp
next
  case (2 q)
  then show ?case by (simp add: dequeue_empty)
next
  case (3 q x xs)
  then show ?case by (rule dequeue_ok)
qed

lemma queue_destroy_loop_ok:
  assumes "wf_queue q"
  shows "i + n = q_count q \<Longrightarrow> queue_destroy_loop q n (qslot q i) =
     Some (map (\<lambda>e. (qe_deleter e, qe_obj e)) (filter (\<lambda>e. qe_deleter e \<noteq> NoFn) (drop i (queue_list q))))"
proof (induction n arbitrary: i)
  case 0
  then show ?case by simp
next
  case (Suc n)
  have "queue_cells q ! i = Some (queue_list q ! i)"
    using assms Suc.prems queue_cells_eq [of q] by (simp add: wf_queue_def)
  then have rd: "buf_read (q_entries q) (qslot q i) = Some (queue_list q ! i)"
    using assms Suc.prems by (simp add: queue_cells_nth buf_read_def wf_queue_def)
  have nxt: "(if Suc (qslot q i) = q_capa q then 0 else Suc (qslot q i)) = qslot q (Suc i)"
    by (simp add: qslot_def mod_Suc)
  have "drop i (queue_list q) = queue_list q ! i # drop (Suc i) (queue_list q)"
    using Suc.prems by (simp add: Cons_nth_drop_Suc)
  with rd nxt Suc show ?case by (simp add: Let_def)
qed

lemma queue_destroy_calls:
  "wf_queue q \<Longrightarrow> PSC_Queue_destroy (Some q) =
     Some (map (\<lambda>e. (qe_deleter e, qe_obj e)) (filter (\<lambda>e. qe_deleter e \<noteq> NoFn) (queue_list q)))"
  using queue_destroy_loop_ok [of q 0 "q_count q"] length_queue_list [of q]
  by (auto simp: PSC_Queue_destroy_def qslot_def wf_queue_def)


section \<open>Property\<close>

text \<open>
  C3: Any sequence of enqueue and dequeue operations on a new queue stays inside the
  ring buffer, also when it has to grow with a wrapped front; the dequeued objects are those of
  a FIFO list (null when it is empty), and destroying the queue afterwards calls the destructors
  of exactly the pending entries, in order.
\<close>

theorem queue_refines_fifo:
  "\<exists>q. qrun (\<lambda>q e. PSC_Queue_enqueue q (qe_obj e) (qe_deleter e)) PSC_Queue_dequeue
         PSC_Queue_create ops = Some (fst (qspec qe_obj NULL [] ops), q) \<and>
     queue_list q = snd (qspec qe_obj NULL [] ops) \<and>
     PSC_Queue_destroy (Some q) = Some (map (\<lambda>e. (qe_deleter e, qe_obj e))
       (filter (\<lambda>e. qe_deleter e \<noteq> NoFn) (snd (qspec qe_obj NULL [] ops))))"
  using queue_fifo.run_simulates [OF wf_queue_create(1), of ops] queue_destroy_calls
  by (auto simp: wf_queue_create)

end
