(* ===== verification/Poser_Hash.thy ===== *)
theory Poser_Hash
  imports Prelude
begin

text \<open>
  \<open>PSC_Hash\<close> (\<open>src/lib/core/hash.c\<close>).  The hash function itself is xxHash, a
  submodule that is not part of the repository: its two entry points are the fields of a
  record \<open>xxh\<close> that every hashing operation takes as an argument.  Nothing is assumed
  about them beyond being functions of their arguments.
\<close>

record xxhash =
  XXH3_64bits :: "bytes \<Rightarrow> u64"
  XXH3_64bits_withSecret :: "bytes \<Rightarrow> bytes \<Rightarrow> u64"

definition SECRETSIZE :: nat where
  "SECRETSIZE = 192"

record PSC_Hash =
  secret :: "bytes option"

text \<open>
  The static variables \<open>haveSecret\<close> and \<open>secret\<close> of \<open>getSecret\<close>: the secret,
  once there is one.  \<open>rnd\<close> is what \<open>PSC_Random_bytes\<close> delivers; it counts as a
  failure unless it has the full size.
\<close>

type_synonym secret_state = "bytes option"

definition getSecret :: "secret_state \<Rightarrow> bytes \<Rightarrow> bytes option \<times> secret_state" where
  "getSecret st rnd =
     (case st of
        Some s \<Rightarrow> (Some s, st)
      | None \<Rightarrow> if length rnd = SECRETSIZE then (Some rnd, Some rnd) else (None, None))"

definition PSC_Hash_create :: "secret_state \<Rightarrow> bytes \<Rightarrow> int \<Rightarrow> PSC_Hash option \<times> secret_state" where
  "PSC_Hash_create st rnd flags =
     (if flags \<noteq> 0
      then (case getSecret st rnd of
          (None, st') \<Rightarrow> (None, st')
        | (Some s, st') \<Rightarrow> (Some \<lparr>secret = Some s\<rparr>, st'))
      else (Some \<lparr>secret = None\<rparr>, st))"

definition PSC_Hash_bytes :: "xxhash \<Rightarrow> PSC_Hash \<Rightarrow> bytes \<Rightarrow> u64" where
  "PSC_Hash_bytes xxh self data =
     (case secret self of
        Some s \<Rightarrow> XXH3_64bits_withSecret xxh data s
      | None \<Rightarrow> XXH3_64bits xxh data)"

text \<open>The bytes of a C string, without its terminator.\<close>

definition str_bytes :: "string \<Rightarrow> bytes" where
  "str_bytes s = map (\<lambda>c. of_nat (of_char c)) s"

definition PSC_Hash_string :: "xxhash \<Rightarrow> PSC_Hash \<Rightarrow> string \<Rightarrow> u64" where
  "PSC_Hash_string xxh self str = PSC_Hash_bytes xxh self (str_bytes str)"

text \<open>The worst hash function, for examples in which every key collides.\<close>

definition xxh_zero :: xxhash where
  "xxh_zero = \<lparr>XXH3_64bits = (\<lambda>_. 0), XXH3_64bits_withSecret = (\<lambda>_ _. 0)\<rparr>"

text \<open>All hashes created with the secret use the same one.\<close>

lemma getSecret_stable:
  "getSecret st rnd = (Some s, st') \<Longrightarrow> getSecret st' rnd' = (Some s, st')"
  by (auto simp: getSecret_def split: option.splits if_splits)

end
