(* ===== verification/Poser_HashTable.thy ===== *)
theory Poser_HashTable
  imports Interfaces Poser_Hash
begin

text \<open>
  \<open>PSC_HashTable\<close> and its iterator (\<open>src/lib/core/hashtable.c\<close>): a hash table of
  fixed size with chained buckets.  A chain of \<open>PSC_HashTableEntry\<close> linked by
  \<open>next\<close> is the list of its entries.  Stored objects are of any type; a missing entry
  is the null pointer, here \<^const>\<open>None\<close>.  Destructor calls are returned in order.
\<close>

section \<open>Model\<close>

record 'o PSC_HashTableEntry =
  hte_key :: string
  hte_obj :: 'o
  hte_deleter :: deleter

record 'o PSC_HashTable =
  ht_hash :: PSC_Hash
  ht_count :: nat
  ht_mask :: u64
  ht_bits :: u8
  ht_bucket :: "'o PSC_HashTableEntry list list"

record 'o PSC_HashTableIterator =
  hi_count :: nat
  hi_pos :: nat
  hi_entries :: "(string \<times> 'o) buf"

definition hashstr :: "xxhash \<Rightarrow> 'o PSC_HashTable \<Rightarrow> string \<Rightarrow> nat" where
  "hashstr xxh self key = unat (PSC_Hash_string xxh (ht_hash self) key AND ht_mask self)"

definition PSC_HashTable_create :: "u8 \<Rightarrow> 'o PSC_HashTable" where
  "PSC_HashTable_create bits =
     (let bits = (if bits < 2 then 2 else if 16 < bits then 16 else bits);
          htsize = push_bit (unat bits) 1
      in \<lparr>ht_hash = \<lparr>secret = None\<rparr>, ht_count = 0, ht_mask = htsize - 1, ht_bits = bits,
          ht_bucket = replicate (unat htsize) []\<rparr>)"

definition ht_delete_call :: "'o PSC_HashTableEntry \<Rightarrow> (deleter \<times> 'o) list" where
  "ht_delete_call e = (if hte_deleter e \<noteq> NoFn then [(hte_deleter e, hte_obj e)] else [])"

text \<open>The chain walk of \<open>PSC_HashTable_set\<close>; the flag tells that an entry was added.\<close>

fun chain_set :: "'o PSC_HashTableEntry list \<Rightarrow> string \<Rightarrow> 'o \<Rightarrow> deleter
    \<Rightarrow> 'o PSC_HashTableEntry list \<times> (deleter \<times> 'o) list \<times> bool" where
  "chain_set [] key obj del = ([\<lparr>hte_key = key, hte_obj = obj, hte_deleter = del\<rparr>], [], True)"
| "chain_set (e # es) key obj del =
     (if hte_key e = key
      then (e\<lparr>hte_obj := obj, hte_deleter := del\<rparr> # es, ht_delete_call e, False)
      else (case chain_set es key obj del of (es', r) \<Rightarrow> (e # es', r)))"

definition PSC_HashTable_set :: "xxhash \<Rightarrow> 'o PSC_HashTable \<Rightarrow> string \<Rightarrow> 'o \<Rightarrow> deleter
    \<Rightarrow> ('o PSC_HashTable \<times> (deleter \<times> 'o) list) option" where
  "PSC_HashTable_set xxh self key obj del =
     (let h = hashstr xxh self key
      in if h < length (ht_bucket self)
         then (case chain_set (ht_bucket self ! h) key obj del of (chain, calls, added) \<Rightarrow>
             Some (self\<lparr>ht_bucket := (ht_bucket self)[h := chain],
                        ht_count := (if added then Suc (ht_count self) else ht_count self)\<rparr>, calls))
         else None)"

text \<open>The chain walk of \<open>PSC_HashTable_delete\<close>; the result is null when nothing was found.\<close>

fun chain_delete :: "'o PSC_HashTableEntry list \<Rightarrow> string
    \<Rightarrow> ('o PSC_HashTableEntry list \<times> (deleter \<times> 'o) list) option" where
  "chain_delete [] key = None"
| "chain_delete (e # es) key =
     (if hte_key e = key then Some (es, ht_delete_call e)
      else map_option (map_prod ((#) e) id) (chain_delete es key))"

definition PSC_HashTable_delete :: "xxhash \<Rightarrow> 'o PSC_HashTable \<Rightarrow> string
    \<Rightarrow> ('o PSC_HashTable \<times> (deleter \<times> 'o) list \<times> bool) option" where
  "PSC_HashTable_delete xxh self key =
     (let h = hashstr xxh self key
      in if h < length (ht_bucket self)
         then (case chain_delete (ht_bucket self ! h) key of
             None \<Rightarrow> Some (self, [], False)
           | Some (chain, calls) \<Rightarrow>
               Some (self\<lparr>ht_bucket := (ht_bucket self)[h := chain],
                          ht_count := ht_count self - 1\<rparr>, calls, True))
         else None)"

text \<open>One bucket of \<open>PSC_HashTable_deleteAll\<close>: kept chain, destructor calls, number deleted.\<close>

fun chain_deleteAll :: "'o PSC_HashTableEntry list \<Rightarrow> (string \<Rightarrow> 'o \<Rightarrow> bool)
    \<Rightarrow> 'o PSC_HashTableEntry list \<times> (deleter \<times> 'o) list \<times> nat" where
  "chain_deleteAll [] matcher = ([], [], 0)"
| "chain_deleteAll (e # es) matcher =
     (case chain_deleteAll es matcher of (es', calls, n) \<Rightarrow>
        if matcher (hte_key e) (hte_obj e) then (es', ht_delete_call e @ calls, Suc n)
        else (e # es', calls, n))"

fun buckets_deleteAll :: "'o PSC_HashTableEntry list list \<Rightarrow> (string \<Rightarrow> 'o \<Rightarrow> bool)
    \<Rightarrow> 'o PSC_HashTableEntry list list \<times> (deleter \<times> 'o) list \<times> nat" where
  "buckets_deleteAll [] matcher = ([], [], 0)"
| "buckets_deleteAll (b # bs) matcher =
     (case chain_deleteAll b matcher of (b', calls, n) \<Rightarrow>
      case buckets_deleteAll bs matcher of (bs', calls', n') \<Rightarrow> (b' # bs', calls @ calls', n + n'))"

definition PSC_HashTable_deleteAll :: "'o PSC_HashTable \<Rightarrow> (string \<Rightarrow> 'o \<Rightarrow> bool)
    \<Rightarrow> 'o PSC_HashTable \<times> (deleter \<times> 'o) list \<times> nat" where
  "PSC_HashTable_deleteAll self matcher =
     (case buckets_deleteAll (ht_bucket self) matcher of (bs, calls, deleted) \<Rightarrow>
        (self\<lparr>ht_bucket := bs, ht_count := ht_count self - deleted\<rparr>, calls, deleted))"

definition PSC_HashTable_count :: "'o PSC_HashTable \<Rightarrow> nat" where
  "PSC_HashTable_count self = ht_count self"

fun chain_get :: "'o PSC_HashTableEntry list \<Rightarrow> string \<Rightarrow> 'o option" where
  "chain_get [] key = None"
| "chain_get (e # es) key = (if hte_key e = key then Some (hte_obj e) else chain_get es key)"

definition PSC_HashTable_get :: "xxhash \<Rightarrow> 'o PSC_HashTable \<Rightarrow> string \<Rightarrow> 'o option option" where
  "PSC_HashTable_get xxh self key =
     (let h = hashstr xxh self key
      in if h < length (ht_bucket self) then Some (chain_get (ht_bucket self ! h) key) else None)"

text \<open>The iterator has room for \<open>count\<close> entries; a write past them is undefined.\<close>

definition PSC_HashTable_iterator :: "'o PSC_HashTable \<Rightarrow> 'o PSC_HashTableIterator option" where
  "PSC_HashTable_iterator self = do {
     es \<leftarrow> buf_store (buf_alloc (ht_count self)) 0
            (map (\<lambda>e. (hte_key e, hte_obj e)) (concat (ht_bucket self)));
     Some \<lparr>hi_count = ht_count self, hi_pos = ht_count self, hi_entries = es\<rparr> }"

definition PSC_HashTable_destroy :: "'o PSC_HashTable option \<Rightarrow> (deleter \<times> 'o) list" where
  "PSC_HashTable_destroy self =
     (case self of None \<Rightarrow> []
      | Some t \<Rightarrow> concat (map (\<lambda>chain. concat (map ht_delete_call chain)) (ht_bucket t)))"

definition PSC_HashTableIterator_moveNext ::
    "'o PSC_HashTableIterator \<Rightarrow> 'o PSC_HashTableIterator \<times> bool" where
  "PSC_HashTableIterator_moveNext self =
     (let self = (if hi_count self \<le> hi_pos self then self\<lparr>hi_pos := 0\<rparr>
                  else self\<lparr>hi_pos := Suc (hi_pos self)\<rparr>)
      in (self, hi_pos self < hi_count self))"

definition PSC_HashTableIterator_key :: "'o PSC_HashTableIterator \<Rightarrow> string option option" where
  "PSC_HashTableIterator_key self =
     (if hi_count self \<le> hi_pos self then Some None
      else map_option (\<lambda>e. Some (fst e)) (buf_read (hi_entries self) (hi_pos self)))"

definition PSC_HashTableIterator_current :: "'o PSC_HashTableIterator \<Rightarrow> 'o option option" where
  "PSC_HashTableIterator_current self =
     (if hi_count self \<le> hi_pos self then Some None
      else map_option (\<lambda>e. Some (snd e)) (buf_read (hi_entries self) (hi_pos self)))"

section \<open>Invariant\<close>

definition ht_entries :: "'o PSC_HashTable \<Rightarrow> 'o PSC_HashTableEntry list" where
  "ht_entries t = concat (ht_bucket t)"

text \<open>
  Every entry sits in the bucket of its hash, no key occurs twice in a bucket, the mask
  selects a bucket, and the counter counts the entries.
\<close>

definition wf_hashtable :: "xxhash \<Rightarrow> 'o PSC_HashTable \<Rightarrow> bool" where
  [wf_defs]: "wf_hashtable xxh t \<longleftrightarrow>
     length (ht_bucket t) = Suc (unat (ht_mask t)) \<and>
     (\<forall>h < length (ht_bucket t). distinct (map hte_key (ht_bucket t ! h)) \<and>
        (\<forall>e \<in> set (ht_bucket t ! h). hashstr xxh t (hte_key e) = h)) \<and>
     ht_count t = length (ht_entries t)"

lemma hashstr_le: "hashstr xxh t key \<le> unat (ht_mask t)"
  unfolding hashstr_def word_le_nat_alt [symmetric] by (rule word_and_le1)

lemma wf_hashtable_index: "wf_hashtable xxh t \<Longrightarrow> hashstr xxh t key < length (ht_bucket t)"
  using hashstr_le [of xxh t key] by (simp add: wf_hashtable_def)

lemma hashstr_cong: "ht_hash t' = ht_hash t \<Longrightarrow> ht_mask t' = ht_mask t \<Longrightarrow> hashstr xxh t' = hashstr xxh t"
  by (simp add: hashstr_def fun_eq_iff)

text \<open>Replacing one bucket of the table.\<close>

lemma length_concat_update:
  "h < length bs \<Longrightarrow> length (concat (bs[h := b])) + length (bs ! h) = length (concat bs) + length b"
proof (induction bs arbitrary: h)
  case (Cons a bs)
  then show ?case by (cases h) auto
qed simp

lemma wf_hashtable_update:
  assumes wf: "wf_hashtable xxh t" and h: "h < length (ht_bucket t)"
    and d: "distinct (map hte_key b)" and k: "\<forall>e \<in> set b. hashstr xxh t (hte_key e) = h"
    and n: "n + length (ht_bucket t ! h) = ht_count t + length b"
  shows "wf_hashtable xxh (t\<lparr>ht_bucket := (ht_bucket t)[h := b], ht_count := n\<rparr>)"
proof -
  let ?t = "t\<lparr>ht_bucket := (ht_bucket t)[h := b], ht_count := n\<rparr>"
  have hs: "hashstr xxh ?t = hashstr xxh t"
    by (rule hashstr_cong) simp_all
  have "n = length (concat ((ht_bucket t)[h := b]))"
    using length_concat_update [OF h, of b] n wf by (simp add: wf_hashtable_def ht_entries_def)
  with wf h d k hs show ?thesis
    unfolding wf_hashtable_def by (auto simp: nth_list_update ht_entries_def)
qed


lemma wf_hashtable_empty:
  "n = Suc (unat m) \<Longrightarrow> wf_hashtable xxh
     \<lparr>ht_hash = hs, ht_count = 0, ht_mask = m, ht_bits = bits, ht_bucket = replicate n []\<rparr>"
  by (simp add: wf_hashtable_def ht_entries_def del: replicate_Suc)

lemma wf_hashtable_create: "wf_hashtable xxh (PSC_HashTable_create bits)"
proof -
  define b where "b = unat (if bits < 2 then 2 else if 16 < bits then 16 else bits)"
  have "b \<le> 16"
    by (auto simp: b_def word_less_nat_alt word_le_nat_alt not_less)
  then have "unat (push_bit b (1 :: u64)) = 2 ^ b"
    by (simp add: push_bit_eq_mult unat_eq_nat_uint uint_2p nat_power_eq word_gt_0)
  then have "unat (push_bit b (1 :: u64)) = Suc (unat (push_bit b (1 :: u64) - 1))"
    using unat_sub [of 1 "push_bit b (1 :: u64)"] by (simp add: word_le_nat_alt)
  from wf_hashtable_empty [OF this] show ?thesis
    unfolding PSC_HashTable_create_def Let_def b_def [symmetric] .
qed

section \<open>Chains\<close>

lemma chain_set_keys:
  "chain_set es key obj del = (es', calls, added) \<Longrightarrow>
     added = (key \<notin> set (map hte_key es)) \<and>
     map hte_key es' = (if added then map hte_key es @ [key] else map hte_key es)"
  by (induction es arbitrary: es') (auto split: if_splits prod.splits)

lemma chain_set_get:
  "chain_set es key obj del = (es', r) \<Longrightarrow>
     chain_get es' k = (if k = key then Some obj else chain_get es k)"
  by (induction es arbitrary: es') (auto split: if_splits prod.splits)

lemma chain_delete_None: "chain_delete es key = None \<longleftrightarrow> key \<notin> set (map hte_key es)"
  by (induction es) auto

lemma chain_get_None: "chain_get es key = None \<longleftrightarrow> key \<notin> set (map hte_key es)"
  by (induction es) auto

lemma chain_delete_Some:
  "chain_delete es key = Some (es', calls) \<Longrightarrow> distinct (map hte_key es) \<Longrightarrow>
     distinct (map hte_key es') \<and> set es' \<subseteq> set es \<and> length es = Suc (length es') \<and>
     (\<forall>k. chain_get es' k = (if k = key then None else chain_get es k))"
proof (induction es arbitrary: es')
  case (Cons e es)
  show ?case
  proof (cases "hte_key e = key")
    case True
    with Cons.prems show ?thesis using chain_get_None [of es key] by auto
  next
    case False
    then obtain es1 where es1: "chain_delete es key = Some (es1, calls)" "es' = e # es1"
      using Cons.prems(1) by auto
    with Cons.IH [OF es1(1)] Cons.prems(2) False show ?thesis by auto
  qed
qed simp

lemma chain_deleteAll_eq:
  "chain_deleteAll es p =
     (filter (\<lambda>e. \<not> p (hte_key e) (hte_obj e)) es,
      concat (map ht_delete_call (filter (\<lambda>e. p (hte_key e) (hte_obj e)) es)),
      length (filter (\<lambda>e. p (hte_key e) (hte_obj e)) es))"
  by (induction es) auto

lemma buckets_deleteAll_eq:
  "buckets_deleteAll bs p =
     (map (filter (\<lambda>e. \<not> p (hte_key e) (hte_obj e))) bs,
      concat (map ht_delete_call (filter (\<lambda>e. p (hte_key e) (hte_obj e)) (concat bs))),
      length (filter (\<lambda>e. p (hte_key e) (hte_obj e)) (concat bs)))"
  by (induction bs) (auto simp: chain_deleteAll_eq)

lemma chain_get_filter:
  "distinct (map hte_key es) \<Longrightarrow>
   chain_get (filter (\<lambda>e. \<not> p (hte_key e) (hte_obj e)) es) k =
     (case chain_get es k of None \<Rightarrow> None | Some v \<Rightarrow> if p k v then None else Some v)"
  by (induction es) (auto simp: chain_get_None [unfolded set_map, symmetric] split: option.splits
      dest: sym [of None])

section \<open>The operations as map operations\<close>

definition ht_look :: "xxhash \<Rightarrow> 'o PSC_HashTable \<Rightarrow> string \<Rightarrow> 'o option" where
  "ht_look xxh t key = (case PSC_HashTable_get xxh t key of None \<Rightarrow> None | Some r \<Rightarrow> r)"

lemma get_look: "wf_hashtable xxh t \<Longrightarrow> PSC_HashTable_get xxh t key = Some (ht_look xxh t key)"
  by (simp add: ht_look_def PSC_HashTable_get_def Let_def wf_hashtable_index)

lemma look_chain: "wf_hashtable xxh t \<Longrightarrow>
  ht_look xxh t key = chain_get (ht_bucket t ! hashstr xxh t key) key"
  by (simp add: ht_look_def PSC_HashTable_get_def Let_def wf_hashtable_index)

lemma look_update:
  assumes "wf_hashtable xxh t" "wf_hashtable xxh (t\<lparr>ht_bucket := (ht_bucket t)[h := b], ht_count := n\<rparr>)"
    and "h < length (ht_bucket t)"
  shows "ht_look xxh (t\<lparr>ht_bucket := (ht_bucket t)[h := b], ht_count := n\<rparr>) key =
     (if hashstr xxh t key = h then chain_get b key else ht_look xxh t key)"
  using assms hashstr_cong [of "t\<lparr>ht_bucket := (ht_bucket t)[h := b], ht_count := n\<rparr>" t xxh]
  by (simp add: look_chain)

lemma set_ok:
  assumes wf: "wf_hashtable xxh t"
  shows "\<exists>t' calls. PSC_HashTable_set xxh t key obj del = Some (t', calls) \<and> wf_hashtable xxh t' \<and>
     ht_look xxh t' = (ht_look xxh t)(key \<mapsto> obj)"
proof -
  let ?h = "hashstr xxh t key"
  let ?b = "ht_bucket t ! ?h"
  have h: "?h < length (ht_bucket t)" by (rule wf_hashtable_index [OF wf])
  obtain b calls added where cs: "chain_set ?b key obj del = (b, calls, added)"
    by (metis prod_cases3)
  let ?n = "if added then Suc (ht_count t) else ht_count t"
  let ?t = "t\<lparr>ht_bucket := (ht_bucket t)[?h := b], ht_count := ?n\<rparr>"
  have old: "distinct (map hte_key ?b)" "\<forall>e \<in> set ?b. hashstr xxh t (hte_key e) = ?h"
    using wf h by (auto simp: wf_hashtable_def)
  have keys: "map hte_key b = (if added then map hte_key ?b @ [key] else map hte_key ?b)"
      "added = (key \<notin> set (map hte_key ?b))"
    using chain_set_keys [OF cs] by blast+
  have "hte_key ` set b \<subseteq> insert key (hte_key ` set ?b)"
    using arg_cong [OF keys(1), of set] by (cases added) auto
  then have "hte_key e = key \<or> (\<exists>e' \<in> set ?b. hte_key e = hte_key e')" if "e \<in> set b" for e
    using that by blast
  then have new: "\<forall>e \<in> set b. hashstr xxh t (hte_key e) = ?h"
    using old(2) by fastforce
  have dist: "distinct (map hte_key b)"
    using keys old(1) by (cases added) simp_all
  have "length b = length ?b + (if added then 1 else 0)"
    using arg_cong [OF keys(1), of length] by (cases added) simp_all
  then have "?n + length ?b = ht_count t + length b"
    by (cases added) simp_all
  then have wf': "wf_hashtable xxh ?t"
    by (rule wf_hashtable_update [OF wf h dist new])
  moreover have "ht_look xxh ?t = (ht_look xxh t)(key \<mapsto> obj)"
    using look_update [OF wf wf' h] chain_set_get [OF cs] look_chain [OF wf] by (auto simp: fun_eq_iff)
  ultimately show ?thesis
    using h cs by (auto simp: PSC_HashTable_set_def Let_def)
qed

lemma delete_ok:
  assumes wf: "wf_hashtable xxh t"
  shows "\<exists>t' calls. PSC_HashTable_delete xxh t key = Some (t', calls, ht_look xxh t key \<noteq> None)
     \<and> wf_hashtable xxh t' \<and> ht_look xxh t' = (ht_look xxh t)(key := None)"
proof -
  let ?h = "hashstr xxh t key"
  let ?b = "ht_bucket t ! ?h"
  have h: "?h < length (ht_bucket t)" by (rule wf_hashtable_index [OF wf])
  have old: "distinct (map hte_key ?b)" "\<forall>e \<in> set ?b. hashstr xxh t (hte_key e) = ?h"
    using wf h by (auto simp: wf_hashtable_def)
  show ?thesis
  proof (cases "chain_delete ?b key")
    case None
    then have "ht_look xxh t key = None"
      using look_chain [OF wf] by (simp add: chain_get_None chain_delete_None)
    with None h wf show ?thesis by (simp add: PSC_HashTable_delete_def Let_def fun_upd_idem)
  next
    case (Some r)
    then obtain b calls where cd: "chain_delete ?b key = Some (b, calls)" by (cases r) auto
    note b = chain_delete_Some [OF cd old(1)]
    have some: "ht_look xxh t key \<noteq> None"
      using look_chain [OF wf, of key] cd chain_delete_None [of ?b key] chain_get_None [of ?b key] by auto
    let ?t = "t\<lparr>ht_bucket := (ht_bucket t)[?h := b], ht_count := ht_count t - 1\<rparr>"
    have "length ?b \<le> ht_count t"
      using wf length_concat_update [OF h, of "[]"] by (simp add: wf_hashtable_def ht_entries_def)
    then have wf': "wf_hashtable xxh ?t"
      using wf_hashtable_update [OF wf h, of b "ht_count t - 1"] b old by auto
    moreover have "ht_look xxh ?t = (ht_look xxh t)(key := None)"
      using look_update [OF wf wf' h] b look_chain [OF wf] by (auto simp: fun_eq_iff)
    ultimately show ?thesis
      using h cd some by (auto simp: PSC_HashTable_delete_def Let_def)
  qed
qed

text \<open>\<open>ht_put\<close> is a client's view of \<open>set\<close> and \<open>delete\<close>.\<close>

definition ht_put :: "xxhash \<Rightarrow> 'o PSC_HashTable \<Rightarrow> string \<Rightarrow> 'o option \<Rightarrow> 'o PSC_HashTable option" where
  "ht_put xxh t key v =
     (case v of Some obj \<Rightarrow> map_option fst (PSC_HashTable_set xxh t key obj NoFn)
      | None \<Rightarrow> map_option fst (PSC_HashTable_delete xxh t key))"

interpretation hashtable_table: table "ht_put xxh" "ht_look xxh" "wf_hashtable xxh" for xxh
proof (unfold_locales, goal_cases)
  case (1 t k v)
  then show ?case
    using set_ok [OF 1, of k _ NoFn] delete_ok [OF 1, of k]
    by (cases v) (fastforce simp: ht_put_def)+
qed


text \<open>\<open>deleteAll\<close> removes exactly the matching entries, destroys them and counts them.\<close>

lemma concat_filter: "concat (map (filter p) bs) = filter p (concat bs)"
  by (induction bs) simp_all

lemma deleteAll_ok:
  assumes wf: "wf_hashtable xxh t"
  shows "\<exists>t'. PSC_HashTable_deleteAll t p = (t',
       concat (map ht_delete_call (filter (\<lambda>e. p (hte_key e) (hte_obj e)) (ht_entries t))),
       length (filter (\<lambda>e. p (hte_key e) (hte_obj e)) (ht_entries t)))
     \<and> wf_hashtable xxh t'
     \<and> ht_look xxh t' = (\<lambda>k. case ht_look xxh t k of None \<Rightarrow> None | Some v \<Rightarrow> if p k v then None else Some v)"
proof -
  let ?keep = "filter (\<lambda>e. \<not> p (hte_key e) (hte_obj e))"
  let ?n = "length (filter (\<lambda>e. p (hte_key e) (hte_obj e)) (ht_entries t))"
  let ?t = "t\<lparr>ht_bucket := map ?keep (ht_bucket t), ht_count := ht_count t - ?n\<rparr>"
  have hs: "hashstr xxh ?t = hashstr xxh t"
    by (rule hashstr_cong) simp_all
  have "ht_count t - ?n = length (?keep (ht_entries t))"
    using wf sum_length_filter_compl [of "\<lambda>e. p (hte_key e) (hte_obj e)" "ht_entries t"]
    by (simp add: wf_hashtable_def)
  then have wf': "wf_hashtable xxh ?t"
    using wf hs by (auto simp: wf_hashtable_def ht_entries_def concat_filter distinct_map_filter)
  have "ht_look xxh ?t k = (case ht_look xxh t k of None \<Rightarrow> None | Some v \<Rightarrow> if p k v then None else Some v)"
    for k
  proof -
    have "hashstr xxh t k < length (ht_bucket t)" by (rule wf_hashtable_index [OF wf])
    moreover from this have "distinct (map hte_key (ht_bucket t ! hashstr xxh t k))"
      using wf by (simp add: wf_hashtable_def)
    ultimately show ?thesis
      using look_chain [OF wf] look_chain [OF wf'] hs by (simp add: chain_get_filter)
  qed
  with wf' show ?thesis
    by (auto simp: PSC_HashTable_deleteAll_def buckets_deleteAll_eq ht_entries_def)
qed

section \<open>Iteration\<close>

definition wf_ht_iterator :: "'o PSC_HashTableIterator \<Rightarrow> bool" where
  [wf_defs]: "wf_ht_iterator it \<longleftrightarrow> length (hi_entries it) = hi_count it \<and> None \<notin> set (hi_entries it)"

definition ht_iterator_elems :: "'o PSC_HashTableIterator \<Rightarrow> (string \<times> 'o) list" where
  "ht_iterator_elems it = map the (hi_entries it)"

text \<open>The client reads key and object of the current position.\<close>

definition ht_iterator_entry :: "'o PSC_HashTableIterator \<Rightarrow> (string \<times> 'o) option option" where
  "ht_iterator_entry it = do {
     k \<leftarrow> PSC_HashTableIterator_key it;
     v \<leftarrow> PSC_HashTableIterator_current it;
     Some (case (k, v) of (Some k, Some v) \<Rightarrow> Some (k, v) | _ \<Rightarrow> None) }"

interpretation ht_iter: snapshot_iterator PSC_HashTableIterator_moveNext ht_iterator_entry
    ht_iterator_elems hi_pos wf_ht_iterator
proof (unfold_locales, goal_cases)
  case (4 it)
  show ?case
  proof (cases "hi_pos it < hi_count it")
    case True
    then have "hi_entries it ! hi_pos it \<noteq> None"
      using 4 by (metis nth_mem wf_ht_iterator_def)
    then obtain k v where "hi_entries it ! hi_pos it = Some (k, v)"
      by (cases "hi_entries it ! hi_pos it") auto
    with True 4 show ?thesis
      by (auto simp: ht_iterator_entry_def PSC_HashTableIterator_key_def ht_iterator_elems_def
          PSC_HashTableIterator_current_def wf_ht_iterator_def buf_read_def)
  next
    case False
    with 4 show ?thesis
      by (simp add: ht_iterator_entry_def PSC_HashTableIterator_key_def ht_iterator_elems_def
          PSC_HashTableIterator_current_def wf_ht_iterator_def)
  qed
qed (auto simp: PSC_HashTableIterator_moveNext_def ht_iterator_elems_def wf_ht_iterator_def Let_def)

lemma ht_iterator_ok:
  assumes "wf_hashtable xxh t"
  shows "\<exists>it. PSC_HashTable_iterator t = Some it \<and> wf_ht_iterator it \<and>
     ht_iterator_elems it = map (\<lambda>e. (hte_key e, hte_obj e)) (ht_entries t) \<and>
     length (ht_iterator_elems it) \<le> hi_pos it"
  using assms
  by (simp add: PSC_HashTable_iterator_def buf_store_eq wf_hashtable_def ht_entries_def)
     (auto simp: wf_ht_iterator_def ht_iterator_elems_def comp_def)


section \<open>Counting\<close>

lemma distinct_concat_buckets:
  "\<forall>h < length bs. distinct (map hte_key (bs ! h)) \<and> (\<forall>e \<in> set (bs ! h). f (hte_key e) = h + n)
     \<Longrightarrow> distinct (map hte_key (concat bs))"
proof (induction bs arbitrary: n)
  case (Cons b bs)
  have b: "distinct (map hte_key b)" "\<forall>e \<in> set b. f (hte_key e) = n"
    using Cons.prems by (auto dest: spec [of _ 0])
  have bs: "\<forall>h < length bs. distinct (map hte_key (bs ! h)) \<and>
      (\<forall>e \<in> set (bs ! h). f (hte_key e) = h + Suc n)"
    using Cons.prems by auto
  have "f (hte_key e) \<noteq> n" if "b' \<in> set bs" "e \<in> set b'" for e b'
  proof -
    from that(1) obtain h where "h < length bs" "bs ! h = b'"
      by (auto simp: in_set_conv_nth)
    with bs that(2) show ?thesis by auto
  qed
  then have "set (map hte_key b) \<inter> set (map hte_key (concat bs)) = {}"
    using b(2) by fastforce
  with b Cons.IH [OF bs] show ?case by simp
qed simp

lemma look_dom:
  assumes wf: "wf_hashtable xxh t"
  shows "dom (ht_look xxh t) = set (map hte_key (ht_entries t))"
proof -
  have "k \<in> dom (ht_look xxh t) \<longleftrightarrow> k \<in> hte_key ` set (ht_entries t)" for k
  proof -
    let ?h = "hashstr xxh t k"
    have "k \<in> dom (ht_look xxh t) \<longleftrightarrow> k \<in> hte_key ` set (ht_bucket t ! ?h)"
      using look_chain [OF wf, of k] chain_get_None [of "ht_bucket t ! ?h" k] by auto
    also have "\<dots> \<longleftrightarrow> (\<exists>h < length (ht_bucket t). k \<in> hte_key ` set (ht_bucket t ! h))"
      using wf wf_hashtable_index [OF wf, of k] by (auto simp: wf_hashtable_def)
    also have "\<dots> \<longleftrightarrow> (\<exists>b \<in> set (ht_bucket t). k \<in> hte_key ` set b)"
      by (metis in_set_conv_nth)
    finally show ?thesis by (auto simp: ht_entries_def)
  qed
  then show ?thesis by auto
qed

lemma ht_count_card:
  assumes wf: "wf_hashtable xxh t"
  shows "PSC_HashTable_count t = card (dom (ht_look xxh t))"
proof -
  have "distinct (map hte_key (ht_entries t))"
    using wf distinct_concat_buckets [of "ht_bucket t" "hashstr xxh t" 0]
    by (simp add: wf_hashtable_def ht_entries_def)
  from distinct_card [OF this] wf show ?thesis
    by (simp add: PSC_HashTable_count_def wf_hashtable_def look_dom [OF wf])
qed

section \<open>Properties\<close>

text \<open>
  A hash table behaves as a finite map, whatever the hash function: after any
  sequence of \<open>set\<close> and \<open>delete\<close> on a new table, no access leaves the bucket array,
  \<open>get\<close> returns what the same updates of a map give, and \<open>count\<close> is the number of keys.
\<close>

theorem hashtable_refines_map:
  fixes kvs :: "(string \<times> 'o option) list"
  shows "\<exists>t. fold (\<lambda>(k, v) s. s \<bind> (\<lambda>t. ht_put xxh t k v)) kvs (Some (PSC_HashTable_create bits)) = Some t \<and>
     (\<forall>key. PSC_HashTable_get xxh t key = Some (fold (\<lambda>(k, v) m. m(k := v)) kvs Map.empty key)) \<and>
     PSC_HashTable_count t = card (dom (fold (\<lambda>(k, v) m. m(k := v)) kvs (Map.empty :: string \<rightharpoonup> 'o)))"
proof -
  let ?t0 = "PSC_HashTable_create bits :: 'o PSC_HashTable"
  have "ht_look xxh ?t0 = Map.empty"
    using look_dom [OF wf_hashtable_create, of xxh bits]
    by (simp add: ht_entries_def PSC_HashTable_create_def Let_def)
  with hashtable_table.put_all [OF wf_hashtable_create [of xxh bits], of kvs]
  obtain t where "fold (\<lambda>(k, v) s. s \<bind> (\<lambda>t. ht_put xxh t k v)) kvs (Some ?t0) = Some t" "wf_hashtable xxh t"
      "ht_look xxh t = fold (\<lambda>(k, v) m. m(k := v)) kvs Map.empty"
    by auto
  then show ?thesis using get_look ht_count_card by metis
qed

text \<open>
  A loop over a hash table iterator visits every entry of the table exactly once, and
  the entries fit exactly into the iterator's array.
\<close>

theorem hashtable_iteration:
  assumes "wf_hashtable xxh t"
  shows "\<exists>it it' kvs. PSC_HashTable_iterator t = Some it \<and>
     iter_collect PSC_HashTableIterator_moveNext ht_iterator_entry (Suc (PSC_HashTable_count t)) it =
       Some (kvs, it') \<and>
     length kvs = PSC_HashTable_count t \<and> distinct (map fst kvs) \<and> map_of kvs = ht_look xxh t"
proof -
  let ?kvs = "map (\<lambda>e. (hte_key e, hte_obj e)) (ht_entries t)"
  obtain it where it: "PSC_HashTable_iterator t = Some it" "wf_ht_iterator it"
      "ht_iterator_elems it = ?kvs" "length (ht_iterator_elems it) \<le> hi_pos it"
    using ht_iterator_ok [OF assms] by blast
  have n: "length (ht_iterator_elems it) < Suc (PSC_HashTable_count t)"
    using assms it(3) by (simp add: PSC_HashTable_count_def wf_hashtable_def)
  have dist: "distinct (map fst ?kvs)"
    using assms distinct_concat_buckets [of "ht_bucket t" "hashstr xxh t" 0]
    by (simp add: wf_hashtable_def ht_entries_def comp_def)
  have "map_of ?kvs k = ht_look xxh t k" for k
  proof (cases "ht_look xxh t k")
    case None
    then show ?thesis using look_dom [OF assms] by (auto simp: map_of_eq_None_iff image_image)
  next
    case (Some v)
    have "chain_get es k = Some v \<Longrightarrow> \<exists>e \<in> set es. hte_key e = k \<and> hte_obj e = v" for es
      by (induction es) (auto split: if_splits)
    then obtain e where "e \<in> set (ht_bucket t ! hashstr xxh t k)" "hte_key e = k" "hte_obj e = v"
      using Some look_chain [OF assms, of k] by metis
    then have "(k, v) \<in> set ?kvs"
      using wf_hashtable_index [OF assms, of k] by (force simp: ht_entries_def in_set_conv_nth)
    with dist Some show ?thesis by simp
  qed
  with ht_iter.collect_all [OF it(2,4) n] it n dist assms show ?thesis
    by (fastforce simp: PSC_HashTable_count_def wf_hashtable_def)
qed

theorem hashtable_iteration_witness:
  "\<exists>t it it' kvs. ht_put xxh_zero (PSC_HashTable_create 2) ''a'' (Some (1 :: nat))
       \<bind> (\<lambda>t. ht_put xxh_zero t ''b'' (Some 2)) = Some t \<and> wf_hashtable xxh_zero t \<and>
     PSC_HashTable_iterator t = Some it \<and>
     iter_collect PSC_HashTableIterator_moveNext ht_iterator_entry (Suc (PSC_HashTable_count t)) it =
       Some (kvs, it') \<and> length kvs = PSC_HashTable_count t \<and> map_of kvs ''a'' = Some 1"
proof -
  obtain t where t: "ht_put xxh_zero (PSC_HashTable_create 2) ''a'' (Some (1 :: nat))
       \<bind> (\<lambda>t. ht_put xxh_zero t ''b'' (Some 2)) = Some t" "wf_hashtable xxh_zero t"
      "ht_look xxh_zero t ''a'' = Some 1"
    using hashtable_table.put_all [OF wf_hashtable_create [of xxh_zero 2],
        of "[(''a'', Some (1 :: nat)), (''b'', Some 2)]"]
    by auto
  with hashtable_iteration [OF t(2)] show ?thesis by metis
qed

text \<open>
  \<open>PSC_HashTable_deleteAll\<close> removes exactly the matching entries, returns their number,
  calls their destructors, and keeps the table well formed.
\<close>

theorem hashtable_deleteAll:
  assumes "wf_hashtable xxh t"
  shows "\<exists>t' calls n. PSC_HashTable_deleteAll t matcher = (t', calls, n) \<and> wf_hashtable xxh t' \<and>
     PSC_HashTable_count t' + n = PSC_HashTable_count t \<and>
     calls = concat (map ht_delete_call (filter (\<lambda>e. matcher (hte_key e) (hte_obj e)) (ht_entries t))) \<and>
     (\<forall>key. PSC_HashTable_get xxh t' key =
        Some (case ht_look xxh t key of None \<Rightarrow> None | Some v \<Rightarrow> if matcher key v then None else Some v))"
proof -
  obtain t' where t': "PSC_HashTable_deleteAll t matcher = (t',
       concat (map ht_delete_call (filter (\<lambda>e. matcher (hte_key e) (hte_obj e)) (ht_entries t))),
       length (filter (\<lambda>e. matcher (hte_key e) (hte_obj e)) (ht_entries t)))" "wf_hashtable xxh t'"
      "ht_look xxh t' = (\<lambda>k. case ht_look xxh t k of None \<Rightarrow> None | Some v \<Rightarrow> if matcher k v then None else Some v)"
    using deleteAll_ok [OF assms] by blast
  have "ht_count t' = ht_count t - length (filter (\<lambda>e. matcher (hte_key e) (hte_obj e)) (ht_entries t))"
    using t'(1) by (auto simp: PSC_HashTable_deleteAll_def buckets_deleteAll_eq ht_entries_def)
  then have "ht_count t' + length (filter (\<lambda>e. matcher (hte_key e) (hte_obj e)) (ht_entries t)) = ht_count t"
    using assms length_filter_le [of "\<lambda>e. matcher (hte_key e) (hte_obj e)" "ht_entries t"]
    by (simp add: wf_hashtable_def)
  with t' get_look [OF t'(2)] show ?thesis by (simp add: PSC_HashTable_count_def)
qed

theorem hashtable_deleteAll_witness:
  "\<exists>t t' calls n. ht_put xxh_zero (PSC_HashTable_create 2) ''a'' (Some (1 :: nat))
       \<bind> (\<lambda>t. ht_put xxh_zero t ''b'' (Some 2)) = Some t \<and> wf_hashtable xxh_zero t \<and>
     PSC_HashTable_deleteAll t (\<lambda>k _. k = ''a'') = (t', calls, n) \<and>
     PSC_HashTable_get xxh_zero t' ''a'' = Some None \<and> PSC_HashTable_get xxh_zero t' ''b'' = Some (Some 2)"
proof -
  obtain t where t: "ht_put xxh_zero (PSC_HashTable_create 2) ''a'' (Some (1 :: nat))
       \<bind> (\<lambda>t. ht_put xxh_zero t ''b'' (Some 2)) = Some t" "wf_hashtable xxh_zero t"
      "ht_look xxh_zero t ''a'' = Some 1" "ht_look xxh_zero t ''b'' = Some 2"
    using hashtable_table.put_all [OF wf_hashtable_create [of xxh_zero 2],
        of "[(''a'', Some (1 :: nat)), (''b'', Some 2)]"]
    by auto
  with hashtable_deleteAll [OF t(2), of "\<lambda>k _. k = ''a''"] show ?thesis by fastforce
qed

end
