(* ===== verification/Poser_Dictionary.thy ===== *)
theory Poser_Dictionary
  imports Interfaces Poser_Hash "HOL-Library.Multiset"
begin

text \<open>
  \<open>PSC_Dictionary\<close> (\<open>src/lib/core/dictionary.c\<close>): a hash trie.  A table of 256
  buckets is indexed by the low 8 bits of a 64 bit hash; a bucket that has to hold a
  second key becomes a nested table of 256 (second level) or 16 buckets, indexed by the
  next bits.  At depth \<open>MAXNEST\<close> all bits are used, and entries with the same hash form
  a linked list.

  The four C structures for an entry (with and without an own destructor, with and
  without a \<open>next\<close> pointer) are one record; \<open>e_deleter\<close> is \<^const>\<open>NoFn\<close> where the
  structure has no such field.  The object of an entry is optional: \<^const>\<open>None\<close> is a
  null pointer.  The bucket locks of a shared dictionary are not part of this model: the
  operations are those of one thread that holds the lock.
\<close>

section \<open>Model\<close>

definition HT8_SIZE :: nat where "HT8_SIZE = 256"
definition HT4_SIZE :: nat where "HT4_SIZE = 16"
definition MAXNEST :: nat where "MAXNEST = 14"

record 'o Entry =
  e_key :: bytes
  e_obj :: "'o option"
  e_deleter :: deleter

datatype 'o HashBucket =
    BT_EMPTY
  | BT_ITEM "'o Entry" "'o Entry list"
  | BT_HT8 "'o HashBucket list"
  | BT_HT4 "'o HashBucket list"

record 'o PSC_Dictionary =
  d_deleter :: deleter
  d_hash :: PSC_Hash
  d_count :: u64
  d_shared :: bool
  d_buckets :: "'o HashBucket list"

text \<open>\<open>PSC_Dictionary_create\<close> fails when there is no random secret for the hash.\<close>

definition PSC_Dictionary_create :: "secret_state \<Rightarrow> bytes \<Rightarrow> deleter \<Rightarrow> bool
    \<Rightarrow> 'o PSC_Dictionary option \<times> secret_state" where
  "PSC_Dictionary_create st rnd del shared =
     (case PSC_Hash_create st rnd 1 of
        (None, st') \<Rightarrow> (None, st')
      | (Some h, st') \<Rightarrow> (Some \<lparr>d_deleter = del, d_hash = h, d_count = 0, d_shared = shared,
                                d_buckets = replicate HT8_SIZE BT_EMPTY\<rparr>, st'))"

definition createEntry :: "deleter \<Rightarrow> bytes \<Rightarrow> 'o option \<Rightarrow> deleter \<Rightarrow> 'o Entry" where
  "createEntry ddel key obj del =
     \<lparr>e_key = key, e_obj = obj, e_deleter = (if ddel \<noteq> NoFn then NoFn else del)\<rparr>"

text \<open>The destructor call for the object of an entry: the dictionary's own, or the entry's.\<close>

definition destroy_obj :: "deleter \<Rightarrow> 'o Entry \<Rightarrow> (deleter \<times> 'o option) list" where
  "destroy_obj ddel e =
     (if ddel \<noteq> NoFn then (if ddel \<noteq> NoDelete then [(ddel, e_obj e)] else [])
      else if e_deleter e \<noteq> NoFn then [(e_deleter e, e_obj e)] else [])"

definition replace_obj :: "deleter \<Rightarrow> 'o Entry \<Rightarrow> 'o \<Rightarrow> deleter \<Rightarrow> 'o Entry" where
  "replace_obj ddel e obj del =
     e\<lparr>e_obj := Some obj, e_deleter := (if ddel \<noteq> NoFn then e_deleter e else del)\<rparr>"

text \<open>
  The walk over the list at depth \<open>MAXNEST\<close>.  A missing key is appended, also when
  \<open>obj\<close> is null.
\<close>

fun list_set :: "deleter \<Rightarrow> 'o Entry list \<Rightarrow> bytes \<Rightarrow> 'o option \<Rightarrow> deleter \<Rightarrow> u64
    \<Rightarrow> 'o Entry list \<times> (deleter \<times> 'o option) list \<times> u64" where
  "list_set ddel [] key obj del cnt = ([createEntry ddel key obj del], [], cnt + 1)"
| "list_set ddel (el # els) key obj del cnt =
     (if e_key el = key
      then (case obj of
          Some v \<Rightarrow> (replace_obj ddel el v del # els, destroy_obj ddel el, cnt)
        | None \<Rightarrow> (els, destroy_obj ddel el, cnt - 1))
      else (case list_set ddel els key obj del cnt of (els', r) \<Rightarrow> (el # els', r)))"

definition mk_item :: "'o Entry list \<Rightarrow> 'o HashBucket" where
  "mk_item es = (case es of [] \<Rightarrow> BT_EMPTY | e # es \<Rightarrow> BT_ITEM e es)"

text \<open>A nested table that holds just the old entry of the bucket.\<close>

definition nest :: "u64 \<Rightarrow> nat \<Rightarrow> 'o Entry \<Rightarrow> 'o HashBucket" where
  "nest ehash depth e =
     (if 1 < depth
      then BT_HT4 ((replicate HT4_SIZE BT_EMPTY)
             [unat (drop_bit (16 + (depth - 2) * 4) ehash AND 0xf) := BT_ITEM e []])
      else BT_HT8 ((replicate HT8_SIZE BT_EMPTY)
             [unat (drop_bit 8 ehash AND 0xff) := BT_ITEM e []]))"

fun bucket_weight :: "nat \<Rightarrow> 'o HashBucket \<Rightarrow> nat" where
  "bucket_weight d BT_EMPTY = 0"
| "bucket_weight d (BT_ITEM e es) = 2 * (MAXNEST - d) + 1"
| "bucket_weight d (BT_HT8 bs) = Suc (sum_list (map (bucket_weight (Suc d)) bs))"
| "bucket_weight d (BT_HT4 bs) = Suc (sum_list (map (bucket_weight (Suc d)) bs))"

lemma bucket_weight_nth:
  "i < length bs \<Longrightarrow> bucket_weight d (bs ! i) \<le> sum_list (map (bucket_weight d) bs)"
  by (simp add: member_le_sum_list)

lemma sum_list_one_item:
  "sum_list (map (bucket_weight d) ((replicate n BT_EMPTY)[i := b])) \<le> bucket_weight d b"
proof (induction n arbitrary: i)
  case (Suc n)
  have "sum_list (map (bucket_weight d) (replicate n BT_EMPTY)) = 0"
    by (simp add: sum_list_replicate)
  with Suc show ?case by (cases i) simp_all
qed simp

lemma bucket_weight_nest:
  assumes "depth < MAXNEST"
  shows "bucket_weight depth (nest h depth e) < bucket_weight depth (BT_ITEM e es)"
proof -
  have "bucket_weight depth (nest h depth e) \<le> Suc (bucket_weight (Suc depth) (BT_ITEM e []))"
    by (simp add: nest_def sum_list_one_item del: bucket_weight.simps(2))
  also have "\<dots> < bucket_weight depth (BT_ITEM e es)"
    using assms by simp
  finally show ?thesis .
qed

text \<open>
  The recursive \<open>set\<close>.  \<open>H\<close> hashes a key, \<open>cnt\<close> is the entry counter of the
  dictionary.  \<^const>\<open>None\<close> is an index outside a bucket table.
\<close>

function dict_set :: "(bytes \<Rightarrow> u64) \<Rightarrow> deleter \<Rightarrow> 'o HashBucket \<Rightarrow> nat \<Rightarrow> u64 \<Rightarrow> bytes
    \<Rightarrow> 'o option \<Rightarrow> deleter \<Rightarrow> u64
    \<Rightarrow> ('o HashBucket \<times> (deleter \<times> 'o option) list \<times> u64) option" where
  "dict_set H ddel BT_EMPTY depth hash key obj del cnt =
     (if obj = None then Some (BT_EMPTY, [], cnt)
      else Some (BT_ITEM (createEntry ddel key obj del) [], [], cnt + 1))"
| "dict_set H ddel (BT_ITEM e es) depth hash key obj del cnt =
     (if MAXNEST \<le> depth
      then (case list_set ddel (e # es) key obj del cnt of
          (els, calls, cnt') \<Rightarrow> Some (mk_item els, calls, cnt'))
      else if e_key e = key
      then (case obj of
          Some v \<Rightarrow> Some (BT_ITEM (replace_obj ddel e v del) es, destroy_obj ddel e, cnt)
        | None \<Rightarrow> Some (BT_EMPTY, destroy_obj ddel e, cnt - 1))
      else dict_set H ddel (nest (H (e_key e)) depth e) depth hash key obj del cnt)"
| "dict_set H ddel (BT_HT8 bs) depth hash key obj del cnt =
     (let i = unat (hash AND 0xff)
      in if i < length bs
         then (case dict_set H ddel (bs ! i) (Suc depth) (drop_bit 8 hash) key obj del cnt of
             None \<Rightarrow> None
           | Some (b, r) \<Rightarrow> Some (BT_HT8 (bs[i := b]), r))
         else None)"
| "dict_set H ddel (BT_HT4 bs) depth hash key obj del cnt =
     (let i = unat (hash AND 0xf)
      in if i < length bs
         then (case dict_set H ddel (bs ! i) (Suc depth) (drop_bit 4 hash) key obj del cnt of
             None \<Rightarrow> None
           | Some (b, r) \<Rightarrow> Some (BT_HT4 (bs[i := b]), r))
         else None)"
  by pat_completeness auto
termination
  by (relation "measure (\<lambda>(H, dd, b, d, _). bucket_weight d b)")
     (simp_all add: bucket_weight_nest le_imp_less_Suc bucket_weight_nth del: bucket_weight.simps(2))


definition dict_hash :: "xxhash \<Rightarrow> 'o PSC_Dictionary \<Rightarrow> bytes \<Rightarrow> u64" where
  "dict_hash xxh self = PSC_Hash_bytes xxh (d_hash self)"

definition PSC_Dictionary_set :: "xxhash \<Rightarrow> 'o PSC_Dictionary \<Rightarrow> bytes \<Rightarrow> 'o option \<Rightarrow> deleter
    \<Rightarrow> ('o PSC_Dictionary \<times> (deleter \<times> 'o option) list) option" where
  "PSC_Dictionary_set xxh self key obj del =
     (let hash = dict_hash xxh self key;
          del = (if del = NoDelete then NoFn else del);
          i = unat (hash AND 0xff)
      in if i < length (d_buckets self)
         then (case dict_set (dict_hash xxh self) (d_deleter self) (d_buckets self ! i) 1
                      (drop_bit 8 hash) key obj del (d_count self) of
             None \<Rightarrow> None
           | Some (b, calls, cnt) \<Rightarrow>
               Some (self\<lparr>d_buckets := (d_buckets self)[i := b], d_count := cnt\<rparr>, calls))
         else None)"

fun list_get :: "'o Entry list \<Rightarrow> bytes \<Rightarrow> 'o option" where
  "list_get [] key = None"
| "list_get (el # els) key = (if e_key el = key then e_obj el else list_get els key)"

function dict_get :: "'o HashBucket \<Rightarrow> nat \<Rightarrow> u64 \<Rightarrow> bytes \<Rightarrow> 'o option option" where
  "dict_get BT_EMPTY depth hash key = Some None"
| "dict_get (BT_ITEM e es) depth hash key =
     (if MAXNEST \<le> depth then Some (list_get (e # es) key)
      else if e_key e \<noteq> key then Some None else Some (e_obj e))"
| "dict_get (BT_HT8 bs) depth hash key =
     (let i = unat (hash AND 0xff)
      in if i < length bs then dict_get (bs ! i) (Suc depth) (drop_bit 8 hash) key else None)"
| "dict_get (BT_HT4 bs) depth hash key =
     (let i = unat (hash AND 0xf)
      in if i < length bs then dict_get (bs ! i) (Suc depth) (drop_bit 4 hash) key else None)"
  by pat_completeness auto
termination
  by (relation "measure (\<lambda>(b, d, _). size b)")
     (auto simp: less_Suc_eq_le intro!: size_list_estimation' [OF nth_mem])

definition PSC_Dictionary_get :: "xxhash \<Rightarrow> 'o PSC_Dictionary \<Rightarrow> bytes \<Rightarrow> 'o option option" where
  "PSC_Dictionary_get xxh self key =
     (let hash = dict_hash xxh self key;
          i = unat (hash AND 0xff)
      in if i < length (d_buckets self)
         then dict_get (d_buckets self ! i) 1 (drop_bit 8 hash) key else None)"

definition PSC_Dictionary_count :: "'o PSC_Dictionary \<Rightarrow> u64" where
  "PSC_Dictionary_count self = d_count self"

text \<open>The walk of \<open>removeAll\<close> over the list at depth \<open>MAXNEST\<close>.\<close>

fun list_removeAll :: "deleter \<Rightarrow> 'o Entry list \<Rightarrow> (bytes \<Rightarrow> 'o option \<Rightarrow> bool)
    \<Rightarrow> 'o Entry list \<times> (deleter \<times> 'o option) list \<times> nat" where
  "list_removeAll ddel [] matcher = ([], [], 0)"
| "list_removeAll ddel (el # els) matcher =
     (case list_removeAll ddel els matcher of (els', calls, n) \<Rightarrow>
        if matcher (e_key el) (e_obj el) then (els', destroy_obj ddel el @ calls, Suc n)
        else (el # els', calls, n))"

text \<open>The recursive \<open>removeAll\<close>, and its loop over the buckets of a table.\<close>

fun dict_removeAll :: "deleter \<Rightarrow> 'o HashBucket \<Rightarrow> nat \<Rightarrow> (bytes \<Rightarrow> 'o option \<Rightarrow> bool)
    \<Rightarrow> 'o HashBucket \<times> (deleter \<times> 'o option) list \<times> nat"
  and buckets_removeAll :: "deleter \<Rightarrow> 'o HashBucket list \<Rightarrow> nat \<Rightarrow> (bytes \<Rightarrow> 'o option \<Rightarrow> bool)
    \<Rightarrow> 'o HashBucket list \<times> (deleter \<times> 'o option) list \<times> nat" where
  "dict_removeAll ddel BT_EMPTY depth matcher = (BT_EMPTY, [], 0)"
| "dict_removeAll ddel (BT_ITEM e es) depth matcher =
     (if MAXNEST \<le> depth
      then (case list_removeAll ddel (e # es) matcher of (els, r) \<Rightarrow> (mk_item els, r))
      else if matcher (e_key e) (e_obj e) then (BT_EMPTY, destroy_obj ddel e, 1)
      else (BT_ITEM e es, [], 0))"
| "dict_removeAll ddel (BT_HT8 bs) depth matcher =
     (case buckets_removeAll ddel bs (Suc depth) matcher of (bs', r) \<Rightarrow> (BT_HT8 bs', r))"
| "dict_removeAll ddel (BT_HT4 bs) depth matcher =
     (case buckets_removeAll ddel bs (Suc depth) matcher of (bs', r) \<Rightarrow> (BT_HT4 bs', r))"
| "buckets_removeAll ddel [] depth matcher = ([], [], 0)"
| "buckets_removeAll ddel (b # bs) depth matcher =
     (case dict_removeAll ddel b depth matcher of (b', calls, n) \<Rightarrow>
      case buckets_removeAll ddel bs depth matcher of (bs', calls', n') \<Rightarrow>
        (b' # bs', calls @ calls', n + n'))"

definition PSC_Dictionary_removeAll :: "'o PSC_Dictionary \<Rightarrow> (bytes \<Rightarrow> 'o option \<Rightarrow> bool)
    \<Rightarrow> 'o PSC_Dictionary \<times> (deleter \<times> 'o option) list \<times> nat" where
  "PSC_Dictionary_removeAll self matcher =
     (if d_count self = 0 then (self, [], 0)
      else (case buckets_removeAll (d_deleter self) (d_buckets self) 1 matcher of
          (bs, calls, removed) \<Rightarrow>
            (self\<lparr>d_buckets := bs, d_count := d_count self - of_nat removed\<rparr>, calls, removed)))"

fun dict_destroy :: "deleter \<Rightarrow> 'o HashBucket \<Rightarrow> nat \<Rightarrow> (deleter \<times> 'o option) list"
  and buckets_destroy :: "deleter \<Rightarrow> 'o HashBucket list \<Rightarrow> nat \<Rightarrow> (deleter \<times> 'o option) list" where
  "dict_destroy ddel BT_EMPTY depth = []"
| "dict_destroy ddel (BT_ITEM e es) depth =
     (if MAXNEST \<le> depth then concat (map (destroy_obj ddel) (e # es)) else destroy_obj ddel e)"
| "dict_destroy ddel (BT_HT8 bs) depth = buckets_destroy ddel bs (Suc depth)"
| "dict_destroy ddel (BT_HT4 bs) depth = buckets_destroy ddel bs (Suc depth)"
| "buckets_destroy ddel [] depth = []"
| "buckets_destroy ddel (b # bs) depth = dict_destroy ddel b depth @ buckets_destroy ddel bs depth"

definition PSC_Dictionary_destroy :: "'o PSC_Dictionary option \<Rightarrow> (deleter \<times> 'o option) list" where
  "PSC_Dictionary_destroy self =
     (case self of None \<Rightarrow> [] | Some d \<Rightarrow> buckets_destroy (d_deleter d) (d_buckets d) 1)"

section \<open>Entries and invariant\<close>

fun bentries :: "'o HashBucket \<Rightarrow> 'o Entry list" where
  "bentries BT_EMPTY = []"
| "bentries (BT_ITEM e es) = e # es"
| "bentries (BT_HT8 bs) = concat (map bentries bs)"
| "bentries (BT_HT4 bs) = concat (map bentries bs)"

text \<open>The number of hash bits consumed on the way to a bucket at some depth.\<close>

definition shift :: "nat \<Rightarrow> nat" where
  "shift d = (if d \<le> 1 then 8 * d else 16 + (d - 2) * 4)"

text \<open>\<open>slot H d w e\<close>: the index of an entry in a table below a bucket at depth \<open>d\<close>.\<close>

definition slot :: "(bytes \<Rightarrow> u64) \<Rightarrow> nat \<Rightarrow> u64 \<Rightarrow> bytes \<Rightarrow> nat" where
  "slot H d w k = unat (drop_bit (shift d) (H k) AND w)"

definition filed :: "(bytes \<Rightarrow> u64) \<Rightarrow> nat \<Rightarrow> u64 \<Rightarrow> 'o HashBucket list \<Rightarrow> bool" where
  "filed H d w bs \<longleftrightarrow> (\<forall>i < length bs. \<forall>e \<in> set (bentries (bs ! i)). slot H d w (e_key e) = i)"

text \<open>
  Well-formed buckets: an item below \<open>MAXNEST\<close> is a single entry, a list has distinct
  keys, tables have their sizes and occur at their depths, and every entry of a table is
  filed under the index of its own hash.
\<close>

fun wf_bucket :: "(bytes \<Rightarrow> u64) \<Rightarrow> nat \<Rightarrow> 'o HashBucket \<Rightarrow> bool" where
  "wf_bucket H d BT_EMPTY = True"
| "wf_bucket H d (BT_ITEM e es) =
     (if MAXNEST \<le> d then distinct (map e_key (e # es)) else es = [])"
| "wf_bucket H d (BT_HT8 bs) =
     (d \<le> 1 \<and> length bs = HT8_SIZE \<and> filed H d 0xff bs \<and> list_all (wf_bucket H (Suc d)) bs)"
| "wf_bucket H d (BT_HT4 bs) =
     (1 < d \<and> d < MAXNEST \<and> length bs = HT4_SIZE \<and> filed H d 0xf bs \<and>
      list_all (wf_bucket H (Suc d)) bs)"

definition dict_entries :: "'o PSC_Dictionary \<Rightarrow> 'o Entry list" where
  "dict_entries d = concat (map bentries (d_buckets d))"

text \<open>The dictionary itself is a table at depth 0; the counter counts its entries.\<close>

definition wf_dict :: "xxhash \<Rightarrow> 'o PSC_Dictionary \<Rightarrow> bool" where
  [wf_defs]: "wf_dict xxh d \<longleftrightarrow> wf_bucket (dict_hash xxh d) 0 (BT_HT8 (d_buckets d)) \<and>
     d_count d = of_nat (length (dict_entries d))"


section \<open>Lookup in the list of all entries\<close>

definition entry_of :: "'o Entry list \<Rightarrow> bytes \<Rightarrow> 'o Entry option" where
  "entry_of es k = find (\<lambda>e. e_key e = k) es"

lemma entry_of_simps [simp]:
  "entry_of [] k = None"
  "entry_of (e # es) k = (if e_key e = k then Some e else entry_of es k)"
  by (simp_all add: entry_of_def)

lemma entry_of_append: "entry_of (xs @ ys) k =
  (case entry_of xs k of None \<Rightarrow> entry_of ys k | Some e \<Rightarrow> Some e)"
  by (induction xs) auto

lemma entry_of_None: "entry_of es k = None \<longleftrightarrow> k \<notin> e_key ` set es"
  by (induction es) auto

lemma entry_of_Some: "entry_of es k = Some e \<Longrightarrow> e \<in> set es \<and> e_key e = k"
  by (induction es) (auto split: if_splits)

lemma list_get_entry: "list_get es k = Option.bind (entry_of es k) e_obj"
  by (induction es) auto

lemma slot_less:
  "slot H d 0xff k < HT8_SIZE" "slot H d 0xf k < HT4_SIZE"
  using word_and_le1 [of "drop_bit (shift d) (H k)" "0xff :: u64"]
    word_and_le1 [of "drop_bit (shift d) (H k)" "0xf :: u64"]
  by (simp_all add: slot_def HT8_SIZE_def HT4_SIZE_def word_le_nat_alt)

text \<open>A filed table is searched in the bucket of the key's index only.\<close>

lemma entry_of_concat_other:
  "\<forall>b \<in> set bs. entry_of (bentries b) k = None \<Longrightarrow> entry_of (concat (map bentries bs)) k = None"
  by (induction bs) (auto simp: entry_of_append)

lemma entry_of_concat_nth:
  assumes "i < length bs" "\<And>j. j < length bs \<Longrightarrow> j \<noteq> i \<Longrightarrow> entry_of (bentries (bs ! j)) k = None"
  shows "entry_of (concat (map bentries bs)) k = entry_of (bentries (bs ! i)) k"
proof -
  have bs: "bs = take i bs @ bs ! i # drop (Suc i) bs"
    using assms(1) by (rule id_take_nth_drop)
  have "entry_of (concat (map bentries (take i bs))) k = None"
       "entry_of (concat (map bentries (drop (Suc i) bs))) k = None"
    using assms by (intro entry_of_concat_other; auto simp: in_set_conv_nth)+
  then show ?thesis
    by (subst bs) (simp add: entry_of_append split: option.split)
qed

lemma entry_of_filed:
  assumes "filed H d w bs" "slot H d w k < length bs"
  shows "entry_of (concat (map bentries bs)) k = entry_of (bentries (bs ! slot H d w k)) k"
proof (rule entry_of_concat_nth [OF assms(2)])
  fix j assume "j < length bs" "j \<noteq> slot H d w k"
  with assms(1) show "entry_of (bentries (bs ! j)) k = None"
    by (auto simp: filed_def entry_of_None)
qed

lemma shift_8: "d \<le> 1 \<Longrightarrow> shift (Suc d) = shift d + 8"
  by (cases d) (simp_all add: shift_def)

lemma shift_4: "1 < d \<Longrightarrow> shift (Suc d) = shift d + 4"
  by (simp add: shift_def Suc_diff_le)

lemma drop_shift:
  fixes h :: u64
  shows "d \<le> 1 \<Longrightarrow> drop_bit 8 (drop_bit (shift d) h) = drop_bit (shift (Suc d)) h"
    and "1 < d \<Longrightarrow> drop_bit 4 (drop_bit (shift d) h) = drop_bit (shift (Suc d)) h"
  by (simp_all add: shift_8 shift_4 drop_bit_drop_bit add.commute)

section \<open>What \<open>dict_set\<close> does\<close>

text \<open>
  The effect of storing \<open>obj\<close> under \<open>key\<close> on the entries: other keys keep their
  entries, the key has the new object, a null object removes an existing entry, and the
  destructor runs for the object that was replaced or removed.
\<close>

definition set_effect :: "deleter \<Rightarrow> bytes \<Rightarrow> 'o option \<Rightarrow> 'o Entry list \<Rightarrow> 'o Entry list
    \<Rightarrow> (deleter \<times> 'o option) list \<Rightarrow> bool" where
  "set_effect ddel key obj es es' calls \<longleftrightarrow>
     (\<forall>k. k \<noteq> key \<longrightarrow> entry_of es' k = entry_of es k) \<and>
     Option.bind (entry_of es' key) e_obj = obj \<and>
     (obj = None \<longrightarrow> entry_of es key \<noteq> None \<longrightarrow> entry_of es' key = None) \<and>
     calls = (case entry_of es key of None \<Rightarrow> [] | Some e \<Rightarrow> destroy_obj ddel e)"

lemma set_effect_keys: "set_effect ddel key obj es es' calls \<Longrightarrow>
  e_key ` set es' \<subseteq> insert key (e_key ` set es)"
proof
  fix k assume eff: "set_effect ddel key obj es es' calls" and k: "k \<in> e_key ` set es'"
  then have "k = key \<or> entry_of es k \<noteq> None"
    unfolding set_effect_def by (metis entry_of_None)
  then show "k \<in> insert key (e_key ` set es)" by (auto simp: entry_of_None)
qed

lemma createEntry_sel [simp]: "e_key (createEntry dd k obj del) = k" "e_obj (createEntry dd k obj del) = obj"
  by (simp_all add: createEntry_def)

lemma replace_obj_sel [simp]: "e_key (replace_obj dd e v del) = e_key e" "e_obj (replace_obj dd e v del) = Some v"
  by (simp_all add: replace_obj_def)

lemma list_set_ok:
  "list_set ddel es key obj del cnt = (es', calls, cnt') \<Longrightarrow> distinct (map e_key es) \<Longrightarrow>
     distinct (map e_key es') \<and> set_effect ddel key obj es es' calls \<and>
     cnt' + of_nat (length es) = cnt + of_nat (length es')"
proof (induction es arbitrary: es')
  case Nil
  then show ?case by (auto simp: set_effect_def)
next
  case (Cons e es)
  show ?case
  proof (cases "e_key e = key")
    case True
    then have "entry_of es key = None" using Cons.prems by (auto simp: entry_of_None)
    with True Cons.prems show ?thesis
      by (cases obj) (auto simp: set_effect_def)
  next
    case False
    then obtain es1 where es1: "list_set ddel es key obj del cnt = (es1, calls, cnt')" "es' = e # es1"
      using Cons.prems(1) by (auto split: prod.splits)
    note IH = Cons.IH [OF es1(1)]
    then have "e_key ` set es1 \<subseteq> insert key (e_key ` set es)"
      using Cons.prems(2) set_effect_keys [of ddel key obj es es1 calls] by simp
    with IH es1(2) Cons.prems(2) False show ?thesis
      by (auto simp: set_effect_def algebra_simps)
  qed
qed

lemma bentries_mk_item [simp]: "bentries (mk_item es) = es"
  by (cases es) (simp_all add: mk_item_def)

lemma wf_bucket_mk_item: "MAXNEST \<le> d \<Longrightarrow> distinct (map e_key es) \<Longrightarrow> wf_bucket H d (mk_item es)"
  by (cases es) (simp_all add: mk_item_def)

lemma concat_one_item:
  "i < n \<Longrightarrow> concat (map bentries ((replicate n BT_EMPTY)[i := BT_ITEM e []])) = [e]"
proof (induction n arbitrary: i)
  case (Suc n)
  have "concat (map bentries (replicate n BT_EMPTY)) = []" by (induction n) simp_all
  with Suc show ?case by (cases i) simp_all
qed simp

lemma filed_one_item:
  "i < n \<Longrightarrow> slot H d w (e_key e) = i \<Longrightarrow> filed H d w ((replicate n BT_EMPTY)[i := BT_ITEM e []])"
  by (auto simp: filed_def nth_list_update split: if_splits)

lemma wf_nest:
  assumes "0 < d" "d < MAXNEST"
  shows "wf_bucket H d (nest (H (e_key e)) d e)" "bentries (nest (H (e_key e)) d e) = [e]"
proof -
  have 4: "drop_bit (16 + (d - 2) * 4) (H (e_key e)) = drop_bit (shift d) (H (e_key e))" if "1 < d"
    using that by (simp add: shift_def)
  have 8: "drop_bit 8 (H (e_key e)) = drop_bit (shift d) (H (e_key e))" if "\<not> 1 < d"
    using that assms(1) by (cases "d = 1") (simp_all add: shift_def)
  show "bentries (nest (H (e_key e)) d e) = [e]"
    using slot_less [of H d "e_key e"] by (simp add: nest_def 4 8 concat_one_item flip: slot_def)
  show "wf_bucket H d (nest (H (e_key e)) d e)"
    using slot_less [of H d "e_key e"] assms
    by (simp add: nest_def 4 8 filed_one_item list_all_length nth_list_update flip: slot_def)
qed


text \<open>Replacing the bucket of the key lifts the effect to the whole table.\<close>

definition grows :: "u64 \<Rightarrow> 'o Entry list \<Rightarrow> u64 \<Rightarrow> 'o Entry list \<Rightarrow> bool" where
  "grows cnt es cnt' es' \<longleftrightarrow> cnt' + of_nat (length es) = cnt + of_nat (length es')"

lemma add_shuffle:
  fixes n n' c c' a a' :: u64
  assumes "n' + c = n + c'" "a' + c = a + c'"
  shows "n' + a = n + a'"
proof -
  have "n' = n + c' - c" "a' = a + c' - c"
    using assms by (simp_all only: eq_diff_eq)
  then show ?thesis by simp
qed

lemma length_concat_bentries:
  "i < length bs \<Longrightarrow> length (concat (map bentries (bs[i := b]))) + length (bentries (bs ! i))
     = length (concat (map bentries bs)) + length (bentries b)"
proof (induction bs arbitrary: i)
  case (Cons a bs)
  then show ?case by (cases i) auto
qed simp

lemma table_step:
  assumes filed: "filed H d w bs" and i: "slot H d w key < length bs"
    and range: "\<And>k. slot H d w k < length bs"
    and eff: "set_effect ddel key obj (bentries (bs ! slot H d w key)) (bentries b) calls"
    and cnt: "grows cnt (bentries (bs ! slot H d w key)) cnt' (bentries b)"
  shows "filed H d w (bs[slot H d w key := b])"
    and "set_effect ddel key obj (concat (map bentries bs))
           (concat (map bentries (bs[slot H d w key := b]))) calls"
    and "grows cnt (concat (map bentries bs)) cnt' (concat (map bentries (bs[slot H d w key := b])))"
proof -
  let ?i = "slot H d w key"
  let ?bs = "bs[?i := b]"
  have keys: "e_key e = key \<or> (\<exists>e' \<in> set (bentries (bs ! ?i)). e_key e = e_key e')"
    if "e \<in> set (bentries b)" for e
    using set_effect_keys [OF eff] that by blast
  have "slot H d w (e_key e) = ?i" if "e \<in> set (bentries b)" for e
    using keys [OF that] filed i by (auto simp: filed_def)
  with filed i show f': "filed H d w ?bs"
    unfolding filed_def by (metis length_list_update nth_list_update_eq nth_list_update_neq)
  have old: "entry_of (concat (map bentries bs)) k = entry_of (bentries (bs ! slot H d w k)) k" for k
    by (rule entry_of_filed [OF filed range])
  have new: "entry_of (concat (map bentries ?bs)) k = entry_of (bentries (?bs ! slot H d w k)) k" for k
    using entry_of_filed [OF f'] range by simp
  show "set_effect ddel key obj (concat (map bentries bs)) (concat (map bentries ?bs)) calls"
    using eff i by (auto simp: set_effect_def old new nth_list_update)
  have "of_nat (length (concat (map bentries ?bs))) + of_nat (length (bentries (bs ! ?i)))
      = (of_nat (length (concat (map bentries bs))) + of_nat (length (bentries b)) :: u64)"
    unfolding of_nat_add [symmetric] length_concat_bentries [OF i] ..
  then show "grows cnt (concat (map bentries bs)) cnt' (concat (map bentries ?bs))"
    unfolding grows_def by (rule add_shuffle [OF cnt [unfolded grows_def]])
qed

lemma list_all_update: "list_all P bs \<Longrightarrow> P b \<Longrightarrow> list_all P (bs[i := b])"
  by (metis list_all_iff insertE set_update_subset_insert subsetD)

definition set_ok_at :: "(bytes \<Rightarrow> u64) \<Rightarrow> deleter \<Rightarrow> nat \<Rightarrow> 'o HashBucket \<Rightarrow> bytes \<Rightarrow> 'o option
    \<Rightarrow> u64 \<Rightarrow> ('o HashBucket \<times> (deleter \<times> 'o option) list \<times> u64) option \<Rightarrow> bool" where
  "set_ok_at H ddel d b key obj cnt r \<longleftrightarrow>
     (\<exists>b' calls cnt'. r = Some (b', calls, cnt') \<and> wf_bucket H d b' \<and>
        set_effect ddel key obj (bentries b) (bentries b') calls \<and>
        grows cnt (bentries b) cnt' (bentries b'))"

lemma dict_set_ok:
  assumes "wf_bucket H d b" "0 < d \<or> (\<exists>bs. b = BT_HT8 bs)" "hash = drop_bit (shift d) (H key)"
  shows "set_ok_at H ddel d b key obj cnt (dict_set H ddel b d hash key obj del cnt)"
  using assms
proof (induction H ddel b d hash key obj del cnt rule: dict_set.induct)
  case (1 H ddel depth hash key obj del cnt)
  then show ?case
    by (cases obj) (auto simp: set_ok_at_def set_effect_def grows_def MAXNEST_def)
next
  case (2 H ddel e es depth hash key obj del cnt)
  show ?case
  proof (cases "MAXNEST \<le> depth")
    case True
    obtain els calls cnt' where ls: "list_set ddel (e # es) key obj del cnt = (els, calls, cnt')"
      by (metis prod_cases3)
    with True "2.prems"(1) list_set_ok [OF ls] show ?thesis
      by (simp add: set_ok_at_def grows_def wf_bucket_mk_item)
  next
    case deep: False
    then have es: "es = []" using "2.prems"(1) by simp
    show ?thesis
    proof (cases "e_key e = key")
      case True
      with deep es show ?thesis
        by (cases obj) (auto simp: set_ok_at_def set_effect_def grows_def)
    next
      case False
      have "0 < depth" using "2.prems"(2) by simp
      note nest = wf_nest [OF this, of H e]
      have "set_ok_at H ddel depth (nest (H (e_key e)) depth e) key obj cnt
          (dict_set H ddel (nest (H (e_key e)) depth e) depth hash key obj del cnt)"
        using "2.IH" [OF deep False] nest deep \<open>0 < depth\<close> "2.prems"(3) by simp
      with deep False es nest(2) show ?thesis
        by (simp add: set_ok_at_def del: bentries.simps(3,4))
    qed
  qed
next
  case (3 H ddel bs depth hash key obj del cnt)
  let ?i = "slot H depth 0xff key"
  have i: "unat (hash AND 0xff) = ?i"
    using "3.prems"(3) by (simp add: slot_def)
  have len: "length bs = HT8_SIZE" "depth \<le> 1" "filed H depth 0xff bs"
      "list_all (wf_bucket H (Suc depth)) bs"
    using "3.prems"(1) by simp_all
  have r: "\<And>k. slot H depth 0xff k < length bs"
    using slot_less(1) len(1) by simp
  have "set_ok_at H ddel (Suc depth) (bs ! ?i) key obj cnt
      (dict_set H ddel (bs ! ?i) (Suc depth) (drop_bit 8 hash) key obj del cnt)"
    using "3.IH" [OF i [symmetric] r] len r [of key] drop_shift(1) "3.prems"(3)
    by (simp add: list_all_length)
  then obtain b calls cnt' where b:
      "dict_set H ddel (bs ! ?i) (Suc depth) (drop_bit 8 hash) key obj del cnt = Some (b, calls, cnt')"
      "wf_bucket H (Suc depth) b" "set_effect ddel key obj (bentries (bs ! ?i)) (bentries b) calls"
      "grows cnt (bentries (bs ! ?i)) cnt' (bentries b)"
    unfolding set_ok_at_def by blast
  note step = table_step [OF len(3) r r b(3,4)]
  from step b(1,2) len r [of key] show ?case
    by (simp add: set_ok_at_def i Let_def list_all_update)
next
  case (4 H ddel bs depth hash key obj del cnt)
  let ?i = "slot H depth 0xf key"
  have i: "unat (hash AND 0xf) = ?i"
    using "4.prems"(3) by (simp add: slot_def)
  have len: "length bs = HT4_SIZE" "1 < depth" "depth < MAXNEST" "filed H depth 0xf bs"
      "list_all (wf_bucket H (Suc depth)) bs"
    using "4.prems"(1) by simp_all
  have r: "\<And>k. slot H depth 0xf k < length bs"
    using slot_less(2) len(1) by simp
  have "set_ok_at H ddel (Suc depth) (bs ! ?i) key obj cnt
      (dict_set H ddel (bs ! ?i) (Suc depth) (drop_bit 4 hash) key obj del cnt)"
    using "4.IH" [OF i [symmetric] r] len r [of key] drop_shift(2) "4.prems"(3)
    by (simp add: list_all_length)
  then obtain b calls cnt' where b:
      "dict_set H ddel (bs ! ?i) (Suc depth) (drop_bit 4 hash) key obj del cnt = Some (b, calls, cnt')"
      "wf_bucket H (Suc depth) b" "set_effect ddel key obj (bentries (bs ! ?i)) (bentries b) calls"
      "grows cnt (bentries (bs ! ?i)) cnt' (bentries b)"
    unfolding set_ok_at_def by blast
  note step = table_step [OF len(4) r r b(3,4)]
  from step b(1,2) len r [of key] show ?case
    by (simp add: set_ok_at_def i Let_def list_all_update)
qed


section \<open>Lookup and the dictionary as a map\<close>

lemma dict_get_ok:
  assumes "wf_bucket H d b" "hash = drop_bit (shift d) (H key)"
  shows "dict_get b d hash key = Some (list_get (bentries b) key)"
  using assms
proof (induction b d hash key rule: dict_get.induct)
  case (3 bs depth hash key)
  have i: "unat (hash AND 0xff) = slot H depth 0xff key"
    using "3.prems"(2) by (simp add: slot_def)
  have len: "length bs = HT8_SIZE" "depth \<le> 1" "filed H depth 0xff bs"
      "list_all (wf_bucket H (Suc depth)) bs"
    using "3.prems"(1) by simp_all
  have r: "slot H depth 0xff key < length bs"
    using slot_less(1) len(1) by simp
  have nxt: "drop_bit 8 hash = drop_bit (shift (Suc depth)) (H key)"
    using drop_shift(1) [OF len(2)] "3.prems"(2) by simp
  have "wf_bucket H (Suc depth) (bs ! slot H depth 0xff key)"
    using len(4) r by (simp add: list_all_length)
  from "3.IH" [OF i [symmetric] r this nxt] len r show ?case
    by (simp add: Let_def i list_get_entry entry_of_filed)
next
  case (4 bs depth hash key)
  have i: "unat (hash AND 0xf) = slot H depth 0xf key"
    using "4.prems"(2) by (simp add: slot_def)
  have len: "length bs = HT4_SIZE" "1 < depth" "filed H depth 0xf bs"
      "list_all (wf_bucket H (Suc depth)) bs"
    using "4.prems"(1) by simp_all
  have r: "slot H depth 0xf key < length bs"
    using slot_less(2) len(1) by simp
  have nxt: "drop_bit 4 hash = drop_bit (shift (Suc depth)) (H key)"
    using drop_shift(2) [OF len(2)] "4.prems"(2) by simp
  have "wf_bucket H (Suc depth) (bs ! slot H depth 0xf key)"
    using len(4) r by (simp add: list_all_length)
  from "4.IH" [OF i [symmetric] r this nxt] len r show ?case
    by (simp add: Let_def i list_get_entry entry_of_filed)
qed auto

lemma distinct_filed:
  assumes "filed H d w bs" "\<And>b. b \<in> set bs \<Longrightarrow> distinct (map e_key (bentries b))"
  shows "distinct (map e_key (concat (map bentries bs)))"
  using assms
proof (induction bs rule: rev_induct)
  case (snoc b bs)
  have "filed H d w bs"
    using snoc.prems(1) unfolding filed_def by (metis length_append_singleton less_Suc_eq nth_append)
  moreover have diff: "e_key e \<noteq> e_key e'" if e: "e \<in> set (bentries b)" and b': "b' \<in> set bs" "e' \<in> set (bentries b')"
    for e b' e'
  proof -
    obtain j where j: "j < length bs" "bs ! j = b'" using b' by (auto simp: in_set_conv_nth)
    have "slot H d w (e_key e) = length bs" "slot H d w (e_key e') = j"
      using snoc.prems(1) e b' j by (auto simp: filed_def nth_append all_conj_distrib dest: spec [of _ j])
    with j show ?thesis by auto
  qed
  then have "set (map e_key (concat (map bentries bs))) \<inter> set (map e_key (bentries b)) = {}"
    using diff by fastforce
  ultimately show ?case using snoc by simp
qed simp

lemma wf_bucket_distinct: "wf_bucket H d b \<Longrightarrow> distinct (map e_key (bentries b))"
proof (induction b arbitrary: d)
  case (BT_HT8 bs)
  have "filed H d 0xff bs" "\<And>b. b \<in> set bs \<Longrightarrow> distinct (map e_key (bentries b))"
    using BT_HT8 by (auto simp: list_all_iff)
  from distinct_filed [OF this] show ?case by simp
next
  case (BT_HT4 bs)
  have "filed H d 0xf bs" "\<And>b. b \<in> set bs \<Longrightarrow> distinct (map e_key (bentries b))"
    using BT_HT4 by (auto simp: list_all_iff)
  from distinct_filed [OF this] show ?case by simp
qed (auto split: if_splits)

definition dict_look :: "xxhash \<Rightarrow> 'o PSC_Dictionary \<Rightarrow> bytes \<Rightarrow> 'o option" where
  "dict_look xxh d key = list_get (dict_entries d) key"

lemma dictionary_get_ok: "wf_dict xxh d \<Longrightarrow> PSC_Dictionary_get xxh d key = Some (dict_look xxh d key)"
  using dict_get_ok [of "dict_hash xxh d" 0 "BT_HT8 (d_buckets d)" "dict_hash xxh d key" key]
  by (simp add: PSC_Dictionary_get_def dict_look_def dict_entries_def wf_dict_def shift_def Let_def
      split: if_splits)

text \<open>The top-level operation is \<open>dict_set\<close> on the table at depth 0.\<close>

lemma dictionary_set_eq:
  "PSC_Dictionary_set xxh d key obj del =
     (case dict_set (dict_hash xxh d) (d_deleter d) (BT_HT8 (d_buckets d)) 0 (dict_hash xxh d key) key obj
             (if del = NoDelete then NoFn else del) (d_count d) of
        Some (BT_HT8 bs, calls, cnt) \<Rightarrow> Some (d\<lparr>d_buckets := bs, d_count := cnt\<rparr>, calls)
      | _ \<Rightarrow> None)"
  by (simp add: PSC_Dictionary_set_def Let_def split: option.split prod.split)

lemma dictionary_set_ok:
  assumes wf: "wf_dict xxh d"
  shows "\<exists>d' calls. PSC_Dictionary_set xxh d key obj del = Some (d', calls) \<and> wf_dict xxh d' \<and>
     d_deleter d' = d_deleter d \<and> d_hash d' = d_hash d \<and>
     set_effect (d_deleter d) key obj (dict_entries d) (dict_entries d') calls"
proof -
  let ?H = "dict_hash xxh d"
  let ?r = "dict_set ?H (d_deleter d) (BT_HT8 (d_buckets d)) 0 (?H key) key obj
      (if del = NoDelete then NoFn else del) (d_count d)"
  have "set_ok_at ?H (d_deleter d) 0 (BT_HT8 (d_buckets d)) key obj (d_count d) ?r"
    using wf by (intro dict_set_ok) (auto simp: wf_dict_def shift_def)
  then obtain b calls cnt where r: "?r = Some (b, calls, cnt)" "wf_bucket ?H 0 b"
      "set_effect (d_deleter d) key obj (dict_entries d) (bentries b) calls"
      "grows (d_count d) (dict_entries d) cnt (bentries b)"
    unfolding set_ok_at_def dict_entries_def by auto
  obtain bs where bs: "b = BT_HT8 bs"
    using r(1) by (auto simp: Let_def split: if_splits option.splits)
  let ?d = "d\<lparr>d_buckets := bs, d_count := cnt\<rparr>"
  have "cnt = of_nat (length (bentries b))"
    using r(4) wf by (simp add: grows_def wf_dict_def)
  with r bs have "wf_dict xxh ?d"
    by (simp add: wf_dict_def dict_hash_def dict_entries_def)
  with r bs show ?thesis
    by (simp add: dictionary_set_eq dict_entries_def)
qed

lemma set_effect_look: "set_effect ddel key obj es es' calls \<Longrightarrow>
  list_get es' k = (if k = key then obj else list_get es k)"
  by (simp add: set_effect_def list_get_entry)

definition dict_put :: "xxhash \<Rightarrow> 'o PSC_Dictionary \<Rightarrow> bytes \<Rightarrow> 'o option \<Rightarrow> 'o PSC_Dictionary option" where
  "dict_put xxh d key obj = map_option fst (PSC_Dictionary_set xxh d key obj NoFn)"

interpretation dictionary_table: table "dict_put xxh" "dict_look xxh" "wf_dict xxh" for xxh
proof (unfold_locales, goal_cases)
  case (1 d k v)
  then obtain d' calls where "PSC_Dictionary_set xxh d k v NoFn = Some (d', calls)" "wf_dict xxh d'"
      "set_effect (d_deleter d) k v (dict_entries d) (dict_entries d') calls"
    using dictionary_set_ok by blast
  then show ?case
    using set_effect_look [of "d_deleter d" k v "dict_entries d" "dict_entries d'" calls]
    by (simp add: dict_put_def dict_look_def fun_eq_iff)
qed

lemma wf_dict_create:
  "PSC_Dictionary_create st rnd del shared = (Some d, st') \<Longrightarrow>
     wf_dict xxh d \<and> dict_look xxh d = Map.empty \<and> dict_entries d = []"
proof -
  have "concat (map bentries (replicate n BT_EMPTY)) = []" for n by (induction n) simp_all
  then show "PSC_Dictionary_create st rnd del shared = (Some d, st') \<Longrightarrow> ?thesis"
    by (auto simp: PSC_Dictionary_create_def wf_dict_def dict_entries_def dict_look_def filed_def
        list_all_length split: prod.splits option.splits)
qed

section \<open>Counting\<close>

text \<open>Entries whose object is null; \<open>set\<close> makes one only for an absent key.\<close>

definition no_null :: "'o PSC_Dictionary \<Rightarrow> bool" where
  "no_null d \<longleftrightarrow> (\<forall>e \<in> set (dict_entries d). e_obj e \<noteq> None)"

lemma wf_dict_distinct: "wf_dict xxh d \<Longrightarrow> distinct (map e_key (dict_entries d))"
  using wf_bucket_distinct [of "dict_hash xxh d" 0 "BT_HT8 (d_buckets d)"]
  by (simp add: wf_dict_def dict_entries_def)

lemma entry_of_mem: "distinct (map e_key es) \<Longrightarrow> e \<in> set es \<Longrightarrow> entry_of es (e_key e) = Some e"
  by (induction es) auto

lemma count_dom:
  assumes "wf_dict xxh d" "no_null d"
  shows "d_count d = of_nat (card (dom (dict_look xxh d)))"
proof -
  have "dom (dict_look xxh d) = e_key ` set (dict_entries d)"
  proof (intro set_eqI iffI)
    fix k assume "k \<in> e_key ` set (dict_entries d)"
    then show "k \<in> dom (dict_look xxh d)"
      using assms(2) entry_of_mem [OF wf_dict_distinct [OF assms(1)]]
      by (auto simp: dict_look_def list_get_entry no_null_def)
  next
    fix k assume "k \<in> dom (dict_look xxh d)"
    then have "entry_of (dict_entries d) k \<noteq> None"
      by (auto simp: dict_look_def list_get_entry bind_eq_Some_conv)
    then show "k \<in> e_key ` set (dict_entries d)" by (simp add: entry_of_None)
  qed
  moreover have "card (e_key ` set (dict_entries d)) = length (dict_entries d)"
    using distinct_card [OF wf_dict_distinct [OF assms(1)]] by simp
  ultimately show ?thesis using assms(1) by (simp add: wf_dict_def)
qed

lemma set_effect_no_null:
  assumes "set_effect ddel key obj es es' calls" "distinct (map e_key es')"
    and "\<forall>e \<in> set es. e_obj e \<noteq> None" "obj \<noteq> None \<or> entry_of es key \<noteq> None"
  shows "\<forall>e \<in> set es'. e_obj e \<noteq> None"
proof
  fix e assume "e \<in> set es'"
  then have e: "entry_of es' (e_key e) = Some e"
    using assms(2) entry_of_mem by blast
  show "e_obj e \<noteq> None"
  proof (cases "e_key e = key")
    case True
    with e assms(1,4) show ?thesis by (auto simp: set_effect_def)
  next
    case False
    with e assms(1) have "entry_of es (e_key e) = Some e" by (simp add: set_effect_def)
    with assms(3) entry_of_Some show ?thesis by blast
  qed
qed


section \<open>Removal by predicate and destruction\<close>

definition matching :: "(bytes \<Rightarrow> 'o option \<Rightarrow> bool) \<Rightarrow> 'o Entry \<Rightarrow> bool" where
  "matching p e \<longleftrightarrow> p (e_key e) (e_obj e)"

lemma list_removeAll_eq:
  "list_removeAll ddel es p = (filter (\<lambda>e. \<not> matching p e) es,
     concat (map (destroy_obj ddel) (filter (matching p) es)), length (filter (matching p) es))"
  by (induction es) (auto simp: matching_def)

text \<open>What \<open>removeAll\<close> returns for the entries \<open>es\<close>.\<close>

definition removed :: "deleter \<Rightarrow> (bytes \<Rightarrow> 'o option \<Rightarrow> bool) \<Rightarrow> 'o Entry list
    \<Rightarrow> (deleter \<times> 'o option) list \<times> nat" where
  "removed ddel p es = (concat (map (destroy_obj ddel) (filter (matching p) es)),
     length (filter (matching p) es))"

lemma removed_append: "removed ddel p (xs @ ys) =
  (fst (removed ddel p xs) @ fst (removed ddel p ys), snd (removed ddel p xs) + snd (removed ddel p ys))"
  by (simp add: removed_def)

lemma filed_filter:
  assumes "filed H d w bs" "map bentries bs' = map (\<lambda>b. filter q (bentries b)) bs"
  shows "filed H d w bs'"
proof -
  have len: "length bs' = length bs" using assms(2) by (metis length_map)
  have "bentries (bs' ! i) = filter q (bentries (bs ! i))" if "i < length bs" for i
    using arg_cong [OF assms(2), of "\<lambda>l. l ! i"] that len by simp
  with assms(1) len show ?thesis by (auto simp: filed_def)
qed

lemma concat_map_filter: "concat (map (\<lambda>b. filter q (f b)) bs) = filter q (concat (map f bs))"
  by (induction bs) simp_all

lemma removeAll_ok:
  "wf_bucket H d b \<Longrightarrow> \<exists>b'. dict_removeAll ddel b d p = (b', removed ddel p (bentries b)) \<and>
     wf_bucket H d b' \<and> bentries b' = filter (\<lambda>e. \<not> matching p e) (bentries b)"
  "list_all (wf_bucket H d) bs \<Longrightarrow> \<exists>bs'. buckets_removeAll ddel bs d p =
       (bs', removed ddel p (concat (map bentries bs))) \<and> list_all (wf_bucket H d) bs' \<and>
     map bentries bs' = map (\<lambda>b. filter (\<lambda>e. \<not> matching p e) (bentries b)) bs"
proof (induction ddel b d p and ddel bs d p rule: dict_removeAll_buckets_removeAll.induct)
  case (2 ddel e es depth p)
  then show ?case
    by (auto simp: list_removeAll_eq removed_def wf_bucket_mk_item matching_def distinct_map_filter
        split: if_splits intro!: wf_bucket_mk_item)
next
  case (3 ddel bs depth p)
  then obtain bs' where bs': "buckets_removeAll ddel bs (Suc depth) p =
        (bs', removed ddel p (concat (map bentries bs)))" "list_all (wf_bucket H (Suc depth)) bs'"
      "map bentries bs' = map (\<lambda>b. filter (\<lambda>e. \<not> matching p e) (bentries b)) bs"
    by auto
  moreover have "length bs' = length bs" using bs'(3) by (metis length_map)
  ultimately show ?case using 3(2) filed_filter [where H = H and d = depth and w = "0xff", OF _ bs'(3)]
    by (simp add: concat_map_filter)
next
  case (4 ddel bs depth p)
  then obtain bs' where bs': "buckets_removeAll ddel bs (Suc depth) p =
        (bs', removed ddel p (concat (map bentries bs)))" "list_all (wf_bucket H (Suc depth)) bs'"
      "map bentries bs' = map (\<lambda>b. filter (\<lambda>e. \<not> matching p e) (bentries b)) bs"
    by auto
  moreover have "length bs' = length bs" using bs'(3) by (metis length_map)
  ultimately show ?case using 4(2) filed_filter [where H = H and d = depth and w = "0xf", OF _ bs'(3)]
    by (simp add: concat_map_filter)
next
  case (6 ddel b bs depth p)
  then obtain b' where b': "dict_removeAll ddel b depth p = (b', removed ddel p (bentries b))"
      "wf_bucket H depth b'" "bentries b' = filter (\<lambda>e. \<not> matching p e) (bentries b)"
    by auto
  obtain bs' where "buckets_removeAll ddel bs depth p = (bs', removed ddel p (concat (map bentries bs)))"
      "list_all (wf_bucket H depth) bs'"
      "map bentries bs' = map (\<lambda>b. filter (\<lambda>e. \<not> matching p e) (bentries b)) bs"
    using "6.IH"(2) [OF b'(1) [symmetric] prod.collapse] "6.prems" by auto
  with b' show ?case by (simp add: removed_append split: prod.split)
qed (auto simp: removed_def)

lemma list_get_filter:
  "distinct (map e_key es) \<Longrightarrow> list_get (filter (\<lambda>e. \<not> matching p e) es) k =
     (case entry_of es k of None \<Rightarrow> None | Some e \<Rightarrow> if matching p e then None else e_obj e)"
proof (induction es)
  case (Cons e es)
  have "entry_of es (e_key e) = None" using Cons.prems by (simp add: entry_of_None)
  with Cons show ?case by auto
qed simp

lemma dictionary_removeAll_ok:
  assumes wf: "wf_dict xxh d" and small: "length (dict_entries d) < 2 ^ 64"
  shows "\<exists>d'. PSC_Dictionary_removeAll d p = (d', removed (d_deleter d) p (dict_entries d)) \<and>
     wf_dict xxh d' \<and> dict_entries d' = filter (\<lambda>e. \<not> matching p e) (dict_entries d)"
proof (cases "d_count d = 0")
  case True
  then have "2 ^ 64 dvd length (dict_entries d)"
    using wf by (simp add: wf_dict_def word_of_nat_eq_0_iff)
  then have "dict_entries d = []"
    using small by (auto dest: nat_dvd_not_less)
  with True wf show ?thesis by (simp add: PSC_Dictionary_removeAll_def removed_def)
next
  case False
  let ?H = "dict_hash xxh d"
  have w: "filed ?H 0 0xff (d_buckets d)" "length (d_buckets d) = HT8_SIZE"
      "list_all (wf_bucket ?H (Suc 0)) (d_buckets d)"
    using wf by (simp_all add: wf_dict_def)
  obtain bs where bs: "buckets_removeAll (d_deleter d) (d_buckets d) 1 p =
        (bs, removed (d_deleter d) p (dict_entries d))" "list_all (wf_bucket ?H (Suc 0)) bs"
      "map bentries bs = map (\<lambda>b. filter (\<lambda>e. \<not> matching p e) (bentries b)) (d_buckets d)"
    using removeAll_ok(2) [OF w(3), of "d_deleter d" p] by (auto simp: dict_entries_def)
  let ?n = "snd (removed (d_deleter d) p (dict_entries d))"
  let ?d = "d\<lparr>d_buckets := bs, d_count := d_count d - of_nat ?n\<rparr>"
  have es: "dict_entries ?d = filter (\<lambda>e. \<not> matching p e) (dict_entries d)"
    using bs(3) by (simp add: dict_entries_def concat_map_filter)
  have "length (dict_entries ?d) + ?n = length (dict_entries d)"
    using es sum_length_filter_compl [of "matching p" "dict_entries d"] by (simp add: removed_def)
  then have "of_nat (length (dict_entries ?d)) + of_nat ?n = d_count d"
    using wf unfolding wf_dict_def by (metis of_nat_add)
  then have cnt: "d_count ?d = of_nat (length (dict_entries ?d))"
    by (simp add: eq_diff_eq [symmetric])
  have "length bs = HT8_SIZE" using bs(3) w(2) by (metis length_map)
  moreover have "dict_hash xxh ?d = ?H" by (simp add: dict_hash_def)
  ultimately have "wf_dict xxh ?d"
    using cnt bs(2) filed_filter [OF w(1) bs(3)] by (simp add: wf_dict_def)
  with es bs(1) False show ?thesis
    by (cases "removed (d_deleter d) p (dict_entries d)") (simp add: PSC_Dictionary_removeAll_def)
qed

lemma destroy_all:
  fixes b :: "'o HashBucket" and bs :: "'o HashBucket list"
  shows "wf_bucket H d b \<Longrightarrow> dict_destroy ddel b d = concat (map (destroy_obj ddel) (bentries b))"
    and "list_all (wf_bucket H d) bs \<Longrightarrow>
     buckets_destroy ddel bs d = concat (map (destroy_obj ddel) (concat (map bentries bs)))"
  by (induction ddel b d and ddel bs d rule: dict_destroy_buckets_destroy.induct)
     (auto split: if_splits)

lemma dictionary_destroy_ok:
  "wf_dict xxh d \<Longrightarrow>
     PSC_Dictionary_destroy (Some d) = concat (map (destroy_obj (d_deleter d)) (dict_entries d))"
  using destroy_all(2) [of "dict_hash xxh d" "Suc 0" "d_buckets d"]
  by (simp add: PSC_Dictionary_destroy_def wf_dict_def dict_entries_def)


section \<open>Who destroys what\<close>

text \<open>The stored objects and the objects handed to destructors, null pointers left out.\<close>

definition live :: "'o option list \<Rightarrow> 'o multiset" where
  "live os = mset (map the (filter (\<lambda>ob. ob \<noteq> None) os))"

lemma live_append [simp]: "live (xs @ ys) = live xs + live ys"
  by (simp add: live_def)

lemma live_simps [simp]: "live [] = {#}" "live (None # xs) = live xs" "live (Some v # xs) = add_mset v (live xs)"
  by (simp_all add: live_def)

lemma live_mset: "mset xs = mset ys \<Longrightarrow> live xs = live ys"
  unfolding live_def by (metis mset_filter mset_map)

lemma mset_map_cong: "mset xs = mset ys \<Longrightarrow> mset (map f xs) = mset (map f ys)"
  by simp

lemma mset_split_key:
  "distinct (map e_key es) \<Longrightarrow> mset es = mset (case entry_of es key of None \<Rightarrow> [] | Some e \<Rightarrow> [e])
     + mset (filter (\<lambda>e. e_key e \<noteq> key) es)"
proof (induction es)
  case (Cons e es)
  show ?case
  proof (cases "e_key e = key")
    case True
    then have "filter (\<lambda>e. e_key e \<noteq> key) es = es"
      using Cons.prems by (fastforce simp: filter_id_conv image_iff)
    with True show ?thesis by simp
  next
    case False
    with Cons show ?thesis by simp
  qed
qed simp

lemma set_effect_others:
  assumes "set_effect ddel key obj es es' calls" "distinct (map e_key es)" "distinct (map e_key es')"
  shows "mset (filter (\<lambda>e. e_key e \<noteq> key) es') = mset (filter (\<lambda>e. e_key e \<noteq> key) es)"
proof -
  have mem: "e \<in> set xs \<longleftrightarrow> entry_of xs (e_key e) = Some e" if "distinct (map e_key xs)"
    for e and xs :: "'a Entry list"
    using that entry_of_mem entry_of_Some by blast
  have sets: "set (filter (\<lambda>e. e_key e \<noteq> key) es') = set (filter (\<lambda>e. e_key e \<noteq> key) es)"
    using assms(1) unfolding set_effect_def
    by (auto simp: mem [OF assms(2)] mem [OF assms(3)])
  have "distinct (filter (\<lambda>e. e_key e \<noteq> key) es')" "distinct (filter (\<lambda>e. e_key e \<noteq> key) es)"
    using assms(2,3) by (simp_all add: distinct_map)
  from set_eq_iff_mset_eq_distinct [OF this] sets show ?thesis by blast
qed

text \<open>
  With a destructor for the whole dictionary, every step keeps the balance: what was
  stored before plus the new object is what is stored now plus what was destroyed.
\<close>

lemma set_effect_balance:
  assumes eff: "set_effect (Fn n) key obj es es' calls"
    and d: "distinct (map e_key es)" "distinct (map e_key es')"
  shows "live (map snd calls) + live (map e_obj es') = live [obj] + live (map e_obj es)"
proof -
  let ?rest = "\<lambda>xs. filter (\<lambda>e. e_key e \<noteq> key) xs"
  have split: "live (map e_obj xs) =
      live (case entry_of xs key of None \<Rightarrow> [] | Some e \<Rightarrow> [e_obj e]) + live (map e_obj (?rest xs))"
    if "distinct (map e_key xs)" for xs :: "'a Entry list"
  proof -
    let ?own = "case entry_of xs key of None \<Rightarrow> [] | Some e \<Rightarrow> [e]"
    have "mset xs = mset (?own @ ?rest xs)" using mset_split_key [OF that, of key] by simp
    then have "live (map e_obj xs) = live (map e_obj (?own @ ?rest xs))"
      by (rule live_mset [OF mset_map_cong])
    then show ?thesis by (auto split: option.split)
  qed
  have others: "live (map e_obj (?rest es')) = live (map e_obj (?rest es))"
    by (rule live_mset [OF mset_map_cong [OF set_effect_others [OF eff d]]])
  have calls: "live (map snd calls) = live (case entry_of es key of None \<Rightarrow> [] | Some e \<Rightarrow> [e_obj e])"
    using eff by (auto simp: set_effect_def destroy_obj_def split: option.split)
  have "live (case entry_of es' key of None \<Rightarrow> [] | Some e \<Rightarrow> [e_obj e]) = live [obj]"
    using eff by (cases "entry_of es' key") (simp_all add: set_effect_def)
  then show ?thesis
    using split [OF d(1)] split [OF d(2)] others calls by simp
qed

text \<open>A sequence of \<open>set\<close> operations, collecting the destructor calls.\<close>

fun dict_run :: "xxhash \<Rightarrow> 'o PSC_Dictionary \<Rightarrow> (bytes \<times> 'o option \<times> deleter) list
    \<Rightarrow> ('o PSC_Dictionary \<times> (deleter \<times> 'o option) list) option" where
  "dict_run xxh d [] = Some (d, [])"
| "dict_run xxh d ((key, obj, del) # ops) =
     (case PSC_Dictionary_set xxh d key obj del of
        None \<Rightarrow> None
      | Some (d', calls) \<Rightarrow> map_option (map_prod id ((@) calls)) (dict_run xxh d' ops))"

lemma dict_run_ok:
  assumes "wf_dict xxh d"
  shows "\<exists>d' calls. dict_run xxh d ops = Some (d', calls) \<and> wf_dict xxh d' \<and> d_deleter d' = d_deleter d \<and>
     dict_look xxh d' = fold (\<lambda>(k, v, _) m. m(k := v)) ops (dict_look xxh d)"
  using assms
proof (induction ops arbitrary: d)
  case (Cons a ops)
  obtain key obj del where a: "a = (key, obj, del)" by (metis prod_cases3)
  obtain d1 c1 where d1: "PSC_Dictionary_set xxh d key obj del = Some (d1, c1)" "wf_dict xxh d1"
      "d_deleter d1 = d_deleter d" "set_effect (d_deleter d) key obj (dict_entries d) (dict_entries d1) c1"
    using dictionary_set_ok [OF Cons.prems] by blast
  have "dict_look xxh d1 = (dict_look xxh d)(key := obj)"
    using set_effect_look [OF d1(4)] by (simp add: dict_look_def fun_eq_iff)
  with Cons.IH [OF d1(2)] d1 show ?case by (auto simp: a)
qed simp

lemma dict_run_balance:
  assumes "wf_dict xxh d" "d_deleter d = Fn n" "dict_run xxh d ops = Some (d', calls)"
  shows "live (map snd calls) + live (map e_obj (dict_entries d')) =
     live (map (\<lambda>(k, ob, del). ob) ops) + live (map e_obj (dict_entries d))"
  using assms
proof (induction ops arbitrary: d calls)
  case (Cons a ops)
  obtain key obj del where a: "a = (key, obj, del)" by (metis prod_cases3)
  obtain d1 c1 where d1: "PSC_Dictionary_set xxh d key obj del = Some (d1, c1)" "wf_dict xxh d1"
      "d_deleter d1 = d_deleter d" "set_effect (d_deleter d) key obj (dict_entries d) (dict_entries d1) c1"
    using dictionary_set_ok [OF Cons.prems(1)] by blast
  then obtain c2 where c2: "dict_run xxh d1 ops = Some (d', c2)" "calls = c1 @ c2"
    using Cons.prems(3) a by auto
  have "live (map snd c1) + live (map e_obj (dict_entries d1)) = live [obj] + live (map e_obj (dict_entries d))"
    using set_effect_balance d1(4) Cons.prems(1,2) d1(2) wf_dict_distinct by metis
  moreover have "live (map snd c2) + live (map e_obj (dict_entries d')) =
      live (map (\<lambda>(k, ob, del). ob) ops) + live (map e_obj (dict_entries d1))"
    using Cons.IH [OF d1(2) _ c2(1)] d1(3) Cons.prems(2) by simp
  moreover have "live (map (\<lambda>(k, ob, del). ob) (a # ops)) = live [obj] + live (map (\<lambda>(k, ob, del). ob) ops)"
    using live_append [of "[obj]" "map (\<lambda>(k, ob, del). ob) ops"] by (simp add: a)
  ultimately show ?case
    unfolding c2(2) by (simp add: ac_simps)
qed simp


section \<open>Removing an absent key under a full collision\<close>

lemma list_set_null_absent:
  "entry_of es key = None \<Longrightarrow> list_set ddel es key None del cnt = (es', calls, cnt') \<Longrightarrow>
     entry_of es' key \<noteq> None"
  by (induction es arbitrary: es') (auto split: if_splits prod.splits)

lemma filed_same_slot:
  assumes "filed H d w bs" "e \<in> set (concat (map bentries bs))" "H (e_key e) = H key"
  shows "e \<in> set (bentries (bs ! slot H d w key))"
proof -
  obtain b where b: "b \<in> set bs" "e \<in> set (bentries b)"
    using assms(2) by auto
  obtain i where i: "i < length bs" "bs ! i = b"
    using b(1) by (auto simp: in_set_conv_nth)
  then have "slot H d w (e_key e) = i"
    using assms(1) b(2) by (simp add: filed_def)
  then have "slot H d w key = i"
    using assms(3) by (simp add: slot_def)
  with b(2) i(2) show ?thesis by simp
qed

lemma dict_set_null_collision:
  assumes "wf_bucket H d b" "0 < d \<or> (\<exists>bs. b = BT_HT8 bs)" "hash = drop_bit (shift d) (H key)"
    and "entry_of (bentries b) key = None" "e \<in> set (bentries b)" "H (e_key e) = H key" "obj = None"
    and "dict_set H ddel b d hash key obj del cnt = Some (b', calls, cnt')"
  shows "entry_of (bentries b') key \<noteq> None"
  using assms
proof (induction H ddel b d hash key obj del cnt arbitrary: b' calls cnt' rule: dict_set.induct)
  case (2 H ddel e0 es depth hash key obj del cnt)
  show ?case
  proof (cases "MAXNEST \<le> depth")
    case True
    with "2.prems" list_set_null_absent [of "e0 # es" key ddel del cnt] show ?thesis
      by (auto split: prod.splits simp del: list_set.simps)
  next
    case False
    have "0 < depth" using "2.prems"(2) by simp
    note nest = wf_nest [OF this, of H e0]
    have ne: "e_key e0 \<noteq> key" using "2.prems"(4) by (auto split: if_splits)
    have "es = []" using "2.prems"(1) False by simp
    with "2.IH" [OF False ne] nest False \<open>0 < depth\<close> "2.prems" ne show ?thesis by simp
  qed
next
  case (3 H ddel bs depth hash key obj del cnt)
  let ?i = "slot H depth 0xff key"
  have i: "unat (hash AND 0xff) = ?i" using "3.prems"(3) by (simp add: slot_def)
  have len: "length bs = HT8_SIZE" "depth \<le> 1" "filed H depth 0xff bs" "list_all (wf_bucket H (Suc depth)) bs"
    using "3.prems"(1) by simp_all
  have r: "?i < length bs" using slot_less(1) len(1) by simp
  obtain b1 where b1: "dict_set H ddel (bs ! ?i) (Suc depth) (drop_bit 8 hash) key obj del cnt = Some (b1, calls, cnt')"
      "b' = BT_HT8 (bs[?i := b1])"
    using "3.prems"(8) r by (auto simp: i Let_def split: option.splits)
  have wf1: "wf_bucket H (Suc depth) (bs ! ?i)" using len(4) r by (simp add: list_all_length)
  have "entry_of (bentries (bs ! ?i)) key = None" "e \<in> set (bentries (bs ! ?i))"
    using "3.prems"(4-6) entry_of_filed [OF len(3) r] filed_same_slot [OF len(3)] by simp_all
  with "3.IH" [OF i [symmetric] r wf1 _ _ _ _ "3.prems"(6,7) b1(1)] drop_shift(1) [OF len(2)] "3.prems"(3)
  have new: "entry_of (bentries b1) key \<noteq> None" by simp
  have "0 < depth \<or> (\<exists>bs'. BT_HT8 bs = BT_HT8 bs')" by simp
  from dict_set_ok [OF "3.prems"(1) this "3.prems"(3), of ddel obj cnt del] "3.prems"(8) b1(2)
  have "filed H depth 0xff (bs[?i := b1])" by (simp add: set_ok_at_def)
  from entry_of_filed [OF this] r new b1(2) show ?case by simp
next
  case (4 H ddel bs depth hash key obj del cnt)
  let ?i = "slot H depth 0xf key"
  have i: "unat (hash AND 0xf) = ?i" using "4.prems"(3) by (simp add: slot_def)
  have len: "length bs = HT4_SIZE" "1 < depth" "filed H depth 0xf bs" "list_all (wf_bucket H (Suc depth)) bs"
    using "4.prems"(1) by simp_all
  have r: "?i < length bs" using slot_less(2) len(1) by simp
  obtain b1 where b1: "dict_set H ddel (bs ! ?i) (Suc depth) (drop_bit 4 hash) key obj del cnt = Some (b1, calls, cnt')"
      "b' = BT_HT4 (bs[?i := b1])"
    using "4.prems"(8) r by (auto simp: i Let_def split: option.splits)
  have wf1: "wf_bucket H (Suc depth) (bs ! ?i)" using len(4) r by (simp add: list_all_length)
  have "entry_of (bentries (bs ! ?i)) key = None" "e \<in> set (bentries (bs ! ?i))"
    using "4.prems"(4-6) entry_of_filed [OF len(3) r] filed_same_slot [OF len(3)] by simp_all
  with "4.IH" [OF i [symmetric] r wf1 _ _ _ _ "4.prems"(6,7) b1(1)] drop_shift(2) [OF len(2)] "4.prems"(3)
  have new: "entry_of (bentries b1) key \<noteq> None" by simp
  from dict_set_ok [OF "4.prems"(1-3), of ddel obj cnt del] "4.prems"(8) b1(2)
  have "filed H depth 0xf (bs[?i := b1])" by (simp add: set_ok_at_def)
  from entry_of_filed [OF this] r new b1(2) show ?case by simp
qed simp


section \<open>Properties\<close>

text \<open>
  C1: Whatever the hash function, a dictionary behaves as a finite map: after any
  sequence of \<open>PSC_Dictionary_set\<close> (storing, replacing, and removing with a null object) on a
  new dictionary, no bucket index is out of range, \<open>set\<close> terminates, and
  \<open>PSC_Dictionary_get\<close> returns what the same updates of a map give.
\<close>

theorem dictionary_refines_map:
  assumes "PSC_Dictionary_create st rnd ddel shared = (Some d, st')"
  shows "\<exists>d' calls. dict_run xxh d ops = Some (d', calls) \<and> wf_dict xxh d' \<and>
     (\<forall>key. PSC_Dictionary_get xxh d' key = Some (fold (\<lambda>(k, v, _) m. m(k := v)) ops Map.empty key))"
proof -
  have "wf_dict xxh d" "dict_look xxh d = Map.empty"
    using wf_dict_create [OF assms] by auto
  with dict_run_ok [of xxh d ops] dictionary_get_ok show ?thesis by metis
qed

lemma dict_create_example:
  "PSC_Dictionary_create None (replicate 192 0) ddel False =
     (Some \<lparr>d_deleter = ddel, d_hash = \<lparr>secret = Some (replicate 192 0)\<rparr>, d_count = 0, d_shared = False,
            d_buckets = replicate HT8_SIZE BT_EMPTY\<rparr>, Some (replicate 192 0))"
  by (simp add: PSC_Dictionary_create_def PSC_Hash_create_def getSecret_def SECRETSIZE_def)

theorem dictionary_refines_map_witness:
  "\<exists>d st' d' calls. PSC_Dictionary_create None (replicate 192 0) NoFn False = (Some d, st') \<and>
     dict_run xxh_zero d [([1], Some (7 :: nat), NoFn), ([2], Some 8, NoFn), ([1], None, NoFn)] = Some (d', calls) \<and>
     PSC_Dictionary_get xxh_zero d' [1] = Some None \<and> PSC_Dictionary_get xxh_zero d' [2] = Some (Some 8)"
proof -
  let ?ops = "[([1], Some (7 :: nat), NoFn), ([2], Some 8, NoFn), ([1], None, NoFn)] :: (bytes \<times> nat option \<times> deleter) list"
  from dictionary_refines_map [OF dict_create_example [of NoFn], of xxh_zero ?ops] dict_create_example [of NoFn]
  show ?thesis by fastforce
qed

text \<open>
  C2: Ownership.  With a destructor for the whole dictionary, every object that was ever
  stored is destroyed exactly once over the life of the dictionary: when it is replaced, when
  it is removed, or by \<open>PSC_Dictionary_destroy\<close>.
\<close>

theorem dictionary_destroys_once:
  assumes "PSC_Dictionary_create st rnd (Fn n) shared = (Some d, st')"
  shows "\<exists>d' calls. dict_run xxh d ops = Some (d', calls) \<and>
     live (map snd (calls @ PSC_Dictionary_destroy (Some d'))) = live (map (\<lambda>(k, obj, del). obj) ops)"
proof -
  have d: "wf_dict xxh d" "dict_entries d = []" "d_deleter d = Fn n"
    using wf_dict_create [OF assms] assms
    by (auto simp: PSC_Dictionary_create_def split: prod.splits option.splits)
  then obtain d' calls where d': "dict_run xxh d ops = Some (d', calls)" "wf_dict xxh d'" "d_deleter d' = Fn n"
    using dict_run_ok [of xxh d ops] by auto
  have "map snd (concat (map (destroy_obj (Fn n)) es)) = map e_obj es" for es :: "'a Entry list"
    by (induction es) (simp_all add: destroy_obj_def)
  then have "map snd (PSC_Dictionary_destroy (Some d')) = map e_obj (dict_entries d')"
    using dictionary_destroy_ok [OF d'(2)] d'(3) by simp
  with dict_run_balance [OF d(1,3) d'(1)] d(2) d'(1) show ?thesis by auto
qed

theorem dictionary_destroys_once_witness:
  "\<exists>d st' d' calls. PSC_Dictionary_create None (replicate 192 0) (Fn 1) False = (Some d, st') \<and>
     dict_run xxh_zero d [([1], Some (7 :: nat), NoFn), ([1], Some 8, NoFn)] = Some (d', calls) \<and>
     live (map snd (calls @ PSC_Dictionary_destroy (Some d'))) = {#7, 8#}"
proof -
  let ?ops = "[([1], Some (7 :: nat), NoFn), ([1], Some 8, NoFn)] :: (bytes \<times> nat option \<times> deleter) list"
  from dictionary_destroys_once [OF dict_create_example [of "Fn 1"], of xxh_zero ?ops] dict_create_example [of "Fn 1"]
  show ?thesis by fastforce
qed

text \<open>
  As long as only present keys are removed, \<open>PSC_Dictionary_count\<close> is the
  number of keys that \<open>get\<close> finds: one \<open>set\<close> that stores an object, or removes a key that
  is present, keeps the counter equal to the number of keys.
\<close>

theorem dictionary_count:
  assumes "wf_dict xxh d" "no_null d" "obj \<noteq> None \<or> dict_look xxh d key \<noteq> None"
  shows "\<exists>d' calls. PSC_Dictionary_set xxh d key obj del = Some (d', calls) \<and> wf_dict xxh d' \<and> no_null d' \<and>
     PSC_Dictionary_count d' = of_nat (card (dom ((dict_look xxh d)(key := obj))))"
proof -
  obtain d' calls where d': "PSC_Dictionary_set xxh d key obj del = Some (d', calls)" "wf_dict xxh d'"
      "set_effect (d_deleter d) key obj (dict_entries d) (dict_entries d') calls"
    using dictionary_set_ok [OF assms(1)] by blast
  have "obj \<noteq> None \<or> entry_of (dict_entries d) key \<noteq> None"
    using assms(3) by (auto simp: dict_look_def list_get_entry)
  then have "no_null d'"
    using set_effect_no_null [OF d'(3) wf_dict_distinct [OF d'(2)]] assms(2) by (simp add: no_null_def)
  moreover have "dict_look xxh d' = (dict_look xxh d)(key := obj)"
    using set_effect_look [OF d'(3)] by (simp add: dict_look_def fun_eq_iff)
  ultimately show ?thesis
    using d' count_dom [OF d'(2)] by (simp add: PSC_Dictionary_count_def)
qed

theorem dictionary_count_witness:
  "\<exists>d st' d' calls. PSC_Dictionary_create None (replicate 192 0) NoFn False = (Some d, st') \<and>
     no_null d \<and> PSC_Dictionary_set xxh_zero d [1] (Some (7 :: nat)) NoFn = Some (d', calls) \<and>
     PSC_Dictionary_count d' = 1"
proof -
  obtain d :: "nat PSC_Dictionary" and st' where c: "PSC_Dictionary_create None (replicate 192 0) NoFn False = (Some d, st')"
    using dict_create_example by blast
  then have d: "wf_dict xxh_zero d" "no_null d" "dict_look xxh_zero d = Map.empty"
    using wf_dict_create [OF c, of xxh_zero] by (auto simp: no_null_def)
  from dictionary_count [OF d(1,2), of "Some 7" "[1]" NoFn] c d show ?thesis by auto
qed

text \<open>
  \<open>PSC_Dictionary_removeAll\<close> removes exactly the entries the matcher accepts, calls
  their destructors in order, and returns their number.
\<close>

theorem dictionary_removeAll:
  assumes "wf_dict xxh d" "length (dict_entries d) < 2 ^ 64"
  shows "\<exists>d'. PSC_Dictionary_removeAll d p = (d',
       concat (map (destroy_obj (d_deleter d)) (filter (matching p) (dict_entries d))),
       length (filter (matching p) (dict_entries d))) \<and> wf_dict xxh d' \<and>
     (\<forall>key. PSC_Dictionary_get xxh d' key = Some (case entry_of (dict_entries d) key of None \<Rightarrow> None
        | Some e \<Rightarrow> if p key (e_obj e) then None else e_obj e))"
proof -
  obtain d' where d': "PSC_Dictionary_removeAll d p = (d', removed (d_deleter d) p (dict_entries d))"
      "wf_dict xxh d'" "dict_entries d' = filter (\<lambda>e. \<not> matching p e) (dict_entries d)"
    using dictionary_removeAll_ok [OF assms] by blast
  have "dict_look xxh d' key = (case entry_of (dict_entries d) key of None \<Rightarrow> None
      | Some e \<Rightarrow> if p key (e_obj e) then None else e_obj e)" for key
    using list_get_filter [OF wf_dict_distinct [OF assms(1)], of p key] entry_of_Some
    by (fastforce simp: dict_look_def d'(3) matching_def split: option.split)
  with d' dictionary_get_ok [OF d'(2)] show ?thesis by (simp add: removed_def)
qed

theorem dictionary_removeAll_witness:
  "\<exists>d st' d1 c1 d2 c2. PSC_Dictionary_create None (replicate 192 0) NoDelete False = (Some d, st') \<and>
     PSC_Dictionary_set xxh_zero d [1] (Some (7 :: nat)) NoFn = Some (d1, c1) \<and>
     length (dict_entries d1) < 2 ^ 64 \<and> PSC_Dictionary_removeAll d1 (\<lambda>k v. k = [1]) = (d2, c2) \<and>
     PSC_Dictionary_get xxh_zero d2 [1] = Some None"
proof -
  obtain d :: "nat PSC_Dictionary" and st' where c: "PSC_Dictionary_create None (replicate 192 0) NoDelete False = (Some d, st')"
    using dict_create_example by blast
  then have d: "wf_dict xxh_zero d" "dict_entries d = []"
    using wf_dict_create [OF c] by auto
  obtain d1 c1 where d1: "PSC_Dictionary_set xxh_zero d [1] (Some 7) NoFn = Some (d1, c1)" "wf_dict xxh_zero d1"
      "set_effect (d_deleter d) [1] (Some 7) (dict_entries d) (dict_entries d1) c1"
    using dictionary_set_ok [OF d(1)] by blast
  have "set (map e_key (dict_entries d1)) \<subseteq> {[1]}"
    using set_effect_keys [OF d1(3)] d(2) by simp
  then have "length (dict_entries d1) \<le> 1"
    using distinct_card [OF wf_dict_distinct [OF d1(2)]] card_mono [of "{[1]}" "set (map e_key (dict_entries d1))"]
    by simp
  then have small: "length (dict_entries d1) < 2 ^ 64" by simp
  from dictionary_removeAll [OF d1(2) small, of "\<lambda>k v. k = [1]"] c d1(1) small show ?thesis
    by (fastforce split: option.splits)
qed

text \<open>
  Removing a key that is absent while another key with the same 64 bit hash is
  present stores an entry with a null object: lookups do not change, but the counter goes up.
\<close>

theorem dictionary_remove_absent_collision:
  assumes "wf_dict xxh d" "dict_look xxh d k = Some v" "dict_hash xxh d k = dict_hash xxh d key"
    and "entry_of (dict_entries d) key = None"
  shows "\<exists>d' calls. PSC_Dictionary_set xxh d key None del = Some (d', calls) \<and> wf_dict xxh d' \<and>
     dict_look xxh d' = dict_look xxh d \<and> PSC_Dictionary_count d' = PSC_Dictionary_count d + 1"
proof -
  obtain d' calls where d': "PSC_Dictionary_set xxh d key None del = Some (d', calls)" "wf_dict xxh d'"
      "set_effect (d_deleter d) key None (dict_entries d) (dict_entries d') calls"
    using dictionary_set_ok [OF assms(1)] by blast
  obtain e where e: "e \<in> set (dict_entries d)" "e_key e = k"
    using assms(2) entry_of_Some by (auto simp: dict_look_def list_get_entry bind_eq_Some_conv)
  let ?H = "dict_hash xxh d"
  obtain b cnt where b: "dict_set ?H (d_deleter d) (BT_HT8 (d_buckets d)) 0 (?H key) key None
      (if del = NoDelete then NoFn else del) (d_count d) = Some (b, calls, cnt)" "bentries b = dict_entries d'"
    using d'(1) unfolding dictionary_set_eq
    by (auto simp: dict_entries_def split: option.splits HashBucket.splits)
  have new: "entry_of (dict_entries d') key \<noteq> None"
    using dict_set_null_collision [OF _ _ _ _ _ _ refl b(1), of e] assms e b(2)
    by (simp add: wf_dict_def dict_entries_def shift_def)
  have "e_key ` set (dict_entries d') = insert key (e_key ` set (dict_entries d))"
  proof -
    have "k' \<in> e_key ` set (dict_entries d') \<longleftrightarrow> k' \<in> insert key (e_key ` set (dict_entries d))" for k'
      using d'(3) new entry_of_None [of "dict_entries d'" k'] entry_of_None [of "dict_entries d" k']
      by (cases "k' = key") (auto simp: set_effect_def)
    then show ?thesis by blast
  qed
  then have "length (dict_entries d') = Suc (length (dict_entries d))"
    using distinct_card [OF wf_dict_distinct [OF d'(2)]] distinct_card [OF wf_dict_distinct [OF assms(1)]]
      assms(4) by (simp add: entry_of_None)
  moreover have "dict_look xxh d' = dict_look xxh d"
    using set_effect_look [OF d'(3)] assms(4) by (auto simp: dict_look_def fun_eq_iff list_get_entry)
  ultimately show ?thesis
    using d' assms(1) by (simp add: PSC_Dictionary_count_def wf_dict_def)
qed

theorem dictionary_remove_absent_collision_witness:
  "\<exists>d st' d1 c1 d2 c2. PSC_Dictionary_create None (replicate 192 0) NoFn False = (Some d, st') \<and>
     PSC_Dictionary_set xxh_zero d [1] (Some (7 :: nat)) NoFn = Some (d1, c1) \<and>
     PSC_Dictionary_set xxh_zero d1 [2] None NoFn = Some (d2, c2) \<and>
     PSC_Dictionary_count d2 = PSC_Dictionary_count d1 + 1"
proof -
  obtain d :: "nat PSC_Dictionary" and st' where c: "PSC_Dictionary_create None (replicate 192 0) NoFn False = (Some d, st')"
    using dict_create_example by blast
  then have d: "wf_dict xxh_zero d" "dict_entries d = []"
    using wf_dict_create [OF c] by auto
  obtain d1 c1 where d1: "PSC_Dictionary_set xxh_zero d [1] (Some 7) NoFn = Some (d1, c1)" "wf_dict xxh_zero d1"
      "set_effect (d_deleter d) [1] (Some 7) (dict_entries d) (dict_entries d1) c1"
    using dictionary_set_ok [OF d(1)] by blast
  have "dict_look xxh_zero d1 [1] = Some 7" "entry_of (dict_entries d1) [2] = None"
    using set_effect_look [OF d1(3)] d1(3) d(2) by (simp_all add: dict_look_def set_effect_def)
  moreover have "dict_hash xxh_zero d1 [1] = dict_hash xxh_zero d1 [2]"
    by (simp add: dict_hash_def PSC_Hash_bytes_def xxh_zero_def split: option.split)
  ultimately show ?thesis
    using dictionary_remove_absent_collision [OF d1(2), of "[1]" 7 "[2]" NoFn] c d1(1) by auto
qed

end
