(* ===== verification/Poser_Util.thy ===== *)
theory Poser_Util
  imports Prelude
begin

text \<open>
  String helpers (\<open>src/lib/core/util.c\<close>) and \<open>PSC_StringBuilder\<close>
  (\<open>src/lib/core/stringbuilder.c\<close>).  \<open>PSC_malloc\<close> and \<open>PSC_realloc\<close> do not return
  on failure, so the buffers of the model exist; that they are large enough for what is
  written to them is proved.
\<close>

section \<open>Strings\<close>

definition PSC_copystr :: "string option \<Rightarrow> char buf option option" where
  "PSC_copystr src =
     (case src of None \<Rightarrow> Some None
      | Some s \<Rightarrow> map_option Some (buf_strcpy (buf_alloc (length s + 1)) 0 s))"

text \<open>\<open>tolower\<close> in the C locale.\<close>

definition tolower :: "char \<Rightarrow> char" where
  "tolower c = (if CHR ''A'' \<le> c \<and> c \<le> CHR ''Z'' then char_of (of_char c + 32 :: nat) else c)"

text \<open>The loop of \<open>PSC_lowerstr\<close> over the copy, from offset \<open>p\<close>.\<close>

function lowerstr_loop :: "char buf \<Rightarrow> nat \<Rightarrow> char buf option" where
  "lowerstr_loop b p =
     (case buf_read b p of
        None \<Rightarrow> None
      | Some c \<Rightarrow> if c = NUL then Some b else lowerstr_loop (b[p := Some (tolower c)]) (Suc p))"
  by pat_completeness auto
termination
  by (relation "measure (\<lambda>(b, p). length b - p)") (auto simp: buf_read_def split: if_splits)

declare lowerstr_loop.simps [simp del]

definition PSC_lowerstr :: "string option \<Rightarrow> char buf option option" where
  "PSC_lowerstr src = do {
     copy \<leftarrow> PSC_copystr src;
     case copy of None \<Rightarrow> Some None | Some b \<Rightarrow> map_option Some (lowerstr_loop b 0) }"

fun joinstr_loop :: "char buf \<Rightarrow> nat \<Rightarrow> string \<Rightarrow> string list \<Rightarrow> char buf option" where
  "joinstr_loop b w delim [] = Some b"
| "joinstr_loop b w delim (cur # strings) = do {
     b \<leftarrow> buf_strcpy b w delim;
     let w = w + length delim;
     b \<leftarrow> buf_strcpy b w cur;
     joinstr_loop b (w + length cur) delim strings }"

definition PSC_joinstr :: "string \<Rightarrow> string list \<Rightarrow> char buf option option" where
  "PSC_joinstr delim strings =
     (case strings of
        [] \<Rightarrow> Some None
      | s # rest \<Rightarrow> do {
          let rlen = sum_list (map length strings);
          let rlen = (if 1 < length strings then rlen + (length strings - 1) * length delim else rlen);
          b \<leftarrow> buf_strcpy (buf_alloc (rlen + 1)) 0 s;
          b \<leftarrow> joinstr_loop b (length s) delim rest;
          Some (Some b) })"

function PSC_basename_loop :: "string \<Rightarrow> string" where
  "PSC_basename_loop path =
     (let seppos = length (takeWhile (\<lambda>c. c \<noteq> CHR ''/'') path)
      in if path \<noteq> [] \<and> seppos < length path then PSC_basename_loop (drop (seppos + 1) path) else path)"
  by pat_completeness auto
termination
  by (relation "measure length") auto

declare PSC_basename_loop.simps [simp del]

definition PSC_basename :: "string \<Rightarrow> string" where
  "PSC_basename path = (let p = PSC_basename_loop path in if p \<noteq> [] then p else ''.'')"

section \<open>String builder\<close>

definition SBCHUNKSZ :: nat where
  "SBCHUNKSZ = 512"

record PSC_StringBuilder =
  sb_size :: nat
  sb_capa :: nat
  sb_str :: "char buf option"

definition PSC_StringBuilder_create :: PSC_StringBuilder where
  "PSC_StringBuilder_create = \<lparr>sb_size = 0, sb_capa = 0, sb_str = None\<rparr>"

function sb_grow :: "nat \<Rightarrow> nat \<Rightarrow> nat" where
  "sb_grow capa newsz = (if capa \<le> newsz then sb_grow (capa + SBCHUNKSZ) newsz else capa)"
  by pat_completeness auto
termination
  by (relation "measure (\<lambda>(capa, newsz). Suc newsz - capa)") (auto simp: SBCHUNKSZ_def)

declare sb_grow.simps [simp del]

text \<open>\<open>realloc\<close> of a null pointer allocates; \<open>strcpy\<close> to a null pointer is undefined.\<close>

definition PSC_StringBuilder_append :: "PSC_StringBuilder \<Rightarrow> string \<Rightarrow> PSC_StringBuilder option" where
  "PSC_StringBuilder_append self str = do {
     let newsz = sb_size self + length str;
     let self = (if sb_capa self \<le> newsz
       then (let capa = sb_grow (sb_capa self) newsz
             in self\<lparr>sb_capa := capa,
                     sb_str := Some (buf_realloc (case sb_str self of None \<Rightarrow> [] | Some b \<Rightarrow> b) capa)\<rparr>)
       else self);
     b \<leftarrow> sb_str self;
     b' \<leftarrow> buf_strcpy b (sb_size self) str;
     Some (self\<lparr>sb_str := Some b', sb_size := newsz\<rparr>) }"

definition PSC_StringBuilder_appendChar :: "PSC_StringBuilder \<Rightarrow> char \<Rightarrow> PSC_StringBuilder option" where
  "PSC_StringBuilder_appendChar self c = PSC_StringBuilder_append self (if c = NUL then [] else [c])"

definition PSC_StringBuilder_str :: "PSC_StringBuilder \<Rightarrow> char buf option" where
  "PSC_StringBuilder_str self = sb_str self"

section \<open>Lemmas\<close>

lemma sb_grow_gt: "newsz < sb_grow capa newsz"
  by (induction capa newsz rule: sb_grow.induct) (subst sb_grow.simps, simp)

text \<open>A builder that holds the text \<open>t\<close>.\<close>

definition wf_sb :: "PSC_StringBuilder \<Rightarrow> string \<Rightarrow> bool" where
  [wf_defs]: "wf_sb sb t \<longleftrightarrow> sb_size sb = length t \<and>
     (case sb_str sb of
        None \<Rightarrow> t = [] \<and> sb_capa sb = 0
      | Some b \<Rightarrow> length b = sb_capa sb \<and> sb_size sb < sb_capa sb \<and>
          take (sb_size sb) b = map Some t \<and> b ! sb_size sb = Some NUL)"

lemma sb_append_ok:
  assumes "wf_sb sb t"
  shows "\<exists>sb'. PSC_StringBuilder_append sb s = Some sb' \<and> wf_sb sb' (t @ s) \<and> sb_str sb' \<noteq> None"
proof -
  let ?n = "sb_size sb + length s"
  define b where "b = (case sb_str sb of None \<Rightarrow> [] | Some b \<Rightarrow> b)"
  define c where "c = (if sb_capa sb \<le> ?n then sb_grow (sb_capa sb) ?n else sb_capa sb)"
  define b1 where "b1 = (if sb_capa sb \<le> ?n then buf_realloc b c else b)"
  have c: "?n < c" "sb_capa sb \<le> ?n \<or> c = sb_capa sb"
    using sb_grow_gt by (auto simp: c_def)
  have b: "length b = sb_capa sb" "length t \<le> sb_capa sb" "take (length t) b = map Some t" "sb_size sb = length t"
    using assms by (auto simp: wf_sb_def b_def split: option.splits)
  have b1: "length b1 = c" "take (length t) b1 = map Some t"
    using b c by (auto simp: b1_def c_def buf_realloc_take)
  obtain b2 where b2: "buf_strcpy b1 (length t) s = Some b2" "length b2 = c"
      "take ?n b2 = map Some (t @ s)" "b2 ! ?n = Some NUL"
    using buf_strcpy_append [of "length t" s b1 t] b b1 c by auto
  have "sb_str sb = Some b" if "\<not> sb_capa sb \<le> ?n"
    using assms that by (auto simp: wf_sb_def b_def split: option.splits)
  then have "PSC_StringBuilder_append sb s =
      Some (sb\<lparr>sb_capa := c, sb_str := Some b2, sb_size := ?n\<rparr>)"
    using b2(1) b(4) unfolding PSC_StringBuilder_append_def Let_def b_def [symmetric] b1_def c_def
    by (cases "sb_capa sb \<le> ?n") simp_all
  moreover have "wf_sb (sb\<lparr>sb_capa := c, sb_str := Some b2, sb_size := ?n\<rparr>) (t @ s)"
    using b2 c(1) b(4) by (simp add: wf_sb_def)
  ultimately show ?thesis by auto
qed

text \<open>The part of a path behind its last separator.\<close>

definition after_last_slash :: "string \<Rightarrow> string" where
  "after_last_slash path = rev (takeWhile (\<lambda>c. c \<noteq> CHR ''/'') (rev path))"

lemma after_last_slash_append: "after_last_slash (w @ CHR ''/'' # r) = after_last_slash r"
  by (auto simp: after_last_slash_def takeWhile_append takeWhile_eq_all_conv [THEN iffD2])

lemma after_last_slash_none: "\<forall>c \<in> set w. c \<noteq> CHR ''/'' \<Longrightarrow> after_last_slash w = w"
  by (simp add: after_last_slash_def takeWhile_eq_all_conv [THEN iffD2])

lemma basename_loop_eq: "PSC_basename_loop path = after_last_slash path"
proof (induction path rule: PSC_basename_loop.induct)
  case (1 path)
  define w where "w = takeWhile (\<lambda>c. c \<noteq> CHR ''/'') path"
  define r where "r = dropWhile (\<lambda>c. c \<noteq> CHR ''/'') path"
  have path: "path = w @ r" and w: "\<forall>c \<in> set w. c \<noteq> CHR ''/''"
    by (auto simp: w_def r_def dest: set_takeWhileD)
  show ?case
  proof (cases r)
    case Nil
    then have "length w = length path" using path by simp
    then have "PSC_basename_loop path = path"
      by (subst PSC_basename_loop.simps) (simp add: Let_def w_def [symmetric])
    with after_last_slash_none [OF w] path Nil show ?thesis by simp
  next
    case (Cons a r')
    then have a: "a = CHR ''/''"
      using hd_dropWhile [of "\<lambda>c. c \<noteq> CHR ''/''" path] by (simp add: r_def)
    have drop: "drop (length w + 1) path = r'" using path Cons by simp
    have len: "path \<noteq> [] \<and> length w < length path" using path Cons by simp
    have "PSC_basename_loop path = PSC_basename_loop r'"
      using len drop by (subst PSC_basename_loop.simps) (simp add: Let_def w_def [symmetric])
    also have "\<dots> = after_last_slash r'"
      using "1" [OF refl] len drop by (simp add: w_def [symmetric])
    also have "\<dots> = after_last_slash path"
      using path Cons a after_last_slash_append by simp
    finally show ?thesis .
  qed
qed

text \<open>The loop of \<open>PSC_lowerstr\<close> rewrites the characters before the terminator.\<close>

lemma lowerstr_loop_eq:
  "NUL \<notin> set s \<Longrightarrow> lowerstr_loop (map Some t @ map Some s @ [Some NUL]) (length t) =
   Some (map Some t @ map Some (map tolower s) @ [Some NUL])"
proof (induction s arbitrary: t)
  case Nil
  then show ?case
    by (subst lowerstr_loop.simps) (simp add: buf_read_def nth_append)
next
  case (Cons c s)
  have "lowerstr_loop (map Some t @ map Some (c # s) @ [Some NUL]) (length t) =
      lowerstr_loop (map Some (t @ [tolower c]) @ map Some s @ [Some NUL]) (length (t @ [tolower c]))"
    using Cons.prems by (subst lowerstr_loop.simps) (auto simp: buf_read_def nth_append list_update_append)
  also have "\<dots> = Some (map Some (t @ [tolower c]) @ map Some (map tolower s) @ [Some NUL])"
    using Cons.prems by (intro Cons.IH) simp
  finally show ?case by simp
qed

text \<open>Strings behind each other, each behind the delimiter.\<close>

definition delimited :: "string \<Rightarrow> string list \<Rightarrow> string" where
  "delimited delim strings = concat (map (\<lambda>s. delim @ s) strings)"

lemma length_delimited:
  "length (delimited delim strings) = sum_list (map length strings) + length strings * length delim"
  by (induction strings) (auto simp: delimited_def)

lemma joinstr_loop_eq:
  "length b = length t + length (delimited delim strings) + 1 \<Longrightarrow>
   take (length t) b = map Some t \<Longrightarrow> b ! length t = Some NUL \<Longrightarrow>
   joinstr_loop b (length t) delim strings = Some (map Some (t @ delimited delim strings) @ [Some NUL])"
proof (induction strings arbitrary: b t)
  case Nil
  then have "b = take (length t) b @ [b ! length t]"
    by (metis add.commute add_0 delimited_def concat.simps(1) length_0_conv lessI list.simps(8)
        plus_1_eq_Suc take_Suc_conv_app_nth take_all order.refl)
  with Nil show ?case by (simp add: delimited_def)
next
  case (Cons s strings)
  let ?d = "length (delimited delim strings)"
  have len: "length b = length t + length delim + length s + ?d + 1"
    using Cons.prems(1) by (simp add: delimited_def)
  obtain b1 where b1: "buf_strcpy b (length t) delim = Some b1" "length b1 = length b"
      "take (length (t @ delim)) b1 = map Some (t @ delim)"
    using buf_strcpy_append [of "length t" delim b t] Cons.prems len by auto
  obtain b2 where b2: "buf_strcpy b1 (length (t @ delim)) s = Some b2" "length b2 = length b1"
      "take (length (t @ delim @ s)) b2 = map Some (t @ delim @ s)"
      "b2 ! length (t @ delim @ s) = Some NUL"
    using buf_strcpy_append [of "length (t @ delim)" s b1 "t @ delim"] b1 len by (auto simp: add.assoc)
  have "joinstr_loop b2 (length (t @ delim @ s)) delim strings =
      Some (map Some ((t @ delim @ s) @ delimited delim strings) @ [Some NUL])"
    using Cons.IH [OF _ b2(3,4)] b1(2) b2(2) len by simp
  then show ?case
    using b1(1) b2(1) by (simp add: Let_def delimited_def add.assoc)
qed

lemma sb_appends_ok:
  "wf_sb sb t \<Longrightarrow> strings \<noteq> [] \<Longrightarrow>
   \<exists>sb'. foldl (\<lambda>sb s. Option.bind sb (\<lambda>sb. PSC_StringBuilder_append sb s)) (Some sb) strings = Some sb' \<and>
     wf_sb sb' (t @ concat strings) \<and> sb_str sb' \<noteq> None"
proof (induction strings arbitrary: sb t)
  case Nil
  then show ?case by simp
next
  case (Cons s strings)
  obtain sb1 where sb1: "PSC_StringBuilder_append sb s = Some sb1" "wf_sb sb1 (t @ s)" "sb_str sb1 \<noteq> None"
    using sb_append_ok [OF Cons.prems(1)] by blast
  with Cons.IH [OF sb1(2)] show ?case
    by (cases "strings = []") auto
qed

section \<open>Properties\<close>

text \<open>
  A builder to which any sequence of strings was appended, in chunks of
  \<open>SBCHUNKSZ\<close> bytes that are reallocated as needed, never writes outside its buffer
  and holds exactly the strings behind each other, terminated.\<close>

theorem stringbuilder_concat:
  assumes "strings \<noteq> []" "\<forall>s \<in> set strings. NUL \<notin> set s"
  shows "\<exists>sb b. foldl (\<lambda>sb s. Option.bind sb (\<lambda>sb. PSC_StringBuilder_append sb s))
      (Some PSC_StringBuilder_create) strings = Some sb \<and>
    PSC_StringBuilder_str sb = Some b \<and> buf_cstr b = Some (concat strings)"
proof -
  have "wf_sb PSC_StringBuilder_create []"
    by (simp add: wf_sb_def PSC_StringBuilder_create_def)
  from sb_appends_ok [OF this assms(1)] obtain sb b where sb:
      "foldl (\<lambda>sb s. Option.bind sb (\<lambda>sb. PSC_StringBuilder_append sb s))
        (Some PSC_StringBuilder_create) strings = Some sb"
      "wf_sb sb (concat strings)" "sb_str sb = Some b" by auto
  have "NUL \<notin> set (concat strings)" using assms(2) by auto
  then have "buf_cstr b = Some (concat strings)"
    using sb(2,3) by (auto simp: wf_sb_def intro: buf_cstr_take)
  with sb show ?thesis by (auto simp: PSC_StringBuilder_str_def)
qed

theorem stringbuilder_concat_witness:
  "\<exists>sb b. foldl (\<lambda>sb s. Option.bind sb (\<lambda>sb. PSC_StringBuilder_append sb s))
      (Some PSC_StringBuilder_create) [''GET '', ''/''] = Some sb \<and>
    PSC_StringBuilder_str sb = Some b \<and> buf_cstr b = Some ''GET /''"
  using stringbuilder_concat [of "[''GET '', ''/'']"] by (simp add: NUL_def)

text \<open>
  The joined string is written into a buffer of exactly the computed size: nothing is
  written past its end, every cell is written, and it reads as the strings with the
  delimiter between each two of them.\<close>

theorem joinstr_joins:
  "PSC_joinstr delim (s # strings) =
     Some (Some (map Some (s @ concat (map (\<lambda>t. delim @ t) strings)) @ [Some NUL]))"
proof -
  define n where "n = length s + length (delimited delim strings)"
  have n: "n = (let rlen = sum_list (map length (s # strings)) in
      if 1 < length (s # strings) then rlen + (length (s # strings) - 1) * length delim else rlen)"
    by (cases strings) (simp_all add: n_def length_delimited)
  obtain b where b: "buf_strcpy (buf_alloc (n + 1)) 0 s = Some b" "length b = n + 1"
      "take (length s) b = map Some s" "b ! length s = Some NUL"
    using buf_strcpy_append [of 0 s "buf_alloc (n + 1)" "[]"] by (auto simp: n_def)
  have "joinstr_loop b (length s) delim strings = Some (map Some (s @ delimited delim strings) @ [Some NUL])"
    using b by (intro joinstr_loop_eq) (simp_all add: n_def)
  with b(1) n show ?thesis
    by (simp add: PSC_joinstr_def Let_def delimited_def)
qed

text \<open>\<open>PSC_basename\<close> returns what follows the last separator, and never an empty name.\<close>

theorem basename_last_component:
  "PSC_basename path = (let b = after_last_slash path in if b = [] then ''.'' else b) \<and>
   PSC_basename path \<noteq> [] \<and> CHR ''/'' \<notin> set (PSC_basename path)"
  by (auto simp: PSC_basename_def basename_loop_eq Let_def after_last_slash_def dest: set_takeWhileD)

text \<open>
  The lower-case copy has the size of the original, and each of its characters is the
  lower-case form of the original one.\<close>

theorem lowerstr_copy:
  assumes "NUL \<notin> set s"
  shows "PSC_lowerstr (Some s) = Some (Some (map Some (map tolower s) @ [Some NUL]))"
  using lowerstr_loop_eq [OF assms, of "[]"]
  by (simp add: PSC_lowerstr_def PSC_copystr_def buf_strcpy_eq)

theorem lowerstr_copy_witness:
  "PSC_lowerstr (Some ''AbZ/'') = Some (Some (map Some ''abz/'' @ [Some NUL]))"
  using lowerstr_copy [of "''AbZ/''"] by (simp add: NUL_def tolower_def less_eq_char_def char_of_def bit_numeral_rec bit_1_iff bit_0)

end
