(* ===== verification/Poser_Base64.thy ===== *)
theory Poser_Base64
  imports Prelude
begin

text \<open>
  \<open>PSC_Base64\<close> (\<open>src/lib/core/base64.c\<close>): encoding and decoding without padding, with
  the standard and the URL-safe alphabet.  Input is read from the front of a list, which
  stands for the pointer \<open>d + pos\<close> and the \<open>size - pos\<close> bytes left; output is written
  to a buffer whose size is part of the model, so an encoder or decoder that writes more
  than was allocated has the value \<^const>\<open>None\<close>.  The shifts work on values promoted to
  \<open>int\<close> whose result is stored in an \<open>uint8_t\<close>; shifting at width 8 gives the same.
\<close>

section \<open>Code\<close>

definition PSC_B64_DEFAULT :: u32 where "PSC_B64_DEFAULT = 0"
definition PSC_B64_URLSAFE :: u32 where "PSC_B64_URLSAFE = 1"

definition alphabet :: string where
  "alphabet = ''ABCDEFGHIJKLMNOPQRSTUVWXYZabcdefghijklmnopqrstuvwxyz0123456789+/-_''"

definition enc1 :: "u8 \<Rightarrow> u32 \<Rightarrow> char" where
  "enc1 val flags =
     (let pos = val AND 0x3f;
          pos = (if flags AND PSC_B64_URLSAFE \<noteq> 0 \<and> 0x3e \<le> pos then pos + 2 else pos)
      in alphabet ! unat pos)"

definition dec1 :: "char \<Rightarrow> u8" where
  "dec1 val =
     (case strchr alphabet val of
        None \<Rightarrow> 0xff
      | Some pos \<Rightarrow> (let dec = of_nat pos in if 0x3f < dec then dec - 2 else dec))"

definition PSC_Base64_encodedLen :: "nat \<Rightarrow> nat" where
  "PSC_Base64_encodedLen sz =
     (let res = sz mod 3; res = (if res \<noteq> 0 then res + 1 else res) in 4 * (sz div 3) + res)"

definition PSC_Base64_decodedSize :: "nat \<Rightarrow> nat" where
  "PSC_Base64_decodedSize len =
     (let res = len mod 4; res = (if 1 < res then res - 1 else res) in 3 * (len div 4) + res)"

text \<open>The loop and the tail of \<open>PSC_Base64_encodeTo\<close>; \<open>p\<close> is the offset of \<open>enc\<close>.\<close>

fun PSC_Base64_encodeTo :: "char buf \<Rightarrow> nat \<Rightarrow> bytes \<Rightarrow> u32 \<Rightarrow> char buf option" where
  "PSC_Base64_encodeTo enc p (x # y # z # d) flags = do {
     enc \<leftarrow> buf_write enc p (enc1 (drop_bit 2 x) flags);
     enc \<leftarrow> buf_write enc (p + 1) (enc1 (push_bit 4 x OR drop_bit 4 y) flags);
     enc \<leftarrow> buf_write enc (p + 2) (enc1 (push_bit 2 y OR drop_bit 6 z) flags);
     enc \<leftarrow> buf_write enc (p + 3) (enc1 z flags);
     PSC_Base64_encodeTo enc (p + 4) d flags }"
| "PSC_Base64_encodeTo enc p [x, y] flags = do {
     enc \<leftarrow> buf_write enc p (enc1 (drop_bit 2 x) flags);
     enc \<leftarrow> buf_write enc (p + 1) (enc1 (push_bit 4 x OR drop_bit 4 y) flags);
     enc \<leftarrow> buf_write enc (p + 2) (enc1 (push_bit 2 y) flags);
     buf_write enc (p + 3) NUL }"
| "PSC_Base64_encodeTo enc p [x] flags = do {
     enc \<leftarrow> buf_write enc p (enc1 (drop_bit 2 x) flags);
     enc \<leftarrow> buf_write enc (p + 1) (enc1 (push_bit 4 x) flags);
     buf_write enc (p + 2) NUL }"
| "PSC_Base64_encodeTo enc p [] flags = buf_write enc p NUL"

definition PSC_Base64_encode :: "bytes \<Rightarrow> u32 \<Rightarrow> char buf option" where
  "PSC_Base64_encode data flags =
     PSC_Base64_encodeTo (buf_alloc (PSC_Base64_encodedLen (length data) + 1)) 0 data flags"

fun PSC_Base64_decodeTo :: "u8 buf \<Rightarrow> nat \<Rightarrow> string \<Rightarrow> u8 buf option" where
  "PSC_Base64_decodeTo d p (c1 # c2 # c3 # c4 # enc) = do {
     let b1 = dec1 c1; let b2 = dec1 c2; let b3 = dec1 c3;
     d \<leftarrow> buf_write d p (push_bit 2 b1 OR drop_bit 4 b2);
     d \<leftarrow> buf_write d (p + 1) (push_bit 4 b2 OR drop_bit 2 b3);
     d \<leftarrow> buf_write d (p + 2) (push_bit 6 b3 OR dec1 c4);
     PSC_Base64_decodeTo d (p + 3) enc }"
| "PSC_Base64_decodeTo d p [c1, c2, c3] = do {
     let b1 = dec1 c1; let b2 = dec1 c2; let b3 = dec1 c3;
     d \<leftarrow> buf_write d p (push_bit 2 b1 OR drop_bit 4 b2);
     buf_write d (p + 1) (push_bit 4 b2 OR drop_bit 2 b3) }"
| "PSC_Base64_decodeTo d p [c1, c2] = do {
     let b1 = dec1 c1;
     buf_write d p (push_bit 2 b1 OR drop_bit 4 (dec1 c2)) }"
| "PSC_Base64_decodeTo d p _ = Some d"

text \<open>The decoded buffer and its size; the input is the string before the terminator.\<close>

definition PSC_Base64_decode :: "string \<Rightarrow> (u8 buf \<times> nat) option" where
  "PSC_Base64_decode enc = do {
     let dsz = PSC_Base64_decodedSize (length enc);
     decoded \<leftarrow> PSC_Base64_decodeTo (buf_alloc dsz) 0 enc;
     Some (decoded, dsz) }"

section \<open>Specification\<close>

text \<open>
  Base 64 after RFC 4648, section 4, without padding: the data as one sequence of bits,
  most significant first, cut into groups of six, the last one filled with zero bits.
\<close>

definition byte_bits :: "u8 \<Rightarrow> bool list" where
  "byte_bits x = map (bit x) [7, 6, 5, 4, 3, 2, 1, 0]"

definition sextet :: "bool list \<Rightarrow> u8" where
  "sextet bs = horner_sum of_bool 2 (rev (bs @ replicate (6 - length bs) False))"

fun sextets :: "bool list \<Rightarrow> u8 list" where
  "sextets (b1 # b2 # b3 # b4 # b5 # b6 # bs) = sextet [b1, b2, b3, b4, b5, b6] # sextets bs"
| "sextets [] = []"
| "sextets bs = [sextet bs]"

definition b64_spec :: "bytes \<Rightarrow> u32 \<Rightarrow> string" where
  "b64_spec data flags = map (\<lambda>v. enc1 v flags) (sextets (concat (map byte_bits data)))"

section \<open>Lemmas\<close>

lemma mask6: "(0x3f :: u8) = mask 6"
  by (simp add: mask_eq_exp_minus_1)

text \<open>One character, both ways.\<close>

lemma distinct_alphabet: "distinct alphabet" "length alphabet = 66" "NUL \<notin> set alphabet"
  by (simp_all add: alphabet_def NUL_def)

lemma enc1_idx:
  "\<exists>pos. enc1 v flags = alphabet ! unat pos \<and> unat pos < 66 \<and>
     (if 0x3f < pos then pos - 2 else pos) = v AND 0x3f"
proof -
  have le: "v AND 0x3f \<le> 0x3f" by (rule word_and_le1)
  have "unat (v AND 0x3f) < 66" "unat ((v AND 0x3f) + 2) < 66"
    using le by (unat_arith; simp)+
  moreover have "0x3f < (v AND 0x3f) + 2" if "0x3e \<le> v AND 0x3f"
    using that le by (unat_arith; simp)
  moreover have "\<not> 0x3f < v AND 0x3f" using le by (simp add: not_less)
  moreover have "enc1 v flags = alphabet ! unat (v AND 0x3f) \<or>
      0x3e \<le> v AND 0x3f \<and> enc1 v flags = alphabet ! unat ((v AND 0x3f) + 2)"
    by (simp add: enc1_def Let_def)
  ultimately show ?thesis
    by (metis add_diff_cancel_right')
qed

lemma dec1_enc1 [simp]: "dec1 (enc1 v flags) = v AND 0x3f"
proof -
  obtain pos where pos: "enc1 v flags = alphabet ! unat pos" "unat pos < 66"
      "(if 0x3f < pos then pos - 2 else pos) = v AND 0x3f"
    using enc1_idx by blast
  then show ?thesis
    using strchr_nth [OF _ distinct_alphabet(1), of "unat pos"]
    by (simp add: dec1_def distinct_alphabet Let_def)
qed

lemma enc1_nonNUL [simp]: "enc1 v flags \<noteq> NUL"
  using enc1_idx [of v flags] distinct_alphabet nth_mem [of _ alphabet] by fastforce

lemma enc1_mask: "enc1 (v AND 0x3f) flags = enc1 v flags"
  by (simp add: enc1_def and.assoc)

text \<open>The characters of the encoded string and the bytes of the decoded one, as lists.\<close>

fun enc_chars :: "bytes \<Rightarrow> u32 \<Rightarrow> string" where
  "enc_chars (x # y # z # d) flags =
     enc1 (drop_bit 2 x) flags # enc1 (push_bit 4 x OR drop_bit 4 y) flags #
     enc1 (push_bit 2 y OR drop_bit 6 z) flags # enc1 z flags # enc_chars d flags"
| "enc_chars [x, y] flags =
     [enc1 (drop_bit 2 x) flags, enc1 (push_bit 4 x OR drop_bit 4 y) flags, enc1 (push_bit 2 y) flags]"
| "enc_chars [x] flags = [enc1 (drop_bit 2 x) flags, enc1 (push_bit 4 x) flags]"
| "enc_chars [] flags = []"

fun dec_bytes :: "string \<Rightarrow> bytes" where
  "dec_bytes (c1 # c2 # c3 # c4 # enc) =
     (push_bit 2 (dec1 c1) OR drop_bit 4 (dec1 c2)) # (push_bit 4 (dec1 c2) OR drop_bit 2 (dec1 c3)) #
     (push_bit 6 (dec1 c3) OR dec1 c4) # dec_bytes enc"
| "dec_bytes [c1, c2, c3] =
     [push_bit 2 (dec1 c1) OR drop_bit 4 (dec1 c2), push_bit 4 (dec1 c2) OR drop_bit 2 (dec1 c3)]"
| "dec_bytes [c1, c2] = [push_bit 2 (dec1 c1) OR drop_bit 4 (dec1 c2)]"
| "dec_bytes _ = []"

lemma offsets: "p + 1 = Suc p" "p + 2 = Suc (Suc p)" "p + 3 = Suc (Suc (Suc p))"
    "p + 4 = Suc (Suc (Suc (Suc p)))"
  by simp_all

lemma encodeTo_store: "PSC_Base64_encodeTo b p d flags = buf_store b p (enc_chars d flags @ [NUL])"
  by (induction d flags arbitrary: b p rule: enc_chars.induct) (simp_all add: offsets)

lemma decodeTo_store: "PSC_Base64_decodeTo b p enc = buf_store b p (dec_bytes enc)"
  by (induction enc arbitrary: b p rule: dec_bytes.induct) (simp_all add: offsets Let_def)

lemma length_enc_chars: "length (enc_chars d flags) = PSC_Base64_encodedLen (length d)"
  by (induction d flags rule: enc_chars.induct) (simp_all add: PSC_Base64_encodedLen_def Let_def div_add_self1)

lemma length_dec_bytes:
  "length (dec_bytes enc) = PSC_Base64_decodedSize (length enc) - (if length enc mod 4 = 1 then 1 else 0)"
  by (induction enc rule: dec_bytes.induct) (auto simp: PSC_Base64_decodedSize_def Let_def div_add_self1)

lemma enc_chars_nonNUL: "NUL \<notin> set (enc_chars d flags)"
  by (induction d flags rule: enc_chars.induct) (simp_all add: eq_commute [of NUL])

text \<open>The bit arithmetic of one group.\<close>

lemmas b64_bits = mask6 bit_simps bit_mask_iff

lemma regroup:
  "push_bit 2 (drop_bit 2 x AND 0x3f) OR drop_bit 4 ((push_bit 4 x OR drop_bit 4 y) AND 0x3f) = x"
  "push_bit 4 ((push_bit 4 x OR drop_bit 4 y) AND 0x3f) OR drop_bit 2 ((push_bit 2 y OR drop_bit 6 z) AND 0x3f) = y"
  "push_bit 6 ((push_bit 2 y OR drop_bit 6 z) AND 0x3f) OR (z AND 0x3f) = z"
  for x y z :: u8
  by (rule byte_eqI; simp add: b64_bits bit_idx del: push_bit_and push_bit_or drop_bit_and drop_bit_or)+

lemma regroup_tail:
  "push_bit 2 (drop_bit 2 x AND 0x3f) OR drop_bit 4 (push_bit 4 x AND 0x3f) = x"
  "push_bit 4 ((push_bit 4 x OR drop_bit 4 y) AND 0x3f) OR drop_bit 2 (push_bit 2 y AND 0x3f) = y"
  for x y :: u8
  using regroup(1) [of x 0] regroup(2) [of x y 0] by (simp_all only: drop_bit_of_0 or.right_neutral)

lemma dec_enc: "dec_bytes (enc_chars d flags) = d"
  by (induction d flags rule: enc_chars.induct) (simp_all add: regroup regroup_tail del: push_bit_and push_bit_or drop_bit_and drop_bit_or)

text \<open>The characters are those of the specification.\<close>

lemma sextet_bits:
  "sextet [bit x 7, bit x 6, bit x 5, bit x 4, bit x 3, bit x 2] = drop_bit 2 x AND 0x3f"
  "sextet [bit x 1, bit x 0, bit y 7, bit y 6, bit y 5, bit y 4] = (push_bit 4 x OR drop_bit 4 y) AND 0x3f"
  "sextet [bit y 3, bit y 2, bit y 1, bit y 0, bit z 7, bit z 6] = (push_bit 2 y OR drop_bit 6 z) AND 0x3f"
  "sextet [bit z 5, bit z 4, bit z 3, bit z 2, bit z 1, bit z 0] = z AND 0x3f"
  "sextet [bit x 1, bit x 0] = push_bit 4 x AND 0x3f"
  "sextet [bit y 3, bit y 2, bit y 1, bit y 0] = push_bit 2 y AND 0x3f"
  for x y z :: u8
  by (rule byte_eqI; simp add: sextet_def bit_horner_sum_bit_iff b64_bits bit_idx nth_append)+

lemma enc_chars_spec: "enc_chars d flags = b64_spec d flags"
  by (induction d flags rule: enc_chars.induct)
    (simp_all add: b64_spec_def byte_bits_def sextet_bits sextet_bits [simplified] enc1_mask)

lemma encode_cells: "PSC_Base64_encode d flags = Some (map Some (enc_chars d flags @ [NUL]))"
  by (simp add: PSC_Base64_encode_def encodeTo_store buf_store_eq length_enc_chars)

lemma decode_cells:
  "PSC_Base64_decode enc =
     Some (map Some (dec_bytes enc) @ replicate (if length enc mod 4 = 1 then 1 else 0) None,
           PSC_Base64_decodedSize (length enc))"
proof -
  let ?n = "PSC_Base64_decodedSize (length enc)"
  have "(if length enc mod 4 = 1 then 1 else 0) \<le> ?n"
    by (simp add: PSC_Base64_decodedSize_def Let_def)
  then have "?n - length (dec_bytes enc) = (if length enc mod 4 = 1 then 1 else 0)"
      "length (dec_bytes enc) \<le> ?n"
    by (simp_all add: length_dec_bytes)
  then show ?thesis
    by (simp add: PSC_Base64_decode_def decodeTo_store buf_store_eq buf_alloc_def Let_def)
qed

section \<open>Properties\<close>

text \<open>
  Encoding writes exactly the buffer it allocates, terminated, and what it writes is
  base 64 as RFC 4648 defines it (without padding): the bits of the data in groups of
  six, for every input and for both alphabets.\<close>

theorem base64_encode_spec:
  "PSC_Base64_encode data flags = Some (map Some (b64_spec data flags @ [NUL])) \<and>
   length (b64_spec data flags) = PSC_Base64_encodedLen (length data) \<and>
   buf_cstr (map Some (b64_spec data flags @ [NUL])) = Some (b64_spec data flags)"
  using encode_cells [of data flags] enc_chars_nonNUL [of data flags] length_enc_chars [of data flags]
    buf_cstr_map [of "enc_chars data flags" "[]"]
  by (simp add: enc_chars_spec)

text \<open>
  C32: What \<open>PSC_Base64_encode\<close> returns, decoded again, is the original data, with its
  original size, for every data and both alphabets; the decoder needs no flag.\<close>

theorem base64_roundtrip:
  "\<exists>cells enc. PSC_Base64_encode data flags = Some cells \<and> buf_cstr cells = Some enc \<and>
     PSC_Base64_decode enc = Some (map Some data, length data)"
proof -
  have "length (enc_chars data flags) mod 4 \<noteq> 1"
    unfolding length_enc_chars PSC_Base64_encodedLen_def Let_def by (simp split: if_splits)
  moreover have "PSC_Base64_decodedSize (length (enc_chars data flags)) = length data"
    using length_dec_bytes [of "enc_chars data flags"] calculation by (simp add: dec_enc)
  ultimately have "PSC_Base64_decode (enc_chars data flags) = Some (map Some data, length data)"
    by (simp add: decode_cells dec_enc)
  then show ?thesis
    using encode_cells [of data flags] buf_cstr_map [OF enc_chars_nonNUL, of data flags "[]"] by simp
qed

text \<open>
  The decoder stays inside its buffer for every input string.  It writes all of it,
  unless the length is one more than a multiple of four: then the size it reports counts
  one byte more than it writes, and the last byte it returns was never written.\<close>

theorem base64_decode_cells:
  "\<exists>cells. PSC_Base64_decode enc = Some (cells, PSC_Base64_decodedSize (length enc)) \<and>
     length cells = PSC_Base64_decodedSize (length enc) \<and>
     (None \<in> set cells \<longleftrightarrow> length enc mod 4 = 1)"
proof -
  have "(if length enc mod 4 = 1 then 1 else 0) \<le> PSC_Base64_decodedSize (length enc)"
    by (simp add: PSC_Base64_decodedSize_def Let_def)
  then show ?thesis by (auto simp: decode_cells length_dec_bytes)
qed

end
