(* ===== verification/Poser_RateLimit.thy ===== *)
theory Poser_RateLimit
  imports Poser_Dictionary
begin

text \<open>
  \<open>PSC_RateLimit\<close> (\<open>src/lib/core/ratelimit.c\<close>): rate limits per key.  A limit divides its
  period into at most \<open>MAXCOUNTS\<close> slots of whole seconds; an entry counts the granted
  actions per slot in a ring of counters and keeps their sum.  All of this is arithmetic
  on \<open>uint16_t\<close>, slot numbers included.

  The dictionary of a rate limiter holds pointers to arrays of entries that are changed
  in place, so the model has a heap for them; the destructor calls of the dictionary
  release them.  The clock is an argument: the seconds of \<open>CLOCK_MONOTONIC\<close>.  The build
  with atomics is modelled; its spin lock is a field of the entry.
\<close>

section \<open>Limits and entries\<close>

definition MAXCOUNTS :: nat where "MAXCOUNTS = 512"

record RL_Entry =
  en_lock :: bool
  en_last :: u16
  en_total :: u16
  en_countpos :: u16
  en_counts :: "u16 list"

record Limit =
  l_seconds :: u16
  l_limit :: u16
  l_res :: u16
  l_ncounts :: u16

text \<open>\<open>memset (e, 0, sizeof *e)\<close> clears the lock, too.\<close>

definition zero_entry :: RL_Entry where
  "zero_entry = \<lparr>en_lock = False, en_last = 0, en_total = 0, en_countpos = 0,
                 en_counts = replicate MAXCOUNTS 0\<rparr>"

text \<open>\<open>ts->tv_sec / self->res\<close>, stored in an \<open>uint16_t\<close>.\<close>

definition slot16 :: "Limit \<Rightarrow> nat \<Rightarrow> u16 option" where
  "slot16 l tv_sec = (if l_res l = 0 then None else Some (of_nat (tv_sec div unat (l_res l))))"

text \<open>The loop that moves the ring forward, one slot at a time; slot numbers wrap around.\<close>

function advance :: "u16 \<Rightarrow> u16 \<Rightarrow> RL_Entry \<Rightarrow> RL_Entry option" where
  "advance ncounts now e =
     (if en_last e = now then Some e
      else (let cp = en_countpos e + 1;
                cp = (if cp = ncounts then 0 else cp)
            in if unat cp < length (en_counts e)
               then advance ncounts now
                 (e\<lparr>en_countpos := cp, en_total := en_total e - en_counts e ! unat cp,
                    en_counts := (en_counts e)[unat cp := 0], en_last := en_last e + 1\<rparr>)
               else None))"
  by pat_completeness auto
termination
proof (relation "measure (\<lambda>(n, now, e). unat (now - en_last e))")
  fix ncounts now :: u16 and e :: RL_Entry and x cp
  assume "en_last e \<noteq> now"
  then have "now - en_last e \<noteq> 0" by simp
  then have "unat (now - en_last e - 1) < unat (now - en_last e)"
    by (metis diff_less gr_zeroI less_numeral_extra(1) unat_eq_zero unat_minus_one)
  then show "((ncounts, now, e\<lparr>en_countpos := cp, en_total := en_total e - en_counts e ! unat cp,
      en_counts := (en_counts e)[unat cp := 0], en_last := en_last e + 1\<rparr>), ncounts, now, e)
      \<in> measure (\<lambda>(n, now, e). unat (now - en_last e))"
    by (simp add: diff_diff_eq)
qed simp

declare advance.simps [simp del]

text \<open>The statements of \<open>checkLimit\<close> between taking and releasing the lock, in two parts.\<close>

definition cl_update :: "Limit \<Rightarrow> u16 \<Rightarrow> RL_Entry \<Rightarrow> RL_Entry option" where
  "cl_update self now e =
     (if en_total e \<noteq> 0
      then (if uint (l_ncounts self) \<le> uint now - uint (en_last e)
            then Some (zero_entry\<lparr>en_last := now\<rparr>)
            else advance (l_ncounts self) now e)
      else Some (e\<lparr>en_last := now\<rparr>))"

definition cl_count :: "Limit \<Rightarrow> RL_Entry \<Rightarrow> (RL_Entry \<times> bool) option" where
  "cl_count self e =
     (if en_total e < l_limit self
      then (let cp = unat (en_countpos e)
            in if cp < length (en_counts e)
               then Some (e\<lparr>en_counts := (en_counts e)[cp := en_counts e ! cp + 1],
                            en_total := en_total e + 1\<rparr>, True)
               else None)
      else Some (e, False))"

text \<open>A call by one thread: a lock that is taken is waited for forever.\<close>

definition checkLimit :: "Limit \<Rightarrow> RL_Entry \<Rightarrow> nat \<Rightarrow> (RL_Entry \<times> bool) option" where
  "checkLimit self e tv_sec = do {
     now \<leftarrow> slot16 self tv_sec;
     e \<leftarrow> (if en_lock e then None else Some (e\<lparr>en_lock := True\<rparr>));
     e \<leftarrow> cl_update self now e;
     (e, ok) \<leftarrow> cl_count self e;
     Some (e\<lparr>en_lock := False\<rparr>, ok) }"

section \<open>Options\<close>

record PSC_RateLimitOpts =
  ro_limits_capa :: nat
  ro_limits :: "Limit list"

definition PSC_RateLimitOpts_create :: PSC_RateLimitOpts where
  "PSC_RateLimitOpts_create = \<lparr>ro_limits_capa = 0, ro_limits = []\<rparr>"

definition mk_limit :: "nat \<Rightarrow> nat \<Rightarrow> Limit" where
  "mk_limit seconds limit =
     (let res = (seconds + MAXCOUNTS - 1) div MAXCOUNTS
      in \<lparr>l_seconds = of_nat seconds, l_limit = of_nat limit, l_res = of_nat res,
          l_ncounts = of_nat ((seconds + res - 1) div res)\<rparr>)"

text \<open>The result is the error code, \<open>-1\<close> for a value out of range.\<close>

definition PSC_RateLimitOpts_addLimit :: "PSC_RateLimitOpts \<Rightarrow> int \<Rightarrow> int \<Rightarrow> PSC_RateLimitOpts \<times> int" where
  "PSC_RateLimitOpts_addLimit self seconds limit =
     (if seconds < 1 \<or> 0xffff < seconds \<or> limit < 1 \<or> 0xffff < limit then (self, -1)
      else (let self = (if length (ro_limits self) = ro_limits_capa self
                        then self\<lparr>ro_limits_capa := ro_limits_capa self + 8\<rparr> else self)
            in (self\<lparr>ro_limits := ro_limits self @ [mk_limit (nat seconds) (nat limit)]\<rparr>, 0)))"

fun limits_equal :: "Limit list \<Rightarrow> Limit list \<Rightarrow> bool" where
  "limits_equal (x # xs) (y # ys) \<longleftrightarrow>
     (if l_seconds x \<noteq> l_seconds y then False
      else if l_limit x \<noteq> l_limit y then False else limits_equal xs ys)"
| "limits_equal _ _ \<longleftrightarrow> True"

definition PSC_RateLimitOpts_equals :: "PSC_RateLimitOpts \<Rightarrow> PSC_RateLimitOpts \<Rightarrow> bool" where
  "PSC_RateLimitOpts_equals self other =
     (if length (ro_limits self) \<noteq> length (ro_limits other) then False
      else limits_equal (ro_limits self) (ro_limits other))"

section \<open>The rate limiter\<close>

text \<open>
  Arrays of entries live in a heap; an address that was handed out is never handed out
  again.  \<open>free\<close> is the destructor of the dictionary.
\<close>

record RL_Heap =
  h_next :: ptr
  h_arrays :: "ptr \<rightharpoonup> RL_Entry list"

definition rl_free :: deleter where
  "rl_free = Fn 0"

definition free_all :: "(deleter \<times> ptr option) list \<Rightarrow> RL_Heap \<Rightarrow> RL_Heap" where
  "free_all calls h = h\<lparr>h_arrays := foldl (\<lambda>m c. case snd c of None \<Rightarrow> m | Some p \<Rightarrow> m(p := None))
     (h_arrays h) calls\<rparr>"

record PSC_RateLimit =
  rl_entries :: "ptr PSC_Dictionary option"
  rl_cleancount :: u16
  rl_limits :: "Limit list"

definition PSC_RateLimit_create :: "secret_state \<Rightarrow> bytes \<Rightarrow> PSC_RateLimitOpts \<Rightarrow> PSC_RateLimit" where
  "PSC_RateLimit_create st rnd opts =
     \<lparr>rl_entries = fst (PSC_Dictionary_create st rnd rl_free True), rl_cleancount = 2000,
      rl_limits = ro_limits opts\<rparr>"

text \<open>The matcher for clean-up; the slot of each limit is in the argument \<open>nows\<close>.\<close>

fun expired_loop :: "Limit list \<Rightarrow> u16 list \<Rightarrow> RL_Entry list \<Rightarrow> bool" where
  "expired_loop (l # ls) (now # nows) (e # es) =
     (if uint now - uint (en_last e) < uint (l_ncounts l) then False else expired_loop ls nows es)"
| "expired_loop _ _ _ = True"

definition expired :: "Limit list \<Rightarrow> u16 list \<Rightarrow> RL_Heap \<Rightarrow> bytes \<Rightarrow> ptr option \<Rightarrow> bool" where
  "expired limits nows h key obj =
     (case Option.bind obj (h_arrays h) of None \<Rightarrow> False | Some es \<Rightarrow> expired_loop limits nows es)"

fun slots16 :: "Limit list \<Rightarrow> nat \<Rightarrow> u16 list option" where
  "slots16 [] t = Some []"
| "slots16 (l # ls) t = do { s \<leftarrow> slot16 l t; ss \<leftarrow> slots16 ls t; Some (s # ss) }"

text \<open>The clean-up that every 2000th call starts with.\<close>

definition rl_cleanup :: "PSC_RateLimit \<Rightarrow> RL_Heap \<Rightarrow> nat \<Rightarrow> (PSC_RateLimit \<times> RL_Heap) option" where
  "rl_cleanup self h t = do {
     nows \<leftarrow> slots16 (rl_limits self) t;
     d \<leftarrow> rl_entries self;
     let (d, calls, n) = PSC_Dictionary_removeAll d (expired (rl_limits self) nows h);
     Some (self\<lparr>rl_entries := Some d, rl_cleancount := 2000\<rparr>, free_all calls h) }"

text \<open>The loop that looks up the entries of a key and adds new ones until they are found.\<close>

fun rl_lookup :: "nat \<Rightarrow> xxhash \<Rightarrow> PSC_RateLimit \<Rightarrow> RL_Heap \<Rightarrow> bytes \<Rightarrow> nat
    \<Rightarrow> (PSC_RateLimit \<times> RL_Heap \<times> ptr) option" where
  "rl_lookup fuel xxh self h key t = do {
     d \<leftarrow> rl_entries self;
     found \<leftarrow> PSC_Dictionary_get xxh d key;
     (case found of
        Some e \<Rightarrow> Some (self, h, e)
      | None \<Rightarrow> (case fuel of
            0 \<Rightarrow> None
          | Suc fuel \<Rightarrow> do {
              lasts \<leftarrow> slots16 (rl_limits self) t;
              let ne = h_next h;
              let h = \<lparr>h_next = Suc ne,
                       h_arrays = (h_arrays h)(ne \<mapsto> map (\<lambda>s. zero_entry\<lparr>en_last := s\<rparr>) lasts)\<rparr>;
              (d, calls) \<leftarrow> PSC_Dictionary_set xxh d key (Some ne) NoFn;
              rl_lookup fuel xxh (self\<lparr>rl_entries := Some d\<rparr>) (free_all calls h) key t })) }"

declare rl_lookup.simps [simp del]

fun check_limits :: "Limit list \<Rightarrow> RL_Entry list \<Rightarrow> nat \<Rightarrow> (RL_Entry list \<times> bool) option" where
  "check_limits [] es t = Some (es, True)"
| "check_limits (l # ls) [] t = None"
| "check_limits (l # ls) (e # es) t = do {
     (e, ok) \<leftarrow> checkLimit l e t;
     (es, oks) \<leftarrow> check_limits ls es t;
     Some (e # es, ok \<and> oks) }"

text \<open>
  \<open>ts\<close> is the time \<open>clock_gettime\<close> delivers, \<^const>\<open>None\<close> when it fails.  One round of
  the lookup loop is enough (shown below).
\<close>

definition PSC_RateLimit_check :: "xxhash \<Rightarrow> PSC_RateLimit \<Rightarrow> RL_Heap \<Rightarrow> bytes \<Rightarrow> nat option
    \<Rightarrow> (PSC_RateLimit \<times> RL_Heap \<times> bool) option" where
  "PSC_RateLimit_check xxh self h key ts =
     (case ts of
        None \<Rightarrow> Some (self, h, False)
      | Some t \<Rightarrow> do {
          let self = self\<lparr>rl_cleancount := rl_cleancount self - 1\<rparr>;
          (self, h) \<leftarrow> (if rl_cleancount self = 0 then rl_cleanup self h t else Some (self, h));
          (self, h, e) \<leftarrow> rl_lookup 1 xxh self h key t;
          es \<leftarrow> h_arrays h e;
          (es, ok) \<leftarrow> check_limits (rl_limits self) es t;
          Some (self, h\<lparr>h_arrays := (h_arrays h)(e \<mapsto> es)\<rparr>, ok) })"

definition PSC_RateLimit_destroy :: "PSC_RateLimit option \<Rightarrow> RL_Heap \<Rightarrow> RL_Heap" where
  "PSC_RateLimit_destroy self h =
     (case self of None \<Rightarrow> h | Some rl \<Rightarrow> free_all (PSC_Dictionary_destroy (rl_entries rl)) h)"

section \<open>Windows of granted actions\<close>

text \<open>
  The specification sees time as unbounded slot numbers and remembers the slots of all
  granted actions; a slot counts while it is one of the last \<open>nc\<close> slots.
\<close>

definition wcount :: "nat \<Rightarrow> nat \<Rightarrow> nat list \<Rightarrow> nat" where
  "wcount nc T hist = length (filter (\<lambda>s. T < s + nc) hist)"

definition at_slot :: "nat \<Rightarrow> nat \<Rightarrow> nat list \<Rightarrow> nat" where
  "at_slot T k hist = length (filter (\<lambda>s. s + k = T) hist)"

definition wf_limit :: "Limit \<Rightarrow> bool" where
  [wf_defs]: "wf_limit l \<longleftrightarrow> 1 \<le> unat (l_res l) \<and> 1 \<le> unat (l_ncounts l) \<and> unat (l_ncounts l) \<le> MAXCOUNTS \<and>
     1 \<le> unat (l_limit l) \<and> unat (l_seconds l) \<le> unat (l_ncounts l) * unat (l_res l) \<and>
     unat (l_ncounts l) * unat (l_res l) < unat (l_seconds l) + unat (l_res l)"

text \<open>The position in the ring of the slot \<open>k\<close> slots back.\<close>

definition ringpos :: "nat \<Rightarrow> nat \<Rightarrow> nat \<Rightarrow> nat" where
  "ringpos nc cp k = (if k \<le> cp then cp - k else cp + nc - k)"

text \<open>The ring holds the counters of the last slots, the current one at \<open>countpos\<close>.\<close>

definition ring :: "nat \<Rightarrow> nat \<Rightarrow> nat list \<Rightarrow> RL_Entry \<Rightarrow> bool" where
  "ring nc T hist e \<longleftrightarrow> length (en_counts e) = MAXCOUNTS \<and> unat (en_countpos e) < nc \<and>
     en_last e = of_nat T \<and> (\<forall>s \<in> set hist. s \<le> T) \<and>
     unat (en_total e) = wcount nc T hist \<and>
     (\<forall>k < nc. unat (en_counts e ! ringpos nc (unat (en_countpos e)) k) = at_slot T k hist)"

definition window :: "Limit \<Rightarrow> nat \<Rightarrow> nat list \<Rightarrow> RL_Entry \<Rightarrow> bool" where
  "window l T hist e \<longleftrightarrow> \<not> en_lock e \<and> ring (unat (l_ncounts l)) T hist e \<and> en_total e \<le> l_limit l"

section \<open>Lemmas\<close>

lemma length_filter_split:
  "length (filter P xs) = length (filter (\<lambda>x. P x \<and> Q x) xs) + length (filter (\<lambda>x. P x \<and> \<not> Q x) xs)"
  by (induction xs) auto

lemma length_filter_le_mono:
  "(\<And>x. x \<in> set xs \<Longrightarrow> P x \<Longrightarrow> Q x) \<Longrightarrow> length (filter P xs) \<le> length (filter Q xs)"
  by (induction xs) auto

lemma wcount_step:
  assumes "1 \<le> nc"
  shows "wcount nc T hist = wcount nc (Suc T) hist + at_slot T (nc - 1) hist"
proof -
  have "filter (\<lambda>s. T < s + nc \<and> Suc T < s + nc) hist = filter (\<lambda>s. Suc T < s + nc) hist"
    "filter (\<lambda>s. T < s + nc \<and> \<not> Suc T < s + nc) hist = filter (\<lambda>s. s + (nc - 1) = T) hist"
    using assms by (auto intro!: filter_cong)
  then show ?thesis
    using length_filter_split [of "\<lambda>s. T < s + nc" hist "\<lambda>s. Suc T < s + nc"]
    by (simp add: wcount_def at_slot_def)
qed

lemma at_slot_le: "k < nc \<Longrightarrow> at_slot T k hist \<le> wcount nc T hist"
  unfolding at_slot_def wcount_def by (rule length_filter_le_mono) simp

lemma at_slot_future: "\<forall>s \<in> set hist. s \<le> T \<Longrightarrow> T < T' \<Longrightarrow> at_slot T' 0 hist = 0"
  by (auto simp: at_slot_def filter_empty_conv)

lemma at_slot_Suc: "at_slot (Suc T) (Suc k) hist = at_slot T k hist"
  by (simp add: at_slot_def)

lemma wcount_gone:
  assumes "\<forall>s \<in> set hist. s \<le> T" "T + nc \<le> T'"
  shows "wcount nc T' hist = 0"
proof -
  have "\<not> T' < s + nc" if "s \<in> set hist" for s
    using assms(1) that assms(2) by (metis add_le_mono1 le_trans not_less)
  then show ?thesis by (simp add: wcount_def filter_empty_conv)
qed

lemma wcount_mono: "T \<le> T' \<Longrightarrow> wcount nc T' hist \<le> wcount nc T hist"
  unfolding wcount_def by (rule length_filter_le_mono) simp

lemma ringpos_less: "cp < nc \<Longrightarrow> k < nc \<Longrightarrow> ringpos nc cp k < nc"
  by (auto simp: ringpos_def)

lemma ringpos_inj: "cp < nc \<Longrightarrow> j < nc \<Longrightarrow> k < nc \<Longrightarrow> ringpos nc cp j = ringpos nc cp k \<Longrightarrow> j = k"
  by (auto simp: ringpos_def split: if_splits)

lemma ringpos_0 [simp]: "ringpos nc cp 0 = cp"
  by (simp add: ringpos_def)

lemma ringpos_step:
  assumes "cp < nc" "cp' = (if Suc cp = nc then 0 else Suc cp)" "k < nc"
  shows "ringpos nc cp' k = (if k = 0 then ringpos nc cp (nc - 1) else ringpos nc cp (k - 1))"
  using assms by (auto simp: ringpos_def)

lemma unat_Suc_u16: "unat (w :: u16) < MAXCOUNTS \<Longrightarrow> unat (w + 1) = Suc (unat w)"
  by (simp add: MAXCOUNTS_def unat_word_ariths)

lemma u16_of_nat_neq:
  assumes "T < T'" "T' - T < 2 ^ 16"
  shows "(of_nat T :: u16) \<noteq> of_nat T'"
proof
  assume "(of_nat T :: u16) = of_nat T'"
  then have "T' mod 2 ^ 16 = T mod 2 ^ 16"
    by (simp add: word_of_nat_eq_iff take_bit_eq_mod)
  then have "2 ^ 16 dvd T' - T"
    using assms(1) by (simp add: mod_eq_dvd_iff_nat)
  with assms show False by (auto dest: dvd_imp_le)
qed

text \<open>One round of the loop is one slot.\<close>

definition ring_step :: "u16 \<Rightarrow> RL_Entry \<Rightarrow> RL_Entry" where
  "ring_step ncounts e =
     (let cp = en_countpos e + 1; cp = (if cp = ncounts then 0 else cp)
      in e\<lparr>en_countpos := cp, en_total := en_total e - en_counts e ! unat cp,
           en_counts := (en_counts e)[unat cp := 0], en_last := en_last e + 1\<rparr>)"

lemma step_pos:
  assumes "ring (unat nc) T hist e" "unat nc \<le> MAXCOUNTS"
  shows "unat (let cp = en_countpos e + 1 in if cp = nc then 0 else cp) =
    (if Suc (unat (en_countpos e)) = unat nc then 0 else Suc (unat (en_countpos e)))"
proof -
  have "unat (en_countpos e + 1) = Suc (unat (en_countpos e))"
    using assms by (intro unat_Suc_u16) (simp add: ring_def)
  then show ?thesis by (auto simp: Let_def word_unat_eq_iff)
qed

lemma ring_step_ok:
  assumes r: "ring (unat nc) T hist e" and nc: "1 \<le> unat nc" "unat nc \<le> MAXCOUNTS"
  shows "ring (unat nc) (Suc T) hist (ring_step nc e)"
proof -
  define n where "n = unat nc"
  define cp where "cp = unat (en_countpos e)"
  define cp' where "cp' = (if Suc cp = n then 0 else Suc cp)"
  define p where "p = (let cp = en_countpos e + 1 in if cp = nc then 0 else cp)"
  have p: "unat p = cp'"
    using step_pos [OF r nc(2)] by (simp add: p_def cp'_def cp_def n_def)
  have e': "ring_step nc e = e\<lparr>en_countpos := p, en_total := en_total e - en_counts e ! cp',
       en_counts := (en_counts e)[cp' := 0], en_last := en_last e + 1\<rparr>"
    unfolding ring_step_def p [symmetric] by (simp add: p_def Let_def)
  have cp: "cp < n" "cp' < n" and len: "length (en_counts e) = MAXCOUNTS" and "n \<le> MAXCOUNTS"
    using r nc by (auto simp: ring_def cp_def cp'_def n_def)
  have hist: "\<forall>s \<in> set hist. s \<le> T" and cnt: "\<And>k. k < n \<Longrightarrow> unat (en_counts e ! ringpos n cp k) = at_slot T k hist"
    and tot: "unat (en_total e) = wcount n T hist"
    using r by (auto simp: ring_def cp_def n_def)
  have pos: "ringpos n cp' k = (if k = 0 then ringpos n cp (n - 1) else ringpos n cp (k - 1))" if "k < n" for k
    using ringpos_step [OF cp(1) cp'_def that] .
  have old: "unat (en_counts e ! cp') = at_slot T (n - 1) hist"
    using cnt [of "n - 1"] pos [of 0] nc by (simp add: n_def)
  have "unat (en_total e - en_counts e ! cp') = unat (en_total e) - unat (en_counts e ! cp')"
    using old tot at_slot_le [of "n - 1" n T hist] nc by (intro unat_sub) (simp add: word_le_nat_alt n_def)
  then have "unat (en_total (ring_step nc e)) = wcount n (Suc T) hist"
    using old tot wcount_step [of n T hist] nc by (simp add: e' n_def)
  moreover have "unat (en_counts (ring_step nc e) ! ringpos n cp' k) = at_slot (Suc T) k hist" if "k < n" for k
  proof (cases k)
    case 0
    then show ?thesis
      using at_slot_future [OF hist, of "Suc T"] cp len \<open>n \<le> MAXCOUNTS\<close> by (simp add: e')
  next
    case (Suc j)
    then have "ringpos n cp' k \<noteq> cp'"
      using ringpos_inj [OF cp(2) that, of 0] nc by (auto simp: n_def)
    then show ?thesis
      using pos [OF that] cnt [of j] that Suc by (simp add: e' at_slot_Suc)
  qed
  ultimately show ?thesis
    using r cp p hist by (auto simp: ring_def e' n_def [symmetric] le_SucI)
qed

lemma advance_ok:
  assumes "ring (unat nc) T hist e" "1 \<le> unat nc" "unat nc \<le> MAXCOUNTS"
  shows "T \<le> T' \<Longrightarrow> T' - T < 2 ^ 16 \<Longrightarrow>
    \<exists>e'. advance nc (of_nat T') e = Some e' \<and> ring (unat nc) T' hist e' \<and> en_lock e' = en_lock e"
  using assms
proof (induction "T' - T" arbitrary: T e)
  case 0
  then have "T = T'" by simp
  with 0 show ?case by (subst advance.simps) (auto simp: ring_def)
next
  case (Suc d)
  have "(of_nat T :: u16) \<noteq> of_nat T'"
    using u16_of_nat_neq [of T T'] Suc.hyps(2) Suc.prems(2) by simp
  then have ne: "en_last e \<noteq> of_nat T'" using Suc.prems(3) by (simp add: ring_def)
  have "unat (let cp = en_countpos e + 1 in if cp = nc then 0 else cp) < length (en_counts e)"
    using step_pos [OF Suc.prems(3,5)] Suc.prems(3-5) by (auto simp: ring_def)
  with ne have "advance nc (of_nat T') e = advance nc (of_nat T') (ring_step nc e)"
    by (subst advance.simps) (simp add: ring_step_def Let_def)
  moreover have "ring (unat nc) (Suc T) hist (ring_step nc e)"
    using Suc.prems by (intro ring_step_ok)
  moreover have "en_lock (ring_step nc e) = en_lock e"
    by (simp add: ring_step_def Let_def)
  ultimately show ?case
    using Suc.hyps(1) [of "Suc T" "ring_step nc e"] Suc.hyps(2) Suc.prems by auto
qed

text \<open>An entry without counted actions fits any later time, whatever its ring position.\<close>

lemma ring_idle:
  assumes "ring nc T hist e" "wcount nc T hist = 0" "T \<le> T'"
  shows "ring nc T' hist (e\<lparr>en_last := of_nat T'\<rparr>)"
proof -
  have w: "wcount nc T' hist = 0"
    using wcount_mono [OF assms(3), of nc hist] assms(2) by simp
  have "at_slot T' k hist = 0" "at_slot T k hist = 0" if "k < nc" for k
    using at_slot_le [OF that, of T' hist] at_slot_le [OF that, of T hist] w assms(2) by simp_all
  with w assms show ?thesis by (auto simp: ring_def)
qed

lemma ring_zero:
  assumes "1 \<le> nc" "nc \<le> MAXCOUNTS" "\<forall>s \<in> set hist. s \<le> T" "wcount nc T hist = 0"
  shows "ring nc T hist (zero_entry\<lparr>en_last := of_nat T\<rparr>)"
proof -
  have "at_slot T k hist = 0" if "k < nc" for k
    using at_slot_le [OF that, of T hist] assms(4) by simp
  moreover have "ringpos nc 0 k < MAXCOUNTS" if "k < nc" for k
    using ringpos_less [of 0 nc k] that assms(2) by simp
  ultimately show ?thesis using assms by (simp add: ring_def zero_entry_def)
qed

text \<open>Slot numbers that are not further apart than \<open>uint16_t\<close> can tell.\<close>

lemma u16_distance:
  assumes "T \<le> T'" "T' - T < 2 ^ 16" "d \<le> uint (of_nat T' :: u16) - uint (of_nat T :: u16)" "0 < d"
  shows "T + nat d \<le> T'"
proof -
  have "uint (of_nat T' :: u16) = int T' mod 2 ^ 16" "uint (of_nat T :: u16) = int T mod 2 ^ 16"
    by (simp_all add: unsigned_of_nat take_bit_eq_mod of_nat_mod)
  then have "d \<le> int T' mod 2 ^ 16 - int T mod 2 ^ 16" using assms(3) by simp
  moreover have "int T' mod 2 ^ 16 < 2 ^ 16" "0 \<le> int T mod 2 ^ 16" by simp_all
  ultimately have "int T' mod 2 ^ 16 - int T mod 2 ^ 16 = (int T' mod 2 ^ 16 - int T mod 2 ^ 16) mod 2 ^ 16"
    using assms(4) by (intro mod_pos_pos_trivial [symmetric]) linarith+
  then have "d \<le> (int T' - int T) mod 2 ^ 16"
    using \<open>d \<le> int T' mod 2 ^ 16 - int T mod 2 ^ 16\<close> by (simp add: mod_diff_eq)
  moreover have "(int T' - int T) mod 2 ^ 16 = int T' - int T"
    using assms(1,2) by (intro mod_pos_pos_trivial; simp)
  ultimately show ?thesis by simp
qed

lemma cl_update_ok:
  assumes r: "ring (unat (l_ncounts l)) T hist e" and wf: "wf_limit l" and T: "T \<le> T'"
    and near: "wcount (unat (l_ncounts l)) T hist \<noteq> 0 \<Longrightarrow> T' - T < 2 ^ 16"
  shows "\<exists>e'. cl_update l (of_nat T') e = Some e' \<and> ring (unat (l_ncounts l)) T' hist e' \<and>
     (en_lock e' = en_lock e \<or> \<not> en_lock e')"
proof -
  let ?nc = "unat (l_ncounts l)"
  have nc: "1 \<le> ?nc" "?nc \<le> MAXCOUNTS" using wf by (auto simp: wf_limit_def)
  have tot: "unat (en_total e) = wcount ?nc T hist" and last: "en_last e = of_nat T"
    and hist: "\<forall>s \<in> set hist. s \<le> T" using r by (auto simp: ring_def)
  consider (idle) "en_total e = 0" | (gone) "en_total e \<noteq> 0" "uint (l_ncounts l) \<le> uint (of_nat T' :: u16) - uint (en_last e)"
    | (move) "en_total e \<noteq> 0" "\<not> uint (l_ncounts l) \<le> uint (of_nat T' :: u16) - uint (en_last e)" by blast
  then show ?thesis
  proof cases
    case idle
    with ring_idle [OF r _ T] tot show ?thesis by (auto simp: cl_update_def)
  next
    case gone
    then have "T' - T < 2 ^ 16" using near tot by (metis unat_eq_zero)
    moreover have "l_ncounts l \<noteq> 0" using nc by auto
    then have "0 < uint (l_ncounts l)" by (simp add: word_neq_0_conv word_less_def)
    ultimately have "T + ?nc \<le> T'"
      using u16_distance [OF T _ gone(2) [unfolded last]] by simp
    then have "wcount ?nc T' hist = 0" by (rule wcount_gone [OF hist])
    with gone ring_zero [OF nc, of hist T'] hist T show ?thesis
      by (force simp: cl_update_def zero_entry_def)
  next
    case move
    then have "T' - T < 2 ^ 16" using near tot by (metis unat_eq_zero)
    with move advance_ok [OF r nc T] show ?thesis by (auto simp: cl_update_def)
  qed
qed

lemma wcount_Cons: "1 \<le> nc \<Longrightarrow> wcount nc T (T # hist) = Suc (wcount nc T hist)"
  by (simp add: wcount_def)

lemma cl_count_ok:
  assumes r: "ring (unat (l_ncounts l)) T hist e" and wf: "wf_limit l"
  shows "\<exists>e'. cl_count l e = Some (e', wcount (unat (l_ncounts l)) T hist < unat (l_limit l)) \<and>
     ring (unat (l_ncounts l)) T (if wcount (unat (l_ncounts l)) T hist < unat (l_limit l) then T # hist else hist) e' \<and>
     (en_total e \<le> l_limit l \<longrightarrow> en_total e' \<le> l_limit l) \<and> en_lock e' = en_lock e"
proof (cases "en_total e < l_limit l")
  case False
  then show ?thesis using r by (auto simp: cl_count_def ring_def word_less_nat_alt)
next
  case True
  let ?nc = "unat (l_ncounts l)" and ?cp = "unat (en_countpos e)"
  have lt: "wcount ?nc T hist < unat (l_limit l)" and cp: "?cp < ?nc" and nc: "1 \<le> ?nc" "?nc \<le> MAXCOUNTS"
    and len: "length (en_counts e) = MAXCOUNTS" and tot: "unat (en_total e) = wcount ?nc T hist"
    and cnt: "\<And>k. k < ?nc \<Longrightarrow> unat (en_counts e ! ringpos ?nc ?cp k) = at_slot T k hist"
    using r wf True by (auto simp: ring_def wf_limit_def word_less_nat_alt)
  define e' where "e' = e\<lparr>en_counts := (en_counts e)[?cp := en_counts e ! ?cp + 1], en_total := en_total e + 1\<rparr>"
  have small: "wcount ?nc T hist < 2 ^ 16 - 1"
  proof -
    have "unat (l_limit l) < 2 ^ 16" by (rule order_less_le_trans [OF unsigned_less]) simp
    with lt show ?thesis by simp
  qed
  have tot': "unat (en_total e + 1) = Suc (wcount ?nc T hist)"
    using small tot by (simp add: unat_word_ariths)
  have "unat (en_counts e' ! ringpos ?nc ?cp k) = at_slot T k (T # hist)" if "k < ?nc" for k
  proof (cases "k = 0")
    case True
    have "unat (en_counts e ! ?cp) = at_slot T 0 hist" using cnt [of 0] nc by simp
    moreover have "at_slot T 0 hist \<le> wcount ?nc T hist" using nc by (intro at_slot_le) simp
    ultimately have "unat (en_counts e ! ?cp + 1) = Suc (at_slot T 0 hist)"
      using small by (simp add: unat_word_ariths)
    with True cp len nc show ?thesis by (simp add: e'_def at_slot_def)
  next
    case False
    then have "ringpos ?nc ?cp k \<noteq> ?cp" using ringpos_inj [OF cp that, of 0] nc by auto
    with False cnt [OF that] show ?thesis by (simp add: e'_def at_slot_def)
  qed
  then have "ring ?nc T (T # hist) e'"
    using r tot' nc by (simp add: ring_def e'_def wcount_Cons)
  moreover have "cl_count l e = Some (e', True)"
    using True cp nc len by (simp add: cl_count_def e'_def Let_def)
  moreover have "en_total e' \<le> l_limit l"
    using tot' lt by (simp add: e'_def word_le_nat_alt)
  ultimately show ?thesis using lt by (simp add: e'_def)
qed

text \<open>The whole call, at second \<open>t\<close>.\<close>

definition slot_of :: "Limit \<Rightarrow> nat \<Rightarrow> nat" where
  "slot_of l t = t div unat (l_res l)"

lemma checkLimit_ok:
  assumes w: "window l T hist e" and wf: "wf_limit l" and T: "T \<le> slot_of l t"
    and near: "wcount (unat (l_ncounts l)) T hist \<noteq> 0 \<Longrightarrow> slot_of l t - T < 2 ^ 16"
    and ok: "ok \<longleftrightarrow> wcount (unat (l_ncounts l)) (slot_of l t) hist < unat (l_limit l)"
  shows "\<exists>e'. checkLimit l e t = Some (e', ok) \<and>
     window l (slot_of l t) (if ok then slot_of l t # hist else hist) e'"
proof -
  let ?nc = "unat (l_ncounts l)" and ?T = "slot_of l t"
  have s: "slot16 l t = Some (of_nat ?T)"
    using wf by (auto simp: slot16_def wf_limit_def slot_of_def unat_eq_zero)
  have unl: "\<not> en_lock e" and r: "ring ?nc T hist (e\<lparr>en_lock := True\<rparr>)" and le: "wcount ?nc T hist \<le> unat (l_limit l)"
    using w by (auto simp: window_def ring_def word_le_nat_alt)
  obtain e1 where e1: "cl_update l (of_nat ?T) (e\<lparr>en_lock := True\<rparr>) = Some e1" "ring ?nc ?T hist e1"
    using cl_update_ok [OF r wf T near] by auto
  have "en_total e1 \<le> l_limit l"
    using e1(2) le wcount_mono [OF T, of ?nc hist] by (simp add: ring_def word_le_nat_alt)
  then obtain e2 where e2: "cl_count l e1 = Some (e2, ok)" "ring ?nc ?T (if ok then ?T # hist else hist) e2"
      "en_total e2 \<le> l_limit l"
    using cl_count_ok [OF e1(2) wf] ok by auto
  then have "checkLimit l e t = Some (e2\<lparr>en_lock := False\<rparr>, ok)"
    using s unl e1(1) by (simp add: checkLimit_def)
  with e2 show ?thesis by (simp add: window_def ring_def)
qed

section \<open>All limits of a key\<close>

text \<open>
  What the specification does with one limit, and with all limits of a key: the history of
  a limit grows when the limit itself allows the action.
\<close>

definition spec_ok :: "nat \<Rightarrow> Limit \<Rightarrow> nat list \<Rightarrow> bool" where
  "spec_ok t l hist \<longleftrightarrow> wcount (unat (l_ncounts l)) (slot_of l t) hist < unat (l_limit l)"

definition spec_hist :: "nat \<Rightarrow> Limit \<Rightarrow> nat list \<Rightarrow> nat list" where
  "spec_hist t l hist = (if spec_ok t l hist then slot_of l t # hist else hist)"

text \<open>An entry follows a history; a history without an entry is empty for the window.\<close>

definition fits :: "nat \<Rightarrow> nat \<Rightarrow> Limit \<Rightarrow> nat list \<Rightarrow> RL_Entry \<Rightarrow> bool" where
  "fits t0 t l hist e \<longleftrightarrow> (\<exists>T. slot_of l t0 \<le> T \<and> T \<le> slot_of l t \<and> window l T hist e)"

definition quiet :: "nat \<Rightarrow> Limit \<Rightarrow> nat list \<Rightarrow> bool" where
  "quiet t l hist \<longleftrightarrow> (\<forall>s \<in> set hist. s \<le> slot_of l t) \<and> wcount (unat (l_ncounts l)) (slot_of l t) hist = 0"

fun tracks :: "nat \<Rightarrow> nat \<Rightarrow> Limit list \<Rightarrow> nat list list \<Rightarrow> RL_Entry list \<Rightarrow> bool" where
  "tracks t0 t (l # ls) (hist # hists) (e # es) \<longleftrightarrow> fits t0 t l hist e \<and> tracks t0 t ls hists es"
| "tracks t0 t [] [] [] \<longleftrightarrow> True"
| "tracks t0 t _ _ _ \<longleftrightarrow> False"

lemma slot_of_mono: "t \<le> t' \<Longrightarrow> slot_of l t \<le> slot_of l t'"
  by (simp add: slot_of_def div_le_mono)

lemma slot_of_near:
  assumes "t \<le> t'" "t' - t < 2 ^ 16"
  shows "slot_of l t' - slot_of l t < 2 ^ 16"
proof (cases "unat (l_res l) = 0")
  case False
  have "slot_of l t' \<le> slot_of l t + (t' - t)"
  proof -
    have "t' \<le> t + (t' - t) * unat (l_res l)"
      using False assms(1) by (cases "unat (l_res l)") auto
    then have "t' div unat (l_res l) \<le> (t + (t' - t) * unat (l_res l)) div unat (l_res l)"
      by (rule div_le_mono)
    with False show ?thesis by (simp add: slot_of_def)
  qed
  with assms show ?thesis by simp
qed (simp add: slot_of_def)

lemma quiet_mono: "quiet t l hist \<Longrightarrow> t \<le> t' \<Longrightarrow> quiet t' l hist"
  using slot_of_mono [of t t' l] wcount_mono [of "slot_of l t" "slot_of l t'" "unat (l_ncounts l)" hist]
  by (fastforce simp: quiet_def)

lemma fits_mono: "fits t0 t l hist e \<Longrightarrow> t \<le> t' \<Longrightarrow> fits t0 t' l hist e"
  using slot_of_mono [of t t' l] unfolding fits_def by (meson le_trans)

lemma tracks_mono: "tracks t0 t ls hists es \<Longrightarrow> t \<le> t' \<Longrightarrow> tracks t0 t' ls hists es"
  by (induction t0 t ls hists es rule: tracks.induct) (auto intro: fits_mono)

lemma fits_near:
  assumes "fits t0 t l hist e" "t0 \<le> t'" "t \<le> t'" "t' - t0 < 2 ^ 16"
  obtains T where "window l T hist e" "T \<le> slot_of l t'" "slot_of l t' - T < 2 ^ 16"
proof -
  obtain T where T: "slot_of l t0 \<le> T" "T \<le> slot_of l t" "window l T hist e"
    using assms(1) by (auto simp: fits_def)
  have "slot_of l t' - slot_of l t0 < 2 ^ 16" using assms(2,4) by (rule slot_of_near)
  moreover have "slot_of l t \<le> slot_of l t'" using assms(3) by (rule slot_of_mono)
  ultimately show thesis using T by (intro that [of T]) auto
qed

lemma check_fits:
  assumes "fits t0 t l hist e" "wf_limit l" "t0 \<le> t'" "t \<le> t'" "t' - t0 < 2 ^ 16"
  shows "\<exists>e'. checkLimit l e t' = Some (e', spec_ok t' l hist) \<and> fits t0 t' l (spec_hist t' l hist) e'"
proof -
  obtain T where T: "window l T hist e" "T \<le> slot_of l t'" "slot_of l t' - T < 2 ^ 16"
    using fits_near [OF assms(1,3,4,5)] .
  obtain e' where "checkLimit l e t' = Some (e', spec_ok t' l hist)"
      "window l (slot_of l t') (spec_hist t' l hist) e'"
    using checkLimit_ok [OF T(1) assms(2) T(2,3), of "spec_ok t' l hist"]
    by (auto simp: spec_ok_def spec_hist_def)
  moreover have "slot_of l t0 \<le> slot_of l t'" using assms(3) by (rule slot_of_mono)
  ultimately show ?thesis unfolding fits_def by blast
qed

lemma check_limits_ok:
  assumes "t0 \<le> t'" "t \<le> t'" "t' - t0 < 2 ^ 16"
  shows "tracks t0 t ls hists es \<Longrightarrow> \<forall>l \<in> set ls. wf_limit l \<Longrightarrow>
    \<exists>es'. check_limits ls es t' = Some (es', list_all2 (spec_ok t') ls hists) \<and>
      tracks t0 t' ls (map2 (spec_hist t') ls hists) es'"
  using assms
proof (induction t0 t ls hists es rule: tracks.induct)
  case (1 t0 t l ls hist hists e es)
  obtain e' where "checkLimit l e t' = Some (e', spec_ok t' l hist)" "fits t0 t' l (spec_hist t' l hist) e'"
    using check_fits [of t0 t l hist e t'] "1.prems" by auto
  moreover obtain es' where "check_limits ls es t' = Some (es', list_all2 (spec_ok t') ls hists)"
      "tracks t0 t' ls (map2 (spec_hist t') ls hists) es'"
    using "1.IH" "1.prems" by auto
  ultimately show ?case by simp
qed auto

lemma slots16_eq: "\<forall>l \<in> set ls. wf_limit l \<Longrightarrow> slots16 ls t = Some (map (\<lambda>l. of_nat (slot_of l t)) ls)"
  by (induction ls) (auto simp: slot16_def wf_limit_def slot_of_def unat_eq_zero)

text \<open>Entries that have expired belong to histories whose windows are empty.\<close>

lemma expired_quiet:
  assumes "t0 \<le> t'" "t \<le> t'" "t' - t0 < 2 ^ 16"
  shows "tracks t0 t ls hists es \<Longrightarrow> \<forall>l \<in> set ls. wf_limit l \<Longrightarrow>
    expired_loop ls (map (\<lambda>l. of_nat (slot_of l t')) ls) es \<Longrightarrow> list_all2 (quiet t') ls hists"
  using assms
proof (induction t0 t ls hists es rule: tracks.induct)
  case (1 t0 t l ls hist hists e es)
  obtain T where T: "window l T hist e" "T \<le> slot_of l t'" "slot_of l t' - T < 2 ^ 16"
    using fits_near [of t0 t l hist e t'] "1.prems" by auto
  have last: "en_last e = of_nat T" and hist: "\<forall>s \<in> set hist. s \<le> T"
    using T(1) by (auto simp: window_def ring_def)
  have d: "uint (l_ncounts l) \<le> uint (of_nat (slot_of l t') :: u16) - uint (of_nat T :: u16)"
    using "1.prems"(3) last by (simp split: if_splits)
  have "l_ncounts l \<noteq> 0" using "1.prems"(2) by (auto simp: wf_limit_def)
  then have "0 < uint (l_ncounts l)" by (simp add: word_neq_0_conv word_less_def)
  with u16_distance [OF T(2,3) d] have "T + unat (l_ncounts l) \<le> slot_of l t'" by simp
  from wcount_gone [OF hist this] have "quiet t' l hist"
    using hist T(2) by (auto simp: quiet_def intro: le_trans)
  with 1 show ?case by (simp split: if_splits)
qed auto

lemma fresh_tracks:
  assumes "t0 \<le> t"
  shows "list_all2 (quiet t) ls hists \<Longrightarrow> \<forall>l \<in> set ls. wf_limit l \<Longrightarrow>
    tracks t0 t ls hists (map (\<lambda>s. zero_entry\<lparr>en_last := s\<rparr>) (map (\<lambda>l. of_nat (slot_of l t)) ls))"
proof (induction rule: list_all2_induct)
  case (Cons l ls hist hists)
  have "window l (slot_of l t) hist (zero_entry\<lparr>en_last := of_nat (slot_of l t)\<rparr>)"
    using Cons ring_zero [of "unat (l_ncounts l)" hist "slot_of l t"]
    by (auto simp: window_def quiet_def wf_limit_def zero_entry_def)
  with Cons slot_of_mono [OF assms, of l] show ?case by (auto simp: fits_def)
qed simp

section \<open>The invariant of the rate limiter\<close>

text \<open>
  The dictionary owns the arrays: each allocated array belongs to exactly one key.  \<open>H\<close>
  gives the histories of every key; \<open>N\<close> bounds the number of entries.
\<close>

definition wf_store :: "xxhash \<Rightarrow> nat \<Rightarrow> ptr PSC_Dictionary \<Rightarrow> RL_Heap \<Rightarrow> bool" where
  "wf_store xxh N d h \<longleftrightarrow> wf_dict xxh d \<and> no_null d \<and> d_deleter d = rl_free \<and>
     length (dict_entries d) \<le> N \<and> dom (h_arrays h) = ran (dict_look xxh d) \<and>
     inj_on (dict_look xxh d) (dom (dict_look xxh d)) \<and> (\<forall>p \<in> dom (h_arrays h). p < h_next h)"

definition key_ok :: "nat \<Rightarrow> nat \<Rightarrow> Limit list \<Rightarrow> nat list list \<Rightarrow> RL_Entry list option \<Rightarrow> bool" where
  "key_ok t0 t ls hists a \<longleftrightarrow>
     (case a of None \<Rightarrow> list_all2 (quiet t) ls hists | Some es \<Rightarrow> tracks t0 t ls hists es)"

definition array_of :: "xxhash \<Rightarrow> ptr PSC_Dictionary \<Rightarrow> RL_Heap \<Rightarrow> bytes \<Rightarrow> RL_Entry list option" where
  "array_of xxh d h k = Option.bind (dict_look xxh d k) (h_arrays h)"

definition rl_inv :: "xxhash \<Rightarrow> nat \<Rightarrow> (bytes \<Rightarrow> nat list list) \<Rightarrow> nat \<Rightarrow> nat \<Rightarrow> PSC_RateLimit \<Rightarrow> RL_Heap \<Rightarrow> bool" where
  [wf_defs]: "rl_inv xxh N H t0 t self h \<longleftrightarrow> t0 \<le> t \<and> (\<forall>l \<in> set (rl_limits self). wf_limit l) \<and>
     (\<exists>d. rl_entries self = Some d \<and> wf_store xxh N d h \<and>
        (\<forall>k. key_ok t0 t (rl_limits self) (H k) (array_of xxh d h k)))"

lemma key_ok_mono: "key_ok t0 t ls hists a \<Longrightarrow> t \<le> t' \<Longrightarrow> key_ok t0 t' ls hists a"
  by (auto simp: key_ok_def intro: tracks_mono quiet_mono list_all2_mono split: option.splits)

lemma rl_inv_mono: "rl_inv xxh N H t0 t self h \<Longrightarrow> t \<le> t' \<Longrightarrow> rl_inv xxh N H t0 t' self h"
  unfolding rl_inv_def by (meson key_ok_mono le_trans)

lemma array_of_Some:
  assumes "wf_store xxh N d h" "dict_look xxh d k = Some p"
  obtains es where "h_arrays h p = Some es" "array_of xxh d h k = Some es"
proof -
  have "p \<in> dom (h_arrays h)" using assms by (auto simp: wf_store_def ran_def)
  then show thesis using that assms(2) by (auto simp: array_of_def)
qed

lemma free_all_arrays:
  "h_arrays (free_all calls h) p = (if Some p \<in> snd ` set calls then None else h_arrays h p)"
proof -
  have "foldl (\<lambda>m c. case snd c of None \<Rightarrow> m | Some p \<Rightarrow> m(p := None)) m calls p =
      (if Some p \<in> snd ` set calls then None else m p)" for m :: "ptr \<rightharpoonup> RL_Entry list"
    by (induction calls arbitrary: m) (auto split: option.splits)
  then show ?thesis by (simp add: free_all_def)
qed

lemma free_all_next [simp]: "h_next (free_all calls h) = h_next h"
  by (simp add: free_all_def)

lemma free_all_Nil [simp]: "free_all [] h = h"
  by (simp add: free_all_def)

lemma removed_calls: "fst (removed rl_free p es) = map (\<lambda>e. (rl_free, e_obj e)) (filter (matching p) es)"
  by (induction es) (auto simp: removed_def destroy_obj_def rl_free_def)

text \<open>Removal of keys by a predicate releases exactly their arrays.\<close>

lemma store_removeAll:
  assumes st: "wf_store xxh N d h" and N: "N < 2 ^ 64" and d': "PSC_Dictionary_removeAll d p = (d', calls, n)"
  shows "wf_store xxh N d' (free_all calls h)"
    and "array_of xxh d' (free_all calls h) k =
      (if p k (dict_look xxh d k) \<and> dict_look xxh d k \<noteq> None then None else array_of xxh d h k)"
    and "d_hash d' = d_hash d"
proof -
  let ?look = "dict_look xxh d" and ?look' = "dict_look xxh d'" and ?h = "free_all calls h"
  have wf: "wf_dict xxh d" and nn: "no_null d" and del: "d_deleter d = rl_free" and len: "length (dict_entries d) \<le> N"
    and dom: "dom (h_arrays h) = ran ?look" and inj: "inj_on ?look (dom ?look)" and fresh: "\<forall>p \<in> dom (h_arrays h). p < h_next h"
    using st by (auto simp: wf_store_def)
  have "length (dict_entries d) < 2 ^ 64" using len N by simp
  then obtain wf': "wf_dict xxh d'" and es': "dict_entries d' = filter (\<lambda>e. \<not> matching p e) (dict_entries d)"
    and calls: "calls = map (\<lambda>e. (rl_free, e_obj e)) (filter (matching p) (dict_entries d))"
    using dictionary_removeAll_ok [OF wf, of p] d' removed_calls [of p "dict_entries d"]
    by (auto simp: del) (metis fst_conv)
  have del': "d_deleter d' = rl_free" "d_hash d' = d_hash d"
    using d' del by (auto simp: PSC_Dictionary_removeAll_def split: if_splits prod.splits)
  have distinct: "distinct (map e_key (dict_entries d))" using wf by (rule wf_dict_distinct)
  have look: "?look' k = (if p k (?look k) then None else ?look k)" for k
    unfolding dict_look_def es' list_get_filter [OF distinct]
    by (auto simp: list_get_entry matching_def split: option.splits dest: entry_of_Some)
  have freed: "Some q \<in> snd ` set calls \<longleftrightarrow> (\<exists>k. ?look k = Some q \<and> p k (Some q))" for q
  proof
    assume "Some q \<in> snd ` set calls"
    then obtain e where e: "e \<in> set (dict_entries d)" "matching p e" "e_obj e = Some q"
      by (auto simp: calls)
    with entry_of_mem [OF distinct] show "\<exists>k. ?look k = Some q \<and> p k (Some q)"
      by (intro exI [of _ "e_key e"]) (auto simp: dict_look_def list_get_entry matching_def)
  next
    assume "\<exists>k. ?look k = Some q \<and> p k (Some q)"
    then obtain k e where "entry_of (dict_entries d) k = Some e" "e_obj e = Some q" "p k (Some q)"
      by (auto simp: dict_look_def list_get_entry bind_eq_Some_conv)
    then show "Some q \<in> snd ` set calls"
      by (force simp: calls matching_def dest: entry_of_Some)
  qed
  have live: "Some q \<notin> snd ` set calls" if "?look' k = Some q" for k q
  proof
    assume "Some q \<in> snd ` set calls"
    then obtain k' where k': "?look k' = Some q" "p k' (Some q)" using freed by blast
    have "?look k = Some q" "\<not> p k (Some q)" using that by (auto simp: look split: if_splits)
    with k' inj have "k = k'" by (auto dest: inj_onD [of _ _ k k'])
    with k'(2) \<open>\<not> p k (Some q)\<close> show False by simp
  qed
  have ran: "dom (h_arrays ?h) = ran ?look'"
  proof (intro set_eqI iffI)
    fix q assume "q \<in> dom (h_arrays ?h)"
    then have "q \<in> ran ?look" "Some q \<notin> snd ` set calls"
      unfolding dom [symmetric] dom_def free_all_arrays by (simp_all split: if_splits)
    then obtain k where "?look k = Some q" "\<not> p k (Some q)" using freed by (auto simp: ran_def)
    then have "?look' k = Some q" by (simp add: look)
    then show "q \<in> ran ?look'" by (rule ranI)
  next
    fix q assume "q \<in> ran ?look'"
    then obtain k where k: "?look' k = Some q" by (auto simp: ran_def)
    then have "?look k = Some q" by (auto simp: look split: if_splits)
    then have "q \<in> dom (h_arrays h)" using dom by (auto simp: ran_def)
    with live [OF k] show "q \<in> dom (h_arrays ?h)" unfolding dom_def free_all_arrays by (simp only: mem_Collect_eq if_False not_False_eq_True)
  qed
  have "inj_on ?look' (dom ?look')"
    using inj by (auto simp: inj_on_def look split: if_splits) (metis domI)
  moreover have "\<forall>p \<in> dom (h_arrays ?h). p < h_next ?h"
    using fresh by (auto simp: free_all_arrays split: if_splits)
  moreover have "length (dict_entries d') \<le> N" using len es' by (simp add: le_trans [OF length_filter_le])
  moreover have "no_null d'" using nn es' by (auto simp: no_null_def)
  ultimately show "wf_store xxh N d' ?h"
    using wf' del' ran by (auto simp: wf_store_def)
  show "array_of xxh d' ?h k = (if p k (?look k) \<and> ?look k \<noteq> None then None else array_of xxh d h k)"
  proof (cases "?look' k")
    case None
    then show ?thesis using look [of k] by (auto simp: array_of_def split: if_splits)
  next
    case (Some q)
    then have "?look k = Some q" "\<not> p k (Some q)" using look [of k] by (auto split: if_splits)
    with live [OF Some] Some show ?thesis by (simp add: array_of_def free_all_arrays)
  qed
  show "d_hash d' = d_hash d" by (rule del')
qed

lemma rl_cleanup_ok:
  assumes inv: "rl_inv xxh N H t0 t self h" and t: "t - t0 < 2 ^ 16" and N: "N < 2 ^ 64"
  shows "\<exists>self' h'. rl_cleanup self h t = Some (self', h') \<and> rl_inv xxh N H t0 t self' h' \<and>
    rl_limits self' = rl_limits self"
proof -
  obtain d where d: "rl_entries self = Some d" and st: "wf_store xxh N d h"
    and ok: "\<And>k. key_ok t0 t (rl_limits self) (H k) (array_of xxh d h k)"
    and wf: "\<forall>l \<in> set (rl_limits self). wf_limit l" and t0: "t0 \<le> t"
    using inv by (auto simp: rl_inv_def)
  let ?nows = "map (\<lambda>l. of_nat (slot_of l t) :: u16) (rl_limits self)"
  define p where "p = expired (rl_limits self) ?nows h"
  obtain d' calls n where d': "PSC_Dictionary_removeAll d p = (d', calls, n)" by (metis prod_cases3)
  have run: "rl_cleanup self h t =
      Some (self\<lparr>rl_entries := Some d', rl_cleancount := 2000\<rparr>, free_all calls h)"
    by (simp add: rl_cleanup_def slots16_eq [OF wf] d p_def [symmetric] d')
  have "key_ok t0 t (rl_limits self) (H k) (array_of xxh d' (free_all calls h) k)" for k
  proof (cases "p k (dict_look xxh d k) \<and> dict_look xxh d k \<noteq> None")
    case True
    then obtain es where es: "array_of xxh d h k = Some es" "expired_loop (rl_limits self) ?nows es"
      by (auto simp: p_def expired_def array_of_def split: option.splits)
    then have "tracks t0 t (rl_limits self) (H k) es" using ok [of k] by (simp add: key_ok_def)
    from expired_quiet [OF t0 order.refl t this wf es(2)] True show ?thesis
      by (simp add: store_removeAll(2) [OF st N d'] key_ok_def)
  next
    case False
    then have "array_of xxh d' (free_all calls h) k = array_of xxh d h k"
      unfolding store_removeAll(2) [OF st N d'] by (rule if_not_P)
    then show ?thesis using ok [of k] by simp
  qed
  with run t0 wf store_removeAll(1) [OF st N d'] show ?thesis by (auto simp: rl_inv_def)
qed

text \<open>A key that is not found gets a new array, and is found then.\<close>

lemma store_add:
  assumes st: "wf_store xxh N d h" and absent: "dict_look xxh d key = None" and ne: "ne = h_next h"
    and h': "h' = \<lparr>h_next = Suc ne, h_arrays = (h_arrays h)(ne \<mapsto> es)\<rparr>"
  shows "\<exists>d'. PSC_Dictionary_set xxh d key (Some ne) NoFn = Some (d', []) \<and> wf_store xxh (Suc N) d' h' \<and>
    dict_look xxh d' key = Some ne \<and>
    (\<forall>k. array_of xxh d' h' k = (if k = key then Some es else array_of xxh d h k))"
proof -
  let ?look = "dict_look xxh d"
  have wf: "wf_dict xxh d" and nn: "no_null d" and del: "d_deleter d = rl_free" and len: "length (dict_entries d) \<le> N"
    and dom: "dom (h_arrays h) = ran ?look" and inj: "inj_on ?look (dom ?look)" and fresh: "\<forall>p \<in> dom (h_arrays h). p < h_next h"
    using st by (auto simp: wf_store_def)
  obtain d' calls where d': "PSC_Dictionary_set xxh d key (Some ne) NoFn = Some (d', calls)" "wf_dict xxh d'"
      "d_deleter d' = rl_free" and eff: "set_effect rl_free key (Some ne) (dict_entries d) (dict_entries d') calls"
    using dictionary_set_ok [OF wf, of key "Some ne" NoFn] del by auto
  have look: "dict_look xxh d' = ?look(key \<mapsto> ne)"
    using set_effect_look [OF eff] by (auto simp: dict_look_def)
  have "entry_of (dict_entries d) key = None"
    using absent nn by (auto simp: dict_look_def list_get_entry no_null_def dest!: entry_of_Some split: bind_splits)
  then have calls: "calls = []" using eff by (simp add: set_effect_def)
  have "length (dict_entries d') \<le> Suc N"
  proof -
    have "length (dict_entries d') = card (e_key ` set (dict_entries d'))"
      using distinct_card [OF wf_dict_distinct [OF d'(2)]] by simp
    also have "\<dots> \<le> card (insert key (e_key ` set (dict_entries d)))"
      using set_effect_keys [OF eff] by (intro card_mono) auto
    also have "\<dots> \<le> Suc (length (dict_entries d))"
      by (intro card_insert_le_m1 le_trans [OF card_image_le]) (simp_all add: card_length)
    finally show ?thesis using len by simp
  qed
  moreover have "no_null d'"
    using set_effect_no_null [OF eff wf_dict_distinct [OF d'(2)]] nn by (simp add: no_null_def)
  moreover have ne_new: "ne \<notin> ran ?look" using fresh dom ne by auto
  then have "dom (h_arrays h') = ran (dict_look xxh d')"
    using dom absent by (simp add: look h')
  moreover have "inj_on (dict_look xxh d') (dom (dict_look xxh d'))"
    using inj ne_new by (auto simp: inj_on_def look ran_def)
  moreover have "\<forall>p \<in> dom (h_arrays h'). p < h_next h'"
    using fresh ne by (auto simp: h' less_Suc_eq)
  ultimately have "wf_store xxh (Suc N) d' h'" using d' by (simp add: wf_store_def)
  moreover have "array_of xxh d' h' k = (if k = key then Some es else array_of xxh d h k)" for k
    using ne_new by (auto simp: array_of_def look h' ran_def split: bind_splits)
  ultimately show ?thesis using d'(1) calls look by simp
qed

lemma rl_lookup_ok:
  assumes inv: "rl_inv xxh N H t0 t self h"
  shows "\<exists>self' h' d e es. rl_lookup 1 xxh self h key t = Some (self', h', e) \<and>
    rl_inv xxh (Suc N) H t0 t self' h' \<and> rl_limits self' = rl_limits self \<and>
    rl_cleancount self' = rl_cleancount self \<and>
    rl_entries self' = Some d \<and> dict_look xxh d key = Some e \<and> h_arrays h' e = Some es \<and>
    tracks t0 t (rl_limits self) (H key) es"
proof -
  obtain d where d: "rl_entries self = Some d" and st: "wf_store xxh N d h"
    and ok: "\<And>k. key_ok t0 t (rl_limits self) (H k) (array_of xxh d h k)"
    and wf: "\<forall>l \<in> set (rl_limits self). wf_limit l" and t0: "t0 \<le> t"
    using inv by (auto simp: rl_inv_def)
  have get: "PSC_Dictionary_get xxh d key = Some (dict_look xxh d key)"
    using st by (simp add: wf_store_def dictionary_get_ok)
  show ?thesis
  proof (cases "dict_look xxh d key")
    case (Some e)
    obtain es where es: "h_arrays h e = Some es" "array_of xxh d h key = Some es"
      using array_of_Some [OF st Some] .
    have "tracks t0 t (rl_limits self) (H key) es" using ok [of key] es(2) by (simp add: key_ok_def)
    moreover have "rl_lookup 1 xxh self h key t = Some (self, h, e)"
      using d get Some by (subst rl_lookup.simps) simp
    moreover have "rl_inv xxh (Suc N) H t0 t self h"
      using inv unfolding rl_inv_def wf_store_def by (meson le_SucI)
    ultimately show ?thesis using d Some es(1) by blast
  next
    case None
    define es where "es = map (\<lambda>s. zero_entry\<lparr>en_last := s\<rparr>) (map (\<lambda>l. of_nat (slot_of l t)) (rl_limits self))"
    define h' where "h' = \<lparr>h_next = Suc (h_next h), h_arrays = (h_arrays h)(h_next h \<mapsto> es)\<rparr>"
    obtain d' where d': "PSC_Dictionary_set xxh d key (Some (h_next h)) NoFn = Some (d', [])"
        "wf_store xxh (Suc N) d' h'" "dict_look xxh d' key = Some (h_next h)"
        "\<And>k. array_of xxh d' h' k = (if k = key then Some es else array_of xxh d h k)"
      using store_add [OF st None refl h'_def] by blast
    have tr: "tracks t0 t (rl_limits self) (H key) es"
      using ok [of key] None fresh_tracks [OF t0 _ wf] by (simp add: key_ok_def array_of_def es_def)
    have get': "PSC_Dictionary_get xxh d' key = Some (Some (h_next h))"
      using d'(2,3) by (simp add: wf_store_def dictionary_get_ok)
    have "rl_lookup 1 xxh self h key t = Some (self\<lparr>rl_entries := Some d'\<rparr>, h', h_next h)"
      using d get None d'(1) get' slots16_eq [OF wf, of t]
      by (subst rl_lookup.simps, simp add: Let_def)
        (subst rl_lookup.simps, simp add: h'_def es_def comp_def)
    moreover have "rl_inv xxh (Suc N) H t0 t (self\<lparr>rl_entries := Some d'\<rparr>) h'"
      using t0 wf d'(2,4) ok tr by (auto simp: rl_inv_def key_ok_def)
    moreover have "h_arrays h' (h_next h) = Some es" by (simp add: h'_def)
    ultimately show ?thesis
      using d'(3) tr by (intro exI [of _ "self\<lparr>rl_entries := Some d'\<rparr>"] exI [of _ h'] exI [of _ d']
          exI [of _ "h_next h"] exI [of _ es]) simp
  qed
qed

text \<open>A call at second \<open>t\<close> in the specification: the key's histories, and the answer.\<close>

definition spec_check :: "Limit list \<Rightarrow> (bytes \<Rightarrow> nat list list) \<Rightarrow> bytes \<Rightarrow> nat
    \<Rightarrow> (bytes \<Rightarrow> nat list list) \<times> bool" where
  "spec_check ls H key t = (H(key := map2 (spec_hist t) ls (H key)), list_all2 (spec_ok t) ls (H key))"

lemma rl_inv_cong:
  "rl_entries self' = rl_entries self \<Longrightarrow> rl_limits self' = rl_limits self \<Longrightarrow>
   rl_inv xxh N H t0 t self h \<Longrightarrow> rl_inv xxh N H t0 t self' h"
  by (simp add: rl_inv_def)

lemma store_update:
  assumes st: "wf_store xxh N d h" and e: "dict_look xxh d key = Some e"
  shows "wf_store xxh N d (h\<lparr>h_arrays := (h_arrays h)(e \<mapsto> es)\<rparr>)"
    and "array_of xxh d (h\<lparr>h_arrays := (h_arrays h)(e \<mapsto> es)\<rparr>) k = (if k = key then Some es else array_of xxh d h k)"
proof -
  have "e \<in> ran (dict_look xxh d)" using e by (rule ranI)
  with st show "wf_store xxh N d (h\<lparr>h_arrays := (h_arrays h)(e \<mapsto> es)\<rparr>)"
    by (auto simp: wf_store_def)
  have "inj_on (dict_look xxh d) (dom (dict_look xxh d))" using st by (simp add: wf_store_def)
  then have "dict_look xxh d k \<noteq> Some e" if "k \<noteq> key" for k
    using e that by (metis domI inj_onD)
  with e show "array_of xxh d (h\<lparr>h_arrays := (h_arrays h)(e \<mapsto> es)\<rparr>) k = (if k = key then Some es else array_of xxh d h k)"
    by (auto simp: array_of_def split: bind_splits)
qed

lemma rl_check_ok:
  assumes inv: "rl_inv xxh N H t0 t self h" and t': "t \<le> t'" "t' - t0 < 2 ^ 16" and N: "N < 2 ^ 64"
    and spec: "spec_check (rl_limits self) H key t' = (H', ok)"
  shows "\<exists>self' h'. PSC_RateLimit_check xxh self h key (Some t') = Some (self', h', ok) \<and>
    rl_inv xxh (Suc N) H' t0 t' self' h' \<and> rl_limits self' = rl_limits self"
proof -
  let ?ls = "rl_limits self"
  define s0 where "s0 = self\<lparr>rl_cleancount := rl_cleancount self - 1\<rparr>"
  have t0: "t0 \<le> t'" and wf: "\<forall>l \<in> set ?ls. wf_limit l" using inv t'(1) by (auto simp: rl_inv_def)
  have inv0: "rl_inv xxh N H t0 t' s0 h"
    using rl_inv_mono [OF inv t'(1)] by (rule rl_inv_cong [rotated 2]) (simp_all add: s0_def)
  obtain s1 h1 where s1: "(if rl_cleancount s0 = 0 then rl_cleanup s0 h t' else Some (s0, h)) = Some (s1, h1)"
      "rl_inv xxh N H t0 t' s1 h1" "rl_limits s1 = ?ls"
    using rl_cleanup_ok [OF inv0 t'(2) N] inv0 by (cases "rl_cleancount s0 = 0") (auto simp: s0_def)
  obtain s2 h2 d e es where s2: "rl_lookup 1 xxh s1 h1 key t' = Some (s2, h2, e)"
      "rl_inv xxh (Suc N) H t0 t' s2 h2" "rl_limits s2 = ?ls" "rl_entries s2 = Some d"
      "dict_look xxh d key = Some e" "h_arrays h2 e = Some es" "tracks t0 t' ?ls (H key) es"
    using rl_lookup_ok [OF s1(2), of key] s1(3) by auto
  obtain es' where es': "check_limits ?ls es t' = Some (es', ok)" "tracks t0 t' ?ls (H' key) es'"
    using check_limits_ok [OF t0 order.refl t'(2) s2(7) wf] spec by (auto simp: spec_check_def)
  let ?h = "h2\<lparr>h_arrays := (h_arrays h2)(e \<mapsto> es')\<rparr>"
  have "PSC_RateLimit_check xxh self h key (Some t') = Some (s2, ?h, ok)"
    using s1(1) s2(1,3,6) es'(1) by (simp add: PSC_RateLimit_check_def Let_def s0_def [symmetric])
  moreover have "rl_inv xxh (Suc N) H' t0 t' s2 ?h"
  proof -
    have st: "wf_store xxh (Suc N) d h2" and ok2: "\<And>k. key_ok t0 t' ?ls (H k) (array_of xxh d h2 k)"
      using s2(2,3,4) by (auto simp: rl_inv_def)
    have H': "H' = H(key := map2 (spec_hist t') ?ls (H key))" using spec by (simp add: spec_check_def)
    have "key_ok t0 t' ?ls (H' k) (array_of xxh d ?h k)" for k
    proof (cases "k = key")
      case True
      then show ?thesis using es'(2) by (simp add: store_update(2) [OF st s2(5)] key_ok_def)
    next
      case False
      then have "H' k = H k" by (simp add: H')
      with False ok2 [of k] show ?thesis by (simp add: store_update(2) [OF st s2(5)])
    qed
    with store_update(1) [OF st s2(5), of es'] t0 wf s2(3,4) show ?thesis by (simp add: rl_inv_def)
  qed
  ultimately show ?thesis using s2(3) by blast
qed

text \<open>Sequences of calls, in the code and in the specification.\<close>

fun rl_run :: "xxhash \<Rightarrow> PSC_RateLimit \<Rightarrow> RL_Heap \<Rightarrow> (bytes \<times> nat) list
    \<Rightarrow> (PSC_RateLimit \<times> RL_Heap \<times> bool list) option" where
  "rl_run xxh self h [] = Some (self, h, [])"
| "rl_run xxh self h ((key, t) # calls) = do {
     (self, h, ok) \<leftarrow> PSC_RateLimit_check xxh self h key (Some t);
     (self, h, oks) \<leftarrow> rl_run xxh self h calls;
     Some (self, h, ok # oks) }"

fun spec_run :: "Limit list \<Rightarrow> (bytes \<Rightarrow> nat list list) \<Rightarrow> (bytes \<times> nat) list \<Rightarrow> bool list" where
  "spec_run ls H [] = []"
| "spec_run ls H ((key, t) # calls) =
     (case spec_check ls H key t of (H', ok) \<Rightarrow> ok # spec_run ls H' calls)"

lemma rl_run_ok:
  "rl_inv xxh N H t0 t self h \<Longrightarrow> sorted (t # map snd calls) \<Longrightarrow> \<forall>c \<in> set calls. snd c - t0 < 2 ^ 16 \<Longrightarrow>
   N + length calls < 2 ^ 64 \<Longrightarrow>
   \<exists>self' h' H' t'. rl_run xxh self h calls = Some (self', h', spec_run (rl_limits self) H calls) \<and>
     rl_inv xxh (N + length calls) H' t0 t' self' h'"
proof (induction calls arbitrary: N H t self h)
  case Nil
  then show ?case by auto
next
  case (Cons c calls)
  obtain key t' where c: "c = (key, t')" by (cases c)
  obtain H1 ok where sp: "spec_check (rl_limits self) H key t' = (H1, ok)" by fastforce
  obtain s1 h1 where s1: "PSC_RateLimit_check xxh self h key (Some t') = Some (s1, h1, ok)"
      "rl_inv xxh (Suc N) H1 t0 t' s1 h1" "rl_limits s1 = rl_limits self"
    using rl_check_ok [OF Cons.prems(1) _ _ _ sp] Cons.prems by (auto simp: c)
  obtain s2 h2 H2 t2 where "rl_run xxh s1 h1 calls = Some (s2, h2, spec_run (rl_limits s1) H1 calls)"
      "rl_inv xxh (Suc N + length calls) H2 t0 t2 s2 h2"
    using Cons.IH [OF s1(2)] Cons.prems by (auto simp: c)
  with s1 sp show ?case
    by (intro exI [of _ s2] exI [of _ h2] exI [of _ H2] exI [of _ t2]) (simp add: c)
qed

lemma wf_mk_limit:
  assumes "1 \<le> s" "s \<le> 0xffff" "1 \<le> n" "n \<le> 0xffff"
  shows "wf_limit (mk_limit s n) \<and> unat (l_seconds (mk_limit s n)) = s \<and> unat (l_limit (mk_limit s n)) = n"
proof -
  define res where "res = (s + MAXCOUNTS - 1) div MAXCOUNTS"
  define nc where "nc = (s + res - 1) div res"
  have M: "MAXCOUNTS = 512" by (simp add: MAXCOUNTS_def)
  have res: "1 \<le> res" "res \<le> 128" "s \<le> 512 * res"
    using assms(1,2) by (auto simp: res_def M)
  have nc1: "1 \<le> nc" using res(1) assms(1) div_greater_zero_iff [of "s + res - 1" res] by (auto simp: nc_def)
  have "nc * res \<le> s + res - 1" unfolding nc_def by (metis mult.commute times_div_less_eq_dividend)
  then have hi: "nc * res < s + res" using res(1) by simp
  have lo: "s \<le> nc * res"
  proof -
    have "s + res - 1 < nc * res + res"
      unfolding nc_def using res(1) by (metis add.commute dividend_less_div_times less_le_trans less_one mult.commute not_le)
    then show ?thesis using res(1) by simp
  qed
  have nc2: "nc \<le> 512"
  proof (rule ccontr)
    assume "\<not> nc \<le> 512"
    then have "513 * res \<le> nc * res" by (intro mult_le_mono1) simp
    with hi res(3) show False by simp
  qed
  have u: "unat (of_nat k :: u16) = k" if "k \<le> 0xffff" for k
    using that by (simp add: unat_of_nat)
  have "mk_limit s n = \<lparr>l_seconds = of_nat s, l_limit = of_nat n, l_res = of_nat res, l_ncounts = of_nat nc\<rparr>"
    by (simp add: mk_limit_def Let_def res_def nc_def)
  then show ?thesis
    using u [of s] u [of n] u [of res] u [of nc] assms res nc1 nc2 lo hi by (simp add: wf_limit_def M)
qed

lemma addLimit_wf:
  assumes "\<forall>l \<in> set (ro_limits opts). wf_limit l"
  shows "\<forall>l \<in> set (ro_limits (fst (PSC_RateLimitOpts_addLimit opts s n))). wf_limit l"
  using assms wf_mk_limit [of "nat s" "nat n"] by (auto simp: PSC_RateLimitOpts_addLimit_def Let_def)

definition add_limits :: "(int \<times> int) list \<Rightarrow> PSC_RateLimitOpts" where
  "add_limits reqs = foldl (\<lambda>opts (s, n). fst (PSC_RateLimitOpts_addLimit opts s n)) PSC_RateLimitOpts_create reqs"

lemma add_limits_wf: "\<forall>l \<in> set (ro_limits (add_limits reqs)). wf_limit l"
proof (induction reqs rule: rev_induct)
  case Nil
  then show ?case by (simp add: add_limits_def PSC_RateLimitOpts_create_def)
next
  case (snoc r reqs)
  obtain s n where r: "r = (s, n)" by (cases r)
  have "add_limits (reqs @ [r]) = fst (PSC_RateLimitOpts_addLimit (add_limits reqs) s n)"
    by (simp add: add_limits_def r)
  with addLimit_wf [OF snoc] show ?case by simp
qed

lemma rl_destroy_ok:
  assumes "rl_inv xxh N H t0 t self h"
  shows "h_arrays (PSC_RateLimit_destroy (Some self) h) = Map.empty"
proof -
  obtain d where d: "rl_entries self = Some d" and st: "wf_store xxh N d h"
    using assms by (auto simp: rl_inv_def)
  have calls: "PSC_Dictionary_destroy (Some d) = concat (map (destroy_obj rl_free) (dict_entries d))"
    using st dictionary_destroy_ok [of xxh d] by (simp add: wf_store_def)
  have "Some p \<in> snd ` set (PSC_Dictionary_destroy (Some d))" if "p \<in> dom (h_arrays h)" for p
  proof -
    have "p \<in> ran (dict_look xxh d)" using that st by (simp add: wf_store_def)
    then obtain k e where "entry_of (dict_entries d) k = Some e" "e_obj e = Some p"
      by (auto simp: ran_def dict_look_def list_get_entry bind_eq_Some_conv)
    then show ?thesis
      by (force simp: calls destroy_obj_def rl_free_def dest: entry_of_Some)
  qed
  then show ?thesis
    by (auto simp: PSC_RateLimit_destroy_def d free_all_arrays fun_eq_iff domIff simp del: not_None_eq)
qed

lemma rl_inv_create:
  fixes d :: "ptr PSC_Dictionary"
  assumes "PSC_Dictionary_create st rnd rl_free True = (Some d, st')"
    and "\<forall>l \<in> set (ro_limits opts). wf_limit l"
  shows "rl_inv xxh 0 (\<lambda>_. map (\<lambda>_. []) (ro_limits opts)) t0 t0 (PSC_RateLimit_create st rnd opts)
    \<lparr>h_next = 1, h_arrays = Map.empty\<rparr>"
proof -
  have d: "wf_dict xxh d" "dict_look xxh d = Map.empty" "dict_entries d = []"
    using wf_dict_create [OF assms(1)] by auto
  have "d_deleter d = rl_free"
    using assms(1) by (auto simp: PSC_Dictionary_create_def split: prod.splits option.splits)
  then have "wf_store xxh 0 d \<lparr>h_next = 1, h_arrays = Map.empty\<rparr>"
    using d by (simp add: wf_store_def no_null_def)
  moreover have "list_all2 (quiet t0) ls (map (\<lambda>_. []) ls)" for ls
    by (induction ls) (auto simp: quiet_def wcount_def)
  ultimately show ?thesis
    using d(2) assms by (simp add: rl_inv_def PSC_RateLimit_create_def key_ok_def array_of_def)
qed

text \<open>Calls for one limit and one entry, and the slots that were granted.\<close>

fun limit_run :: "Limit \<Rightarrow> RL_Entry \<Rightarrow> nat list \<Rightarrow> bool list option" where
  "limit_run l e [] = Some []"
| "limit_run l e (t # ts) = do {
     (e, ok) \<leftarrow> checkLimit l e t;
     oks \<leftarrow> limit_run l e ts;
     Some (ok # oks) }"

text \<open>The number of granted actions in slots \<open>S\<close> to \<open>S + nc - 1\<close>.\<close>

definition span :: "nat \<Rightarrow> nat \<Rightarrow> nat list \<Rightarrow> nat" where
  "span nc S hist = length (filter (\<lambda>s. S \<le> s \<and> s < S + nc) hist)"

lemma span_Cons: "span nc S (s # hist) = (if S \<le> s \<and> s < S + nc then 1 else 0) + span nc S hist"
  by (simp add: span_def)

lemma span_le_wcount: "S \<le> T \<Longrightarrow> T < S + nc \<Longrightarrow> span nc S hist \<le> wcount nc T hist"
  unfolding span_def wcount_def by (rule length_filter_le_mono) simp

text \<open>How much the gaps between calls may be.\<close>

fun close_times :: "nat \<Rightarrow> nat list \<Rightarrow> bool" where
  "close_times t [] \<longleftrightarrow> True"
| "close_times t (t' # ts) \<longleftrightarrow> t \<le> t' \<and> t' - t < 2 ^ 16 \<and> close_times t' ts"

lemma limit_run_ok:
  "window l (slot_of l t) hist e \<Longrightarrow> wf_limit l \<Longrightarrow> close_times t ts \<Longrightarrow>
   (\<And>S. span (unat (l_ncounts l)) S hist \<le> unat (l_limit l)) \<Longrightarrow>
   \<exists>oks hist'. limit_run l e ts = Some oks \<and> length oks = length ts \<and>
     hist' = rev (map (\<lambda>c. slot_of l (fst c)) (filter snd (zip ts oks))) @ hist \<and>
     (\<forall>S. span (unat (l_ncounts l)) S hist' \<le> unat (l_limit l))"
proof (induction ts arbitrary: t hist e)
  case Nil
  then show ?case by simp
next
  case (Cons t' ts)
  let ?nc = "unat (l_ncounts l)" and ?T = "slot_of l t'"
  define ok where "ok \<longleftrightarrow> wcount ?nc ?T hist < unat (l_limit l)"
  define hist1 where "hist1 = (if ok then ?T # hist else hist)"
  have T: "slot_of l t \<le> ?T" "?T - slot_of l t < 2 ^ 16"
    using Cons.prems(3) slot_of_mono [of t t' l] slot_of_near [of t t' l] by simp_all
  obtain e1 where e1: "checkLimit l e t' = Some (e1, ok)" "window l ?T hist1 e1"
    using checkLimit_ok [OF Cons.prems(1,2) T ok_def] by (auto simp: hist1_def)
  have "span ?nc S hist1 \<le> unat (l_limit l)" for S
    using Cons.prems(4) [of S] span_le_wcount [of S ?T ?nc hist] by (auto simp: hist1_def ok_def span_Cons)
  then obtain oks where "limit_run l e1 ts = Some oks" "length oks = length ts"
      "\<forall>S. span ?nc S (rev (map (\<lambda>c. slot_of l (fst c)) (filter snd (zip ts oks))) @ hist1) \<le> unat (l_limit l)"
    using Cons.IH [OF e1(2) Cons.prems(2)] Cons.prems(3) by auto
  with e1(1) show ?case by (cases ok) (simp_all add: hist1_def)
qed

text \<open>Seconds that are less than \<open>nc\<close> slots apart.\<close>

lemma slots_of_interval:
  assumes "1 \<le> unat (l_res l)" "1 \<le> nc" "a \<le> t" "t \<le> a + (nc - 1) * unat (l_res l)"
  shows "slot_of l a \<le> slot_of l t \<and> slot_of l t < slot_of l a + nc"
proof -
  have "t div unat (l_res l) \<le> (a + (nc - 1) * unat (l_res l)) div unat (l_res l)"
    using assms(4) by (rule div_le_mono)
  also have "\<dots> = a div unat (l_res l) + (nc - 1)" using assms(1) by simp
  finally show ?thesis using assms slot_of_mono [of a t l] by (simp add: slot_of_def)
qed

section \<open>Threads\<close>

text \<open>
  Several threads in \<open>checkLimit\<close> for the same entry and the same time.  The statements
  between taking and releasing the lock are two steps, the update and the count.
\<close>

datatype pc = Spin | Update | Count | Release | Done

inductive cl_step :: "Limit \<Rightarrow> u16 \<Rightarrow> RL_Entry \<times> (nat \<Rightarrow> pc) \<Rightarrow> RL_Entry \<times> (nat \<Rightarrow> pc) \<Rightarrow> bool"
  for l now where
  acquire: "pcs i = Spin \<Longrightarrow> \<not> en_lock e \<Longrightarrow> cl_step l now (e, pcs) (e\<lparr>en_lock := True\<rparr>, pcs(i := Update))"
| update: "pcs i = Update \<Longrightarrow> cl_update l now e = Some e' \<Longrightarrow> cl_step l now (e, pcs) (e', pcs(i := Count))"
| count: "pcs i = Count \<Longrightarrow> cl_count l e = Some (e', ok) \<Longrightarrow> cl_step l now (e, pcs) (e', pcs(i := Release))"
| release: "pcs i = Release \<Longrightarrow> cl_step l now (e, pcs) (e\<lparr>en_lock := False\<rparr>, pcs(i := Done))"

inductive_cases cl_stepE: "cl_step l now (e, pcs) s"

inductive cl_reach :: "Limit \<Rightarrow> u16 \<Rightarrow> RL_Entry \<Rightarrow> RL_Entry \<times> (nat \<Rightarrow> pc) \<Rightarrow> bool" for l now e0 where
  init: "cl_reach l now e0 (e0, \<lambda>_. Spin)"
| step: "cl_reach l now e0 s \<Longrightarrow> cl_step l now s s' \<Longrightarrow> cl_reach l now e0 s'"

definition critical :: "pc \<Rightarrow> bool" where
  "critical p \<longleftrightarrow> p \<in> {Update, Count, Release}"

lemma advance_last: "advance nc now e = Some e' \<Longrightarrow> en_last e' = now \<and> en_lock e' = en_lock e"
proof (induction nc now e rule: advance.induct)
  case (1 nc now e)
  show ?case
  proof (cases "en_last e = now")
    case True
    with "1.prems" show ?thesis by (subst (asm) advance.simps) simp
  next
    case False
    with "1.prems" "1.IH" [OF False refl refl] show ?thesis
      by (subst (asm) advance.simps) (simp add: Let_def split: if_splits)
  qed
qed

text \<open>Without a reset the entry keeps its lock, and no later thread sees a reason to reset it.\<close>

definition no_reset :: "Limit \<Rightarrow> u16 \<Rightarrow> RL_Entry \<Rightarrow> bool" where
  "no_reset l now e \<longleftrightarrow> en_total e = 0 \<or> uint now - uint (en_last e) < uint (l_ncounts l)"

definition excl :: "Limit \<Rightarrow> u16 \<Rightarrow> RL_Entry \<times> (nat \<Rightarrow> pc) \<Rightarrow> bool" where
  "excl l now s \<longleftrightarrow> (case s of (e, pcs) \<Rightarrow>
     no_reset l now e \<and> (\<forall>i. critical (pcs i) \<longrightarrow> en_lock e) \<and>
     (\<forall>i j. critical (pcs i) \<longrightarrow> critical (pcs j) \<longrightarrow> i = j) \<and>
     (\<forall>i. pcs i = Count \<longrightarrow> en_last e = now))"

lemma excl_step:
  assumes "cl_step l now s s'" "excl l now s" "l_ncounts l \<noteq> 0"
  shows "excl l now s'"
  using assms(1,2)
proof cases
  case (acquire pcs i e)
  with assms(2) show ?thesis by (auto simp: excl_def critical_def no_reset_def)
next
  case (update pcs i e e')
  then have ex: "excl l now (e, pcs)" using assms(2) by simp
  then have nr: "no_reset l now e" and lock: "en_lock e" using update(3)
    by (auto simp: excl_def critical_def)
  have e': "en_last e' = now" "en_lock e'"
    using update(4) nr lock advance_last by (auto simp: cl_update_def no_reset_def split: if_splits)
  have "0 < uint (l_ncounts l)" using assms(3) by (simp add: word_neq_0_conv word_less_def)
  then have "no_reset l now e'" using e' by (simp add: no_reset_def)
  with e' ex update show ?thesis by (auto simp: excl_def critical_def)
next
  case (count pcs i e e' ok)
  then have ex: "excl l now (e, pcs)" using assms(2) by simp
  then have last: "en_last e = now" using count(3) by (auto simp: excl_def)
  have e': "en_last e' = en_last e" "en_lock e' = en_lock e"
    using count(4) by (auto simp: cl_count_def Let_def split: if_splits)
  have "0 < uint (l_ncounts l)" using assms(3) by (simp add: word_neq_0_conv word_less_def)
  then have "no_reset l now e'" using e' last by (simp add: no_reset_def)
  with e' ex count show ?thesis by (auto simp: excl_def critical_def)
next
  case (release pcs i e)
  with assms(2) show ?thesis by (auto simp: excl_def critical_def no_reset_def)
qed

section \<open>Properties\<close>

text \<open>
  C30: The rate limiter is the sliding-window counter it describes.  For limits set up with
  \<open>PSC_RateLimitOpts_addLimit\<close> and any sequence of calls with any keys at non-decreasing
  times, within less than 65536 seconds, every answer is the one of the specification:
  an action is allowed when for every limit less than \<open>limit\<close> actions of the same key
  were counted in the current and the last \<open>ncounts - 1\<close> slots.  Wrap-around of the 16 bit
  slot numbers, the shared ring of counters, hash collisions and the clean-up of expired
  entries do not show, the lookup loop ends, and no array is leaked or used after it was
  released: after \<open>PSC_RateLimit_destroy\<close> none is left.\<close>

theorem ratelimit_refines_window:
  fixes d :: "ptr PSC_Dictionary"
  assumes "PSC_Dictionary_create st rnd rl_free True = (Some d, st')"
    and "sorted (t0 # map snd calls)" "\<forall>c \<in> set calls. snd c - t0 < 2 ^ 16" "length calls < 2 ^ 64"
  shows "\<exists>self h. rl_run xxh (PSC_RateLimit_create st rnd (add_limits reqs)) \<lparr>h_next = 1, h_arrays = Map.empty\<rparr> calls =
       Some (self, h, spec_run (ro_limits (add_limits reqs)) (\<lambda>_. map (\<lambda>_. []) (ro_limits (add_limits reqs))) calls) \<and>
     h_arrays (PSC_RateLimit_destroy (Some self) h) = Map.empty"
proof -
  have "rl_limits (PSC_RateLimit_create st rnd (add_limits reqs)) = ro_limits (add_limits reqs)"
    by (simp add: PSC_RateLimit_create_def)
  with rl_run_ok [OF rl_inv_create [OF assms(1) add_limits_wf [of reqs]] assms(2,3), of xxh] assms(4)
  obtain self h H t where "rl_run xxh (PSC_RateLimit_create st rnd (add_limits reqs)) \<lparr>h_next = 1, h_arrays = Map.empty\<rparr> calls =
       Some (self, h, spec_run (ro_limits (add_limits reqs)) (\<lambda>_. map (\<lambda>_. []) (ro_limits (add_limits reqs))) calls)"
      "rl_inv xxh (0 + length calls) H t0 t self h"
    by auto
  with rl_destroy_ok show ?thesis by blast
qed

theorem ratelimit_refines_window_witness:
  "\<exists>self h. rl_run xxh_zero (PSC_RateLimit_create None (replicate 192 0) (add_limits [(10, 1), (60, 2)]))
      \<lparr>h_next = 1, h_arrays = Map.empty\<rparr> [([1], 65535), ([1], 65536), ([2], 65536), ([1], 65546), ([1], 65560)] =
    Some (self, h, [True, False, True, False, False])"
proof -
  let ?calls = "[([1], 65535), ([1], 65536), ([2], 65536), ([1], 65546), ([1], 65560)] :: (bytes \<times> nat) list"
  let ?ls = "[\<lparr>l_seconds = 10, l_limit = 1, l_res = 1, l_ncounts = 10\<rparr>, \<lparr>l_seconds = 60, l_limit = 2, l_res = 1, l_ncounts = 60\<rparr>]"
  have ls: "ro_limits (add_limits [(10, 1), (60, 2)]) = ?ls"
    by (simp add: add_limits_def PSC_RateLimitOpts_addLimit_def PSC_RateLimitOpts_create_def mk_limit_def MAXCOUNTS_def)
  have "PSC_Dictionary_create None (replicate 192 0) rl_free True =
      (Some \<lparr>d_deleter = rl_free, d_hash = \<lparr>secret = Some (replicate 192 0)\<rparr>, d_count = 0, d_shared = True,
            d_buckets = replicate HT8_SIZE BT_EMPTY\<rparr>, Some (replicate 192 0))"
    by (simp add: PSC_Dictionary_create_def PSC_Hash_create_def getSecret_def SECRETSIZE_def)
  from ratelimit_refines_window [OF this, of 65535 ?calls xxh_zero "[(10, 1), (60, 2)]"]
  show ?thesis
    by (auto simp: ls spec_check_def spec_ok_def spec_hist_def slot_of_def wcount_def simp del: rl_run.simps)
qed

text \<open>
  C31: The promise to the caller.  Over any calls on an entry, with no gap of 65536 seconds
  or more between two calls, at most \<open>limit\<close> of the calls in any
  \<open>(ncounts - 1) * res + 1\<close> consecutive seconds are allowed; with \<open>res = 1\<close> (periods
  up to 512 seconds) that is the configured period.\<close>

theorem ratelimit_bound:
  assumes "1 \<le> seconds" "seconds \<le> 0xffff" "1 \<le> limit" "limit \<le> 0xffff"
    and "l = mk_limit seconds limit" "slot16 l t0 = Some now" "close_times t0 ts"
  shows "\<exists>oks. limit_run l (zero_entry\<lparr>en_last := now\<rparr>) ts = Some oks \<and> length oks = length ts \<and>
    (\<forall>a. length (filter (\<lambda>(t, ok). ok \<and> a \<le> t \<and> t \<le> a + (unat (l_ncounts l) - 1) * unat (l_res l)) (zip ts oks)) \<le> limit)"
proof -
  have wf: "wf_limit l" and lim: "unat (l_limit l) = limit"
    using wf_mk_limit [OF assms(1-4)] assms(5) by auto
  let ?nc = "unat (l_ncounts l)"
  have nc: "1 \<le> ?nc" "?nc \<le> MAXCOUNTS" and res: "1 \<le> unat (l_res l)" using wf by (auto simp: wf_limit_def)
  have now: "now = of_nat (slot_of l t0)" using assms(6) by (auto simp: slot16_def slot_of_def split: if_splits)
  have "window l (slot_of l t0) [] (zero_entry\<lparr>en_last := now\<rparr>)"
    using ring_zero [OF nc, of "[]" "slot_of l t0"] by (simp add: now window_def wcount_def zero_entry_def)
  then obtain oks where oks: "limit_run l (zero_entry\<lparr>en_last := now\<rparr>) ts = Some oks" "length oks = length ts"
      "\<And>S. span ?nc S (rev (map (\<lambda>c. slot_of l (fst c)) (filter snd (zip ts oks)))) \<le> limit"
    using limit_run_ok [OF _ wf assms(7), of "[]"] lim by (auto simp: span_def)
  have "length (filter (\<lambda>(t, ok). ok \<and> a \<le> t \<and> t \<le> a + (?nc - 1) * unat (l_res l)) (zip ts oks)) \<le> limit" for a
  proof -
    have "length (filter (\<lambda>(t, ok). ok \<and> a \<le> t \<and> t \<le> a + (?nc - 1) * unat (l_res l)) xs) \<le>
        span ?nc (slot_of l a) (rev (map (\<lambda>c. slot_of l (fst c)) (filter snd xs)))" for xs :: "(nat \<times> bool) list"
      using slots_of_interval [OF res nc(1), of a]
      by (induction xs) (auto simp: span_def rev_filter filter_map split: prod.splits)
    then show ?thesis using oks(3) [of "slot_of l a"] by (meson le_trans)
  qed
  with oks(1,2) show ?thesis by blast
qed

theorem ratelimit_bound_witness:
  "limit_run (mk_limit 10 2) (zero_entry\<lparr>en_last := 7\<rparr>) [7, 8, 16, 17] = Some [True, True, False, True] \<and>
   (\<exists>oks. limit_run (mk_limit 10 2) (zero_entry\<lparr>en_last := 7\<rparr>) [7, 8, 16, 17] = Some oks \<and>
    (\<forall>a. length (filter (\<lambda>(t, ok). ok \<and> a \<le> t \<and> t \<le> a + (10 - 1) * 1) (zip [7 :: nat, 8, 16, 17] oks)) \<le> 2))"
proof -
  have l: "mk_limit 10 2 = \<lparr>l_seconds = 10, l_limit = 2, l_res = 1, l_ncounts = 10\<rparr>"
    by (simp add: mk_limit_def MAXCOUNTS_def)
  have "limit_run (mk_limit 10 2) (zero_entry\<lparr>en_last := 7\<rparr>) [7, 8, 16, 17] = Some [True, True, False, True]"
    by (simp add: l checkLimit_def slot16_def cl_update_def cl_count_def zero_entry_def MAXCOUNTS_def
        advance.simps Let_def)
  moreover from ratelimit_bound [of 10 2 "mk_limit 10 2" 7 7 "[7, 8, 16, 17]"]
  have "\<exists>oks. limit_run (mk_limit 10 2) (zero_entry\<lparr>en_last := 7\<rparr>) [7, 8, 16, 17] = Some oks \<and>
    (\<forall>a. length (filter (\<lambda>(t, ok). ok \<and> a \<le> t \<and> t \<le> a + (10 - 1) * 1) (zip [7 :: nat, 8, 16, 17] oks)) \<le> 2)"
    by (auto simp: l slot16_def simp del: limit_run.simps)
  ultimately show ?thesis by blast
qed

text \<open>
  A limit is refused exactly when the period or the count is outside 1 to 65535;
  otherwise the counters fit the 512 slots of an entry and cover the period, with less
  than one slot to spare.\<close>

theorem addLimit_result:
  "PSC_RateLimitOpts_addLimit opts seconds limit =
     (if 1 \<le> seconds \<and> seconds \<le> 0xffff \<and> 1 \<le> limit \<and> limit \<le> 0xffff
      then (opts\<lparr>ro_limits_capa := (if length (ro_limits opts) = ro_limits_capa opts then ro_limits_capa opts + 8 else ro_limits_capa opts),
                 ro_limits := ro_limits opts @ [mk_limit (nat seconds) (nat limit)]\<rparr>, 0)
      else (opts, -1)) \<and>
   (1 \<le> seconds \<and> seconds \<le> 0xffff \<and> 1 \<le> limit \<and> limit \<le> 0xffff \<longrightarrow>
      wf_limit (mk_limit (nat seconds) (nat limit)) \<and>
      unat (l_limit (mk_limit (nat seconds) (nat limit))) = nat limit \<and>
      unat (l_seconds (mk_limit (nat seconds) (nat limit))) = nat seconds)"
proof (intro conjI impI)
  show "PSC_RateLimitOpts_addLimit opts seconds limit =
     (if 1 \<le> seconds \<and> seconds \<le> 0xffff \<and> 1 \<le> limit \<and> limit \<le> 0xffff
      then (opts\<lparr>ro_limits_capa := (if length (ro_limits opts) = ro_limits_capa opts then ro_limits_capa opts + 8 else ro_limits_capa opts),
                 ro_limits := ro_limits opts @ [mk_limit (nat seconds) (nat limit)]\<rparr>, 0)
      else (opts, -1))"
    by (auto simp: PSC_RateLimitOpts_addLimit_def Let_def)
next
  assume "1 \<le> seconds \<and> seconds \<le> 0xffff \<and> 1 \<le> limit \<and> limit \<le> 0xffff"
  then have "1 \<le> nat seconds" "nat seconds \<le> 0xffff" "1 \<le> nat limit" "nat limit \<le> 0xffff" by auto
  from wf_mk_limit [OF this]
  show "wf_limit (mk_limit (nat seconds) (nat limit))" "unat (l_limit (mk_limit (nat seconds) (nat limit))) = nat limit"
    "unat (l_seconds (mk_limit (nat seconds) (nat limit))) = nat seconds" by blast+
qed

theorem addLimit_result_witness:
  "wf_limit (mk_limit (nat 3600) (nat 100)) \<and> unat (l_limit (mk_limit (nat 3600) (nat 100))) = nat 100"
  using addLimit_result [of PSC_RateLimitOpts_create 3600 100] by simp

text \<open>
  The slot number has 16 bits, so the restriction of the gaps is needed: with one
  action per 10 seconds, an action that follows the last one after 65541 seconds is
  refused.\<close>

theorem ratelimit_slot_aliasing:
  "limit_run (mk_limit 10 1) (zero_entry\<lparr>en_last := 0\<rparr>) [0, 65541] = Some [True, False]"
proof -
  have l: "mk_limit 10 1 = \<lparr>l_seconds = 10, l_limit = 1, l_res = 1, l_ncounts = 10\<rparr>"
    by (simp add: mk_limit_def MAXCOUNTS_def)
  have now: "slot16 (mk_limit 10 1) 65541 = Some 5" "slot16 (mk_limit 10 1) 0 = Some 0"
    unfolding l by (simp_all add: slot16_def)
  show ?thesis
    unfolding limit_run.simps checkLimit_def now unfolding l by (simp add: cl_update_def cl_count_def zero_entry_def MAXCOUNTS_def
        advance.simps Let_def)
qed

text \<open>
  The spin lock excludes other threads from the update and the count of an entry, as
  long as no thread finds the entry expired: then in every reachable state at most one
  thread is between taking and releasing the lock, and the lock is held.\<close>

theorem checkLimit_exclusion:
  assumes "cl_reach l now e (e', pcs)" "no_reset l now e" "l_ncounts l \<noteq> 0"
    and "critical (pcs i)" "critical (pcs j)"
  shows "i = j \<and> en_lock e'"
proof -
  have "excl l now s" if "cl_reach l now e s" for s
    using that
  proof induction
    case init
    then show ?case using assms(2) by (simp add: excl_def critical_def)
  next
    case (step s s')
    then show ?case using excl_step assms(3) by blast
  qed
  from this [OF assms(1)] assms(4,5) show ?thesis by (simp add: excl_def) blast
qed

theorem checkLimit_exclusion_witness:
  "\<exists>e' pcs. cl_reach (mk_limit 10 1) 5 zero_entry (e', pcs) \<and> critical (pcs 3) \<and> en_lock e'"
proof -
  let ?e = "zero_entry\<lparr>en_lock := True\<rparr>" and ?pcs = "(\<lambda>_. Spin)(3 := Update)"
  have r: "cl_reach (mk_limit 10 1) 5 zero_entry (?e, ?pcs)"
    by (rule cl_reach.step [OF cl_reach.init cl_step.acquire]) (simp_all add: zero_entry_def)
  have "no_reset (mk_limit 10 1) 5 zero_entry" "l_ncounts (mk_limit 10 1) \<noteq> 0" "critical (?pcs 3)"
    by (simp_all add: no_reset_def zero_entry_def critical_def mk_limit_def MAXCOUNTS_def)
  with checkLimit_exclusion [OF r, of 3 3] r show ?thesis by blast
qed

text \<open>
  A thread that finds the entry expired clears all of it with \<open>memset\<close>, the lock
  included, while it still has to count: from any expired entry a state is reachable in
  which two threads are behind the lock at the same time.\<close>

theorem checkLimit_reset_breaks_lock:
  assumes "\<not> en_lock e" "en_total e \<noteq> 0" "uint (l_ncounts l) \<le> uint now - uint (en_last e)"
  shows "\<exists>e' pcs. cl_reach l now e (e', pcs) \<and> critical (pcs 0) \<and> critical (pcs 1)"
proof -
  let ?z = "zero_entry\<lparr>en_last := now\<rparr>"
  have "cl_reach l now e (e\<lparr>en_lock := True\<rparr>, (\<lambda>_. Spin)(0 := Update))"
    using assms(1) by (intro cl_reach.step [OF cl_reach.init] cl_step.acquire) simp_all
  then have "cl_reach l now e (?z, (\<lambda>_. Spin)(0 := Update, 0 := Count))"
    by (rule cl_reach.step) (rule cl_step.update, use assms in \<open>simp_all add: cl_update_def\<close>)
  then have "cl_reach l now e (?z\<lparr>en_lock := True\<rparr>, (\<lambda>_. Spin)(0 := Update, 0 := Count, 1 := Update))"
    by (rule cl_reach.step) (rule cl_step.acquire, simp_all add: zero_entry_def)
  then show ?thesis by (intro exI conjI) (assumption, simp_all add: critical_def)
qed

theorem checkLimit_reset_breaks_lock_witness:
  "\<exists>e' pcs. cl_reach (mk_limit 10 1) 40 (zero_entry\<lparr>en_total := 1, en_counts := 1 # replicate 511 0\<rparr>) (e', pcs) \<and>
     critical (pcs 0) \<and> critical (pcs 1)"
  by (rule checkLimit_reset_breaks_lock) (simp_all add: zero_entry_def mk_limit_def MAXCOUNTS_def)

end
