(* ===== verification/C_Numbers.thy ===== *)
theory C_Numbers
  imports Prelude
begin

text \<open>
  The conversions between numbers and text of the C library that several components use:
  \<open>strtoll\<close> and \<open>strtol\<close> for base 10 and 16, and \<open>printf\<close> for decimal and hexadecimal
  integers.
\<close>

section \<open>Decimal numbers\<close>

text \<open>The first character of a C string, or its terminator.\<close>

definition peek :: "string \<Rightarrow> char" where
  "peek s = (case s of [] \<Rightarrow> NUL | c # _ \<Rightarrow> c)"

definition digit_char :: "nat \<Rightarrow> char" where
  "digit_char d = char_of (48 + d)"

definition is_digit :: "char \<Rightarrow> bool" where
  "is_digit c \<longleftrightarrow> CHR ''0'' \<le> c \<and> c \<le> CHR ''9''"

definition digit_val :: "char \<Rightarrow> nat" where
  "digit_val c = of_char c - 48"

text \<open>\<open>strtoll\<close> in base 10: white space, a sign, digits; saturating.  The rest is \<open>endp\<close>.\<close>

definition is_space :: "char \<Rightarrow> bool" where
  "is_space c \<longleftrightarrow> c \<in> {CHR '' '', CHR 0x09, CHR 0x0a, CHR 0x0b, CHR 0x0c, CHR 0x0d}"

definition dec_val :: "string \<Rightarrow> nat" where
  "dec_val ds = foldl (\<lambda>n c. 10 * n + digit_val c) 0 ds"

definition LLONG_MAX :: int where "LLONG_MAX = 2 ^ 63 - 1"
definition LLONG_MIN :: int where "LLONG_MIN = - (2 ^ 63)"

definition strtoll :: "string \<Rightarrow> u64 \<times> string" where
  "strtoll str =
     (let s = dropWhile is_space str;
          (neg, s) = (case s of
              c # s' \<Rightarrow> if c = CHR ''-'' then (True, s') else if c = CHR ''+'' then (False, s') else (False, s)
            | [] \<Rightarrow> (False, s));
          ds = takeWhile is_digit s;
          n = (if neg then - int (dec_val ds) else int (dec_val ds))
      in if ds = [] then (0, str)
         else (word_of_int (min LLONG_MAX (max LLONG_MIN n)), drop (length ds) s))"

fun show_nat :: "nat \<Rightarrow> string" where
  "show_nat n = (if n < 10 then [digit_char n] else show_nat (n div 10) @ [digit_char (n mod 10)])"

declare show_nat.simps [simp del]

text \<open>\<open>printf\<close> with \<open>PRId64\<close>.\<close>

definition show_int64 :: "u64 \<Rightarrow> string" where
  "show_int64 w = (if sint w < 0 then CHR ''-'' # show_nat (nat (- sint w)) else show_nat (nat (sint w)))"

section \<open>What was printed can be read\<close>

lemma digit_char_ok:
  assumes "d < 10"
  shows "is_digit (digit_char d)" "digit_val (digit_char d) = d"
proof -
  have "(of_char (char_of (48 + d) :: char) :: nat) = 48 + d" using assms by simp
  then show "is_digit (digit_char d)" "digit_val (digit_char d) = d"
    using assms by (simp_all add: is_digit_def digit_char_def digit_val_def less_eq_char_def)
qed

lemma show_nat_ok: "list_all is_digit (show_nat n) \<and> dec_val (show_nat n) = n \<and> show_nat n \<noteq> []"
proof (induction n rule: show_nat.induct)
  case (1 n)
  show ?case
  proof (cases "n < 10")
    case True
    then show ?thesis by (subst (1 2 3) show_nat.simps) (simp add: digit_char_ok dec_val_def)
  next
    case False
    then have "show_nat n = show_nat (n div 10) @ [digit_char (n mod 10)]"
      by (subst show_nat.simps) simp
    then show ?thesis using 1 [OF False] by (simp add: digit_char_ok dec_val_def)
  qed
qed

lemma takeWhile_digits:
  assumes "list_all is_digit ds" "\<not> is_digit (peek r)"
  shows "takeWhile is_digit (ds @ r) = ds"
  using assms by (cases r) (auto simp: list_all_iff peek_def takeWhile_append)

lemma not_digit_space: "is_digit c \<Longrightarrow> \<not> is_space c \<and> c \<noteq> CHR ''-'' \<and> c \<noteq> CHR ''+''"
  by (auto simp: is_digit_def is_space_def less_eq_char_def)

lemma sint_range: "LLONG_MIN \<le> sint w \<and> sint w \<le> LLONG_MAX" for w :: u64
  using sint_greater_eq [of w] sint_lt [of w] by (simp add: LLONG_MIN_def LLONG_MAX_def)

lemma strtoll_show:
  assumes "\<not> is_digit (peek r)"
  shows "strtoll (show_int64 w @ r) = (w, r)"
proof -
  define n where "n = nat \<bar>sint w\<bar>"
  define ds where "ds = show_nat n"
  have ds: "list_all is_digit ds" "dec_val ds = n" "ds \<noteq> []" using show_nat_ok by (simp_all add: ds_def)
  then obtain d ds' where d: "ds = d # ds'" "is_digit d" by (cases ds) auto
  have tw: "takeWhile is_digit (ds @ r) = ds" using takeWhile_digits [OF ds(1) assms] .
  have val: "word_of_int (min LLONG_MAX (max LLONG_MIN (sint w))) = w"
    using sint_range [of w] by (simp add: min_absorb2 max_absorb2)
  show ?thesis
  proof (cases "sint w < 0")
    case True
    then have "show_int64 w = CHR ''-'' # ds" "- int n = sint w" by (simp_all add: show_int64_def ds_def n_def)
    then show ?thesis using ds tw val by (simp add: strtoll_def is_space_def Let_def)
  next
    case False
    then have s: "show_int64 w = ds" "int n = sint w" by (simp_all add: show_int64_def ds_def n_def)
    have "dropWhile is_space (ds @ r) = ds @ r" using d not_digit_space by simp
    then show ?thesis using s ds tw val d not_digit_space [OF d(2)] by (simp add: strtoll_def Let_def)
  qed
qed

lemma peek_append: "s \<noteq> [] \<Longrightarrow> peek (s @ r) = hd s"
  by (cases s) (simp_all add: peek_def)

lemma show_int64_hd: "show_int64 w \<noteq> [] \<and> (hd (show_int64 w) = CHR ''-'' \<or> is_digit (hd (show_int64 w)))"
proof -
  have "show_nat n \<noteq> [] \<and> is_digit (hd (show_nat n))" for n
    using show_nat_ok [of n] by (cases "show_nat n") auto
  then show ?thesis by (simp add: show_int64_def)
qed

section \<open>\<open>strtol\<close>\<close>

text \<open>
  \<open>strtol\<close> with its value, the rest of the string and whether \<open>errno\<close> is set to
  \<open>ERANGE\<close>; \<open>long\<close> has 64 bits.  In base 16 a prefix \<open>0x\<close> is skipped when a digit
  follows it.
\<close>

definition is_xdigit :: "char \<Rightarrow> bool" where
  "is_xdigit c \<longleftrightarrow> is_digit c \<or> CHR ''a'' \<le> c \<and> c \<le> CHR ''f'' \<or> CHR ''A'' \<le> c \<and> c \<le> CHR ''F''"

definition xdigit_val :: "char \<Rightarrow> nat" where
  "xdigit_val c = (if is_digit c then of_char c - 48 else if CHR ''a'' \<le> c then of_char c - 87 else of_char c - 55)"

definition hex_val :: "string \<Rightarrow> nat" where
  "hex_val ds = foldl (\<lambda>n c. 16 * n + xdigit_val c) 0 ds"

definition split_sign :: "string \<Rightarrow> bool \<times> string" where
  "split_sign s =
     (case s of
        c # s' \<Rightarrow> if c = CHR ''-'' then (True, s') else if c = CHR ''+'' then (False, s') else (False, s)
      | [] \<Rightarrow> (False, s))"

definition skip_0x :: "string \<Rightarrow> string" where
  "skip_0x s =
     (case s of
        z # x # d # s' \<Rightarrow> if z = CHR ''0'' \<and> (x = CHR ''x'' \<or> x = CHR ''X'') \<and> is_xdigit d then d # s' else s
      | _ \<Rightarrow> s)"

definition strtol_result :: "string \<Rightarrow> bool \<Rightarrow> nat \<Rightarrow> string \<Rightarrow> string \<Rightarrow> int \<times> string \<times> bool" where
  "strtol_result str neg n ds s =
     (let v = (if neg then - int n else int n)
      in if ds = [] then (0, str, False)
         else (min LLONG_MAX (max LLONG_MIN v), drop (length ds) s, v < LLONG_MIN \<or> LLONG_MAX < v))"

definition strtol10 :: "string \<Rightarrow> int \<times> string \<times> bool" where
  "strtol10 str =
     (case split_sign (dropWhile is_space str) of (neg, s) \<Rightarrow>
        let ds = takeWhile is_digit s in strtol_result str neg (dec_val ds) ds s)"

definition strtol16 :: "string \<Rightarrow> int \<times> string \<times> bool" where
  "strtol16 str =
     (case split_sign (dropWhile is_space str) of (neg, s0) \<Rightarrow>
        let s = skip_0x s0; ds = takeWhile is_xdigit s in strtol_result str neg (hex_val ds) ds s)"

text \<open>\<open>printf\<close> with \<open>%x\<close>.\<close>

definition xdigit_char :: "nat \<Rightarrow> char" where
  "xdigit_char d = char_of (if d < 10 then 48 + d else 87 + d)"

fun show_hex :: "nat \<Rightarrow> string" where
  "show_hex n = (if n < 16 then [xdigit_char n] else show_hex (n div 16) @ [xdigit_char (n mod 16)])"

declare show_hex.simps [simp del]

lemma xdigit_char_ok:
  assumes "d < 16"
  shows "is_xdigit (xdigit_char d)" "xdigit_val (xdigit_char d) = d" "xdigit_char d \<noteq> CHR ''x''" "xdigit_char d \<noteq> CHR ''X''"
proof -
  have c: "(of_char (char_of (if d < 10 then 48 + d else 87 + d) :: char) :: nat) = (if d < 10 then 48 + d else 87 + d)"
    using assms by simp
  show "is_xdigit (xdigit_char d)" "xdigit_val (xdigit_char d) = d"
    using assms c by (simp_all add: is_xdigit_def is_digit_def xdigit_char_def xdigit_val_def less_eq_char_def)
  show "xdigit_char d \<noteq> CHR ''x''" "xdigit_char d \<noteq> CHR ''X''"
    using assms c unfolding xdigit_char_def by (auto dest!: arg_cong [where f = "of_char :: char \<Rightarrow> nat"])
qed

lemma show_hex_ok:
  "list_all is_xdigit (show_hex n) \<and> hex_val (show_hex n) = n \<and> show_hex n \<noteq> [] \<and>
   CHR ''x'' \<notin> set (show_hex n) \<and> CHR ''X'' \<notin> set (show_hex n)"
proof (induction n rule: show_hex.induct)
  case (1 n)
  show ?case
  proof (cases "n < 16")
    case True
    then have "show_hex n = [xdigit_char n]" by (subst show_hex.simps) simp
    then show ?thesis using True xdigit_char_ok [of n] by (auto simp: hex_val_def)
  next
    case False
    then have "show_hex n = show_hex (n div 16) @ [xdigit_char (n mod 16)]"
      by (subst show_hex.simps) simp
    then show ?thesis using 1 [OF False] xdigit_char_ok [of "n mod 16"] by (auto simp: hex_val_def)
  qed
qed

lemma show_hex_length: "n < 16 ^ k \<Longrightarrow> 0 < k \<Longrightarrow> length (show_hex n) \<le> k"
proof (induction k arbitrary: n)
  case (Suc k)
  show ?case
  proof (cases "n < 16")
    case True
    then show ?thesis by (subst show_hex.simps) simp
  next
    case False
    with Suc.prems have "0 < k" by (cases k) auto
    moreover have "n div 16 < 16 ^ k" using Suc.prems(1) by (simp add: less_mult_imp_div_less mult.commute)
    ultimately show ?thesis using False Suc.IH [of "n div 16"] by (subst show_hex.simps) simp
  qed
qed simp

lemma show_nat_length: "n < 10 ^ k \<Longrightarrow> 0 < k \<Longrightarrow> length (show_nat n) \<le> k"
proof (induction k arbitrary: n)
  case (Suc k)
  show ?case
  proof (cases "n < 10")
    case True
    then show ?thesis by (subst show_nat.simps) simp
  next
    case False
    with Suc.prems have "0 < k" by (cases k) auto
    moreover have "n div 10 < 10 ^ k" using Suc.prems(1) by (simp add: less_mult_imp_div_less mult.commute)
    ultimately show ?thesis using False Suc.IH [of "n div 10"] by (subst show_nat.simps) simp
  qed
qed simp

lemma not_xdigit_space: "is_xdigit c \<Longrightarrow> \<not> is_space c \<and> c \<noteq> CHR ''-'' \<and> c \<noteq> CHR ''+''"
  by (auto simp: is_xdigit_def is_digit_def is_space_def less_eq_char_def)

lemma strtol10_show:
  assumes "\<not> is_digit (peek r)" "int n \<le> LLONG_MAX"
  shows "strtol10 (show_nat n @ r) = (int n, r, False)"
proof -
  define ds where "ds = show_nat n"
  have ds: "list_all is_digit ds" "dec_val ds = n" "ds \<noteq> []" using show_nat_ok by (simp_all add: ds_def)
  then obtain d ds' where d: "ds = d # ds'" "is_digit d" by (cases ds) auto
  have "takeWhile is_digit (ds @ r) = ds" using takeWhile_digits [OF ds(1) assms(1)] .
  moreover have "dropWhile is_space (ds @ r) = ds @ r" using d not_digit_space by simp
  moreover have "split_sign (ds @ r) = (False, ds @ r)" using d not_digit_space [OF d(2)] by (simp add: split_sign_def)
  moreover have "LLONG_MIN \<le> int n" by (simp add: LLONG_MIN_def)
  ultimately show ?thesis
    using ds assms(2) by (simp add: strtol10_def strtol_result_def Let_def ds_def [symmetric])
qed

lemma strtol16_show:
  assumes "\<not> is_xdigit (peek r)" "peek r \<noteq> CHR ''x''" "peek r \<noteq> CHR ''X''" "int n \<le> LLONG_MAX"
  shows "strtol16 (show_hex n @ r) = (int n, r, False)"
proof -
  define ds where "ds = show_hex n"
  have ds: "list_all is_xdigit ds" "hex_val ds = n" "ds \<noteq> []" "CHR ''x'' \<notin> set ds" "CHR ''X'' \<notin> set ds"
    using show_hex_ok by (simp_all add: ds_def)
  then obtain d ds' where d: "ds = d # ds'" "is_xdigit d" by (cases ds) auto
  have "takeWhile is_xdigit (ds @ r) = ds"
    using ds(1) assms(1) by (cases r) (auto simp: list_all_iff peek_def takeWhile_append)
  moreover have "dropWhile is_space (ds @ r) = ds @ r" using d not_xdigit_space by simp
  moreover have "split_sign (ds @ r) = (False, ds @ r)" using d not_xdigit_space [OF d(2)] by (simp add: split_sign_def)
  moreover have "skip_0x (ds @ r) = ds @ r"
    using d ds(4,5) assms(2,3) by (cases ds'; cases r) (auto simp: skip_0x_def peek_def split: list.splits)
  moreover have "LLONG_MIN \<le> int n" by (simp add: LLONG_MIN_def)
  ultimately show ?thesis
    using ds assms(4) by (simp add: strtol16_def strtol_result_def Let_def ds_def [symmetric])
qed

end
