(* ===== verification/Poser_Json.thy ===== *)
theory Poser_Json
  imports Poser_Dictionary C_Numbers
begin

text \<open>
  \<open>PSC_Json\<close> and the writing half of \<open>PSC_JsonSerializer\<close> (\<open>src/lib/core/json.c\<close>).

  A JSON value is a tree.  An array or object without items has no list or dictionary
  behind it (a null pointer, here \<^const>\<open>None\<close>).  An object keeps a list of its keys
  and a dictionary; \<open>JsonObject\<close> is that representation, and the tree has the
  association list it stands for (shown below).  A string is its characters and, for one
  that was not copied, the characters that follow them in memory before the next null
  character: the length of such a string may be less than that of the C string.  Who frees
  a string is left out, as is the cached text of a number.

  Numbers of type \<open>double\<close> are a type parameter: the conversions the code leaves to the
  C library are the fields of \<open>float_ops\<close>.
\<close>

section \<open>Values\<close>

datatype 'f PSC_Json =
    JNull
  | JFalse
  | JTrue
  | JInteger u64
  | JFloat 'f
  | JString string string
  | JArray "'f PSC_Json list option"
  | JObject "(string \<times> 'f PSC_Json) list option"

datatype PSC_JsonValueType =
    PSC_JVT_NULL | PSC_JVT_FALSE | PSC_JVT_TRUE | PSC_JVT_INTEGER | PSC_JVT_FLOAT
  | PSC_JVT_STRING | PSC_JVT_ARRAY | PSC_JVT_OBJECT

text \<open>
  \<open>strtod\<close> gives the value and the number of characters it used, \<open>fmt_g15\<close> is
  \<open>printf\<close> with \<open>%.15g\<close>, \<open>f_trunc\<close> the conversion to \<open>int64_t\<close> (undefined when the
  value does not fit), \<open>f_of_int\<close> the one from integers.
\<close>

record 'f float_ops =
  strtod :: "string \<Rightarrow> 'f \<times> nat"
  fmt_g15 :: "'f \<Rightarrow> string"
  f_trunc :: "'f \<Rightarrow> u64 option"
  f_of_int :: "int \<Rightarrow> 'f"
  f_is_zero :: "'f \<Rightarrow> bool"

definition litNull :: string where "litNull = ''null''"
definition litFalse :: string where "litFalse = ''false''"
definition litTrue :: string where "litTrue = ''true''"

definition PSC_Json_createNull :: "'f PSC_Json" where
  "PSC_Json_createNull = JNull"

definition PSC_Json_createBool :: "int \<Rightarrow> 'f PSC_Json" where
  "PSC_Json_createBool value = (if value \<noteq> 0 then JTrue else JFalse)"

definition PSC_Json_createInteger :: "u64 \<Rightarrow> 'f PSC_Json" where
  "PSC_Json_createInteger value = JInteger value"

definition PSC_Json_createFloat :: "'f \<Rightarrow> 'f PSC_Json" where
  "PSC_Json_createFloat value = JFloat value"

text \<open>
  A string argument with its length: \<open>value\<close> is the memory it points to, and a length of
  0 stands for the characters before the terminator.
\<close>

definition str_arg :: "string \<Rightarrow> nat \<Rightarrow> string" where
  "str_arg value len = (if len = 0 then takeWhile (\<lambda>c. c \<noteq> NUL) value else take len value)"

definition str_tail :: "string \<Rightarrow> nat \<Rightarrow> string" where
  "str_tail value len = takeWhile (\<lambda>c. c \<noteq> NUL) (drop (length (str_arg value len)) value)"

definition PSC_Json_createString :: "string \<Rightarrow> nat \<Rightarrow> 'f PSC_Json" where
  "PSC_Json_createString value len = JString (str_arg value len) []"

definition PSC_Json_createStaticString :: "string \<Rightarrow> nat \<Rightarrow> 'f PSC_Json" where
  "PSC_Json_createStaticString value len = JString (str_arg value len) (str_tail value len)"

definition PSC_Json_createOwnedString :: "string \<Rightarrow> nat \<Rightarrow> 'f PSC_Json" where
  "PSC_Json_createOwnedString value len = JString (str_arg value len) (str_tail value len)"

definition PSC_Json_createArray :: "'f PSC_Json" where
  "PSC_Json_createArray = JArray None"

definition PSC_Json_createObject :: "'f PSC_Json" where
  "PSC_Json_createObject = JObject None"

text \<open>The updated value and the error code.\<close>

definition PSC_Json_append :: "'f PSC_Json \<Rightarrow> 'f PSC_Json \<Rightarrow> 'f PSC_Json \<times> int" where
  "PSC_Json_append self item =
     (case self of
        JArray values \<Rightarrow> (JArray (Some ((case values of None \<Rightarrow> [] | Some vs \<Rightarrow> vs) @ [item])), 0)
      | _ \<Rightarrow> (self, -1))"

text \<open>Setting a key in an association list: in place, or at the end.\<close>

fun alist_set :: "'k \<Rightarrow> 'v \<Rightarrow> ('k \<times> 'v) list \<Rightarrow> ('k \<times> 'v) list" where
  "alist_set k v [] = [(k, v)]"
| "alist_set k v ((k', v') # kvs) = (if k' = k then (k, v) # kvs else (k', v') # alist_set k v kvs)"

definition PSC_Json_setProperty :: "'f PSC_Json \<Rightarrow> string \<Rightarrow> nat \<Rightarrow> 'f PSC_Json \<Rightarrow> 'f PSC_Json \<times> int" where
  "PSC_Json_setProperty self name namelen value =
     (case self of
        JObject kvs \<Rightarrow>
          (JObject (Some (alist_set (str_arg name namelen) value (case kvs of None \<Rightarrow> [] | Some l \<Rightarrow> l))), 0)
      | _ \<Rightarrow> (self, -1))"

definition PSC_Json_type :: "'f PSC_Json \<Rightarrow> PSC_JsonValueType" where
  "PSC_Json_type self =
     (case self of
        JNull \<Rightarrow> PSC_JVT_NULL | JFalse \<Rightarrow> PSC_JVT_FALSE | JTrue \<Rightarrow> PSC_JVT_TRUE
      | JInteger _ \<Rightarrow> PSC_JVT_INTEGER | JFloat _ \<Rightarrow> PSC_JVT_FLOAT | JString _ _ \<Rightarrow> PSC_JVT_STRING
      | JArray _ \<Rightarrow> PSC_JVT_ARRAY | JObject _ \<Rightarrow> PSC_JVT_OBJECT)"

section \<open>Numbers as text\<close>

definition numToString :: "'f float_ops \<Rightarrow> 'f PSC_Json \<Rightarrow> string option" where
  "numToString F self =
     (case self of
        JInteger value \<Rightarrow> Some (show_int64 value)
      | JFloat value \<Rightarrow> Some (fmt_g15 F value)
      | _ \<Rightarrow> None)"

definition float_mark :: "char \<Rightarrow> bool" where
  "float_mark c \<longleftrightarrow> c = CHR ''.'' \<or> c = CHR ''e'' \<or> c = CHR ''E''"

definition strToFloat :: "'f float_ops \<Rightarrow> string \<Rightarrow> 'f" where
  "strToFloat F str = fst (strtod F str)"

definition strToInteger :: "'f float_ops \<Rightarrow> string \<Rightarrow> u64 option" where
  "strToInteger F str =
     (case strtoll str of (val, endp) \<Rightarrow>
        if float_mark (peek endp) then f_trunc F (strToFloat F str) else Some val)"

section \<open>Reading values\<close>

text \<open>The C string at the address of the characters ends at the first null character.\<close>

definition c_str :: "string \<Rightarrow> string" where
  "c_str s = takeWhile (\<lambda>c. c \<noteq> NUL) s"

definition PSC_Json_length :: "'f PSC_Json \<Rightarrow> nat" where
  "PSC_Json_length self =
     (case self of
        JNull \<Rightarrow> 0 | JFalse \<Rightarrow> 1 | JTrue \<Rightarrow> 1 | JInteger _ \<Rightarrow> 1 | JFloat _ \<Rightarrow> 1
      | JString s _ \<Rightarrow> length s
      | JArray None \<Rightarrow> 0 | JArray (Some vs) \<Rightarrow> length vs
      | JObject None \<Rightarrow> 0 | JObject (Some kvs) \<Rightarrow> length kvs)"

definition PSC_Json_bool :: "'f float_ops \<Rightarrow> 'f PSC_Json \<Rightarrow> bool" where
  "PSC_Json_bool F self =
     (case self of
        JNull \<Rightarrow> False | JFalse \<Rightarrow> False | JTrue \<Rightarrow> True
      | JInteger value \<Rightarrow> value \<noteq> 0
      | JFloat value \<Rightarrow> \<not> f_is_zero F value
      | JString s rest \<Rightarrow> peek (s @ rest) \<noteq> NUL
      | JArray values \<Rightarrow> values \<noteq> None
      | JObject values \<Rightarrow> values \<noteq> None)"

definition PSC_Json_integer :: "'f float_ops \<Rightarrow> 'f PSC_Json \<Rightarrow> u64 option" where
  "PSC_Json_integer F self =
     (case self of
        JNull \<Rightarrow> Some 0 | JFalse \<Rightarrow> Some 0 | JTrue \<Rightarrow> Some 1
      | JInteger value \<Rightarrow> Some value
      | JFloat value \<Rightarrow> f_trunc F value
      | JString s rest \<Rightarrow> strToInteger F (c_str (s @ rest))
      | _ \<Rightarrow> Some (of_nat (PSC_Json_length self)))"

definition PSC_Json_float :: "'f float_ops \<Rightarrow> 'f PSC_Json \<Rightarrow> 'f" where
  "PSC_Json_float F self =
     (case self of
        JNull \<Rightarrow> f_of_int F 0 | JFalse \<Rightarrow> f_of_int F 0 | JTrue \<Rightarrow> f_of_int F 1
      | JInteger value \<Rightarrow> f_of_int F (sint value)
      | JFloat value \<Rightarrow> value
      | JString s rest \<Rightarrow> strToFloat F (c_str (s @ rest))
      | _ \<Rightarrow> f_of_int F (int (PSC_Json_length self)))"

definition PSC_Json_string :: "'f float_ops \<Rightarrow> 'f PSC_Json \<Rightarrow> string" where
  "PSC_Json_string F self =
     (case self of
        JNull \<Rightarrow> litNull | JFalse \<Rightarrow> litFalse | JTrue \<Rightarrow> litTrue
      | JInteger value \<Rightarrow> the (numToString F self)
      | JFloat value \<Rightarrow> the (numToString F self)
      | JString s rest \<Rightarrow> c_str (s @ rest)
      | JArray _ \<Rightarrow> ''[array]''
      | JObject _ \<Rightarrow> ''[object]'')"

definition PSC_Json_itemAt :: "'f PSC_Json \<Rightarrow> nat \<Rightarrow> 'f PSC_Json option" where
  "PSC_Json_itemAt self i =
     (case self of
        JArray (Some vs) \<Rightarrow> if i < length vs then Some (vs ! i) else None
      | JObject (Some kvs) \<Rightarrow> if i < length kvs then Some (JString (fst (kvs ! i)) []) else None
      | _ \<Rightarrow> None)"

definition PSC_Json_property :: "'f PSC_Json \<Rightarrow> string \<Rightarrow> nat \<Rightarrow> 'f PSC_Json option" where
  "PSC_Json_property self name namelen =
     (case self of
        JObject (Some kvs) \<Rightarrow> map_of kvs (str_arg name namelen)
      | _ \<Rightarrow> None)"

section \<open>The representation of objects\<close>

text \<open>
  The list of the keys and the dictionary of the values.  The keys are in the order in which
  they were added; they and the dictionary are created on first use.  \<open>st\<close> and \<open>rnd\<close>
  are the hash secret and the random bytes for \<open>PSC_Dictionary_create\<close>, whose result is
  not checked.
\<close>

record 'v JsonObject =
  jo_keys :: "string list option"
  jo_values :: "'v PSC_Dictionary option"

definition jsonDeleter :: deleter where
  "jsonDeleter = Fn 0"

definition jo_create :: "'v JsonObject" where
  "jo_create = \<lparr>jo_keys = None, jo_values = None\<rparr>"

definition jo_setProperty :: "xxhash \<Rightarrow> secret_state \<Rightarrow> bytes \<Rightarrow> 'v JsonObject \<Rightarrow> string \<Rightarrow> nat \<Rightarrow> 'v
    \<Rightarrow> ('v JsonObject \<times> (deleter \<times> 'v option) list) option" where
  "jo_setProperty xxh st rnd obj name namelen value = do {
     let key = str_arg name namelen;
     values \<leftarrow> (case jo_values obj of
         None \<Rightarrow> fst (PSC_Dictionary_create st rnd jsonDeleter False)
       | Some d \<Rightarrow> Some d);
     old \<leftarrow> PSC_Dictionary_get xxh values (str_bytes key);
     let keys = (if old = None
                 then Some ((case jo_keys obj of None \<Rightarrow> [] | Some l \<Rightarrow> l) @ [key]) else jo_keys obj);
     (values, calls) \<leftarrow> PSC_Dictionary_set xxh values (str_bytes key) (Some value) NoFn;
     Some (\<lparr>jo_keys = keys, jo_values = Some values\<rparr>, calls) }"

definition jo_property :: "xxhash \<Rightarrow> 'v JsonObject \<Rightarrow> string \<Rightarrow> nat \<Rightarrow> 'v option option" where
  "jo_property xxh obj name namelen =
     (case jo_values obj of
        None \<Rightarrow> Some None
      | Some d \<Rightarrow> PSC_Dictionary_get xxh d (str_bytes (str_arg name namelen)))"

definition jo_length :: "'v JsonObject \<Rightarrow> u64" where
  "jo_length obj = (case jo_values obj of None \<Rightarrow> 0 | Some d \<Rightarrow> PSC_Dictionary_count d)"

definition jo_keyAt :: "'v JsonObject \<Rightarrow> nat \<Rightarrow> string option" where
  "jo_keyAt obj i =
     (case jo_keys obj of None \<Rightarrow> None | Some ks \<Rightarrow> if i < length ks then Some (ks ! i) else None)"

text \<open>The association list an object stands for.\<close>

definition wf_obj :: "xxhash \<Rightarrow> 'v JsonObject \<Rightarrow> (string \<times> 'v) list \<Rightarrow> bool" where
  [wf_defs]: "wf_obj xxh obj kvs \<longleftrightarrow> distinct (map fst kvs) \<and>
     (case jo_values obj of
        None \<Rightarrow> kvs = [] \<and> jo_keys obj = None
      | Some d \<Rightarrow> jo_keys obj = Some (map fst kvs) \<and> wf_dict xxh d \<and> no_null d \<and> d_deleter d = jsonDeleter \<and>
          (\<forall>k. dict_look xxh d (str_bytes k) = map_of kvs k) \<and>
          dom (dict_look xxh d) = str_bytes ` set (map fst kvs))"

lemma str_bytes_inj: "str_bytes s = str_bytes t \<longleftrightarrow> s = t"
proof -
  have "inj (\<lambda>c :: char. of_nat (of_char c) :: u8)"
  proof (rule injI)
    fix c d :: char assume "(of_nat (of_char c) :: u8) = of_nat (of_char d)"
    then have "(of_char c :: nat) mod 256 = of_char d mod 256"
      by (simp add: word_of_nat_eq_iff take_bit_eq_mod)
    moreover have "(of_char c :: nat) < 256" "(of_char d :: nat) < 256" by simp_all
    ultimately have "(of_char c :: nat) = of_char d" by simp
    then show "c = d" by simp
  qed
  then show ?thesis by (auto simp: str_bytes_def inj_map_eq_map)
qed

lemma alist_set_keys:
  "map fst (alist_set k v kvs) = (if k \<in> set (map fst kvs) then map fst kvs else map fst kvs @ [k])"
  by (induction k v kvs rule: alist_set.induct) auto

lemma alist_set_map_of: "map_of (alist_set k v kvs) = (map_of kvs)(k \<mapsto> v)"
  by (induction k v kvs rule: alist_set.induct) auto

lemma no_null_set:
  assumes "wf_dict xxh d" "no_null d" "wf_dict xxh d'"
    "set_effect (d_deleter d) key (Some v) (dict_entries d) (dict_entries d') calls"
  shows "no_null d'"
  using set_effect_no_null [OF assms(4) wf_dict_distinct [OF assms(3)]] assms(2) by (simp add: no_null_def)

lemma jo_set_ok:
  fixes obj :: "'v JsonObject"
  assumes wf: "wf_obj xxh obj kvs" and st: "st \<noteq> None \<or> length rnd = SECRETSIZE"
  shows "\<exists>obj' calls. jo_setProperty xxh st rnd obj name namelen v = Some (obj', calls) \<and>
    wf_obj xxh obj' (alist_set (str_arg name namelen) v kvs) \<and>
    map snd calls = (case map_of kvs (str_arg name namelen) of None \<Rightarrow> [] | Some old \<Rightarrow> [Some old])"
proof -
  let ?k = "str_arg name namelen"
  obtain d0 :: "'v PSC_Dictionary" and st' where c: "PSC_Dictionary_create st rnd jsonDeleter False = (Some d0, st')"
    using st by (cases st) (auto simp: PSC_Dictionary_create_def PSC_Hash_create_def getSecret_def)
  have d0: "wf_dict xxh d0" "no_null d0" "d_deleter d0 = jsonDeleter" "dict_look xxh d0 = Map.empty"
    using wf_dict_create [OF c, of xxh] c
    by (auto simp: no_null_def PSC_Dictionary_create_def split: prod.splits option.splits)
  define d where "d = (case jo_values obj of None \<Rightarrow> d0 | Some d \<Rightarrow> d)"
  have d: "wf_dict xxh d" "no_null d" "d_deleter d = jsonDeleter"
    "\<And>k. dict_look xxh d (str_bytes k) = map_of kvs k" "dom (dict_look xxh d) = str_bytes ` set (map fst kvs)"
    using wf d0 by (auto simp: d_def wf_obj_def split: option.splits)
  have keys: "(case jo_keys obj of None \<Rightarrow> [] | Some l \<Rightarrow> l) = map fst kvs"
    and keys': "kvs \<noteq> [] \<Longrightarrow> jo_keys obj = Some (map fst kvs)"
    using wf by (auto simp: wf_obj_def split: option.splits)
  obtain d' calls where d': "PSC_Dictionary_set xxh d (str_bytes ?k) (Some v) NoFn = Some (d', calls)"
      "wf_dict xxh d'" "d_deleter d' = jsonDeleter"
    and eff: "set_effect jsonDeleter (str_bytes ?k) (Some v) (dict_entries d) (dict_entries d') calls"
    using dictionary_set_ok [OF d(1), of "str_bytes ?k" "Some v" NoFn] d(3) by auto
  have look': "dict_look xxh d' = (dict_look xxh d)(str_bytes ?k \<mapsto> v)"
    using set_effect_look [OF eff] by (auto simp: dict_look_def)
  let ?keys = "if map_of kvs ?k = None then Some (map fst kvs @ [?k]) else jo_keys obj"
  have run: "jo_setProperty xxh st rnd obj name namelen v = Some (\<lparr>jo_keys = ?keys, jo_values = Some d'\<rparr>, calls)"
    using c d'(1) dictionary_get_ok [OF d(1), of "str_bytes ?k"] d(4)
    unfolding jo_setProperty_def Let_def keys d_def by (cases "jo_values obj") simp_all
  have "?keys = Some (map fst (alist_set ?k v kvs))"
    using keys' by (cases "kvs = []") (auto simp: alist_set_keys map_of_eq_None_iff)
  moreover have "distinct (map fst (alist_set ?k v kvs))"
    using wf by (simp add: wf_obj_def alist_set_keys)
  moreover have "no_null d'" using no_null_set [OF d(1,2) d'(2)] eff d(3) by simp
  moreover have "dom (dict_look xxh d') = str_bytes ` set (map fst (alist_set ?k v kvs))"
    using d(5) by (auto simp: look' alist_set_keys)
  ultimately have "wf_obj xxh \<lparr>jo_keys = ?keys, jo_values = Some d'\<rparr> (alist_set ?k v kvs)"
    using d'(2,3) d(4) by (simp add: wf_obj_def look' alist_set_map_of str_bytes_inj)
  moreover have "map snd calls = (case map_of kvs ?k of None \<Rightarrow> [] | Some old \<Rightarrow> [Some old])"
  proof -
    have e: "Option.bind (entry_of (dict_entries d) (str_bytes ?k)) e_obj = map_of kvs ?k"
      using d(4) [of ?k] by (simp add: dict_look_def list_get_entry)
    have c: "calls = (case entry_of (dict_entries d) (str_bytes ?k) of None \<Rightarrow> [] | Some e \<Rightarrow> destroy_obj jsonDeleter e)"
      using eff by (simp add: set_effect_def)
    show ?thesis
    proof (cases "entry_of (dict_entries d) (str_bytes ?k)")
      case None
      with e c show ?thesis by simp
    next
      case (Some x)
      then have "e_obj x \<noteq> None" using d(2) entry_of_Some [OF Some] by (simp add: no_null_def)
      with Some e c show ?thesis by (auto simp: destroy_obj_def jsonDeleter_def)
    qed
  qed
  ultimately show ?thesis using run by blast
qed

lemma jo_obs_ok:
  assumes wf: "wf_obj xxh obj kvs"
  shows "jo_property xxh obj name namelen = Some (map_of kvs (str_arg name namelen))"
    and "jo_length obj = of_nat (length kvs)"
    and "jo_keyAt obj i = (if i < length kvs then Some (fst (kvs ! i)) else None)"
proof -
  show "jo_property xxh obj name namelen = Some (map_of kvs (str_arg name namelen))"
    using wf by (auto simp: jo_property_def wf_obj_def dictionary_get_ok split: option.splits)
  show "jo_keyAt obj i = (if i < length kvs then Some (fst (kvs ! i)) else None)"
    using wf by (auto simp: jo_keyAt_def wf_obj_def split: option.splits)
  have "card (str_bytes ` set (map fst kvs)) = length kvs"
    using wf by (simp add: wf_obj_def card_image inj_on_def str_bytes_inj distinct_card [of "map fst kvs", simplified])
  then have "d_count d = of_nat (length kvs)" if "jo_values obj = Some d" for d
    using wf that count_dom [of xxh d] by (simp add: wf_obj_def)
  then show "jo_length obj = of_nat (length kvs)"
    using wf by (auto simp: jo_length_def wf_obj_def PSC_Dictionary_count_def split: option.splits)
qed

section \<open>Serializing\<close>

record PSC_JsonSerializer =
  js_wrbuf :: "char buf"
  js_bufsz :: nat
  js_bufpos :: nat
  js_bufowned :: bool

text \<open>\<open>appendChr\<close>: \<^const>\<open>None\<close> is a write outside the buffer, the flag is the success.\<close>

definition appendChr :: "char buf \<Rightarrow> nat \<Rightarrow> nat \<Rightarrow> bool \<Rightarrow> char \<Rightarrow> (char buf \<times> nat \<times> nat \<times> bool) option" where
  "appendChr buf bufpos bufsz canresize c =
     (if \<not> canresize \<and> bufsz \<le> bufpos + 1 then Some (buf, bufpos, bufsz, False)
      else (let (buf, bufsz) = (if bufpos = bufsz then (buf_realloc buf (bufsz + 1024), bufsz + 1024) else (buf, bufsz))
            in do { buf \<leftarrow> buf_write buf bufpos c; Some (buf, bufpos + 1, bufsz, True) }))"

definition serappend :: "PSC_JsonSerializer \<Rightarrow> char \<Rightarrow> (PSC_JsonSerializer \<times> bool) option" where
  "serappend self c = do {
     (buf, bufpos, bufsz, ok) \<leftarrow> appendChr (js_wrbuf self) (js_bufpos self) (js_bufsz self) (js_bufowned self) c;
     Some (self\<lparr>js_wrbuf := buf, js_bufpos := bufpos, js_bufsz := bufsz\<rparr>, ok) }"

text \<open>Several characters; the first failure ends it.\<close>

fun serappends :: "PSC_JsonSerializer \<Rightarrow> string \<Rightarrow> (PSC_JsonSerializer \<times> bool) option" where
  "serappends self [] = Some (self, True)"
| "serappends self (c # cs) = do {
     (self, ok) \<leftarrow> serappend self c;
     if ok then serappends self cs else Some (self, False) }"

text \<open>Go on after a success.\<close>

definition andthen :: "(PSC_JsonSerializer \<times> bool) option \<Rightarrow> (PSC_JsonSerializer \<Rightarrow> (PSC_JsonSerializer \<times> bool) option)
    \<Rightarrow> (PSC_JsonSerializer \<times> bool) option" where
  "andthen m f = do { (self, ok) \<leftarrow> m; if ok then f self else Some (self, False) }"

definition hex :: string where
  "hex = ''0123456789abcdefABCDEF''"

text \<open>What the loop of \<open>serializePlainString\<close> appends for one character.\<close>

definition escape :: "char \<Rightarrow> string" where
  "escape c =
     (if c = CHR 0x22 \<or> c = CHR 0x5c then [CHR 0x5c, c]
      else if c = CHR 0x08 then [CHR 0x5c, CHR ''b'']
      else if c = CHR 0x0c then [CHR 0x5c, CHR ''f'']
      else if c = CHR 0x0a then [CHR 0x5c, CHR ''n'']
      else if c = CHR 0x0d then [CHR 0x5c, CHR ''r'']
      else if c = CHR 0x09 then [CHR 0x5c, CHR ''t'']
      else if (of_char c :: nat) < 0x20
      then [CHR 0x5c, CHR ''u'', CHR ''0'', CHR ''0'', hex ! (of_char c div 16), hex ! (of_char c mod 16)]
      else [c])"

fun plain_loop :: "PSC_JsonSerializer \<Rightarrow> string \<Rightarrow> (PSC_JsonSerializer \<times> bool) option" where
  "plain_loop self [] = Some (self, True)"
| "plain_loop self (c # p) = andthen (serappends self (escape c)) (\<lambda>self. plain_loop self p)"

definition serializePlainString :: "PSC_JsonSerializer \<Rightarrow> string \<Rightarrow> (PSC_JsonSerializer \<times> bool) option" where
  "serializePlainString self p =
     andthen (serappend self (CHR 0x22)) (\<lambda>self.
     andthen (plain_loop self p) (\<lambda>self. serappend self (CHR 0x22)))"

text \<open>
  The recursion over the value.  \<open>PSC_List_size\<close> and \<open>PSC_Dictionary_count\<close> of a null
  pointer are undefined.
\<close>

fun serialize :: "'f float_ops \<Rightarrow> PSC_JsonSerializer \<Rightarrow> 'f PSC_Json \<Rightarrow> (PSC_JsonSerializer \<times> bool) option"
  and serializeArray :: "'f float_ops \<Rightarrow> PSC_JsonSerializer \<Rightarrow> bool \<Rightarrow> 'f PSC_Json list \<Rightarrow> (PSC_JsonSerializer \<times> bool) option"
  and serializeObject :: "'f float_ops \<Rightarrow> PSC_JsonSerializer \<Rightarrow> bool \<Rightarrow> (string \<times> 'f PSC_Json) list \<Rightarrow> (PSC_JsonSerializer \<times> bool) option" where
  "serialize F self JNull = serappends self litNull"
| "serialize F self JFalse = serappends self litFalse"
| "serialize F self JTrue = serappends self litTrue"
| "serialize F self (JInteger i) = serappends self (PSC_Json_string F (JInteger i))"
| "serialize F self (JFloat x) = serappends self (PSC_Json_string F (JFloat x))"
| "serialize F self (JString s _) = serializePlainString self s"
| "serialize F self (JArray None) = andthen (serappend self (CHR ''['')) (\<lambda>self. None)"
| "serialize F self (JArray (Some vs)) =
     andthen (serappend self (CHR ''['')) (\<lambda>self. serializeArray F self True vs)"
| "serialize F self (JObject None) = andthen (serappend self (CHR ''{'')) (\<lambda>self. None)"
| "serialize F self (JObject (Some kvs)) =
     andthen (serappend self (CHR ''{'')) (\<lambda>self. serializeObject F self True kvs)"
| "serializeArray F self first [] = serappend self (CHR '']'')"
| "serializeArray F self first (v # vs) =
     andthen (if first then Some (self, True) else serappend self (CHR '','')) (\<lambda>self.
     andthen (serialize F self v) (\<lambda>self. serializeArray F self False vs))"
| "serializeObject F self first [] = serappend self (CHR ''}'')"
| "serializeObject F self first ((k, v) # kvs) =
     andthen (if first then Some (self, True) else serappend self (CHR '','')) (\<lambda>self.
     andthen (serializePlainString self k) (\<lambda>self.
     andthen (serappend self (CHR '':'')) (\<lambda>self.
     andthen (serialize F self v) (\<lambda>self. serializeObject F self False kvs))))"

text \<open>The buffer and the returned size.\<close>

definition PSC_JsonSerializer_serializeTo :: "'f float_ops \<Rightarrow> char buf \<Rightarrow> nat \<Rightarrow> 'f PSC_Json \<Rightarrow> (char buf \<times> nat) option" where
  "PSC_JsonSerializer_serializeTo F buf bufsz value = do {
     (self, ok) \<leftarrow> serialize F \<lparr>js_wrbuf = buf, js_bufsz = bufsz, js_bufpos = 0, js_bufowned = False\<rparr> value;
     (buf, pos) \<leftarrow> (if js_bufpos self < js_bufsz self
        then do { b \<leftarrow> buf_write (js_wrbuf self) (js_bufpos self) NUL; Some (b, js_bufpos self + 1) }
        else Some (js_wrbuf self, js_bufpos self));
     Some (buf, pos + (if ok then 0 else 1)) }"

definition PSC_JsonSerializer_serialize :: "'f float_ops \<Rightarrow> 'f PSC_Json \<Rightarrow> char buf option" where
  "PSC_JsonSerializer_serialize F value = do {
     (self, ok) \<leftarrow> serialize F \<lparr>js_wrbuf = [], js_bufsz = 0, js_bufpos = 0, js_bufowned = True\<rparr> value;
     (buf, bufpos, bufsz, ok) \<leftarrow> appendChr (js_wrbuf self) (js_bufpos self) (js_bufsz self) True NUL;
     Some buf }"

section \<open>The text of a value\<close>

text \<open>Whether a value has a text: there are no empty arrays and objects in it.\<close>

fun has_text :: "'f PSC_Json \<Rightarrow> bool" where
  "has_text (JArray None) = False"
| "has_text (JArray (Some vs)) = list_all has_text vs"
| "has_text (JObject None) = False"
| "has_text (JObject (Some kvs)) = list_all (\<lambda>kv. has_text (snd kv)) kvs"
| "has_text _ = True"

definition jstring :: "string \<Rightarrow> string" where
  "jstring s = CHR 0x22 # concat (map escape s) @ [CHR 0x22]"

text \<open>Texts with a comma between each two.\<close>

fun commas :: "string list \<Rightarrow> string" where
  "commas [] = []"
| "commas [t] = t"
| "commas (t # ts) = t @ CHR '','' # commas ts"

fun jtext :: "'f float_ops \<Rightarrow> 'f PSC_Json \<Rightarrow> string" where
  "jtext F JNull = litNull"
| "jtext F JFalse = litFalse"
| "jtext F JTrue = litTrue"
| "jtext F (JInteger i) = show_int64 i"
| "jtext F (JFloat x) = fmt_g15 F x"
| "jtext F (JString s _) = jstring s"
| "jtext F (JArray vs) = CHR ''['' # commas (map (jtext F) (case vs of None \<Rightarrow> [] | Some l \<Rightarrow> l)) @ '']''"
| "jtext F (JObject kvs) =
     CHR ''{'' # commas (map (\<lambda>kv. jstring (fst kv) @ CHR '':'' # jtext F (snd kv)) (case kvs of None \<Rightarrow> [] | Some l \<Rightarrow> l)) @ ''}''"

lemma andthen_serappends:
  "andthen (serappends self xs) (\<lambda>s. serappends s ys) = serappends self (xs @ ys)"
proof (induction xs arbitrary: self)
  case Nil
  then show ?case by (simp add: andthen_def)
next
  case (Cons x xs)
  then show ?case
    by (cases "serappend self x") (auto simp: andthen_def)
qed

lemma serappend_eq: "serappend self c = serappends self [c]"
  by (cases "serappend self c") (auto split: if_splits)

lemma andthen_cong: "(\<And>s. f s = g s) \<Longrightarrow> andthen m f = andthen m g"
  by presburger

lemma plain_loop_eq: "plain_loop self p = serappends self (concat (map escape p))"
  by (induction p arbitrary: self) (simp_all add: andthen_serappends)

lemma serializePlainString_eq: "serializePlainString self p = serappends self (jstring p)"
  unfolding serializePlainString_def plain_loop_eq serappend_eq andthen_serappends by (simp add: jstring_def)

lemma andthen_Some: "andthen (Some (self, True)) f = f self"
  by (simp add: andthen_def)

lemma commas_Cons: "commas (t # ts) = t @ (if ts = [] then [] else CHR '','' # commas ts)"
  by (cases ts) simp_all

lemmas ser_text = serappend_eq serializePlainString_eq andthen_serappends andthen_Some

lemma serialize_text:
  fixes v :: "'f PSC_Json" and vs :: "'f PSC_Json list" and kvs :: "(string \<times> 'f PSC_Json) list"
  shows "has_text v \<Longrightarrow> serialize F self v = serappends self (jtext F v)"
    and "list_all has_text vs \<Longrightarrow> serializeArray F self first vs =
      serappends self ((if first \<or> vs = [] then [] else '','') @ commas (map (jtext F) vs) @ '']'')"
    and "list_all (\<lambda>kv. has_text (snd kv)) kvs \<Longrightarrow> serializeObject F self first kvs =
      serappends self ((if first \<or> kvs = [] then [] else '','') @
        commas (map (\<lambda>kv. jstring (fst kv) @ CHR '':'' # jtext F (snd kv)) kvs) @ ''}'')"
proof (induction F self v and F self first vs and F self first kvs rule: serialize_serializeArray_serializeObject.induct)
  case (12 F self first v vs)
  then show ?case by (cases first) (simp_all add: ser_text commas_Cons del: serappends.simps)
next
  case (14 F self first k v kvs)
  then show ?case by (cases first) (simp_all add: ser_text commas_Cons del: serappends.simps)
qed (simp_all add: ser_text PSC_Json_string_def numToString_def del: serappends.simps)

lemma serialize_empty:
  fixes v :: "'f PSC_Json"
  assumes "js_bufowned self" "length (js_wrbuf self) = js_bufsz self" "js_bufpos self \<le> js_bufsz self"
  shows "serialize F self (JArray None :: 'f PSC_Json) = None" "serialize F self (JObject None :: 'f PSC_Json) = None"
  using assms by (auto simp: andthen_def serappend_def appendChr_def buf_write_def)

section \<open>Filling the buffer\<close>

text \<open>The buffer holds the text \<open>t\<close> written so far.\<close>

definition wf_ser :: "PSC_JsonSerializer \<Rightarrow> string \<Rightarrow> bool" where
  [wf_defs]: "wf_ser self t \<longleftrightarrow> length (js_wrbuf self) = js_bufsz self \<and> js_bufpos self = length t \<and>
     js_bufpos self \<le> js_bufsz self \<and> take (length t) (js_wrbuf self) = map Some t"

lemma take_update_append:
  "n < length b \<Longrightarrow> take n b = map Some t \<Longrightarrow> length t = n \<Longrightarrow> take (Suc n) (b[n := Some c]) = map Some (t @ [c])"
  by (simp add: take_Suc_conv_app_nth)

lemma serappend_owned:
  assumes "wf_ser self t" "js_bufowned self"
  shows "\<exists>self'. serappend self c = Some (self', True) \<and> wf_ser self' (t @ [c]) \<and> js_bufowned self'"
proof (cases "js_bufpos self = js_bufsz self")
  case True
  let ?b = "buf_realloc (js_wrbuf self) (js_bufsz self + 1024)"
  have "take (length t) ?b = map Some t"
    using assms True by (auto simp: wf_ser_def buf_realloc_take)
  then have "take (Suc (length t)) (?b[length t := Some c]) = map Some (t @ [c])"
    using assms True by (intro take_update_append) (simp_all add: wf_ser_def)
  then show ?thesis
    using assms True by (simp add: serappend_def appendChr_def buf_write_def wf_ser_def)
next
  case False
  then have "take (Suc (length t)) ((js_wrbuf self)[length t := Some c]) = map Some (t @ [c])"
    using assms by (intro take_update_append) (simp_all add: wf_ser_def)
  then show ?thesis
    using assms False by (simp add: serappend_def appendChr_def buf_write_def wf_ser_def)
qed

lemma serappends_owned:
  "wf_ser self t \<Longrightarrow> js_bufowned self \<Longrightarrow>
   \<exists>self'. serappends self cs = Some (self', True) \<and> wf_ser self' (t @ cs) \<and> js_bufowned self'"
proof (induction cs arbitrary: self t)
  case Nil
  then show ?case by auto
next
  case (Cons c cs)
  obtain s1 where "serappend self c = Some (s1, True)" "wf_ser s1 (t @ [c])" "js_bufowned s1"
    using serappend_owned [OF Cons.prems] by blast
  with Cons.IH [of s1 "t @ [c]"] show ?case by auto
qed

text \<open>A buffer of the caller is filled up to the place of the terminator.\<close>

lemma serappends_fixed:
  "wf_ser self t \<Longrightarrow> \<not> js_bufowned self \<Longrightarrow> length t < js_bufsz self \<Longrightarrow>
   \<exists>self'. serappends self cs = Some (self', length t + length cs < js_bufsz self) \<and>
     wf_ser self' (t @ take (js_bufsz self - 1 - length t) cs) \<and> js_bufsz self' = js_bufsz self"
proof (induction cs arbitrary: self t)
  case Nil
  then show ?case by auto
next
  case (Cons c cs)
  show ?case
  proof (cases "js_bufsz self \<le> length t + 1")
    case True
    with Cons.prems show ?thesis by (auto simp: serappend_def appendChr_def wf_ser_def)
  next
    case False
    let ?s = "self\<lparr>js_wrbuf := (js_wrbuf self)[length t := Some c], js_bufpos := length t + 1\<rparr>"
    have run: "serappend self c = Some (?s, True)"
      using Cons.prems False by (simp add: serappend_def appendChr_def buf_write_def wf_ser_def)
    have "take (Suc (length t)) ((js_wrbuf self)[length t := Some c]) = map Some (t @ [c])"
      using Cons.prems False by (intro take_update_append) (simp_all add: wf_ser_def)
    then have "wf_ser ?s (t @ [c])" using Cons.prems by (simp add: wf_ser_def)
    from Cons.IH [OF this] Cons.prems False
    obtain s' where s': "serappends ?s cs = Some (s', Suc (length t) + length cs < js_bufsz self)"
      "wf_ser s' ((t @ [c]) @ take (js_bufsz self - 1 - Suc (length t)) cs)" "js_bufsz s' = js_bufsz self" by auto
    have "take (js_bufsz self - 1 - length t) (c # cs) = c # take (js_bufsz self - 1 - Suc (length t)) cs"
      using False by (simp add: take_Cons')
    with s' run show ?thesis by simp
  qed
qed

lemma serialize_cells:
  assumes "has_text v"
  shows "\<exists>buf. PSC_JsonSerializer_serialize F v = Some buf \<and> length (jtext F v) < length buf \<and>
    take (length (jtext F v) + 1) buf = map Some (jtext F v @ [NUL])"
proof -
  let ?s = "\<lparr>js_wrbuf = [], js_bufsz = 0, js_bufpos = 0, js_bufowned = True\<rparr>"
  have "wf_ser ?s []" by (simp add: wf_ser_def)
  from serappends_owned [OF this, of "jtext F v"]
  obtain s1 where s1: "serialize F ?s v = Some (s1, True)" "wf_ser s1 (jtext F v)" "js_bufowned s1"
    by (auto simp: serialize_text(1) [OF assms])
  obtain s2 where "serappend s1 NUL = Some (s2, True)" "wf_ser s2 (jtext F v @ [NUL])"
    using serappend_owned [OF s1(2,3)] by blast
  with s1(1,3) show ?thesis
    by (auto simp: PSC_JsonSerializer_serialize_def serappend_def wf_ser_def bind_eq_Some_conv)
qed

section \<open>Properties\<close>

fun jo_run :: "xxhash \<Rightarrow> secret_state \<Rightarrow> bytes \<Rightarrow> 'v JsonObject \<Rightarrow> (string \<times> nat \<times> 'v) list
    \<Rightarrow> ('v JsonObject \<times> (deleter \<times> 'v option) list) option" where
  "jo_run xxh st rnd obj [] = Some (obj, [])"
| "jo_run xxh st rnd obj ((name, namelen, v) # sets) = do {
     (obj, calls) \<leftarrow> jo_setProperty xxh st rnd obj name namelen v;
     (obj, calls') \<leftarrow> jo_run xxh st rnd obj sets;
     Some (obj, calls @ calls') }"

lemma jo_run_ok:
  "wf_obj xxh obj kvs \<Longrightarrow> st \<noteq> None \<or> length rnd = SECRETSIZE \<Longrightarrow>
   \<exists>obj' calls. jo_run xxh st rnd obj sets = Some (obj', calls) \<and>
     wf_obj xxh obj' (fold (\<lambda>(name, namelen, v). alist_set (str_arg name namelen) v) sets kvs)"
proof (induction sets arbitrary: obj kvs)
  case Nil
  then show ?case by auto
next
  case (Cons s sets)
  obtain name namelen v where s: "s = (name, namelen, v)" by (cases s)
  obtain obj1 calls where "jo_setProperty xxh st rnd obj name namelen v = Some (obj1, calls)"
      "wf_obj xxh obj1 (alist_set (str_arg name namelen) v kvs)"
    using jo_set_ok [OF Cons.prems] by blast
  with Cons.IH [of obj1] Cons.prems(2) show ?case by (fastforce simp: s)
qed

text \<open>
  C35: A JSON object, a list of keys beside a dictionary, is an association list in the order
  in which the keys were first set: after any sequence of \<open>PSC_Json_setProperty\<close> the
  property, the length and the key at an index are those of that list, for every hash
  function.\<close>

theorem json_object_refines_alist:
  fixes sets :: "(string \<times> nat \<times> 'v) list"
  assumes "st \<noteq> None \<or> length rnd = SECRETSIZE"
    and "kvs = fold (\<lambda>(name, namelen, v). alist_set (str_arg name namelen) v) sets []"
  shows "\<exists>obj calls. jo_run xxh st rnd jo_create sets = Some (obj, calls) \<and>
    jo_length obj = of_nat (length kvs) \<and>
    (\<forall>name namelen. jo_property xxh obj name namelen = Some (map_of kvs (str_arg name namelen))) \<and>
    (\<forall>i. jo_keyAt obj i = (if i < length kvs then Some (fst (kvs ! i)) else None))"
proof -
  have "wf_obj xxh (jo_create :: 'v JsonObject) []" by (simp add: wf_obj_def jo_create_def)
  from jo_run_ok [OF this assms(1), of sets] assms(2)
  obtain obj calls where "jo_run xxh st rnd jo_create sets = Some (obj, calls)" "wf_obj xxh obj kvs"
    by auto
  with jo_obs_ok [of xxh obj kvs] show ?thesis by blast
qed

theorem json_object_refines_alist_witness:
  "\<exists>obj calls. jo_run xxh_zero None (replicate 192 0) jo_create
      [(''b'', 0, 1), (''a'', 1, 2), (''b'', 1, 3 :: nat)] = Some (obj, calls) \<and>
    jo_length obj = 2 \<and> jo_keyAt obj 0 = Some ''b'' \<and> jo_property xxh_zero obj ''b'' 0 = Some (Some 3)"
proof -
  let ?sets = "[(''b'', 0, 1), (''a'', 1, 2), (''b'', 1, 3 :: nat)]"
  have "None \<noteq> (None :: secret_state) \<or> length (replicate 192 0 :: bytes) = SECRETSIZE" by (simp add: SECRETSIZE_def)
  from json_object_refines_alist [OF this refl, of xxh_zero ?sets]
  obtain obj calls where "jo_run xxh_zero None (replicate 192 0) jo_create ?sets = Some (obj, calls)"
      "jo_length obj = 2" "\<And>i. jo_keyAt obj i = (if i < 2 then Some (fst ([(''b'', 3), (''a'', 2 :: nat)] ! i)) else None)"
      "\<And>n l. jo_property xxh_zero obj n l = Some (map_of [(''b'', 3), (''a'', 2)] (str_arg n l))"
    by (auto simp: str_arg_def NUL_def)
  then show ?thesis by (auto simp: str_arg_def NUL_def intro!: exI [of _ obj])
qed

text \<open>
  The serializer writes the text of the value and a terminator, and grows its buffer as
  needed: no character is lost and nothing is written outside.\<close>

theorem json_serialize_text:
  assumes "has_text v"
  shows "\<exists>buf. PSC_JsonSerializer_serialize F v = Some buf \<and>
    take (length (jtext F v) + 1) buf = map Some (jtext F v @ [NUL])"
  using serialize_cells [OF assms, of F] by blast

text \<open>
  Into a buffer of the caller, the serializer never writes outside of it, always leaves
  a terminated string unless the size is 0, and the returned size tells a complete text
  (its length with the terminator) from a truncated one (the size of the buffer plus one).\<close>

theorem json_serializeTo_bounds:
  assumes "has_text v" "length buf = bufsz" "n = length (jtext F v)" "0 < n"
  shows "\<exists>buf'. PSC_JsonSerializer_serializeTo F buf bufsz v = Some (buf', if n < bufsz then n + 1 else bufsz + 1) \<and>
    length buf' = bufsz \<and>
    (0 < bufsz \<longrightarrow> take (min n (bufsz - 1) + 1) buf' = map Some (take (bufsz - 1) (jtext F v) @ [NUL]))"
proof (cases "bufsz = 0")
  case True
  have "serialize F \<lparr>js_wrbuf = [], js_bufsz = 0, js_bufpos = 0, js_bufowned = False\<rparr> v =
      Some (\<lparr>js_wrbuf = [], js_bufsz = 0, js_bufpos = 0, js_bufowned = False\<rparr>, jtext F v = [])"
    by (cases "jtext F v") (simp_all add: serialize_text(1) [OF assms(1)] serappend_def appendChr_def)
  moreover have "jtext F v \<noteq> []" using assms(3,4) by auto
  ultimately show ?thesis using assms True by (simp add: PSC_JsonSerializer_serializeTo_def)
next
  case False
  let ?s = "\<lparr>js_wrbuf = buf, js_bufsz = bufsz, js_bufpos = 0, js_bufowned = False\<rparr>"
  let ?t = "take (bufsz - 1) (jtext F v)"
  have "wf_ser ?s []" using assms(2) by (simp add: wf_ser_def)
  from serappends_fixed [OF this, of "jtext F v"] False
  obtain s1 where s1: "serialize F ?s v = Some (s1, n < bufsz)" "wf_ser s1 ?t" "js_bufsz s1 = bufsz"
    by (auto simp: serialize_text(1) [OF assms(1)] assms(3))
  have len: "length ?t = min n (bufsz - 1)" using assms(3) by simp
  have lt: "js_bufpos s1 < bufsz" "js_bufpos s1 = min n (bufsz - 1)"
    using s1(2) len False by (auto simp: wf_ser_def)
  let ?b = "(js_wrbuf s1)[js_bufpos s1 := Some NUL]"
  have "take (Suc (length ?t)) ?b = map Some (?t @ [NUL])"
    using s1(2,3) lt by (simp only: wf_ser_def) (intro take_update_append; simp)
  then have taken: "take (min n (bufsz - 1) + 1) ?b = map Some (?t @ [NUL])"
    unfolding len by simp
  have size: "length (js_wrbuf s1) = bufsz" using s1(2,3) by (simp add: wf_ser_def)
  have "PSC_JsonSerializer_serializeTo F buf bufsz v = Some (?b, js_bufpos s1 + 1 + (if n < bufsz then 0 else 1))"
    using s1(1,3) lt(1) size by (simp add: PSC_JsonSerializer_serializeTo_def buf_write_def)
  also have "js_bufpos s1 + 1 + (if n < bufsz then 0 else 1) = (if n < bufsz then n + 1 else bufsz + 1)"
    using lt(2) False by auto
  finally show ?thesis using taken size by (intro exI [of _ ?b]) simp
qed

text \<open>Examples without numbers of type \<open>double\<close>.\<close>

definition no_floats :: "unit float_ops" where
  "no_floats = \<lparr>strtod = (\<lambda>_. ((), 0)), fmt_g15 = (\<lambda>_. ''0''), f_trunc = (\<lambda>_. None),
     f_of_int = (\<lambda>_. ()), f_is_zero = (\<lambda>_. True)\<rparr>"

theorem json_serialize_text_witness:
  "\<exists>buf. PSC_JsonSerializer_serialize no_floats (JArray (Some [JTrue, JString ''a'' []])) = Some buf \<and>
     take 11 buf = map Some (''[true,'' @ [CHR 0x22, CHR ''a'', CHR 0x22] @ '']'' @ [NUL])"
  using json_serialize_text [of "JArray (Some [JTrue, JString ''a'' []])" no_floats]
  by (simp add: jstring_def escape_def litTrue_def numeral_eq_Suc)

theorem json_serializeTo_bounds_witness:
  "\<exists>buf'. PSC_JsonSerializer_serializeTo no_floats (buf_alloc 4) 4 JFalse = Some (buf', 5) \<and> length buf' = 4 \<and>
     take 4 buf' = map Some (''fal'' @ [NUL])"
  using json_serializeTo_bounds [of JFalse "buf_alloc 4" 4 5 no_floats] by (simp add: litFalse_def)

text \<open>
  An array or an object without items has no list or dictionary, and serializing it
  reads through a null pointer.\<close>

theorem json_serialize_empty_undefined:
  "PSC_JsonSerializer_serialize F (PSC_Json_createArray :: 'f PSC_Json) = None \<and>
   PSC_JsonSerializer_serialize F (PSC_Json_createObject :: 'f PSC_Json) = None"
  using serialize_empty [of "\<lparr>js_wrbuf = [], js_bufsz = 0, js_bufpos = 0, js_bufowned = True\<rparr>" F]
  by (simp add: PSC_JsonSerializer_serialize_def PSC_Json_createArray_def PSC_Json_createObject_def)

end
