(* ===== verification/Poser_JsonParse.thy ===== *)
theory Poser_JsonParse
  imports Poser_Json
begin

text \<open>
  The reading half of \<open>PSC_JsonSerializer\<close> (\<open>src/lib/core/json.c\<close>).  The cursor
  \<open>rdbuf + bufpos\<close> is the rest of the input; a read at its end gives the terminator.
  Parsed strings are collected with \<open>appendChr\<close>, whose buffer grows as needed (shown for
  the writing half); here they are lists.

  The functions return an error code and store their result through a pointer.  A result
  is \<open>Fail\<close> for a negative code, otherwise the value that was stored (\<^const>\<open>None\<close> when
  nothing was) and the rest of the input.  \<open>Undef\<close> stands for undefined behaviour.  The
  recursion has fuel; running out of it is \<^const>\<open>None\<close>, and enough fuel is given by the
  length of the input (shown below).
\<close>

section \<open>Strings\<close>

definition skipWs :: "string \<Rightarrow> string" where
  "skipWs s = dropWhile (\<lambda>c. c = CHR '' '' \<or> c = CHR 0x09 \<or> c = CHR 0x0d \<or> c = CHR 0x0a) s"

text \<open>The loops over four hexadecimal digits.\<close>

fun read_hex :: "nat \<Rightarrow> u16 \<Rightarrow> string \<Rightarrow> (u16 \<times> string) option" where
  "read_hex 0 bmpchr s = Some (bmpchr, s)"
| "read_hex (Suc n) bmpchr s =
     (if peek s = NUL then None
      else (case strchr hex (peek s) of
          None \<Rightarrow> None
        | Some pos \<Rightarrow> (let nibble = (if 15 < pos then pos - 6 else pos)
            in read_hex n (push_bit 4 bmpchr OR of_nat nibble) (tl s))))"

definition byte_char :: "u8 \<Rightarrow> char" where
  "byte_char b = char_of (unat b)"

text \<open>The bytes for a code point; the labels \<open>follow1\<close> and \<open>follow2\<close> share the tail.\<close>

definition utf8_chars :: "u32 \<Rightarrow> u8 list" where
  "utf8_chars unichr =
     (if unichr < 0x80 then [ucast unichr]
      else (let b0 = ucast (unichr AND 0xff) :: u8;
                b1 = ucast (drop_bit 8 unichr AND 0xff) :: u8;
                b2 = ucast (drop_bit 16 unichr AND 0xff) :: u8;
                follow2 = [0x80 OR (b0 AND 0x3f)];
                follow1 = (0x80 OR (push_bit 2 b1 AND 0x3f) OR drop_bit 6 b0) # follow2
            in if unichr < 0x800 then (0xc0 OR push_bit 2 b1 OR drop_bit 6 b0) # follow2
               else if unichr < 0x10000 then (0xe0 OR drop_bit 4 b1) # follow1
               else (0xf0 OR drop_bit 2 b2) # (0x80 OR (push_bit 4 b2 AND 0x3f) OR drop_bit 4 b1) # follow1))"

definition parse_unicode :: "string \<Rightarrow> (string \<times> string) option" where
  "parse_unicode s = do {
     (bmpchr, s) \<leftarrow> read_hex 4 0 s;
     let unichr = (ucast bmpchr :: u32);
     (unichr, s) \<leftarrow> (if peek s = CHR 0x5c \<and> peek (tl s) = CHR ''u'' \<and> unichr AND 0xfc00 = 0xd800
       then do {
         (bmpchr, s) \<leftarrow> read_hex 4 0 (drop 2 s);
         if bmpchr AND 0xfc00 \<noteq> 0xdc00 then None
         else Some ((push_bit 10 (unichr AND 0x3ff) OR (ucast bmpchr AND 0x3ff)) + 0x10000, s) }
       else Some (unichr, s));
     Some (map byte_char (utf8_chars unichr), s) }"

text \<open>An escape sequence, behind its backslash: the characters it stands for and the rest.\<close>

definition parse_escape :: "string \<Rightarrow> (string \<times> string) option" where
  "parse_escape s =
     (let c = peek s
      in if c = CHR 0x22 \<or> c = CHR 0x5c \<or> c = CHR ''/'' then Some ([c], tl s)
         else if c = CHR ''b'' then Some ([CHR 0x08], tl s)
         else if c = CHR ''f'' then Some ([CHR 0x0c], tl s)
         else if c = CHR ''n'' then Some ([CHR 0x0a], tl s)
         else if c = CHR ''r'' then Some ([CHR 0x0d], tl s)
         else if c = CHR ''t'' then Some ([CHR 0x09], tl s)
         else if c = CHR ''u'' then parse_unicode (tl s)
         else None)"

lemma read_hex_length: "read_hex n b s = Some (b', s') \<Longrightarrow> length s' \<le> length s"
  by (induction n b s rule: read_hex.induct) (fastforce simp: Let_def split: if_splits option.splits)+

lemma parse_unicode_length: "parse_unicode s = Some (t, s') \<Longrightarrow> length s' \<le> length s"
  by (fastforce simp: parse_unicode_def Let_def bind_eq_Some_conv dest!: read_hex_length split: if_splits)

lemma parse_escape_length: "parse_escape s = Some (t, s') \<Longrightarrow> length s' \<le> length s"
  by (auto simp: parse_escape_def Let_def dest!: parse_unicode_length split: if_splits)

text \<open>The loop of \<open>parsePlainString\<close>; \<^const>\<open>None\<close> is its label \<open>fail\<close>.\<close>

function plain_string :: "string \<Rightarrow> string \<Rightarrow> (string \<times> string) option" where
  "plain_string parsed [] = None"
| "plain_string parsed (c # s) =
     (if c = CHR 0x22 then Some (parsed, s)
      else if c = CHR 0x5c
      then (case parse_escape s of None \<Rightarrow> None | Some (t, s') \<Rightarrow> plain_string (parsed @ t) s')
      else plain_string (parsed @ [c]) s)"
  by pat_completeness auto
termination
  by (relation "measure (\<lambda>(p, s). length s)") (auto dest!: parse_escape_length)

text \<open>Parsing starts at the second character, whatever the first one is.\<close>

definition parsePlainString :: "string \<Rightarrow> (string \<times> string) option" where
  "parsePlainString s = plain_string [] (drop 1 s)"

section \<open>Values\<close>

datatype 'a pres = Undef | Fail | Ok 'a

definition parseString :: "string \<Rightarrow> ('f PSC_Json option \<times> string) pres" where
  "parseString s =
     (case parsePlainString s of
        None \<Rightarrow> Fail
      | Some (str, s') \<Rightarrow> Ok (Some (PSC_Json_createOwnedString (str @ [NUL]) (length str)), s'))"

definition parseNumber :: "'f float_ops \<Rightarrow> string \<Rightarrow> ('f PSC_Json option \<times> string) pres" where
  "parseNumber F s =
     (case strtoll s of (intval, endp) \<Rightarrow>
        if float_mark (peek endp)
        then (case strtod F s of (floatval, n) \<Rightarrow>
            if n = 0 then Fail else Ok (Some (PSC_Json_createFloat floatval), drop n s))
        else if length endp = length s then Fail
        else Ok (Some (PSC_Json_createInteger intval), endp))"

text \<open>
  The end of \<open>parseArray\<close> and \<open>parseObject\<close>.  Destroying a container that holds the
  same item twice frees it twice.
\<close>

definition destroyed :: "bool \<Rightarrow> 'a pres" where
  "destroyed dup = (if dup then Undef else Fail)"

definition array_done :: "'f PSC_Json option list \<Rightarrow> bool \<Rightarrow> string \<Rightarrow> ('f PSC_Json option \<times> string) pres" where
  "array_done items dup s =
     (if dup \<or> None \<in> set items then Undef
      else Ok (Some (JArray (if items = [] then None else Some (map the items))), s))"

definition object_done :: "'f PSC_Json \<Rightarrow> bool \<Rightarrow> bool \<Rightarrow> string \<Rightarrow> ('f PSC_Json option \<times> string) pres" where
  "object_done jobj dup nul s = (if dup \<or> nul then Undef else Ok (Some jobj, s))"

text \<open>
  \<open>parse\<close> and the loops of \<open>parseArray\<close> and \<open>parseObject\<close>.  At the end of the input
  \<open>parse\<close> succeeds without storing a value: the caller then uses the value of its last
  round again (\<open>dup\<close>), or a null pointer (\<open>nul\<close>) when there was none.
\<close>

fun parse :: "'f float_ops \<Rightarrow> nat \<Rightarrow> string \<Rightarrow> ('f PSC_Json option \<times> string) pres option"
  and parseArray :: "'f float_ops \<Rightarrow> nat \<Rightarrow> 'f PSC_Json option list \<Rightarrow> bool \<Rightarrow> string
    \<Rightarrow> ('f PSC_Json option \<times> string) pres option"
  and parseObject :: "'f float_ops \<Rightarrow> nat \<Rightarrow> 'f PSC_Json \<Rightarrow> bool \<Rightarrow> bool \<Rightarrow> bool \<Rightarrow> string
    \<Rightarrow> ('f PSC_Json option \<times> string) pres option" where
  "parse F 0 s0 = None"
| "parse F (Suc fuel) s0 =
     (let s = skipWs s0; c = peek s
      in if s = [] then Some (Ok (None, s))
         else if c = CHR ''{'' then parseObject F fuel PSC_Json_createObject False False False (tl s)
         else if c = CHR ''['' then parseArray F fuel [] False (tl s)
         else if c = CHR 0x22 then Some (parseString s)
         else if c = CHR ''+'' \<or> c = CHR ''-'' \<or> is_digit c then Some (parseNumber F s)
         else if take (length litNull) s = litNull
         then Some (Ok (Some PSC_Json_createNull, drop (length litNull) s))
         else if take (length litFalse) s = litFalse
         then Some (Ok (Some (PSC_Json_createBool 0), drop (length litFalse) s))
         else if take (length litTrue) s = litTrue
         then Some (Ok (Some (PSC_Json_createBool 1), drop (length litTrue) s))
         else Some Fail)"
| "parseArray F 0 items dup s0 = None"
| "parseArray F (Suc fuel) items dup s0 =
     (let s = skipWs s0
      in if peek s = CHR '']'' then Some (array_done items dup (tl s))
         else (case parse F fuel s of
             None \<Rightarrow> None
           | Some Undef \<Rightarrow> Some Undef
           | Some Fail \<Rightarrow> Some (destroyed dup)
           | Some (Ok (v, s1)) \<Rightarrow>
               (let item = (if items = [] then None else last items);
                    items' = items @ [if v = None then item else v];
                    dup' = (dup \<or> v = None \<and> item \<noteq> None);
                    s2 = skipWs s1
                in if peek s2 = CHR '']'' then Some (array_done items' dup' (tl s2))
                   else if peek s2 \<noteq> CHR '','' then Some (destroyed dup')
                   else parseArray F fuel items' dup' (tl s2))))"
| "parseObject F 0 jobj seen dup nul s0 = None"
| "parseObject F (Suc fuel) jobj seen dup nul s0 =
     (let s = skipWs s0
      in if peek s = CHR ''}'' then Some (object_done jobj dup nul (tl s))
         else (case parsePlainString s of
             None \<Rightarrow> Some (destroyed dup)
           | Some (key, s1) \<Rightarrow>
               (let s2 = skipWs s1
                in if peek s2 \<noteq> CHR '':'' then Some (destroyed dup)
                   else (case parse F fuel (skipWs (tl s2)) of
                       None \<Rightarrow> None
                     | Some Undef \<Rightarrow> Some Undef
                     | Some Fail \<Rightarrow> Some (destroyed dup)
                     | Some (Ok (v, s3)) \<Rightarrow>
                         (let jobj' = (case v of None \<Rightarrow> jobj
                                       | Some x \<Rightarrow> fst (PSC_Json_setProperty jobj (key @ [NUL]) (length key) x));
                              dup' = (dup \<or> v = None \<and> seen);
                              nul' = (nul \<or> v = None \<and> \<not> seen);
                              s4 = skipWs s3
                          in if peek s4 = CHR ''}'' then Some (object_done jobj' dup' nul' (tl s4))
                             else if peek s4 \<noteq> CHR '','' then Some (destroyed dup')
                             else parseObject F fuel jobj' (seen \<or> v \<noteq> None) dup' nul' (tl s4))))))"

declare parse.simps [simp del] parseArray.simps [simp del] parseObject.simps [simp del]

text \<open>
  The whole document: \<open>Fail\<close> is the null pointer.  The error code of \<open>parse\<close> is not
  looked at; after an error no value was stored.
\<close>

definition PSC_JsonSerializer_deserialize :: "'f float_ops \<Rightarrow> string \<Rightarrow> 'f PSC_Json pres" where
  "PSC_JsonSerializer_deserialize F json =
     (let s = c_str json
      in case parse F (2 * length s + 1) s of
           None \<Rightarrow> Undef
         | Some Undef \<Rightarrow> Undef
         | Some Fail \<Rightarrow> Fail
         | Some (Ok (None, _)) \<Rightarrow> Fail
         | Some (Ok (Some obj, rest)) \<Rightarrow> if skipWs rest = [] then Ok obj else Fail)"

section \<open>Enough fuel\<close>

lemma skipWs_length: "length (skipWs s) \<le> length s"
  by (simp add: skipWs_def length_dropWhile_le)

lemma plain_string_length: "plain_string parsed s = Some (t, s') \<Longrightarrow> length s' \<le> length s"
  by (induction parsed s rule: plain_string.induct)
    (fastforce split: if_splits option.splits dest!: parse_escape_length)+

lemma parsePlainString_length: "parsePlainString s = Some (t, s') \<Longrightarrow> length s' \<le> length s - 1"
  using plain_string_length [of "[]" "drop 1 s"] by (simp add: parsePlainString_def)

lemma strtoll_length: "strtoll s = (n, endp) \<Longrightarrow> length endp \<le> length s"
proof -
  define w where "w = dropWhile is_space s"
  assume *: "strtoll s = (n, endp)"
  have "length w \<le> length s" by (simp add: w_def length_dropWhile_le)
  with * show ?thesis
    unfolding strtoll_def Let_def w_def [symmetric] by (cases w) (auto split: if_splits)
qed

lemma parseNumber_length: "parseNumber F s = Ok (v, s') \<Longrightarrow> length s' \<le> length s"
  by (auto simp: parseNumber_def dest!: strtoll_length split: prod.splits if_splits)

lemma parseString_length: "parseString s = Ok (v, s') \<Longrightarrow> length s' \<le> length s"
  by (auto simp: parseString_def dest!: parsePlainString_length split: option.splits)

lemma peek_length: "peek s = c \<Longrightarrow> c \<noteq> NUL \<Longrightarrow> Suc (length (tl s)) = length s"
  by (cases s) (auto simp: peek_def)

definition shrinks :: "nat \<Rightarrow> ('f PSC_Json option \<times> string) pres option \<Rightarrow> bool" where
  "shrinks n r \<longleftrightarrow> (\<forall>v s'. r = Some (Ok (v, s')) \<longrightarrow> length s' \<le> n)"

lemma shrinks_simps [simp]:
  "shrinks n None" "shrinks n (Some Undef)" "shrinks n (Some Fail)"
  "shrinks n (Some (destroyed d))"
  "shrinks n (Some (Ok (v, s'))) \<longleftrightarrow> length s' \<le> n"
  "shrinks n (Some (array_done items dup s)) \<longleftrightarrow> dup \<or> None \<in> set items \<or> length s \<le> n"
  "shrinks n (Some (object_done jobj dup nul s)) \<longleftrightarrow> dup \<or> nul \<or> length s \<le> n"
  by (auto simp: shrinks_def destroyed_def array_done_def object_done_def)

lemma shrinks_mono: "shrinks m r \<Longrightarrow> m \<le> n \<Longrightarrow> shrinks n r"
  by (auto simp: shrinks_def intro: le_trans)

lemma parse_shrinks:
  fixes F :: "'f float_ops"
  shows "shrinks (length s) (parse F fuel s)"
    and "shrinks (length s) (parseArray F fuel items dup s)"
    and "shrinks (length s) (parseObject F fuel jobj seen dup nul s)"
proof (induction fuel arbitrary: s items dup jobj seen nul)
  case 0
  {
    case 1 show ?case by (simp add: parse.simps)
  next
    case 2 show ?case by (simp add: parseArray.simps)
  next
    case 3 show ?case by (simp add: parseObject.simps)
  }
next
  case (Suc fuel)
  have tl: "length (tl (skipWs s)) \<le> length s" for s using skipWs_length [of s] by simp
  {
    case 1
    have "shrinks (length s) (Some (parseString (skipWs s) :: ('f PSC_Json option \<times> string) pres))"
      "shrinks (length s) (Some (parseNumber F (skipWs s)))"
      using skipWs_length [of s] by (auto simp: shrinks_def dest!: parseString_length parseNumber_length)
    moreover have "length (skipWs s) - n \<le> length s" for n using skipWs_length [of s] by simp
    ultimately show ?case
      using skipWs_length [of s] shrinks_mono [OF Suc.IH(2) tl] shrinks_mono [OF Suc.IH(3) tl]
      by (simp add: parse.simps Let_def)
  next
    case 2
    have step: "length s1 \<le> length s \<Longrightarrow> shrinks (length s) (parseArray F fuel i d (tl (skipWs s1)))" for i d s1
      using shrinks_mono [OF Suc.IH(2) le_trans [OF tl]] .
    show ?case
    proof (cases "parse F fuel (skipWs s)")
      case None
      then show ?thesis using tl [of s] by (simp add: parseArray.simps Let_def)
    next
      case (Some r)
      show ?thesis
      proof (cases r)
        case (Ok vs)
        obtain v s1 where vs: "vs = (v, s1)" by (cases vs)
        have "length s1 \<le> length s"
          using Suc.IH(1) [of "skipWs s"] Some Ok vs skipWs_length [of s] by simp
        with step [OF this] tl [of s] tl [of s1] Some Ok vs show ?thesis
          by (simp add: parseArray.simps Let_def)
      qed (use Some tl [of s] in \<open>simp_all add: parseArray.simps Let_def\<close>)
    qed
  next
    case 3
    have step: "length s1 \<le> length s \<Longrightarrow> shrinks (length s) (parseObject F fuel j e d n (tl (skipWs s1)))" for j e d n s1
      using shrinks_mono [OF Suc.IH(3) le_trans [OF tl]] .
    show ?case
    proof (cases "parsePlainString (skipWs s)")
      case None
      then show ?thesis using tl [of s] by (simp add: parseObject.simps Let_def)
    next
      case (Some ks)
      obtain key s1 where ks: "ks = (key, s1)" by (cases ks)
      let ?r = "parse F fuel (skipWs (tl (skipWs s1)))"
      have s1: "length (skipWs (tl (skipWs s1))) \<le> length s"
        using parsePlainString_length [of "skipWs s" key s1] Some ks skipWs_length [of s]
          skipWs_length [of "tl (skipWs s1)"] tl [of s1] by simp
      show ?thesis
      proof (cases "\<exists>v s3. ?r = Some (Ok (v, s3))")
        case True
        then obtain v s3 where r: "?r = Some (Ok (v, s3))" by blast
        have "length s3 \<le> length s" using Suc.IH(1) [of "skipWs (tl (skipWs s1))"] r s1 by simp
        with step [OF this] tl [of s] tl [of s3] Some ks r show ?thesis
          by (simp add: parseObject.simps Let_def)
      next
        case False
        then have "?r = None \<or> ?r = Some Undef \<or> ?r = Some Fail" by (metis old.prod.exhaust option.exhaust pres.exhaust)
        with tl [of s] Some ks show ?thesis by (auto simp: parseObject.simps Let_def)
      qed
    qed
  }
qed

text \<open>Every round of a loop uses a character, and every recursion one more.\<close>

lemma tl_less: "peek s = c \<Longrightarrow> c \<noteq> NUL \<Longrightarrow> length (tl s) < length s"
  by (cases s) (auto simp: peek_def)

lemma enough_fuel:
  fixes F :: "'f float_ops"
  shows "2 * length s + 1 \<le> fuel \<Longrightarrow> parse F fuel s \<noteq> None"
    and "2 * length s + 2 \<le> fuel \<Longrightarrow> parseArray F fuel items dup s \<noteq> None"
    and "2 * length s + 2 \<le> fuel \<Longrightarrow> parseObject F fuel jobj seen dup nul s \<noteq> None"
proof (induction fuel arbitrary: s items dup jobj seen nul)
  case (Suc fuel)
  {
    case 1
    have "2 * length (tl (skipWs s)) + 2 \<le> fuel" if "skipWs s \<noteq> []"
      using 1 that skipWs_length [of s] by (cases "skipWs s") auto
    with Suc.IH(2,3) show ?case by (simp add: parse.simps Let_def)
  next
    case 2
    have rest: "parseArray F fuel i d (tl (skipWs s1)) \<noteq> None"
      if "length s1 \<le> length s" "peek (skipWs s1) = CHR '',''" for i d s1
    proof -
      have "length (tl (skipWs s1)) < length (skipWs s1)" using that(2) by (rule tl_less) (simp add: NUL_def)
      then show ?thesis using 2 that(1) skipWs_length [of s1] by (intro Suc.IH(2)) simp
    qed
    have "parse F fuel (skipWs s) \<noteq> None" using 2 skipWs_length [of s] by (intro Suc.IH(1)) simp
    then obtain r where r: "parse F fuel (skipWs s) = Some r" by blast
    show ?case
    proof (cases r)
      case (Ok vs)
      obtain v s1 where vs: "vs = (v, s1)" by (cases vs)
      have "length s1 \<le> length s"
        using parse_shrinks(1) [of "skipWs s" F fuel] r Ok vs skipWs_length [of s] by simp
      from rest [OF this] r Ok vs show ?thesis by (simp add: parseArray.simps Let_def)
    qed (use r in \<open>simp_all add: parseArray.simps Let_def\<close>)
  next
    case 3
    show ?case
    proof (cases "parsePlainString (skipWs s)")
      case None
      then show ?thesis by (simp add: parseObject.simps Let_def)
    next
      case (Some ks)
      obtain key s1 where ks: "ks = (key, s1)" by (cases ks)
      let ?s2 = "skipWs (tl (skipWs s1))"
      have s2: "length ?s2 \<le> length s"
        using parsePlainString_length [of "skipWs s" key s1] Some ks skipWs_length [of s]
          skipWs_length [of "tl (skipWs s1)"] skipWs_length [of s1] by simp
      have rest: "parseObject F fuel j e d n (tl (skipWs s3)) \<noteq> None"
        if "length s3 \<le> length s" "peek (skipWs s3) = CHR '',''" for j e d n s3
      proof -
        have "length (tl (skipWs s3)) < length (skipWs s3)" using that(2) by (rule tl_less) (simp add: NUL_def)
        then show ?thesis using 3 that(1) skipWs_length [of s3] by (intro Suc.IH(3)) simp
      qed
      have "parse F fuel ?s2 \<noteq> None" using 3 s2 by (intro Suc.IH(1)) simp
      then obtain r where r: "parse F fuel ?s2 = Some r" by blast
      show ?thesis
      proof (cases r)
        case (Ok vs)
        obtain v s3 where vs: "vs = (v, s3)" by (cases vs)
        have "length s3 \<le> length s"
          using parse_shrinks(1) [of ?s2 F fuel] r Ok vs s2 by simp
        from rest [OF this] r Ok vs Some ks show ?thesis by (simp add: parseObject.simps Let_def)
      qed (use r Some ks in \<open>simp_all add: parseObject.simps Let_def\<close>)
    qed
  }
qed auto

section \<open>Reading back what was written\<close>

lemma hex_distinct: "distinct hex" "length hex = 22" "NUL \<notin> set hex"
  by (simp_all add: hex_def NUL_def)

text \<open>Four digits of a value: each shifts the ones before.\<close>

lemma read_hex_digit:
  "d < 16 \<Longrightarrow> read_hex (Suc n) b (hex ! d # s) = read_hex n (push_bit 4 b OR of_nat d) s"
  using strchr_nth [of d hex] hex_distinct nth_mem [of d hex] by (cases "hex ! d = NUL") (simp_all add: peek_def Let_def)

lemma less32_cases: "n < 32 \<Longrightarrow> n \<in> {0, 1, 2, 3, 4, 5, 6, 7, 8, 9, 10, 11, 12, 13, 14, 15,
    16, 17, 18, 19, 20, 21, 22, 23, 24, 25, 26, 27, 28, 29, 30, 31}" for n :: nat
  by (simp, presburger)

lemma hex_value: "n < 32 \<Longrightarrow> push_bit 4 (of_nat (n div 16)) OR of_nat (n mod 16) = (of_nat n :: u16)" for n :: nat
  by (drule less32_cases) (elim insertE emptyE; simp)

lemma unicode_control:
  assumes "n < 32"
  shows "parse_unicode (CHR ''0'' # CHR ''0'' # hex ! (n div 16) # hex ! (n mod 16) # s) = Some ([char_of n], s)"
proof -
  have z: "CHR ''0'' = hex ! 0" and four: "(4 :: nat) = Suc (Suc (Suc (Suc 0)))" by (simp_all add: hex_def)
  have rd: "read_hex 4 0 (CHR ''0'' # CHR ''0'' # hex ! (n div 16) # hex ! (n mod 16) # s) = Some (of_nat n, s)"
    using assms unfolding z four by (simp add: read_hex_digit hex_value del: read_hex.simps(2))
  have small: "unat (of_nat n :: u32) = n" "unat (of_nat n :: u16) = n" "unat (of_nat n :: u8) = n"
    using assms by (simp_all add: unat_of_nat)
  have u: "(ucast (of_nat n :: u16) :: u32) = of_nat n"
    using assms by (simp add: unsigned_of_nat take_bit_eq_mod)
  have "(of_nat n :: u32) < 0x80" using assms small(1) by (simp add: word_less_nat_alt)
  moreover have "(ucast (of_nat n :: u32) :: u8) = of_nat n"
    using assms by (simp add: unsigned_of_nat take_bit_eq_mod)
  moreover have "(of_nat n :: u32) AND 0xfc00 \<noteq> 0xd800"
    using less32_cases [OF assms] by (elim insertE emptyE; simp)
  ultimately show ?thesis
    using small by (simp add: parse_unicode_def rd u utf8_chars_def byte_char_def)
qed

lemma escape_read: "plain_string t (escape c @ s) = plain_string (t @ [c]) s"
proof -
  consider (esc) "c \<in> {CHR 0x22, CHR 0x5c, CHR 0x08, CHR 0x0c, CHR 0x0a, CHR 0x0d, CHR 0x09}"
    | (ctl) "c \<notin> {CHR 0x22, CHR 0x5c, CHR 0x08, CHR 0x0c, CHR 0x0a, CHR 0x0d, CHR 0x09}" "(of_char c :: nat) < 0x20"
    | (raw) "c \<notin> {CHR 0x22, CHR 0x5c, CHR 0x08, CHR 0x0c, CHR 0x0a, CHR 0x0d, CHR 0x09}" "\<not> (of_char c :: nat) < 0x20"
    by blast
  then show ?thesis
  proof cases
    case esc
    then show ?thesis by (auto simp: escape_def parse_escape_def peek_def)
  next
    case ctl
    then have "escape c = [CHR 0x5c, CHR ''u'', CHR ''0'', CHR ''0'', hex ! (of_char c div 16), hex ! (of_char c mod 16)]"
      by (simp add: escape_def)
    then show ?thesis using unicode_control [OF ctl(2), of s] by (simp add: parse_escape_def peek_def)
  next
    case raw
    then show ?thesis by (simp add: escape_def)
  qed
qed

lemma plain_string_read: "plain_string t (concat (map escape s) @ CHR 0x22 # r) = Some (t @ s, r)"
proof (induction s arbitrary: t)
  case (Cons c s)
  then show ?case using escape_read [of t c "concat (map escape s) @ CHR 0x22 # r"] by simp
qed simp

lemma jstring_read: "parsePlainString (jstring s @ r) = Some (s, r)"
  using plain_string_read [of "[]" s r] by (simp add: parsePlainString_def jstring_def)

lemma owned_string: "PSC_Json_createOwnedString (s @ [NUL]) (length s) = JString s []"
  by (simp add: PSC_Json_createOwnedString_def str_arg_def str_tail_def)

lemma key_arg: "str_arg (k @ [NUL]) (length k) = k"
  by (simp add: str_arg_def)

text \<open>
  Values that can be read back: strings of their own, no floating point numbers, no empty
  arrays and objects, and the keys of an object distinct, as \<open>PSC_Json_setProperty\<close> keeps
  them.
\<close>

fun clean :: "'f PSC_Json \<Rightarrow> bool" where
  "clean (JFloat x) = False"
| "clean (JString s rest) \<longleftrightarrow> rest = []"
| "clean (JArray None) = False"
| "clean (JArray (Some vs)) \<longleftrightarrow> vs \<noteq> [] \<and> list_all clean vs"
| "clean (JObject None) = False"
| "clean (JObject (Some kvs)) \<longleftrightarrow> kvs \<noteq> [] \<and> distinct (map fst kvs) \<and> list_all (\<lambda>kv. clean (snd kv)) kvs"
| "clean _ = True"

text \<open>What may follow a value.\<close>

definition delim :: "string \<Rightarrow> bool" where
  "delim r \<longleftrightarrow> peek r \<in> {NUL, CHR '','', CHR '']'', CHR ''}''}"

lemma delim_simps [simp]: "delim []" "delim (CHR '','' # r)" "delim (CHR '']'' # r)" "delim (CHR ''}'' # r)"
  by (simp_all add: delim_def peek_def)

lemma delim_number: "delim r \<Longrightarrow> \<not> is_digit (peek r) \<and> \<not> float_mark (peek r)"
  by (auto simp: delim_def NUL_def is_digit_def float_mark_def less_eq_char_def)

definition value_start :: "char \<Rightarrow> bool" where
  "value_start c \<longleftrightarrow> is_digit c \<or> c \<in> {CHR ''n'', CHR ''f'', CHR ''t'', CHR ''-'', CHR 0x22, CHR ''['', CHR ''{''}"

lemma value_startD:
  assumes "value_start c"
  shows "c \<noteq> CHR '' ''" "c \<noteq> CHR 0x09" "c \<noteq> CHR 0x0d" "c \<noteq> CHR 0x0a" "c \<noteq> CHR '']''" "c \<noteq> CHR ''}''" "c \<noteq> NUL"
  using assms by (auto simp: value_start_def is_digit_def less_eq_char_def NUL_def)

lemma skipWs_start: "value_start (peek s) \<Longrightarrow> skipWs s = s"
  using value_startD [of "peek s"] by (cases s) (simp_all add: skipWs_def peek_def)

lemma skipWs_delim: "delim r \<Longrightarrow> r = [] \<or> hd r \<noteq> NUL \<Longrightarrow> skipWs r = r"
  by (cases r) (auto simp: skipWs_def delim_def peek_def)

lemma skipWs_keep [simp]:
  "skipWs (CHR '','' # r) = CHR '','' # r" "skipWs (CHR '']'' # r) = CHR '']'' # r"
  "skipWs (CHR ''}'' # r) = CHR ''}'' # r" "skipWs (CHR '':'' # r) = CHR '':'' # r" "skipWs [] = []"
  by (simp_all add: skipWs_def)

lemma jtext_start: "clean v \<Longrightarrow> jtext F v \<noteq> [] \<and> value_start (hd (jtext F v))"
  using show_int64_hd by (cases v) (auto simp: value_start_def litNull_def litFalse_def litTrue_def jstring_def)

lemma jtext_peek: "clean v \<Longrightarrow> value_start (peek (jtext F v @ r))"
  using jtext_start [of v F] peek_append [of "jtext F v" r] by simp

lemma digit_not_marker: "is_digit c \<Longrightarrow> c \<noteq> CHR ''{'' \<and> c \<noteq> CHR ''['' \<and> c \<noteq> CHR 0x22"
  by (auto simp: is_digit_def less_eq_char_def)

lemma parse_int: "delim r \<Longrightarrow> parse F (Suc fuel) (show_int64 w @ r) = Some (Ok (Some (JInteger w), r))"
proof -
  assume r: "delim r"
  let ?s = "show_int64 w @ r"
  have hd: "show_int64 w \<noteq> []" "hd (show_int64 w) = CHR ''-'' \<or> is_digit (hd (show_int64 w))"
    using show_int64_hd [of w] by auto
  then have pk: "peek ?s = hd (show_int64 w)" by (simp add: peek_append)
  have ws: "skipWs ?s = ?s" using hd pk by (intro skipWs_start) (auto simp: value_start_def)
  have "strtoll ?s = (w, r)" using delim_number [OF r] by (intro strtoll_show) simp
  then have "parseNumber F ?s = Ok (Some (JInteger w), r)"
    using delim_number [OF r] hd(1) by (simp add: parseNumber_def PSC_Json_createInteger_def)
  then show ?thesis
    using ws pk hd digit_not_marker [of "hd (show_int64 w)"] by (auto simp: parse.simps Let_def)
qed

lemma parse_literals:
  "parse F (Suc fuel) (litNull @ r) = Some (Ok (Some JNull, r))"
  "parse F (Suc fuel) (litFalse @ r) = Some (Ok (Some JFalse, r))"
  "parse F (Suc fuel) (litTrue @ r) = Some (Ok (Some JTrue, r))"
  by (simp_all add: parse.simps Let_def litNull_def litFalse_def litTrue_def skipWs_def peek_def is_digit_def
      less_eq_char_def PSC_Json_createNull_def PSC_Json_createBool_def)

lemma parse_jstring: "parse F (Suc fuel) (jstring s @ r) = Some (Ok (Some (JString s []), r))"
proof -
  have "skipWs (jstring s @ r) = jstring s @ r" "peek (jstring s @ r) = CHR 0x22" "jstring s \<noteq> []"
    by (simp_all add: jstring_def skipWs_def peek_def)
  then show ?thesis
    by (simp add: parse.simps Let_def parseString_def jstring_read owned_string)
qed

text \<open>The loop over the items of an array, given that each of them can be read.\<close>

lemma parseArray_read:
  assumes "\<And>v fuel r. v \<in> set vs \<Longrightarrow> delim r \<Longrightarrow> 2 * length (jtext F v @ r) + 1 \<le> fuel \<Longrightarrow>
      parse F fuel (jtext F v @ r) = Some (Ok (Some v, r))"
    and "list_all clean vs" "vs \<noteq> []"
    and "2 * length (commas (map (jtext F) vs) @ CHR '']'' # r) + 2 \<le> fuel"
  shows "parseArray F fuel (map Some done) False (commas (map (jtext F) vs) @ CHR '']'' # r) =
    Some (Ok (Some (JArray (Some (done @ vs))), r))"
  using assms
proof (induction vs arbitrary: "done" fuel)
  case Nil
  then show ?case by simp
next
  case (Cons v vs)
  obtain f where f: "fuel = Suc f" using Cons.prems(4) by (cases fuel) auto
  define r' where "r' = (if vs = [] then CHR '']'' # r else CHR '','' # commas (map (jtext F) vs) @ CHR '']'' # r)"
  have s: "commas (map (jtext F) (v # vs)) @ CHR '']'' # r = jtext F v @ r'"
    by (cases vs) (simp_all add: r'_def)
  have r': "delim r'" "skipWs r' = r'" by (simp_all add: r'_def)
  have v: "clean v" using Cons.prems(2) by simp
  have ws: "skipWs (jtext F v @ r') = jtext F v @ r'" "peek (jtext F v @ r') \<noteq> CHR '']''"
    using jtext_peek [OF v, of F r'] value_startD skipWs_start by auto
  have "parse F f (jtext F v @ r') = Some (Ok (Some v, r'))"
    using Cons.prems(1) [of v r' f] Cons.prems(4) r'(1) f unfolding s by simp
  then have step: "parseArray F fuel (map Some done) False (jtext F v @ r') =
      (if vs = [] then Some (array_done (map Some (done @ [v])) False r)
       else parseArray F f (map Some (done @ [v])) False (tl r'))"
    using ws r'(2) by (simp add: f parseArray.simps Let_def r'_def peek_def)
  show ?case
  proof (cases "vs = []")
    case True
    with step s show ?thesis by (simp add: array_done_def comp_def)
  next
    case False
    have "parseArray F f (map Some (done @ [v])) False (commas (map (jtext F) vs) @ CHR '']'' # r) =
        Some (Ok (Some (JArray (Some ((done @ [v]) @ vs))), r))"
    proof (rule Cons.IH)
      show "2 * length (commas (map (jtext F) vs) @ CHR '']'' # r) + 2 \<le> f"
        using Cons.prems(4) False f by (simp add: commas_Cons)
    qed (use Cons.prems False in auto)
    with step s False show ?thesis by (simp add: r'_def)
  qed
qed

lemma alist_set_new: "k \<notin> set (map fst kvs) \<Longrightarrow> alist_set k v kvs = kvs @ [(k, v)]"
  by (induction k v kvs rule: alist_set.induct) auto

definition as_object :: "(string \<times> 'f PSC_Json) list \<Rightarrow> 'f PSC_Json" where
  "as_object kvs = JObject (if kvs = [] then None else Some kvs)"

lemma as_object_set:
  "k \<notin> set (map fst kvs) \<Longrightarrow> fst (PSC_Json_setProperty (as_object kvs) (k @ [NUL]) (length k) v) = as_object (kvs @ [(k, v)])"
  by (auto simp: as_object_def PSC_Json_setProperty_def key_arg alist_set_new)

definition member :: "'f float_ops \<Rightarrow> string \<times> 'f PSC_Json \<Rightarrow> string" where
  "member F kv = jstring (fst kv) @ CHR '':'' # jtext F (snd kv)"

lemma parseObject_read:
  assumes "\<And>v fuel r. v \<in> snd ` set kvs \<Longrightarrow> delim r \<Longrightarrow> 2 * length (jtext F v @ r) + 1 \<le> fuel \<Longrightarrow>
      parse F fuel (jtext F v @ r) = Some (Ok (Some v, r))"
    and "list_all (\<lambda>kv. clean (snd kv)) kvs" "kvs \<noteq> []" "distinct (map fst (done @ kvs))"
    and "2 * length (commas (map (member F) kvs) @ CHR ''}'' # r) + 2 \<le> fuel"
  shows "parseObject F fuel (as_object done) seen False False (commas (map (member F) kvs) @ CHR ''}'' # r) =
    Some (Ok (Some (as_object (done @ kvs)), r))"
  using assms
proof (induction kvs arbitrary: "done" fuel seen)
  case Nil
  then show ?case by simp
next
  case (Cons kv kvs)
  obtain k v where kv: "kv = (k, v)" by (cases kv)
  obtain f where f: "fuel = Suc f" using Cons.prems(5) by (cases fuel) auto
  define r' where "r' = (if kvs = [] then CHR ''}'' # r else CHR '','' # commas (map (member F) kvs) @ CHR ''}'' # r)"
  have s: "commas (map (member F) (kv # kvs)) @ CHR ''}'' # r = jstring k @ CHR '':'' # jtext F v @ r'"
    by (cases kvs) (simp_all add: r'_def kv member_def)
  have r': "delim r'" "skipWs r' = r'" by (simp_all add: r'_def)
  have v: "clean v" and k: "k \<notin> set (map fst done)" using Cons.prems(2,4) by (auto simp: kv)
  have ws: "skipWs (jtext F v @ r') = jtext F v @ r'"
    using jtext_peek [OF v, of F r'] skipWs_start by auto
  have js: "skipWs (jstring k @ x) = jstring k @ x" "peek (jstring k @ x) \<noteq> CHR ''}''" for x
    by (simp_all add: jstring_def skipWs_def peek_def)
  have "parse F f (jtext F v @ r') = Some (Ok (Some v, r'))"
    using Cons.prems(1) [of v r' f] Cons.prems(5) r'(1) f unfolding s by (simp add: kv)
  then have step: "parseObject F fuel (as_object done) seen False False (jstring k @ CHR '':'' # jtext F v @ r') =
      (if kvs = [] then Some (object_done (as_object (done @ [(k, v)])) False False r)
       else parseObject F f (as_object (done @ [(k, v)])) True False False (tl r'))"
    using ws js r'(2) by (simp add: f parseObject.simps Let_def jstring_read as_object_set [OF k] r'_def peek_def)
  show ?case
  proof (cases "kvs = []")
    case True
    with step s show ?thesis by (simp add: object_done_def kv)
  next
    case False
    have "parseObject F f (as_object (done @ [kv])) True False False (commas (map (member F) kvs) @ CHR ''}'' # r) =
        Some (Ok (Some (as_object ((done @ [kv]) @ kvs)), r))"
    proof (rule Cons.IH)
      show "2 * length (commas (map (member F) kvs) @ CHR ''}'' # r) + 2 \<le> f"
        using Cons.prems(5) False f by (simp add: commas_Cons)
    qed (use Cons.prems False in auto)
    with step s False show ?thesis by (simp add: r'_def kv)
  qed
qed

lemma parse_read:
  "clean v \<Longrightarrow> delim r \<Longrightarrow> 2 * length (jtext F v @ r) + 1 \<le> fuel \<Longrightarrow>
   parse F fuel (jtext F v @ r) = Some (Ok (Some v, r))"
proof (induction v arbitrary: r fuel)
  case (JArray vso)
  then obtain vs where vs: "vso = Some vs" "vs \<noteq> []" "list_all clean vs" by (cases vso) auto
  obtain f where f: "fuel = Suc f" using JArray.prems(3) by (cases fuel) auto
  have "parseArray F f (map Some []) False (commas (map (jtext F) vs) @ CHR '']'' # r) = Some (Ok (Some (JArray (Some ([] @ vs))), r))"
  proof (rule parseArray_read)
    fix v fuel r assume "v \<in> set vs" "delim r" "2 * length (jtext F v @ r) + 1 \<le> fuel"
    then show "parse F fuel (jtext F v @ r) = Some (Ok (Some v, r))"
      using vs by (intro JArray.IH [of vs]) (auto simp: list_all_iff)
  qed (use vs JArray.prems(3) f in auto)
  then show ?case using vs f by (simp add: parse.simps Let_def skipWs_def peek_def)
next
  case (JObject kvso)
  then obtain kvs where kvs: "kvso = Some kvs" "kvs \<noteq> []" "distinct (map fst kvs)" "list_all (\<lambda>kv. clean (snd kv)) kvs"
    by (cases kvso) auto
  obtain f where f: "fuel = Suc f" using JObject.prems(3) by (cases fuel) auto
  have m: "(\<lambda>kv. jstring (fst kv) @ CHR '':'' # jtext F (snd kv)) = member F" by (simp add: member_def fun_eq_iff)
  have "parseObject F f (as_object []) False False False (commas (map (member F) kvs) @ CHR ''}'' # r) =
      Some (Ok (Some (as_object ([] @ kvs)), r))"
  proof (rule parseObject_read)
    fix v fuel r assume "v \<in> snd ` set kvs" "delim r" "2 * length (jtext F v @ r) + 1 \<le> fuel"
    then show "parse F fuel (jtext F v @ r) = Some (Ok (Some v, r))"
      using kvs by (force simp: list_all_iff intro: JObject.IH [of kvs])
  qed (use kvs JObject.prems(3) f in \<open>auto simp: m\<close>)
  then show ?case
    using kvs f by (simp add: parse.simps Let_def skipWs_def peek_def m as_object_def PSC_Json_createObject_def)
qed (auto simp: parse_literals parse_int parse_jstring le_Suc_eq gr0_conv_Suc dest!: Suc_le_D)

section \<open>Texts have no null characters\<close>

lemma escape_nonNUL: "NUL \<notin> set (escape c)"
proof -
  have hex: "hex ! i \<noteq> NUL" if "i < 22" for i
    using that hex_distinct nth_mem [of i hex] by metis
  show ?thesis
  proof (cases "(of_char c :: nat) < 0x20")
    case True
    then have "hex ! (of_char c div 16) \<noteq> NUL" "hex ! (of_char c mod 16) \<noteq> NUL"
      by (auto intro!: hex)
    with True show ?thesis by (simp add: escape_def NUL_def)
  next
    case False
    then have "c \<noteq> NUL" by (auto simp: NUL_def)
    with False show ?thesis by (simp add: escape_def NUL_def)
  qed
qed

lemma jstring_nonNUL: "NUL \<notin> set (jstring s)"
  using escape_nonNUL by (auto simp: jstring_def NUL_def)

lemma commas_nonNUL: "\<forall>t \<in> set ts. NUL \<notin> set t \<Longrightarrow> NUL \<notin> set (commas ts)"
  by (induction ts rule: commas.induct) (auto simp: NUL_def)

lemma show_int64_nonNUL: "NUL \<notin> set (show_int64 w)"
proof -
  have "NUL \<notin> set (show_nat n)" for n
    using show_nat_ok [of n] by (auto simp: list_all_iff is_digit_def NUL_def less_eq_char_def)
  then show ?thesis by (simp add: show_int64_def NUL_def)
qed

lemma jtext_nonNUL: "clean v \<Longrightarrow> NUL \<notin> set (jtext F v)"
proof (induction v)
  case (JArray vso)
  then obtain vs where vs: "vso = Some vs" "list_all clean vs" by (cases vso) auto
  have "NUL \<notin> set (jtext F v)" if "v \<in> set vs" for v
    using vs that by (intro JArray.IH [of vs]) (simp_all add: list_all_iff)
  then have "NUL \<notin> set (commas (map (jtext F) vs))" by (intro commas_nonNUL) auto
  then show ?case using vs by (simp add: NUL_def)
next
  case (JObject kvso)
  then obtain kvs where kvs: "kvso = Some kvs" "list_all (\<lambda>kv. clean (snd kv)) kvs" by (cases kvso) auto
  have "NUL \<notin> set (jtext F (snd kv))" if "kv \<in> set kvs" for kv
    using kvs that by (intro JObject.IH [of kvs kv "snd kv"]) (auto simp: list_all_iff snds.simps)
  then have "NUL \<notin> set (commas (map (member F) kvs))"
    using jstring_nonNUL by (intro commas_nonNUL) (auto simp: member_def NUL_def)
  moreover have "(\<lambda>kv. jstring (fst kv) @ CHR '':'' # jtext F (snd kv)) = member F" by (simp add: member_def fun_eq_iff)
  ultimately show ?case using kvs by (simp add: NUL_def)
qed (use show_int64_nonNUL jstring_nonNUL in \<open>auto simp: litNull_def litFalse_def litTrue_def NUL_def\<close>)


lemma c_str_id: "NUL \<notin> set s \<Longrightarrow> c_str s = s"
  by (auto simp: c_str_def takeWhile_eq_all_conv)

lemma deserialize_eq:
  "NUL \<notin> set s \<Longrightarrow> parse F (2 * length s + 1) s = Some r \<Longrightarrow>
   PSC_JsonSerializer_deserialize F s = (case r of Undef \<Rightarrow> Undef | Fail \<Rightarrow> Fail
     | Ok (None, _) \<Rightarrow> Fail | Ok (Some obj, rest) \<Rightarrow> if skipWs rest = [] then Ok obj else Fail)"
  by (simp add: PSC_JsonSerializer_deserialize_def c_str_id)

section \<open>Escaped characters as UTF-8\<close>

text \<open>
  UTF-8 after RFC 3629: the code point of a sequence of one to four bytes, when the marker
  bits of all bytes are right.
\<close>

definition utf8_decode :: "u8 list \<Rightarrow> u32 option" where
  "utf8_decode bs =
     (case bs of
        [a] \<Rightarrow> if a AND 0x80 = 0 then Some (ucast a) else None
      | [a, b] \<Rightarrow> if a AND 0xe0 = 0xc0 \<and> b AND 0xc0 = 0x80
          then Some (push_bit 6 (ucast a AND 0x1f) OR (ucast b AND 0x3f)) else None
      | [a, b, c] \<Rightarrow> if a AND 0xf0 = 0xe0 \<and> b AND 0xc0 = 0x80 \<and> c AND 0xc0 = 0x80
          then Some (push_bit 12 (ucast a AND 0x0f) OR push_bit 6 (ucast b AND 0x3f) OR (ucast c AND 0x3f)) else None
      | [a, b, c, d] \<Rightarrow> if a AND 0xf8 = 0xf0 \<and> b AND 0xc0 = 0x80 \<and> c AND 0xc0 = 0x80 \<and> d AND 0xc0 = 0x80
          then Some (push_bit 18 (ucast a AND 0x07) OR push_bit 12 (ucast b AND 0x3f)
            OR push_bit 6 (ucast c AND 0x3f) OR (ucast d AND 0x3f)) else None
      | _ \<Rightarrow> None)"

lemma bit_below:
  fixes u :: u32
  assumes "unat u < 2 ^ k" "k \<le> n"
  shows "\<not> bit u n"
proof -
  note assms(1)
  also have "(2 :: nat) ^ k \<le> 2 ^ n" using assms(2) by simp
  finally have "unat u div 2 ^ n = 0" by simp
  then have "\<not> bit (unat u) n" by (simp add: bit_iff_odd)
  then show ?thesis by (simp add: bit_unsigned_iff)
qed

lemma u32_eqI: "(\<And>n. n \<in> {0, 1, 2, 3, 4, 5, 6, 7, 8, 9, 10, 11, 12, 13, 14, 15,
    16, 17, 18, 19, 20, 21, 22, 23, 24, 25, 26, 27, 28, 29, 30, 31} \<Longrightarrow> bit x n \<longleftrightarrow> bit y n) \<Longrightarrow> x = y"
  for x y :: u32
  using less32_cases by (intro bit_word_eqI) auto

lemmas utf8_bits = bit_simps bit_numeral_rec bit_idx

definition ub :: "nat \<Rightarrow> u32 \<Rightarrow> u8" where
  "ub k u = ucast (drop_bit k u AND 0xff)"

lemma bit_ub [simp]: "bit (ub k u) n \<longleftrightarrow> n < 8 \<and> bit u (k + n)"
proof -
  have m: "(0xff :: u32) = mask 8" by (simp add: mask_eq_exp_minus_1)
  show ?thesis unfolding ub_def m by (auto simp: bit_simps bit_mask_iff simp del: mask_numeral)
qed

lemma utf8_1:
  fixes u :: u32
  assumes "unat u < 2 ^ 7"
  shows "utf8_decode [ucast u] = Some u"
proof -
  note hi = bit_below [OF assms]
  have "(ucast u :: u8) AND 0x80 = 0"
    by (rule byte_eqI; simp add: utf8_bits hi)
  moreover have "ucast (ucast u :: u8) = u"
    by (rule u32_eqI) (elim insertE emptyE; simp add: utf8_bits hi)
  ultimately show ?thesis by (simp add: utf8_decode_def)
qed

lemma utf8_2:
  fixes u :: u32
  assumes "unat u < 2 ^ 11"
  shows "utf8_decode [0xc0 OR push_bit 2 (ub 8 u) OR drop_bit 6 (ub 0 u), 0x80 OR (ub 0 u AND 0x3f)] = Some u"
proof -
  note hi = bit_below [OF assms]
  have "(0xc0 OR push_bit 2 (ub 8 u) OR drop_bit 6 (ub 0 u)) AND 0xe0 = 0xc0"
    "(0x80 OR (ub 0 u AND 0x3f)) AND 0xc0 = 0x80"
    by (rule byte_eqI; simp add: utf8_bits hi)+
  moreover have "push_bit 6 (ucast (0xc0 OR push_bit 2 (ub 8 u) OR drop_bit 6 (ub 0 u)) AND 0x1f)
      OR (ucast (0x80 OR (ub 0 u AND 0x3f)) AND 0x3f) = u"
    by (rule u32_eqI) (elim insertE emptyE; simp add: utf8_bits hi)
  ultimately show ?thesis by (simp add: utf8_decode_def)
qed

lemma utf8_3:
  fixes u :: u32
  assumes "unat u < 2 ^ 16"
  shows "utf8_decode [0xe0 OR drop_bit 4 (ub 8 u), 0x80 OR (push_bit 2 (ub 8 u) AND 0x3f) OR drop_bit 6 (ub 0 u),
    0x80 OR (ub 0 u AND 0x3f)] = Some u"
proof -
  note hi = bit_below [OF assms]
  have "(0xe0 OR drop_bit 4 (ub 8 u)) AND 0xf0 = 0xe0"
    "(0x80 OR (push_bit 2 (ub 8 u) AND 0x3f) OR drop_bit 6 (ub 0 u)) AND 0xc0 = 0x80"
    "(0x80 OR (ub 0 u AND 0x3f)) AND 0xc0 = 0x80"
    by (rule byte_eqI; simp add: utf8_bits hi)+
  moreover have "push_bit 12 (ucast (0xe0 OR drop_bit 4 (ub 8 u)) AND 0x0f)
      OR push_bit 6 (ucast (0x80 OR (push_bit 2 (ub 8 u) AND 0x3f) OR drop_bit 6 (ub 0 u)) AND 0x3f)
      OR (ucast (0x80 OR (ub 0 u AND 0x3f)) AND 0x3f) = u"
    by (rule u32_eqI) (elim insertE emptyE; simp add: utf8_bits hi)
  ultimately show ?thesis by (simp add: utf8_decode_def)
qed

lemma utf8_4:
  fixes u :: u32
  assumes "unat u < 2 ^ 21"
  shows "utf8_decode [0xf0 OR drop_bit 2 (ub 16 u), 0x80 OR (push_bit 4 (ub 16 u) AND 0x3f) OR drop_bit 4 (ub 8 u),
    0x80 OR (push_bit 2 (ub 8 u) AND 0x3f) OR drop_bit 6 (ub 0 u), 0x80 OR (ub 0 u AND 0x3f)] = Some u"
proof -
  note hi = bit_below [OF assms]
  have "(0xf0 OR drop_bit 2 (ub 16 u)) AND 0xf8 = 0xf0"
    "(0x80 OR (push_bit 4 (ub 16 u) AND 0x3f) OR drop_bit 4 (ub 8 u)) AND 0xc0 = 0x80"
    "(0x80 OR (push_bit 2 (ub 8 u) AND 0x3f) OR drop_bit 6 (ub 0 u)) AND 0xc0 = 0x80"
    "(0x80 OR (ub 0 u AND 0x3f)) AND 0xc0 = 0x80"
    by (rule byte_eqI; simp add: utf8_bits hi)+
  moreover have "push_bit 18 (ucast (0xf0 OR drop_bit 2 (ub 16 u)) AND 0x07)
      OR push_bit 12 (ucast (0x80 OR (push_bit 4 (ub 16 u) AND 0x3f) OR drop_bit 4 (ub 8 u)) AND 0x3f)
      OR push_bit 6 (ucast (0x80 OR (push_bit 2 (ub 8 u) AND 0x3f) OR drop_bit 6 (ub 0 u)) AND 0x3f)
      OR (ucast (0x80 OR (ub 0 u AND 0x3f)) AND 0x3f) = u"
    by (rule u32_eqI) (elim insertE emptyE; simp add: utf8_bits hi)
  ultimately show ?thesis by (simp add: utf8_decode_def)
qed

lemma utf8_ok:
  assumes "unat u < 0x110000"
  shows "utf8_decode (utf8_chars u) = Some u"
proof -
  have ub: "ucast (u AND 0xff) = ub 0 u" "ucast (drop_bit 8 u AND 0xff) = ub 8 u" "ucast (drop_bit 16 u AND 0xff) = ub 16 u"
    by (simp_all add: ub_def)
  show ?thesis
    using utf8_1 [of u] utf8_2 [of u] utf8_3 [of u] utf8_4 [of u] assms
    by (auto simp: utf8_chars_def ub Let_def word_less_nat_alt)
qed

section \<open>Properties\<close>



text \<open>
  C34: Deserializing ends for every input: the recursion of \<open>parse\<close>, \<open>parseArray\<close> and
  \<open>parseObject\<close> is never deeper than twice the length of the input, and what is left of
  the input never grows.\<close>

theorem json_parse_terminates:
  "\<exists>r. parse F (2 * length s + 1) s = Some r \<and> (\<forall>v rest. r = Ok (v, rest) \<longrightarrow> length rest \<le> length s)"
  using enough_fuel(1) [of s "2 * length s + 1" F] parse_shrinks(1) [of s F "2 * length s + 1"]
  by (auto simp: shrinks_def)

theorem json_parse_terminates_witness:
  "\<exists>r. parse no_floats 9 ''[[1]'' = Some r"
  using json_parse_terminates [of no_floats "''[[1]''"] by auto

text \<open>
  A document that ends behind a comma in an array: \<open>parse\<close> reports success at the end
  of the input without storing a value, \<open>parseArray\<close> appends the last item a second time,
  and destroying the array on the error that follows frees the item twice.\<close>

theorem json_truncated_array_undefined:
  assumes "clean v"
  shows "PSC_JsonSerializer_deserialize F (CHR ''['' # jtext F v @ '','') = Undef"
proof -
  let ?s = "CHR ''['' # jtext F v @ '',''"
  obtain f where f: "2 * length ?s + 1 = Suc (Suc f)" "2 * length (jtext F v @ '','') + 1 \<le> f" by simp
  have item: "parse F f (jtext F v @ '','') = Some (Ok (Some v, '',''))"
    using f(2) by (intro parse_read [OF assms]) simp_all
  obtain f' where f': "f = Suc f'" "1 \<le> f'" using f(2) by (cases f) auto
  obtain g where g: "f' = Suc g" using f'(2) by (cases f') auto
  have ws: "skipWs (jtext F v @ '','') = jtext F v @ '',''" "peek (jtext F v @ '','') \<noteq> CHR '']''"
    using jtext_peek [OF assms, of F "'',''"] value_startD skipWs_start by auto
  have "parse F (Suc g) [] = Some (Ok (None, []))" by (simp add: parse.simps)
  then have "parseArray F (Suc f') [Some v] False [] = Some Undef"
    by (simp add: parseArray.simps g peek_def NUL_def destroyed_def)
  then have "parseArray F (Suc f) [] False (jtext F v @ '','') = Some Undef"
    using ws item f'(1) by (subst parseArray.simps) (simp add: Let_def peek_def)
  then have "parse F (2 * length ?s + 1) ?s = Some Undef"
    unfolding f(1) by (subst parse.simps) (simp add: Let_def skipWs_def peek_def)
  moreover have "NUL \<notin> set ?s" using jtext_nonNUL [OF assms] by (auto simp: NUL_def)
  ultimately show ?thesis by (simp add: deserialize_eq)
qed

theorem json_truncated_array_undefined_witness:
  "PSC_JsonSerializer_deserialize no_floats ''[null,'' = Undef"
  using json_truncated_array_undefined [of JNull no_floats] by (simp add: litNull_def)

text \<open>
  The first character of a key is not looked at, so an object whose key does not start
  with a quote is accepted, without that character.\<close>

theorem json_key_quote_unchecked:
  assumes "clean v" "c \<notin> {NUL, CHR '' '', CHR 0x09, CHR 0x0d, CHR 0x0a, CHR ''}''}"
  shows "PSC_JsonSerializer_deserialize F (CHR ''{'' # c # tl (jstring k) @ CHR '':'' # jtext F v @ ''}'') =
    Ok (JObject (Some [(k, v)]))"
proof -
  let ?k = "c # tl (jstring k) @ CHR '':'' # jtext F v @ ''}''"
  obtain f where f: "2 * length (CHR ''{'' # ?k) + 1 = Suc (Suc f)" "2 * length (jtext F v @ ''}'') + 1 \<le> f" by simp
  have ws: "skipWs ?k = ?k" using assms(2) by (simp add: skipWs_def)
  have key: "parsePlainString ?k = Some (k, CHR '':'' # jtext F v @ ''}'')"
    using jstring_read [of k "CHR '':'' # jtext F v @ ''}''"] by (simp add: parsePlainString_def jstring_def)
  have val: "parse F f (jtext F v @ ''}'') = Some (Ok (Some v, ''}''))"
    using f(2) by (intro parse_read [OF assms(1)]) simp_all
  have wsv: "skipWs (jtext F v @ ''}'') = jtext F v @ ''}''"
    using jtext_peek [OF assms(1), of F "''}''"] skipWs_start by auto
  have "parseObject F (Suc f) PSC_Json_createObject False False False ?k = Some (Ok (Some (JObject (Some [(k, v)])), []))"
    using ws key val wsv assms(2)
    by (subst parseObject.simps) (simp add: Let_def peek_def object_done_def PSC_Json_setProperty_def
        PSC_Json_createObject_def key_arg)
  then have "parse F (2 * length (CHR ''{'' # ?k) + 1) (CHR ''{'' # ?k) = Some (Ok (Some (JObject (Some [(k, v)])), []))"
    unfolding f(1) by (subst parse.simps) (simp add: Let_def skipWs_def peek_def)
  moreover have "NUL \<notin> set (CHR ''{'' # ?k)"
    using jtext_nonNUL [OF assms(1)] jstring_nonNUL [of k] assms(2) by (auto simp: NUL_def jstring_def)
  ultimately show ?thesis by (simp add: deserialize_eq)
qed

theorem json_key_quote_unchecked_witness:
  "PSC_JsonSerializer_deserialize no_floats (''{xa'' @ [CHR 0x22] @ '':true}'') = Ok (JObject (Some [(''a'', JTrue)]))"
  using json_key_quote_unchecked [of JTrue "CHR ''x''" no_floats "''a''"]
  by (simp add: NUL_def jstring_def escape_def litTrue_def)

text \<open>
  The bytes for an escaped character are the UTF-8 encoding of its code point, for
  every code point.\<close>

theorem json_unicode_utf8:
  assumes "u < 0x110000"
  shows "utf8_decode (utf8_chars u) = Some u"
  using assms by (intro utf8_ok) (simp add: word_less_nat_alt)

theorem json_unicode_utf8_witness:
  "utf8_decode (utf8_chars 0x1f600) = Some 0x1f600 \<and> utf8_chars 0x1f600 = [0xf0, 0x9f, 0x98, 0x80]"
  using json_unicode_utf8 [of "0x1f600"] by (simp add: utf8_chars_def)

end
