(* ===== verification/Poser_IpAddr.thy ===== *)
theory Poser_IpAddr
  imports C_Numbers
begin

text \<open>
  \<open>PSC_IpAddr\<close> (\<open>src/lib/core/ipaddr.c\<close>): parsing and printing of IPv4 and IPv6
  addresses with a prefix length, networks and the mapping between the protocols.  An
  address has 16 bytes; those of an IPv4 address are the last four.  The port of an
  address is \<^const>\<open>None\<close> where the code leaves it uninitialised.
\<close>

section \<open>Model\<close>

datatype PSC_Proto = PSC_P_ANY | PSC_P_IPv4 | PSC_P_IPv6

record PSC_IpAddr =
  ip_refcnt :: u32
  ip_proto :: PSC_Proto
  ip_prefixlen :: nat
  ip_port :: "int option"
  ip_data :: "u8 list"
  ip_str :: string

text \<open>The loop of \<open>parsev4\<close> over the bytes; \<open>n\<close> counts those that are left.\<close>

fun v4_loop :: "nat \<Rightarrow> string \<Rightarrow> u8 list \<Rightarrow> u8 list option" where
  "v4_loop 0 bufp v4dat = Some v4dat"
| "v4_loop (Suc n) bufp v4dat =
     (case strtol10 bufp of (byte, endp, erange) \<Rightarrow>
        if length endp = length bufp \<or> (if n = 0 then endp \<noteq> [] else peek endp \<noteq> CHR ''.'')
           \<or> erange \<or> byte < 0 \<or> 255 < byte then None
        else v4_loop n (if 0 < n then tl endp else endp) (v4dat @ [word_of_int byte]))"

definition parsev4 :: "u8 list \<Rightarrow> string \<Rightarrow> u8 list option" where
  "parsev4 data buf = (case v4_loop 4 buf [] of None \<Rightarrow> None | Some v4dat \<Rightarrow> Some (take 12 data @ v4dat))"

lemma strtol_result_length: "strtol_result str neg n ds s = (v, endp, er) \<Longrightarrow> length s \<le> length str \<Longrightarrow> length endp \<le> length str"
  by (auto simp: strtol_result_def Let_def split: if_splits)

lemma split_sign_length: "split_sign s = (neg, s') \<Longrightarrow> length s' \<le> length s"
  by (auto simp: split_sign_def split: list.splits if_splits)

lemma skip_0x_length: "length (skip_0x s) \<le> length s"
  by (auto simp: skip_0x_def split: list.splits)

lemma strtol16_length: "strtol16 str = (v, endp, er) \<Longrightarrow> length endp \<le> length str"
  using split_sign_length [of "dropWhile is_space str"] length_dropWhile_le [of is_space str] skip_0x_length
  by (fastforce simp: strtol16_def Let_def split: prod.splits intro: le_trans elim!: strtol_result_length)

text \<open>
  The loop of \<open>parsev6\<close>.  \<open>tail\<close> holds the bytes behind \<open>::\<close>, once it was seen.  The
  number \<open>len\<close> of bytes is even, so there is room for two when it is less than 16.
\<close>

function v6_loop :: "u8 list \<Rightarrow> nat \<Rightarrow> u8 list option \<Rightarrow> string \<Rightarrow> (u8 list \<times> u8 list option) option" where
  "v6_loop data len tail buf =
     (if buf = [] then Some (data, tail)
      else if tail = None \<and> take 2 buf = ''::'' then v6_loop data len (Some []) (drop 2 buf)
      else (case strtol16 buf of (word, endp, erange) \<Rightarrow>
          if length endp = length buf \<or> endp \<noteq> [] \<and> peek endp \<noteq> CHR '':'' \<or> erange \<or> word < 0 \<or> 0xffff < word
          then None
          else if 16 \<le> len then None
          else (let hi = word_of_int (word div 256);
                    lo = word_of_int word;
                    buf' = (if peek endp = CHR '':'' \<and> peek (tl endp) \<noteq> CHR '':'' then tl endp else endp)
                in case tail of
                     None \<Rightarrow> v6_loop (data[len := hi, Suc len := lo]) (len + 2) None buf'
                   | Some t \<Rightarrow> v6_loop data (len + 2) (Some (t @ [hi, lo])) buf')))"
  by pat_completeness auto
termination
  by (relation "measure (\<lambda>(d, l, t, buf). length buf)")
    (auto simp: Let_def dest!: sym [of _ "strtol16 _"] strtol16_length split: if_splits)

declare v6_loop.simps [simp del]

definition parsev6 :: "u8 list \<Rightarrow> string \<Rightarrow> u8 list option" where
  "parsev6 data buf =
     (case v6_loop data 0 None buf of
        None \<Rightarrow> None
      | Some (data, tail) \<Rightarrow> (case tail of None \<Rightarrow> Some data | Some t \<Rightarrow> Some (take (16 - length t) data @ t)))"

section \<open>Printing\<close>

definition prefix_text :: "nat \<Rightarrow> nat \<Rightarrow> string" where
  "prefix_text full prefixlen = (if prefixlen < full then CHR ''/'' # show_nat prefixlen else [])"

definition v4_text :: "u8 list \<Rightarrow> string" where
  "v4_text data = show_nat (unat (data ! 12)) @ CHR ''.'' # show_nat (unat (data ! 13)) @ CHR ''.'' #
     show_nat (unat (data ! 14)) @ CHR ''.'' # show_nat (unat (data ! 15))"

definition v6_words :: "u8 list \<Rightarrow> nat list" where
  "v6_words data = map (\<lambda>i. 256 * unat (data ! (2 * i)) + unat (data ! (2 * i + 1))) [0..<8]"

text \<open>The loop that looks for a run of zero words.\<close>

fun find_gap :: "nat \<Rightarrow> nat \<Rightarrow> nat \<Rightarrow> nat list \<Rightarrow> nat \<times> nat" where
  "find_gap i gap gaplen [] = (gap, gaplen)"
| "find_gap i gap gaplen (w # ws) =
     (if w = 0
      then (if gap + gaplen < i then find_gap (Suc i) i 1 ws else find_gap (Suc i) gap (Suc gaplen) ws)
      else find_gap (Suc i) gap gaplen ws)"

function v6_print :: "nat list \<Rightarrow> nat \<Rightarrow> nat \<Rightarrow> nat \<Rightarrow> bool \<Rightarrow> string" where
  "v6_print ws gap gaplen i needcolon =
     (if i < 8
      then (if i = gap \<and> 0 < gaplen then ''::'' @ v6_print ws gap gaplen (i + gaplen) False
            else (if needcolon then '':'' else '''') @ show_hex (ws ! i) @ v6_print ws gap gaplen (Suc i) True)
      else [])"
  by pat_completeness auto
termination
  by (relation "measure (\<lambda>(ws, g, l, i, n). 8 - i)") auto

declare v6_print.simps [simp del]

definition v6_text :: "u8 list \<Rightarrow> string" where
  "v6_text data =
     (let ws = v6_words data in case find_gap 0 0 0 ws of (gap, gaplen) \<Rightarrow> v6_print ws gap gaplen 0 False)"

definition ip_toString :: "PSC_Proto \<Rightarrow> nat \<Rightarrow> u8 list \<Rightarrow> string" where
  "ip_toString proto prefixlen data =
     (if proto = PSC_P_IPv4 then v4_text data @ prefix_text 32 prefixlen
      else v6_text data @ prefix_text 128 prefixlen)"

definition toString :: "PSC_IpAddr \<Rightarrow> PSC_IpAddr" where
  "toString self = self\<lparr>ip_str := ip_toString (ip_proto self) (ip_prefixlen self) (ip_data self)\<rparr>"

section \<open>Operations\<close>

text \<open>Socket addresses: the address in network byte order, and the port.\<close>

datatype sockaddr = AF_INET "u8 list" u16 | AF_INET6 "u8 list" u16 | AF_OTHER

definition new_addr :: "PSC_Proto \<Rightarrow> nat \<Rightarrow> int option \<Rightarrow> u8 list \<Rightarrow> PSC_IpAddr" where
  "new_addr proto prefixlen port data =
     toString \<lparr>ip_refcnt = 1, ip_proto = proto, ip_prefixlen = prefixlen, ip_port = port, ip_data = data, ip_str = []\<rparr>"

definition PSC_IpAddr_fromSockAddr :: "sockaddr \<Rightarrow> PSC_IpAddr option" where
  "PSC_IpAddr_fromSockAddr addr =
     (case addr of
        AF_INET s_addr port \<Rightarrow> Some (new_addr PSC_P_IPv4 32 (Some (uint port)) (replicate 12 0 @ s_addr))
      | AF_INET6 s6_addr port \<Rightarrow> Some (new_addr PSC_P_IPv6 128 (Some (uint port)) s6_addr)
      | AF_OTHER \<Rightarrow> None)"

text \<open>The prefix length behind a slash: \<open>None\<close> for an error, \<open>Some None\<close> without a slash.\<close>

definition parse_prefix :: "string \<Rightarrow> nat option option" where
  "parse_prefix str =
     (case dropWhile (\<lambda>c. c \<noteq> CHR ''/'') str of
        [] \<Rightarrow> Some None
      | c # prstr \<Rightarrow> (case strtol10 prstr of (prefixval, endp, erange) \<Rightarrow>
          if length endp = length prstr \<or> endp \<noteq> [] \<or> erange \<or> prefixval < 0 \<or> 128 < prefixval then None
          else Some (Some (nat prefixval))))"

definition PSC_IpAddr_create :: "string \<Rightarrow> PSC_IpAddr option" where
  "PSC_IpAddr_create str =
     (if length str < 2 \<or> 43 < length str then None
      else (case parse_prefix str of
          None \<Rightarrow> None
        | Some prefix \<Rightarrow>
            (let buf = takeWhile (\<lambda>c. c \<noteq> CHR ''/'') str;
                 data = replicate 16 0
             in case parsev4 data buf of
                  Some data \<Rightarrow>
                    (case prefix of
                       None \<Rightarrow> Some (new_addr PSC_P_IPv4 32 (Some (-1)) data)
                     | Some prefixlen \<Rightarrow> if 32 < prefixlen then None
                         else Some (new_addr PSC_P_IPv4 prefixlen (Some (-1)) data))
                | None \<Rightarrow> (case parsev6 data buf of
                    Some data \<Rightarrow> Some (new_addr PSC_P_IPv6 (case prefix of None \<Rightarrow> 128 | Some l \<Rightarrow> l) (Some (-1)) data)
                  | None \<Rightarrow> None))))"

definition PSC_IpAddr_ref :: "PSC_IpAddr \<Rightarrow> PSC_IpAddr" where
  "PSC_IpAddr_ref self = self\<lparr>ip_refcnt := ip_refcnt self + 1\<rparr>"

text \<open>Destroying: \<^const>\<open>None\<close> when the memory is released.\<close>

definition PSC_IpAddr_destroy :: "PSC_IpAddr \<Rightarrow> PSC_IpAddr option" where
  "PSC_IpAddr_destroy self =
     (if 1 < ip_refcnt self then Some (self\<lparr>ip_refcnt := ip_refcnt self - 1\<rparr>) else None)"

definition PSC_IpAddr_equals :: "PSC_IpAddr \<Rightarrow> PSC_IpAddr \<Rightarrow> bool" where
  "PSC_IpAddr_equals self other =
     (if ip_proto self \<noteq> ip_proto other then False
      else if ip_prefixlen self \<noteq> ip_prefixlen other then False
      else ip_data self = ip_data other)"

definition PSC_IpAddr_matches :: "PSC_IpAddr \<Rightarrow> PSC_IpAddr \<Rightarrow> bool" where
  "PSC_IpAddr_matches self prefix =
     (if ip_proto self \<noteq> ip_proto prefix then False
      else if ip_prefixlen self < ip_prefixlen prefix then False
      else (let bytes = ip_prefixlen prefix div 8;
                bits = ip_prefixlen prefix mod 8;
                m = push_bit (8 - bits) 0xff :: u8
            in if take bytes (ip_data self) \<noteq> take bytes (ip_data prefix) then False
               else if bits = 0 then True
               else (ip_data self ! bytes AND m) = (ip_data prefix ! bytes AND m)))"

definition PSC_IpAddr_tov4 :: "PSC_IpAddr \<Rightarrow> PSC_IpAddr list \<Rightarrow> PSC_IpAddr option" where
  "PSC_IpAddr_tov4 self prefixes =
     (if ip_prefixlen self < 96 then None
      else if \<not> list_ex (\<lambda>prefix. ip_prefixlen prefix = 96 \<and> PSC_IpAddr_matches self prefix) prefixes then None
      else Some (new_addr PSC_P_IPv4 (ip_prefixlen self - 96) (Some (-1)) (replicate 12 0 @ drop 12 (ip_data self))))"

text \<open>The port of the new address is not set.\<close>

definition PSC_IpAddr_tov6 :: "PSC_IpAddr \<Rightarrow> PSC_IpAddr \<Rightarrow> PSC_IpAddr option" where
  "PSC_IpAddr_tov6 self prefix =
     (if ip_proto self \<noteq> PSC_P_IPv4 \<or> ip_prefixlen prefix \<noteq> 96 then None
      else Some (new_addr PSC_P_IPv6 (ip_prefixlen self + 96) None (take 12 (ip_data prefix) @ drop 12 (ip_data self))))"

definition PSC_IpAddr_sockAddr :: "PSC_IpAddr \<Rightarrow> sockaddr option" where
  "PSC_IpAddr_sockAddr self =
     (if ip_proto self = PSC_P_IPv4 then Some (AF_INET (drop 12 (ip_data self)) 0)
      else if ip_proto self = PSC_P_IPv6 then Some (AF_INET6 (ip_data self) 0)
      else None)"

definition PSC_IpAddr_raw :: "PSC_IpAddr \<Rightarrow> u8 list" where
  "PSC_IpAddr_raw self =
     (case ip_proto self of PSC_P_IPv4 \<Rightarrow> drop 12 (ip_data self) | _ \<Rightarrow> ip_data self)"

section \<open>Networks\<close>

text \<open>Bit \<open>n\<close> of the 16 bytes, the most significant one first.\<close>

definition addr_bit :: "u8 list \<Rightarrow> nat \<Rightarrow> bool" where
  "addr_bit data n = bit (data ! (n div 8)) (7 - n mod 8)"

definition wf_ip :: "PSC_IpAddr \<Rightarrow> bool" where
  [wf_defs]: "wf_ip a \<longleftrightarrow> length (ip_data a) = 16 \<and>
     ip_str a = ip_toString (ip_proto a) (ip_prefixlen a) (ip_data a) \<and>
     (case ip_proto a of
        PSC_P_IPv4 \<Rightarrow> ip_prefixlen a \<le> 32 \<and> take 12 (ip_data a) = replicate 12 0
      | PSC_P_IPv6 \<Rightarrow> ip_prefixlen a \<le> 128
      | PSC_P_ANY \<Rightarrow> False)"

lemma all_less_div_mod:
  "(\<forall>n < 8 * q + r. P (n div 8) (n mod 8)) \<longleftrightarrow> (\<forall>i < q. \<forall>j < 8. P i j) \<and> (\<forall>j < r. P q j)" if "r \<le> 8" for q r :: nat
proof (intro iffI conjI allI impI)
  fix i j :: nat assume *: "\<forall>n < 8 * q + r. P (n div 8) (n mod 8)" "i < q" "j < 8"
  then have "8 * i + j < 8 * q + r" by simp
  with * show "P i j" using *(1) [rule_format, of "8 * i + j"] by simp
next
  fix j :: nat assume *: "\<forall>n < 8 * q + r. P (n div 8) (n mod 8)" "j < r"
  with that show "P q j" using *(1) [rule_format, of "8 * q + j"] by simp
next
  fix n :: nat assume *: "(\<forall>i < q. \<forall>j < 8. P i j) \<and> (\<forall>j < r. P q j)" "n < 8 * q + r"
  show "P (n div 8) (n mod 8)"
  proof (cases "n div 8 < q")
    case True
    then show ?thesis using * by simp
  next
    case False
    then have "n div 8 = q" using *(2) that by linarith
    moreover from this have "n mod 8 < r" using *(2) by presburger
    ultimately show ?thesis using * by simp
  qed
qed

lemma byte_eq_iff: "x = y \<longleftrightarrow> (\<forall>j < 8. bit x (7 - j) = bit y (7 - j))" for x y :: u8
proof
  assume *: "\<forall>j < 8. bit x (7 - j) = bit y (7 - j)"
  show "x = y"
  proof (rule bit_word_eqI)
    fix n assume "n < LENGTH(8)"
    then show "bit x n = bit y n" using * [rule_format, of "7 - n"] by simp
  qed
qed simp

lemma masked_byte_eq_iff:
  fixes x y :: u8
  assumes "r < 8"
  shows "(x AND push_bit (8 - r) 0xff) = (y AND push_bit (8 - r) 0xff) \<longleftrightarrow> (\<forall>j < r. bit x (7 - j) = bit y (7 - j))"
proof -
  have ff: "(0xff :: u8) = mask 8" by (simp add: mask_eq_exp_minus_1)
  have m: "bit (push_bit (8 - r) 0xff :: u8) n \<longleftrightarrow> 8 - r \<le> n \<and> n < 8" for n
    unfolding ff by (auto simp: bit_simps bit_mask_iff simp del: mask_numeral)
  show ?thesis
  proof
    assume *: "(x AND push_bit (8 - r) 0xff) = (y AND push_bit (8 - r) 0xff)"
    show "\<forall>j < r. bit x (7 - j) = bit y (7 - j)"
    proof (intro allI impI)
      fix j assume "j < r"
      then have "bit (push_bit (8 - r) 0xff :: u8) (7 - j)" using assms by (simp add: m, linarith)
      then show "bit x (7 - j) = bit y (7 - j)"
        using arg_cong [OF *, of "\<lambda>w. bit w (7 - j)"] by (simp add: bit_and_iff)
    qed
  next
    assume *: "\<forall>j < r. bit x (7 - j) = bit y (7 - j)"
    show "(x AND push_bit (8 - r) 0xff) = (y AND push_bit (8 - r) 0xff)"
    proof (rule bit_word_eqI)
      fix n assume "n < LENGTH(8)"
      then show "bit (x AND push_bit (8 - r) 0xff) n = bit (y AND push_bit (8 - r) 0xff) n"
        using * [rule_format, of "7 - n"] by (auto simp: bit_and_iff m)
    qed
  qed
qed

lemma take_eq_iff:
  "length xs = length ys \<Longrightarrow> k \<le> length xs \<Longrightarrow> take k xs = take k ys \<longleftrightarrow> (\<forall>i < k. xs ! i = ys ! i)"
  by (auto simp: list_eq_iff_nth_eq)

lemma matches_bits:
  assumes "length (ip_data a) = 16" "length (ip_data p) = 16" "ip_prefixlen p \<le> 128"
  shows "PSC_IpAddr_matches a p \<longleftrightarrow> ip_proto a = ip_proto p \<and> ip_prefixlen p \<le> ip_prefixlen a \<and>
    (\<forall>n < ip_prefixlen p. addr_bit (ip_data a) n = addr_bit (ip_data p) n)"
proof -
  let ?q = "ip_prefixlen p div 8" and ?r = "ip_prefixlen p mod 8"
  let ?P = "\<lambda>i j. bit (ip_data a ! i) (7 - j) = bit (ip_data p ! i) (7 - j)"
  have r: "?r < 8" by simp
  let ?A = "take ?q (ip_data a) = take ?q (ip_data p)"
  let ?B = "(ip_data a ! ?q AND push_bit (8 - ?r) 0xff) = (ip_data p ! ?q AND push_bit (8 - ?r) 0xff)"
  have "(\<forall>n < 8 * ?q + ?r. addr_bit (ip_data a) n = addr_bit (ip_data p) n) \<longleftrightarrow>
      (\<forall>i < ?q. \<forall>j < 8. ?P i j) \<and> (\<forall>j < ?r. ?P ?q j)"
    unfolding addr_bit_def using all_less_div_mod [of ?r ?q ?P] r by simp
  moreover have "8 * ?q + ?r = ip_prefixlen p" by simp
  moreover have "?A \<longleftrightarrow> (\<forall>i < ?q. ip_data a ! i = ip_data p ! i)"
    using assms by (intro take_eq_iff) auto
  moreover have "(\<forall>i < ?q. ip_data a ! i = ip_data p ! i) \<longleftrightarrow> (\<forall>i < ?q. \<forall>j < 8. ?P i j)"
    using byte_eq_iff by blast
  moreover have "?B \<longleftrightarrow> (\<forall>j < ?r. ?P ?q j)"
    using masked_byte_eq_iff [OF r] by blast
  ultimately have spec: "(\<forall>n < ip_prefixlen p. addr_bit (ip_data a) n = addr_bit (ip_data p) n) \<longleftrightarrow> ?A \<and> ?B"
    by metis
  have "?r = 0 \<Longrightarrow> ?B" using masked_byte_eq_iff [OF r] by simp
  moreover have "PSC_IpAddr_matches a p \<longleftrightarrow> ip_proto a = ip_proto p \<and> ip_prefixlen p \<le> ip_prefixlen a \<and> ?A \<and> (?r = 0 \<or> ?B)"
    unfolding PSC_IpAddr_matches_def Let_def by (simp add: not_less)
  ultimately show ?thesis unfolding spec by argo
qed

text \<open>
  Matching IPv6 networks.  An address matches a network exactly when it has at least the
  prefix length of the network and agrees with it in every bit of that prefix.
\<close>

theorem ipv6_matches_prefix:
  assumes "wf_ip a" "wf_ip p" "ip_proto p = PSC_P_IPv6"
  shows "PSC_IpAddr_matches a p \<longleftrightarrow> ip_proto a = PSC_P_IPv6 \<and> ip_prefixlen p \<le> ip_prefixlen a \<and>
    (\<forall>n < ip_prefixlen p. addr_bit (PSC_IpAddr_raw a) n = addr_bit (PSC_IpAddr_raw p) n)"
  using assms matches_bits [of a p] by (auto simp: wf_ip_def PSC_IpAddr_raw_def)

theorem ipv6_matches_prefix_witness:
  "PSC_IpAddr_matches (new_addr PSC_P_IPv6 128 (Some 80) (0xfe # 0x8f # replicate 14 1))
     (new_addr PSC_P_IPv6 10 (Some (-1)) (0xfe # 0x80 # replicate 14 0))"
proof -
  let ?a = "new_addr PSC_P_IPv6 128 (Some 80) (0xfe # 0x8f # replicate 14 1)"
  let ?p = "new_addr PSC_P_IPv6 10 (Some (-1)) (0xfe # 0x80 # replicate 14 0)"
  have "wf_ip ?a" "wf_ip ?p" "ip_proto ?p = PSC_P_IPv6" by (simp_all add: wf_ip_def new_addr_def toString_def)
  moreover have "\<forall>n < 10. addr_bit (ip_data ?a) n = addr_bit (ip_data ?p) n"
  proof (intro allI impI)
    fix n :: nat assume "n < 10"
    then have "n div 8 = 0 \<or> n = 8 \<or> n = 9" by presburger
    then show "addr_bit (ip_data ?a) n = addr_bit (ip_data ?p) n"
      by (auto simp: new_addr_def toString_def addr_bit_def bit_numeral_rec)
  qed
  ultimately show ?thesis using ipv6_matches_prefix [of ?a ?p] by (simp add: new_addr_def toString_def PSC_IpAddr_raw_def)
qed

text \<open>
  IPv4 networks are not distinguished.  The bytes of an IPv4 address are the last four
  of the 16, but the comparison starts at the first, where all IPv4 addresses have zeroes:
  an address matches every IPv4 network whose prefix length is not larger than its own.
\<close>

theorem ipv4_matches_any:
  assumes "wf_ip a" "wf_ip p" "ip_proto p = PSC_P_IPv4"
  shows "PSC_IpAddr_matches a p \<longleftrightarrow> ip_proto a = PSC_P_IPv4 \<and> ip_prefixlen p \<le> ip_prefixlen a"
proof -
  have "addr_bit (ip_data x) n = False" if "wf_ip x" "ip_proto x = PSC_P_IPv4" "n < 32" for x n
  proof -
    have "n div 8 < 12" using that(3) by simp
    moreover have "take 12 (ip_data x) = replicate 12 0" using that by (simp add: wf_ip_def)
    ultimately have "ip_data x ! (n div 8) = 0" by (metis nth_take nth_replicate)
    then show ?thesis by (simp add: addr_bit_def)
  qed
  then show ?thesis using assms matches_bits [of a p] by (fastforce simp: wf_ip_def)
qed

theorem ipv4_matches_any_witness:
  "PSC_IpAddr_matches (new_addr PSC_P_IPv4 32 None (replicate 12 0 @ [192, 168, 0, 1]))
     (new_addr PSC_P_IPv4 8 None (replicate 12 0 @ [10, 0, 0, 0]))"
proof -
  let ?a = "new_addr PSC_P_IPv4 32 None (replicate 12 0 @ [192, 168, 0, 1])"
  let ?p = "new_addr PSC_P_IPv4 8 None (replicate 12 0 @ [10, 0, 0, 0])"
  have "wf_ip ?a" "wf_ip ?p" "ip_proto ?p = PSC_P_IPv4" by (simp_all add: wf_ip_def new_addr_def toString_def)
  from ipv4_matches_any [OF this] show ?thesis by (simp add: new_addr_def toString_def)
qed

text \<open>
  Mapping between the protocols.  Embedding an IPv4 address or network into IPv6 with a
  96-bit prefix and mapping the result back with a list that holds the prefix gives an
  address that equals the original one.
\<close>

theorem ipaddr_tov6_tov4:
  assumes "wf_ip a" "wf_ip p" "ip_proto p = PSC_P_IPv6" "ip_prefixlen p = 96" "p \<in> set prefixes"
    and "PSC_IpAddr_tov6 a p = Some b"
  shows "\<exists>c. PSC_IpAddr_tov4 b prefixes = Some c \<and> PSC_IpAddr_equals c a \<and> wf_ip b \<and> wf_ip c"
proof -
  have a: "ip_proto a = PSC_P_IPv4" "length (ip_data a) = 16" "ip_prefixlen a \<le> 32" "take 12 (ip_data a) = replicate 12 0"
    using assms(1,4,6) by (auto simp: PSC_IpAddr_tov6_def wf_ip_def split: if_splits)
  have p: "length (ip_data p) = 16" using assms(2) by (simp add: wf_ip_def)
  have b: "b = new_addr PSC_P_IPv6 (ip_prefixlen a + 96) None (take 12 (ip_data p) @ drop 12 (ip_data a))"
    using assms(4,6) a(1) by (simp add: PSC_IpAddr_tov6_def)
  have "PSC_IpAddr_matches b p"
    using assms(3,4) p a(2) by (simp add: b PSC_IpAddr_matches_def new_addr_def toString_def)
  then have "list_ex (\<lambda>prefix. ip_prefixlen prefix = 96 \<and> PSC_IpAddr_matches b prefix) prefixes"
    using assms(4,5) by (auto simp: list_ex_iff)
  moreover have "replicate 12 0 @ drop 12 (ip_data a) = ip_data a"
    using a(4) by (metis append_take_drop_id)
  ultimately have "PSC_IpAddr_tov4 b prefixes = Some (new_addr PSC_P_IPv4 (ip_prefixlen a) (Some (-1)) (ip_data a))"
    using p by (simp add: PSC_IpAddr_tov4_def) (simp add: b new_addr_def toString_def)
  moreover have "wf_ip b" using p a by (simp add: b wf_ip_def new_addr_def toString_def)
  ultimately show ?thesis using a by (auto simp: PSC_IpAddr_equals_def wf_ip_def new_addr_def toString_def)
qed

theorem ipaddr_tov6_tov4_witness:
  "\<exists>c. PSC_IpAddr_tov4
     (the (PSC_IpAddr_tov6 (new_addr PSC_P_IPv4 24 None (replicate 12 0 @ [10, 1, 2, 0]))
        (new_addr PSC_P_IPv6 96 None (0 # 0x64 # 0xff # 0x9b # replicate 12 0))))
     [new_addr PSC_P_IPv6 96 None (0 # 0x64 # 0xff # 0x9b # replicate 12 0)] = Some c \<and>
   PSC_IpAddr_equals c (new_addr PSC_P_IPv4 24 None (replicate 12 0 @ [10, 1, 2, 0]))"
proof -
  let ?a = "new_addr PSC_P_IPv4 24 None (replicate 12 0 @ [10, 1, 2, 0])"
  let ?p = "new_addr PSC_P_IPv6 96 None (0 # 0x64 # 0xff # 0x9b # replicate 12 0)"
  have "wf_ip ?a" "wf_ip ?p" "ip_proto ?p = PSC_P_IPv6" "ip_prefixlen ?p = 96" "?p \<in> set [?p]"
    by (simp_all add: wf_ip_def new_addr_def toString_def)
  moreover have "PSC_IpAddr_tov6 ?a ?p = Some (the (PSC_IpAddr_tov6 ?a ?p))"
    by (simp add: PSC_IpAddr_tov6_def new_addr_def toString_def)
  ultimately show ?thesis using ipaddr_tov6_tov4 by blast
qed

section \<open>Reading printed addresses\<close>

text \<open>Words with colons between them.\<close>

fun colons :: "nat list \<Rightarrow> string" where
  "colons [] = []"
| "colons [w] = show_hex w"
| "colons (w # ws) = show_hex w @ CHR '':'' # colons ws"

lemma colons_Cons: "colons (w # ws) = show_hex w @ (if ws = [] then [] else CHR '':'' # colons ws)"
  by (cases ws) simp_all

lemma print_plain:
  "\<forall>k \<in> {i..<8}. \<not> (k = gap \<and> 0 < gaplen) \<Longrightarrow> length ws = 8 \<Longrightarrow> i \<le> 8 \<Longrightarrow>
   v6_print ws gap gaplen i nc = (if i < 8 then (if nc then '':'' else '''') @ colons (drop i ws) else [])"
proof (induction "8 - i" arbitrary: i nc)
  case 0
  then show ?case by (subst v6_print.simps) simp
next
  case (Suc d)
  then have i: "i < 8" by simp
  have IH: "v6_print ws gap gaplen (Suc i) True = (if Suc i < 8 then '':'' @ colons (drop (Suc i) ws) else [])"
    using Suc.prems Suc.hyps(2) i by (subst Suc.hyps(1)) auto
  have d: "drop i ws = ws ! i # drop (Suc i) ws" using i Suc.prems(2) by (simp add: Cons_nth_drop_Suc)
  have "v6_print ws gap gaplen i nc = (if nc then '':'' else '''') @ show_hex (ws ! i) @ v6_print ws gap gaplen (Suc i) True"
    using i Suc.prems(1) by (subst v6_print.simps) auto
  then show ?case using i Suc.prems(2) by (simp add: IH d colons_Cons)
qed

lemma print_gap:
  "i \<le> gap \<Longrightarrow> 0 < gaplen \<Longrightarrow> gap < 8 \<Longrightarrow> length ws = 8 \<Longrightarrow>
   v6_print ws gap gaplen i nc =
     (if i < gap then (if nc then '':'' else '''') @ colons (take (gap - i) (drop i ws)) else []) @
     ''::'' @ v6_print ws gap gaplen (gap + gaplen) False"
proof (induction "gap - i" arbitrary: i nc)
  case 0
  then show ?case by (subst v6_print.simps) simp
next
  case (Suc d)
  then have i: "i < gap" by simp
  have IH: "v6_print ws gap gaplen (Suc i) True =
      (if Suc i < gap then '':'' @ colons (take (gap - Suc i) (drop (Suc i) ws)) else []) @
      ''::'' @ v6_print ws gap gaplen (gap + gaplen) False"
    using Suc.prems Suc.hyps(2) i by (subst Suc.hyps(1)) auto
  have d: "take (gap - i) (drop i ws) = ws ! i # take (gap - Suc i) (drop (Suc i) ws)"
    using i Suc.prems by (simp add: Cons_nth_drop_Suc [symmetric] take_Cons')
  have "v6_print ws gap gaplen i nc = (if nc then '':'' else '''') @ show_hex (ws ! i) @ v6_print ws gap gaplen (Suc i) True"
    using i Suc.prems by (subst v6_print.simps) auto
  moreover have "take (gap - Suc i) (drop (Suc i) ws) = [] \<longleftrightarrow> \<not> Suc i < gap" using Suc.prems i by auto
  ultimately show ?case using i by (simp add: IH d colons_Cons)
qed

text \<open>A gap is a run of zero words inside the address.\<close>

lemma find_gap_ok:
  "find_gap i gap gaplen ws = (g, l) \<Longrightarrow> gap + gaplen \<le> i \<Longrightarrow> length pre = i \<Longrightarrow>
   \<forall>k. gap \<le> k \<and> k < gap + gaplen \<longrightarrow> (pre @ ws) ! k = 0 \<Longrightarrow>
   g + l \<le> i + length ws \<and> (\<forall>k. g \<le> k \<and> k < g + l \<longrightarrow> (pre @ ws) ! k = 0)"
proof (induction i gap gaplen ws arbitrary: pre rule: find_gap.induct)
  case (1 i gap gaplen)
  then show ?case by auto
next
  case (2 i gap gaplen w ws)
  have pre: "length (pre @ [w]) = Suc i" "(pre @ [w]) @ ws = pre @ w # ws" using "2.prems"(3) by simp_all
  have wi: "(pre @ w # ws) ! i = w" using "2.prems"(3) by (simp add: nth_append)
  show ?case
  proof (cases "w = 0")
    case True
    show ?thesis
    proof (cases "gap + gaplen < i")
      case new: True
      have fg: "find_gap (Suc i) i 1 ws = (g, l)" using "2.prems"(1) True new by simp
      have "\<forall>k. i \<le> k \<and> k < i + 1 \<longrightarrow> ((pre @ [w]) @ ws) ! k = 0"
        using wi True by (auto simp: less_Suc_eq_le pre(2))
      from "2.IH"(1) [OF True new fg _ pre(1) this] show ?thesis unfolding pre(2) by simp
    next
      case False
      then have i: "i = gap + gaplen" using "2.prems"(2) by simp
      have fg: "find_gap (Suc i) gap (Suc gaplen) ws = (g, l)" using "2.prems"(1) True False by simp
      have "((pre @ [w]) @ ws) ! k = 0" if "gap \<le> k \<and> k < gap + Suc gaplen" for k
        using "2.prems"(4) wi True that unfolding pre(2) by (cases "k = i") (simp_all add: i)
      then have "\<forall>k. gap \<le> k \<and> k < gap + Suc gaplen \<longrightarrow> ((pre @ [w]) @ ws) ! k = 0" by blast
      from "2.IH"(2) [OF True False fg _ pre(1) this] show ?thesis unfolding pre(2) using i by simp
    qed
  next
    case False
    have fg: "find_gap (Suc i) gap gaplen ws = (g, l)" using "2.prems"(1) False by simp
    have "\<forall>k. gap \<le> k \<and> k < gap + gaplen \<longrightarrow> ((pre @ [w]) @ ws) ! k = 0"
      using "2.prems"(4) unfolding pre(2) .
    from "2.IH"(3) [OF False fg _ pre(1) this] "2.prems"(2) show ?thesis unfolding pre(2) by simp
  qed
qed

text \<open>The text of an IPv6 address: all words, or those around a run of zero words.\<close>

lemma v6_text_cases:
  assumes "length data = 16" "ws = v6_words data"
  obtains (plain) "v6_text data = colons ws"
    | (gap) g l where "0 < l" "g + l \<le> 8" "v6_text data = colons (take g ws) @ ''::'' @ colons (drop (g + l) ws)"
        "\<forall>k. g \<le> k \<and> k < g + l \<longrightarrow> ws ! k = 0"
proof -
  have len: "length ws = 8" by (simp add: assms(2) v6_words_def)
  obtain g l where gl: "find_gap 0 0 0 ws = (g, l)" by fastforce
  have ok: "g + l \<le> 8" "\<forall>k. g \<le> k \<and> k < g + l \<longrightarrow> ws ! k = 0"
    using find_gap_ok [OF gl, of "[]"] len by auto
  have vt: "v6_text data = v6_print ws g l 0 False"
    by (simp add: v6_text_def gl flip: assms(2))
  show thesis
  proof (cases "l = 0")
    case True
    then have "v6_text data = colons ws" using print_plain [of 0 g l ws False] len vt by simp
    then show thesis by (rule plain)
  next
    case False
    then have l: "0 < l" "g < 8" using ok(1) by auto
    have "v6_print ws g l (g + l) False = colons (drop (g + l) ws)"
      using print_plain [of "g + l" g l ws False] len ok(1) l by auto
    moreover have "take g ws = [] \<longleftrightarrow> g = 0" using len by auto
    ultimately have "v6_text data = colons (take g ws) @ ''::'' @ colons (drop (g + l) ws)"
      using print_gap [of 0 g l ws False] l len vt by auto
    with l(1) ok show thesis by (intro gap)
  qed
qed

definition word_bytes :: "nat \<Rightarrow> u8 list" where
  "word_bytes w = [of_nat (w div 256), of_nat w]"

lemma xdigit_colon: "is_xdigit c \<Longrightarrow> c \<noteq> CHR '':'' \<and> c \<noteq> CHR ''.'' \<and> c \<noteq> CHR ''/''"
  by (auto simp: is_xdigit_def is_digit_def less_eq_char_def)

definition skip_colon :: "string \<Rightarrow> string" where
  "skip_colon r = (if peek r = CHR '':'' \<and> peek (tl r) \<noteq> CHR '':'' then tl r else r)"

lemma v6_word:
  assumes r: "r = [] \<or> peek r = CHR '':''" and w: "w < 0x10000" and len: "len < 16"
  shows "v6_loop data len tail (show_hex w @ r) =
    (case tail of
       None \<Rightarrow> v6_loop (data[len := of_nat (w div 256), Suc len := of_nat w]) (len + 2) None (skip_colon r)
     | Some t \<Rightarrow> v6_loop data (len + 2) (Some (t @ word_bytes w)) (skip_colon r))"
proof -
  have x: "\<not> is_xdigit (peek r)" "peek r \<noteq> CHR ''x''" "peek r \<noteq> CHR ''X''"
    using r by (auto simp: peek_def NUL_def is_xdigit_def is_digit_def less_eq_char_def)
  have s: "strtol16 (show_hex w @ r) = (int w, r, False)"
    using w by (intro strtol16_show [OF x]) (simp add: LLONG_MAX_def)
  obtain d ds where d: "show_hex w = d # ds" "is_xdigit d" using show_hex_ok [of w] by (cases "show_hex w") auto
  have ne: "take 2 (show_hex w @ r) \<noteq> ''::''" using d xdigit_colon [OF d(2)] by simp
  have hi: "word_of_int (int w div 256) = (of_nat (w div 256) :: u8)" "word_of_int (int w) = (of_nat w :: u8)"
    by (metis of_int_of_nat_eq of_nat_numeral zdiv_int) (rule of_int_of_nat_eq)
  have "show_hex w \<noteq> []" using d by simp
  moreover have "\<not> (r \<noteq> [] \<and> peek r \<noteq> CHR '':'')" using r by blast
  ultimately show ?thesis
    using s ne w len hi
    by (cases "r = []") (subst v6_loop.simps, simp add: Let_def skip_colon_def word_bytes_def cong: option.case_cong)+
qed

lemma skip_colon_simps [simp]:
  "skip_colon [] = []" "skip_colon (CHR '':'' # CHR '':'' # r) = CHR '':'' # CHR '':'' # r"
  "peek r \<noteq> CHR '':'' \<Longrightarrow> skip_colon (CHR '':'' # r) = r"
  by (simp_all add: skip_colon_def peek_def NUL_def)

lemma colons_peek: "ws \<noteq> [] \<Longrightarrow> is_xdigit (peek (colons ws @ r))"
proof -
  assume "ws \<noteq> []"
  then obtain w ws' where w: "ws = w # ws'" by (cases ws) auto
  have "show_hex w \<noteq> [] \<and> is_xdigit (hd (show_hex w))" using show_hex_ok [of w] by (cases "show_hex w") auto
  then show ?thesis by (cases "show_hex w") (auto simp: w colons_Cons peek_def)
qed

text \<open>The words before \<open>::\<close>, or all words, are stored from the start.\<close>

definition store_words :: "u8 list \<Rightarrow> nat \<Rightarrow> nat list \<Rightarrow> u8 list" where
  "store_words data len ws = take len data @ concat (map word_bytes ws) @ drop (len + 2 * length ws) data"

lemma length_word_bytes [simp]: "length (word_bytes w) = 2"
  by (simp add: word_bytes_def)

lemma length_concat_words [simp]: "length (concat (map word_bytes ws)) = 2 * length ws"
  by (induction ws) simp_all

lemma store_words_Cons:
  assumes "len + 2 * length (w # ws) \<le> length data"
  shows "store_words (data[len := of_nat (w div 256), Suc len := of_nat w]) (len + 2) ws = store_words data len (w # ws)"
proof -
  have "take (len + 2) (data[len := of_nat (w div 256), Suc len := of_nat w]) = take len data @ word_bytes w"
    using assms by (simp add: take_Suc_conv_app_nth word_bytes_def)
  then show ?thesis by (simp add: store_words_def)
qed

lemma v6_head:
  "ws \<noteq> [] \<Longrightarrow> \<forall>w \<in> set ws. w < 0x10000 \<Longrightarrow> len + 2 * length ws \<le> 16 \<Longrightarrow> length data = 16 \<Longrightarrow>
   r = [] \<or> (\<exists>r'. r = ''::'' @ r') \<Longrightarrow>
   v6_loop data len None (colons ws @ r) = v6_loop (store_words data len ws) (len + 2 * length ws) None r"
proof (induction ws arbitrary: data len)
  case (Cons w ws)
  let ?data = "data[len := of_nat (w div 256), Suc len := of_nat w]"
  have w: "w < 0x10000" "len < 16" using Cons.prems by auto
  show ?case
  proof (cases "ws = []")
    case True
    have "store_words data len [w] = store_words ?data (len + 2) []"
      using store_words_Cons [of len w "[]" data] Cons.prems True by simp
    also have "\<dots> = ?data"
      unfolding store_words_def by (simp only: list.map concat.simps append_Nil list.size mult_0_right add_0_right append_take_drop_id)
    finally have "store_words data len [w] = ?data" .
    moreover have "skip_colon r = r" "r = [] \<or> peek r = CHR '':''"
      using Cons.prems(5) by (auto simp: peek_def)
    ultimately show ?thesis using v6_word [OF _ w, of r data None] True by simp
  next
    case False
    let ?r = "CHR '':'' # colons ws @ r"
    have "skip_colon ?r = colons ws @ r" using colons_peek [OF False, of r] xdigit_colon by (intro skip_colon_simps) auto
    moreover have "peek ?r = CHR '':''" by (simp add: peek_def)
    ultimately have "v6_loop data len None (colons (w # ws) @ r) = v6_loop ?data (len + 2) None (colons ws @ r)"
      using v6_word [OF _ w, of ?r data None] False by (simp add: colons_Cons)
    also have "\<dots> = v6_loop (store_words ?data (len + 2) ws) (len + 2 + 2 * length ws) None r"
      using Cons.prems False by (intro Cons.IH) auto
    also have "store_words ?data (len + 2) ws = store_words data len (w # ws)"
      using Cons.prems by (intro store_words_Cons) simp
    finally show ?thesis by simp
  qed
qed simp

lemma v6_end: "v6_loop data len tail [] = Some (data, tail)"
  by (subst v6_loop.simps) simp

lemma v6_tail:
  "\<forall>w \<in> set ws. w < 0x10000 \<Longrightarrow> len + 2 * length ws \<le> 16 \<Longrightarrow>
   v6_loop data len (Some t) (colons ws) = Some (data, Some (t @ concat (map word_bytes ws)))"
proof (induction ws arbitrary: t len)
  case (Cons w ws)
  have w: "w < 0x10000" "len < 16" using Cons.prems by auto
  show ?case
  proof (cases "ws = []")
    case True
    then show ?thesis using v6_word [OF _ w, of "[]" data "Some t"] by (simp add: v6_end)
  next
    case False
    let ?r = "CHR '':'' # colons ws"
    have "skip_colon ?r = colons ws" using colons_peek [OF False, of "[]"] xdigit_colon by (intro skip_colon_simps) auto
    moreover have "peek ?r = CHR '':''" by (simp add: peek_def)
    ultimately have "v6_loop data len (Some t) (colons (w # ws)) = v6_loop data (len + 2) (Some (t @ word_bytes w)) (colons ws)"
      using v6_word [OF _ w, of ?r data "Some t"] False by (simp add: colons_Cons)
    with Cons show ?thesis by simp
  qed
qed (simp add: v6_end)

lemma v6_gap: "v6_loop data len None (''::'' @ r) = v6_loop data len (Some []) r"
  by (subst v6_loop.simps) simp

text \<open>The bytes of the words are the bytes of the address.\<close>

lemma length_16:
  assumes "length xs = 16"
  obtains a b c d e f g h i j k l m n p q where "xs = [a, b, c, d, e, f, g, h, i, j, k, l, m, n, p, q]"
  using assms by (auto simp: length_Suc_conv numeral_eq_Suc)

lemma word_of_nat_unat_id: "of_nat (unat x) = x" for x :: u8
  by simp

lemma unat_u8: "unat (x :: u8) < 256"
  by (rule order_less_le_trans [OF unsigned_less]) simp

lemma v6_words_bytes:
  assumes "length data = 16"
  shows "concat (map word_bytes (v6_words data)) = data" "\<forall>w \<in> set (v6_words data). w < 0x10000" "length (v6_words data) = 8"
proof -
  have wb: "word_bytes (256 * unat x + unat y) = [x, y]" "256 * unat x + unat y < 0x10000" for x y :: u8
  proof -
    have "(of_nat 256 :: u8) = 0" by simp
    then have "of_nat (256 * unat x + unat y) = y" by (simp only: of_nat_add of_nat_mult mult_zero_left add_0 word_of_nat_unat_id)
    moreover have "(256 * unat x + unat y) div 256 = unat x" using unat_u8 [of y] by simp
    ultimately show "word_bytes (256 * unat x + unat y) = [x, y]"
      by (simp only: word_bytes_def word_of_nat_unat_id)
    show "256 * unat x + unat y < 0x10000" using unat_u8 [of x] unat_u8 [of y] by simp
  qed
  show "length (v6_words data) = 8" by (simp add: v6_words_def)
  show "\<forall>w \<in> set (v6_words data). w < 0x10000" using wb(2) by (auto simp: v6_words_def)
  obtain a b c d e f g h i j k l m n p q where data: "data = [a, b, c, d, e, f, g, h, i, j, k, l, m, n, p, q]"
    using length_16 [OF assms] .
  have "v6_words data = [256 * unat a + unat b, 256 * unat c + unat d, 256 * unat e + unat f, 256 * unat g + unat h,
      256 * unat i + unat j, 256 * unat k + unat l, 256 * unat m + unat n, 256 * unat p + unat q]"
    unfolding v6_words_def data by (simp add: upt_rec)
  then show "concat (map word_bytes (v6_words data)) = data" by (simp add: wb data)
qed

lemma word_bytes_zero: "\<forall>w \<in> set ws. w = 0 \<Longrightarrow> concat (map word_bytes ws) = replicate (2 * length ws) 0"
  by (induction ws) (simp_all add: word_bytes_def)

lemma parsev6_text:
  assumes "length data = 16"
  shows "parsev6 (replicate 16 0) (v6_text data) = Some data"
proof -
  let ?ws = "v6_words data" and ?z = "replicate 16 0 :: u8 list"
  note ws = v6_words_bytes [OF assms]
  show ?thesis
  proof (cases rule: v6_text_cases [OF assms refl, case_names plain gap])
    case plain
    have "v6_loop ?z 0 None (colons ?ws @ []) = v6_loop (store_words ?z 0 ?ws) (0 + 2 * length ?ws) None []"
      using ws by (intro v6_head) auto
    moreover have "store_words ?z 0 ?ws = data" using ws by (simp add: store_words_def)
    ultimately show ?thesis by (simp add: parsev6_def plain v6_end)
  next
    case (gap g l)
    let ?a = "take g ?ws" and ?b = "drop (g + l) ?ws"
    have small: "\<forall>w \<in> set ?a. w < 0x10000" "\<forall>w \<in> set ?b. w < 0x10000"
      using ws(2) by (auto dest: in_set_takeD in_set_dropD)
    have len: "length ?a = g" "length ?b = 8 - (g + l)" using ws(3) gap(2) by auto
    have "v6_loop ?z 0 None (colons ?a @ ''::'' @ colons ?b) = v6_loop (store_words ?z 0 ?a) (2 * g) None (''::'' @ colons ?b)"
    proof (cases "?a = []")
      case True
      then have "g = 0" using len(1) by (metis list.size(3))
      then show ?thesis by (simp add: store_words_def)
    next
      case False
      have "v6_loop ?z 0 None (colons ?a @ ''::'' @ colons ?b) =
          v6_loop (store_words ?z 0 ?a) (0 + 2 * length ?a) None (''::'' @ colons ?b)"
        using small(1) len gap(2) by (intro v6_head [OF False]) auto
      then show ?thesis using len by simp
    qed
    also have "\<dots> = Some (store_words ?z 0 ?a, Some ([] @ concat (map word_bytes ?b)))"
      unfolding v6_gap using small(2) len gap(1,2) by (intro v6_tail) auto
    finally have loop: "v6_loop ?z 0 None (v6_text data) = Some (store_words ?z 0 ?a, Some (concat (map word_bytes ?b)))"
      using gap(3) by simp
    have split: "?ws = ?a @ take l (drop g ?ws) @ ?b"
      by (metis append_take_drop_id drop_drop add.commute)
    have "\<forall>w \<in> set (take l (drop g ?ws)). w = 0"
      using gap(2,4) ws(3) by (auto simp: in_set_conv_nth)
    then have mid: "concat (map word_bytes (take l (drop g ?ws))) = replicate (2 * l) 0"
      using word_bytes_zero gap(2) ws(3) by simp
    have "data = concat (map word_bytes (?a @ take l (drop g ?ws) @ ?b))" using ws(1) split by metis
    also have "\<dots> = concat (map word_bytes ?a) @ replicate (2 * l) 0 @ concat (map word_bytes ?b)"
      by (simp only: map_append concat_append mid)
    finally have data: "data = concat (map word_bytes ?a) @ replicate (2 * l) 0 @ concat (map word_bytes ?b)" .
    have "take (16 - length (concat (map word_bytes ?b))) (store_words ?z 0 ?a) = concat (map word_bytes ?a) @ replicate (2 * l) 0"
      using len gap(2) by (simp add: store_words_def)
    with loop data show ?thesis by (simp add: parsev6_def)
  qed
qed

section \<open>Round trip of the text\<close>

lemma strtol_result_set:
  "strtol_result str neg n ds s = (v, endp, er) \<Longrightarrow> set s \<subseteq> set str \<Longrightarrow> set endp \<subseteq> set str"
  by (auto simp: strtol_result_def Let_def dest: in_set_dropD split: if_splits)

lemma split_sign_set: "split_sign s = (neg, s') \<Longrightarrow> set s' \<subseteq> set s"
  by (auto simp: split_sign_def split: list.splits if_splits)

lemma strtol10_set:
  assumes "strtol10 str = (v, endp, er)"
  shows "set endp \<subseteq> set str"
proof -
  obtain neg s where s: "split_sign (dropWhile is_space str) = (neg, s)" by fastforce
  then have "set s \<subseteq> set str" using split_sign_set set_dropWhileD by fast
  then show ?thesis
    using assms s strtol_result_set [of str neg "dec_val (takeWhile is_digit s)" "takeWhile is_digit s" s v endp er]
    by (simp add: strtol10_def Let_def)
qed

text \<open>A text without dots is no IPv4 address.\<close>

lemma parsev4_no_dot:
  assumes "CHR ''.'' \<notin> set buf"
  shows "parsev4 data buf = None"
proof -
  obtain v endp er where r: "strtol10 buf = (v, endp, er)" by (metis prod_cases3)
  then have "peek endp \<noteq> CHR ''.''"
    using strtol10_set [OF r] assms by (cases endp) (auto simp: peek_def NUL_def)
  then have "v4_loop (Suc (Suc (Suc (Suc 0)))) buf [] = None" using r by simp
  then show ?thesis by (simp add: parsev4_def numeral_eq_Suc)
qed

lemma v4_loop_show:
  assumes "if n = 0 then r = [] else (\<exists>r'. r = CHR ''.'' # r')" "b < 256"
  shows "v4_loop (Suc n) (show_nat b @ r) acc = v4_loop n (if 0 < n then tl r else r) (acc @ [of_nat b])"
proof -
  have "\<not> is_digit (peek r)"
    using assms(1) by (auto simp: peek_def NUL_def is_digit_def less_eq_char_def split: if_splits)
  then have "strtol10 (show_nat b @ r) = (int b, r, False)"
    using assms(2) by (intro strtol10_show) (simp_all add: LLONG_MAX_def)
  moreover have "show_nat b \<noteq> []" using show_nat_ok by blast
  moreover have "if n = 0 then r = [] else peek r = CHR ''.''" using assms(1) by (auto simp: peek_def)
  ultimately show ?thesis using assms(2) by (cases "n = 0") auto
qed

lemma v4_loop_last: "b < 256 \<Longrightarrow> v4_loop (Suc 0) (show_nat b) acc = Some (acc @ [of_nat b])"
  using v4_loop_show [of 0 "[]" b acc] by (simp del: v4_loop.simps(2))

lemma parsev4_text:
  assumes "length data = 16" "take 12 data = replicate 12 0"
  shows "parsev4 (replicate 16 0) (v4_text data) = Some data"
proof -
  have "v4_loop (Suc (Suc (Suc (Suc 0)))) (v4_text data) [] = Some [data ! 12, data ! 13, data ! 14, data ! 15]"
    unfolding v4_text_def using unat_u8
    by (simp add: v4_loop_show v4_loop_last del: v4_loop.simps(2))
  moreover have "drop 12 data = [data ! 12, data ! 13, data ! 14, data ! 15]"
    using assms(1) by (simp add: list_eq_iff_nth_eq less_Suc_eq numeral_eq_Suc)
  ultimately show ?thesis
    using assms append_take_drop_id [of 12 data] by (simp add: parsev4_def numeral_eq_Suc)
qed

lemma digit_not_slash: "is_digit c \<Longrightarrow> c \<noteq> CHR ''/''"
  by (auto simp: is_digit_def less_eq_char_def)

lemma colons_chars: "c \<in> set (colons ws) \<Longrightarrow> is_xdigit c \<or> c = CHR '':''"
proof (induction ws rule: colons.induct)
  case (2 w)
  then show ?case using show_hex_ok [of w] by (auto simp: list_all_iff)
next
  case (3 w v vs)
  then show ?case using show_hex_ok [of w] by (auto simp: list_all_iff)
qed simp

lemma v6_text_chars:
  assumes "length data = 16" "c \<in> set (v6_text data)"
  shows "c \<noteq> CHR ''/'' \<and> c \<noteq> CHR ''.''"
  using v6_text_cases [OF assms(1) refl]
proof cases
  case 1
  then show ?thesis using assms(2) colons_chars xdigit_colon by fastforce
next
  case (2 g l)
  then show ?thesis using assms(2) colons_chars xdigit_colon by fastforce
qed

lemma v4_text_chars: "CHR ''/'' \<notin> set (v4_text data)"
  using show_nat_ok digit_not_slash by (fastforce simp: v4_text_def list_all_iff)

lemma colons_length: "\<forall>w \<in> set ws. w < 0x10000 \<Longrightarrow> length (colons ws) \<le> 5 * length ws - 1"
proof (induction ws rule: colons.induct)
  case (2 w)
  then show ?case using show_hex_length [of w 4] by simp
next
  case (3 w v vs)
  then show ?case using show_hex_length [of w 4] by simp
qed simp

lemma v6_text_length:
  assumes "length data = 16"
  shows "2 \<le> length (v6_text data) \<and> length (v6_text data) \<le> 39"
  using v6_text_cases [OF assms refl]
proof cases
  case 1
  note ws = v6_words_bytes [OF assms]
  obtain w v vs where "v6_words data = w # v # vs" using ws(3)
    by (cases "v6_words data"; cases "tl (v6_words data)") auto
  then have "2 \<le> length (colons (v6_words data))" using show_hex_ok [of w] by (cases "show_hex w") auto
  then show ?thesis using 1 colons_length [OF ws(2)] ws(3) by simp
next
  case (2 g l)
  note ws = v6_words_bytes [OF assms]
  have "length (colons (take g (v6_words data))) \<le> 5 * g - 1"
    "length (colons (drop (g + l) (v6_words data))) \<le> 5 * (8 - (g + l)) - 1"
    using colons_length [of "take g (v6_words data)"] colons_length [of "drop (g + l) (v6_words data)"] ws 2(2)
    by (auto dest: in_set_takeD in_set_dropD)
  then show ?thesis using 2(1-3) by simp
qed

lemma v4_text_length: "7 \<le> length (v4_text data) \<and> length (v4_text data) \<le> 15"
proof -
  have "length (show_nat (unat (x :: u8))) \<le> 3 \<and> 1 \<le> length (show_nat (unat x))" for x
    using show_nat_length [of "unat x" 3] unat_u8 [of x] show_nat_ok [of "unat x"] by (simp add: Suc_le_eq)
  from this [of "data ! 12"] this [of "data ! 13"] this [of "data ! 14"] this [of "data ! 15"]
  show ?thesis unfolding v4_text_def length_append list.size by linarith
qed

lemma prefix_text_length: "p \<le> 128 \<Longrightarrow> length (prefix_text full p) \<le> 4"
  using show_nat_length [of p 3] by (simp add: prefix_text_def)

lemma prefix_text_length32: "length (prefix_text 32 p) \<le> 3"
  using show_nat_length [of p 2] by (simp add: prefix_text_def)

lemma parse_prefix_text:
  assumes "CHR ''/'' \<notin> set t" "p \<le> 128"
  shows "parse_prefix (t @ prefix_text full p) = Some (if p < full then Some p else None)"
    and "takeWhile (\<lambda>c. c \<noteq> CHR ''/'') (t @ prefix_text full p) = t"
proof -
  have tw: "\<forall>c \<in> set t. c \<noteq> CHR ''/''" using assms(1) by auto
  have dw: "dropWhile (\<lambda>c. c \<noteq> CHR ''/'') (t @ r) = dropWhile (\<lambda>c. c \<noteq> CHR ''/'') r" for r
    using tw by (intro dropWhile_append2) auto
  have "\<not> is_digit (peek [])" by (simp add: peek_def NUL_def is_digit_def less_eq_char_def)
  then have "strtol10 (show_nat p @ []) = (int p, [], False)"
    using assms(2) by (intro strtol10_show) (simp_all add: LLONG_MAX_def)
  moreover have "show_nat p \<noteq> []" using show_nat_ok by blast
  ultimately show "parse_prefix (t @ prefix_text full p) = Some (if p < full then Some p else None)"
    using assms(2) by (simp add: parse_prefix_def dw prefix_text_def)
  show "takeWhile (\<lambda>c. c \<noteq> CHR ''/'') (t @ prefix_text full p) = t"
    using tw by (subst takeWhile_append2) (auto simp: prefix_text_def)
qed

text \<open>
  C36: Printing and parsing addresses.  The text of every address, of either protocol and with
  any prefix length, fits into the buffer of 44 characters, and creating an address from
  that text gives back the protocol, the prefix length, the 16 bytes and the text.
\<close>

theorem ipaddr_roundtrip:
  assumes "wf_ip a"
  shows "length (ip_str a) < 44 \<and>
    PSC_IpAddr_create (ip_str a) = Some (a\<lparr>ip_refcnt := 1, ip_port := Some (-1)\<rparr>)"
proof -
  have len: "length (ip_data a) = 16" and str: "ip_str a = ip_toString (ip_proto a) (ip_prefixlen a) (ip_data a)"
    using assms by (simp_all add: wf_ip_def)
  have new: "new_addr (ip_proto a) (ip_prefixlen a) port (ip_data a) = a\<lparr>ip_refcnt := 1, ip_port := port\<rparr>" for port
    using str by (simp add: new_addr_def toString_def)
  show ?thesis
  proof (cases "ip_proto a")
    case PSC_P_IPv4
    then have w: "ip_prefixlen a \<le> 32" "take 12 (ip_data a) = replicate 12 0" using assms by (simp_all add: wf_ip_def)
    have s: "ip_str a = v4_text (ip_data a) @ prefix_text 32 (ip_prefixlen a)"
      using str PSC_P_IPv4 by (simp add: ip_toString_def)
    have l: "2 \<le> length (ip_str a)" "length (ip_str a) < 44"
      using v4_text_length [of "ip_data a"] prefix_text_length32 [of "ip_prefixlen a"] s by simp_all
    have p: "parse_prefix (ip_str a) = Some (if ip_prefixlen a < 32 then Some (ip_prefixlen a) else None)"
      "takeWhile (\<lambda>c. c \<noteq> CHR ''/'') (ip_str a) = v4_text (ip_data a)"
      using parse_prefix_text [OF v4_text_chars, of "ip_prefixlen a" "ip_data a" 32] w(1) s by simp_all
    show ?thesis
      using l p parsev4_text [OF len w(2)] w(1) new [of "Some (-1)"] PSC_P_IPv4
      by (cases "ip_prefixlen a < 32") (simp_all add: PSC_IpAddr_create_def)
  next
    case PSC_P_IPv6
    then have w: "ip_prefixlen a \<le> 128" using assms by (simp add: wf_ip_def)
    have s: "ip_str a = v6_text (ip_data a) @ prefix_text 128 (ip_prefixlen a)"
      using str PSC_P_IPv6 by (simp add: ip_toString_def)
    have l: "2 \<le> length (ip_str a)" "length (ip_str a) < 44"
      using v6_text_length [OF len] prefix_text_length [OF w, of 128] s by simp_all
    have c: "CHR ''/'' \<notin> set (v6_text (ip_data a))" "CHR ''.'' \<notin> set (v6_text (ip_data a))"
      using v6_text_chars [OF len] by blast+
    have p: "parse_prefix (ip_str a) = Some (if ip_prefixlen a < 128 then Some (ip_prefixlen a) else None)"
      "takeWhile (\<lambda>c. c \<noteq> CHR ''/'') (ip_str a) = v6_text (ip_data a)"
      using parse_prefix_text [OF c(1) w, of 128] s by simp_all
    show ?thesis
      using l p parsev4_no_dot [OF c(2)] parsev6_text [OF len] w new [of "Some (-1)"] PSC_P_IPv6
      by (cases "ip_prefixlen a < 128") (simp_all add: PSC_IpAddr_create_def)
  next
    case PSC_P_ANY
    then show ?thesis using assms by (simp add: wf_ip_def)
  qed
qed

theorem ipaddr_roundtrip_witness:
  "ip_str (new_addr PSC_P_IPv6 64 None ([0x20, 1, 0xd, 0xb8] @ replicate 11 0 @ [1])) = ''2001:db8::1/64'' \<and>
   PSC_IpAddr_create ''2001:db8::1/64'' =
     Some (new_addr PSC_P_IPv6 64 (Some (-1)) ([0x20, 1, 0xd, 0xb8] @ replicate 11 0 @ [1]))"
proof -
  let ?d = "[0x20, 1, 0xd, 0xb8] @ replicate 11 0 @ [1] :: u8 list"
  let ?a = "new_addr PSC_P_IPv6 64 None ?d"
  let ?w = "[0x2001, 0xdb8, 0, 0, 0, 0, 0, 1] :: nat list"
  have "replicate 11 (0 :: u8) = [0, 0, 0, 0, 0, 0, 0, 0, 0, 0, 0]" by (simp add: numeral_eq_Suc)
  then have w: "v6_words ?d = ?w" by (simp add: v6_words_def upt_rec)
  have g: "find_gap 0 0 0 ?w = (2, 5)" by simp
  have h: "show_hex 0x2001 = ''2001''" "show_hex 0xdb8 = ''db8''" "show_hex (Suc 0) = ''1''" "show_nat 64 = ''64''"
    by (simp_all add: show_hex.simps xdigit_char_def show_nat.simps digit_char_def char_of_def bit_0)
  have p: "v6_print ?w 2 5 0 False = ''2001:db8::1''"
    by (simp add: v6_print.simps [of _ _ _ 0] v6_print.simps [of _ _ _ "Suc 0"] v6_print.simps [of _ _ _ 2]
        v6_print.simps [of _ _ _ 7] v6_print.simps [of _ _ _ 8] numeral_2_eq_2 [symmetric] h)
  have "v6_text ?d = ''2001:db8::1''" unfolding v6_text_def w Let_def g prod.case by (rule p)
  then have s: "ip_str ?a = ''2001:db8::1/64''"
    by (simp add: new_addr_def toString_def ip_toString_def prefix_text_def h)
  have "wf_ip ?a" by (simp add: wf_ip_def new_addr_def toString_def)
  from ipaddr_roundtrip [OF this] show ?thesis unfolding s by (simp add: new_addr_def toString_def)
qed

end
