(* ===== verification/Poser_ObjectPool.thy ===== *)
theory Poser_ObjectPool
  imports Prelude
begin

text \<open>
  \<open>ObjectPool\<close> (\<open>src/lib/core/objectpool.c\<close>): objects of one size, carved out of
  chunks that form a doubly linked list.  The model is the build with anonymous
  mappings, where the memory of a new chunk is zero.

  The top bit of an object's number, \<open>POOLOBJ_USEDMASK\<close>, is a flag of its own in the
  model, and the value \<open>POOLOBJ_USEDMASK\<close> of \<open>firstfree\<close> and \<open>lastused\<close> is
  \<^const>\<open>None\<close>.  Only the header of an object is part of the model.  An object is
  addressed by the pointer to its chunk and its position.
\<close>

section \<open>Model\<close>

record PoolObj =
  po_id :: nat
  po_used :: bool

record ObjPoolHdr =
  hdr_prev :: ptr
  hdr_next :: ptr
  hdr_nfree :: nat
  hdr_objs :: "PoolObj list"

text \<open>The memory that holds the chunks is part of the state: pointer \<open>p\<close> is cell \<open>p - 1\<close>.\<close>

record ObjectPool =
  op_objsz :: nat
  op_objsperchunk :: nat
  op_nobj :: nat
  op_nfree :: nat
  op_chunksz :: nat
  op_firstfree :: "nat option"
  op_lastused :: "nat option"
  op_first :: ptr
  op_last :: ptr
  op_keep :: ptr
  op_keepcnt :: u32
  op_heap :: "ObjPoolHdr option list"

type_synonym pool_obj = "ptr \<times> nat"

definition hdr_get :: "ObjPoolHdr option list \<Rightarrow> ptr \<Rightarrow> ObjPoolHdr option" where
  "hdr_get H p = (if p = NULL \<or> length H < p then None else H ! (p - 1))"

definition hdr_set :: "ObjPoolHdr option list \<Rightarrow> ptr \<Rightarrow> ObjPoolHdr \<Rightarrow> ObjPoolHdr option list" where
  "hdr_set H p hdr = H[p - 1 := Some hdr]"

text \<open>\<open>munmap\<close> of a chunk.\<close>

definition hdr_unmap :: "ObjPoolHdr option list \<Rightarrow> ptr \<Rightarrow> ObjPoolHdr option list option" where
  "hdr_unmap H p = (if hdr_get H p = None then None else Some (H[p - 1 := None]))"

fun hdr_walk :: "ObjPoolHdr option list \<Rightarrow> ptr \<Rightarrow> nat \<Rightarrow> ptr option" where
  "hdr_walk H p 0 = Some p"
| "hdr_walk H p (Suc i) = do { hdr \<leftarrow> hdr_get H p; hdr_walk H (hdr_next hdr) i }"

definition sizeof_ObjPoolHdr :: nat where "sizeof_ObjPoolHdr = 24"

definition ObjectPool_create :: "nat \<Rightarrow> nat \<Rightarrow> nat \<Rightarrow> ObjectPool" where
  "ObjectPool_create pagesz objSz objsPerChunk =
     (let chunksz = objSz * objsPerChunk + sizeof_ObjPoolHdr;
          partialpg = chunksz mod pagesz;
          extra = (if partialpg = 0 then 0 else pagesz - partialpg)
      in \<lparr>op_objsz = objSz, op_objsperchunk = objsPerChunk + extra div objSz, op_nobj = 0, op_nfree = 0,
          op_chunksz = chunksz + extra, op_firstfree = None, op_lastused = None, op_first = NULL, op_last = NULL,
          op_keep = NULL, op_keepcnt = 0, op_heap = []\<rparr>)"

text \<open>The search for the next free object in a chunk, and for a chunk that has one.\<close>

function scan_free :: "PoolObj list \<Rightarrow> nat \<Rightarrow> nat option" where
  "scan_free objs j =
     (if j < length objs then (if po_used (objs ! j) then scan_free objs (Suc j) else Some j) else None)"
  by pat_completeness auto
termination
  by (relation "measure (\<lambda>(objs, j). length objs - j)") auto

declare scan_free.simps [simp del]

fun skip_full :: "nat \<Rightarrow> ObjPoolHdr option list \<Rightarrow> nat \<Rightarrow> ptr \<Rightarrow> (nat \<times> ptr) option" where
  "skip_full 0 H chunkno p = None"
| "skip_full (Suc fuel) H chunkno p = do {
     hdr \<leftarrow> hdr_get H p;
     if hdr_nfree hdr = 0 then skip_full fuel H (Suc chunkno) (hdr_next hdr) else Some (chunkno, p) }"

definition alloc_free :: "ObjectPool \<Rightarrow> nat \<Rightarrow> (pool_obj \<times> ObjectPool) option" where
  "alloc_free self firstfree = do {
     let n = op_objsperchunk self;
     let chunkno = firstfree div n;
     let j = firstfree mod n;
     p \<leftarrow> hdr_walk (op_heap self) (op_first self) chunkno;
     hdr \<leftarrow> hdr_get (op_heap self) p;
     let objs = (hdr_objs hdr)[j := \<lparr>po_id = firstfree, po_used = True\<rparr>];
     let hdr = hdr\<lparr>hdr_nfree := hdr_nfree hdr - 1, hdr_objs := objs\<rparr>;
     let H = hdr_set (op_heap self) p hdr;
     let nfree = op_nfree self - 1;
     let lastused = (case op_lastused self of None \<Rightarrow> firstfree | Some l \<Rightarrow> max firstfree l);
     nextfree \<leftarrow>
       (if nfree = 0 then Some None
        else if hdr_nfree hdr \<noteq> 0
        then do { k \<leftarrow> scan_free objs (Suc j); Some (Some (firstfree + (k - j))) }
        else do {
          (c, q) \<leftarrow> skip_full (length H) H chunkno p;
          h \<leftarrow> hdr_get H q;
          k \<leftarrow> scan_free (hdr_objs h) 0;
          Some (Some (c * n + k)) });
     Some ((p, j), self\<lparr>op_nfree := nfree, op_firstfree := nextfree, op_lastused := Some lastused, op_heap := H\<rparr>) }"

text \<open>The objects of a chunk that was just mapped.\<close>

definition new_objs :: "nat \<Rightarrow> PoolObj list" where
  "new_objs n = replicate n \<lparr>po_id = 0, po_used = False\<rparr>"

definition alloc_chunk :: "ObjectPool \<Rightarrow> (pool_obj \<times> ObjectPool) option" where
  "alloc_chunk self = do {
     let n = op_objsperchunk self;
     (p, objs, H) \<leftarrow>
       (if op_keep self \<noteq> NULL
        then do { h \<leftarrow> hdr_get (op_heap self) (op_keep self); Some (op_keep self, hdr_objs h, op_heap self) }
        else Some (Suc (length (op_heap self)), new_objs n, op_heap self @ [None]));
     let hdr = \<lparr>hdr_prev = op_last self, hdr_next = NULL, hdr_nfree = n - 1,
                hdr_objs = objs[0 := \<lparr>po_id = op_nobj self, po_used = True\<rparr>]\<rparr>;
     let H = hdr_set H p hdr;
     H \<leftarrow> (if op_last self \<noteq> NULL
       then do { l \<leftarrow> hdr_get H (op_last self); Some (hdr_set H (op_last self) (l\<lparr>hdr_next := p\<rparr>)) }
       else Some H);
     Some ((p, 0), self\<lparr>op_keep := NULL, op_nfree := op_nfree self + (n - 1), op_firstfree := Some (op_nobj self + 1),
       op_nobj := op_nobj self + n, op_first := (if op_last self \<noteq> NULL then op_first self else p), op_last := p,
       op_heap := H\<rparr>) }"

definition ObjectPool_alloc :: "ObjectPool \<Rightarrow> (pool_obj \<times> ObjectPool) option" where
  "ObjectPool_alloc self =
     (let self = (if op_keep self \<noteq> NULL then self\<lparr>op_keepcnt := op_keepcnt self + 1\<rparr> else self)
      in case op_firstfree self of
           Some firstfree \<Rightarrow> alloc_free self firstfree
         | None \<Rightarrow> alloc_chunk self)"

text \<open>The calls of the destructor in a chunk, and the loop over the chunks.\<close>

function destroy_objs :: "PoolObj list \<Rightarrow> nat \<Rightarrow> nat \<Rightarrow> nat list option" where
  "destroy_objs objs used j =
     (if used = 0 then Some []
      else if j < length objs
      then (if po_used (objs ! j) then do { r \<leftarrow> destroy_objs objs (used - 1) (Suc j); Some (j # r) }
            else destroy_objs objs used (Suc j))
      else None)"
  by pat_completeness auto
termination
  by (relation "measure (\<lambda>(objs, u, j). length objs - j)") auto

declare destroy_objs.simps [simp del]

fun destroy_chunks :: "nat \<Rightarrow> nat \<Rightarrow> bool \<Rightarrow> ObjPoolHdr option list \<Rightarrow> ptr \<Rightarrow> (ObjPoolHdr option list \<times> pool_obj list) option" where
  "destroy_chunks 0 n objdestroy H p = None"
| "destroy_chunks (Suc fuel) n objdestroy H p =
     (if p = NULL then Some (H, [])
      else do {
        hdr \<leftarrow> hdr_get H p;
        js \<leftarrow> (if objdestroy then destroy_objs (hdr_objs hdr) (n - hdr_nfree hdr) 0 else Some []);
        H \<leftarrow> hdr_unmap H p;
        (H, r) \<leftarrow> destroy_chunks fuel n objdestroy H (hdr_next hdr);
        Some (H, map (Pair p) js @ r) })"

text \<open>Every chunk is released once, so one round more than there are chunks is enough.\<close>

definition ObjectPool_destroy :: "ObjectPool \<Rightarrow> bool \<Rightarrow> (ObjPoolHdr option list \<times> pool_obj list) option" where
  "ObjectPool_destroy self objdestroy = do {
     H \<leftarrow> (if op_keep self \<noteq> NULL then hdr_unmap (op_heap self) (op_keep self) else Some (op_heap self));
     destroy_chunks (Suc (length H)) (op_objsperchunk self) objdestroy H (op_first self) }"

text \<open>
  The loop that releases chunks.  It does not touch \<open>first\<close>.  \<open>lastchunk\<close> is an
  \<^typ>\<open>int\<close>: below zero is the wrapped value that has the top bit set.
\<close>

fun release_chunks :: "nat \<Rightarrow> ObjectPool \<Rightarrow> int \<Rightarrow> ptr \<Rightarrow> (ObjectPool \<times> int \<times> ptr) option" where
  "release_chunks 0 self lastchunk p = None"
| "release_chunks (Suc fuel) self lastchunk p =
     (if p = NULL then Some (self, lastchunk, p)
      else do {
        hdr \<leftarrow> hdr_get (op_heap self) p;
        if hdr_nfree hdr \<noteq> op_objsperchunk self then Some (self, lastchunk, p)
        else do {
          H \<leftarrow> (if op_keep self \<noteq> NULL then hdr_unmap (op_heap self) (op_keep self) else Some (op_heap self));
          let prev = hdr_prev hdr;
          H \<leftarrow> (if prev \<noteq> NULL then do { h \<leftarrow> hdr_get H prev; Some (hdr_set H prev (h\<lparr>hdr_next := NULL\<rparr>)) } else Some H);
          release_chunks fuel
            (self\<lparr>op_last := prev, op_nfree := op_nfree self - op_objsperchunk self,
              op_nobj := op_nobj self - op_objsperchunk self, op_keep := p, op_keepcnt := 16, op_heap := H\<rparr>)
            (lastchunk - 1) prev } })"

text \<open>The search for the last used object, downwards; reading before the chunk is undefined.\<close>

fun scan_down :: "PoolObj list \<Rightarrow> nat \<Rightarrow> nat option" where
  "scan_down objs 0 = (if po_used (objs ! 0) then Some 0 else None)"
| "scan_down objs (Suc j) = (if po_used (objs ! Suc j) then Some (Suc j) else scan_down objs j)"

text \<open>
  The end of \<open>PoolObj_free\<close> for the last used object.  When
  chunks were released and others are left, the code computes a pointer from the number of
  a released chunk, \<open>(chunkno + 1) * objsperchunk - 1\<close> objects behind the header of an earlier
  chunk: outside of it.
\<close>

definition free_last :: "ObjectPool \<Rightarrow> nat \<Rightarrow> ptr \<Rightarrow> pool_obj \<Rightarrow> ObjectPool option" where
  "free_last self chunkno q obj = do {
     let (p, j) = obj;
     (self, lastchunk, q) \<leftarrow> release_chunks (Suc (length (op_heap self))) self (int chunkno) q;
     if lastchunk < 0 then Some (self\<lparr>op_lastused := None, op_firstfree := None\<rparr>)
     else if lastchunk < int chunkno then None
     else do {
       hdr \<leftarrow> hdr_get (op_heap self) p;
       k \<leftarrow> scan_down (hdr_objs hdr) j;
       Some (self\<lparr>op_lastused := map_option (\<lambda>l. l - (j - k)) (op_lastused self)\<rparr>) } }"

definition PoolObj_free :: "ObjectPool \<Rightarrow> pool_obj \<Rightarrow> ObjectPool option" where
  "PoolObj_free self obj = do {
     let (p, j) = obj;
     let keepcnt = op_keepcnt self - 1;
     self \<leftarrow> (if op_keep self = NULL then Some self
       else if keepcnt = 0
       then do { H \<leftarrow> hdr_unmap (op_heap self) (op_keep self);
                 Some (self\<lparr>op_keepcnt := keepcnt, op_keep := NULL, op_heap := H\<rparr>) }
       else Some (self\<lparr>op_keepcnt := keepcnt\<rparr>));
     hdr \<leftarrow> hdr_get (op_heap self) p;
     let id = po_id (hdr_objs hdr ! j);
     let H = hdr_set (op_heap self) p (hdr\<lparr>hdr_objs := (hdr_objs hdr)[j := \<lparr>po_id = id, po_used = False\<rparr>]\<rparr>);
     let firstfree = (case op_firstfree self of None \<Rightarrow> id | Some f \<Rightarrow> min id f);
     let chunkno = id div op_objsperchunk self;
     q \<leftarrow> hdr_walk H (op_first self) chunkno;
     h \<leftarrow> hdr_get H q;
     let H = hdr_set H q (h\<lparr>hdr_nfree := hdr_nfree h + 1\<rparr>);
     let self = self\<lparr>op_firstfree := Some firstfree, op_nfree := op_nfree self + 1, op_heap := H\<rparr>;
     if Some id \<noteq> op_lastused self then Some self else free_last self chunkno q obj }"

section \<open>Pools that need one chunk\<close>

lemma scan_free_eq:
  "scan_free objs j = Some k \<longleftrightarrow> j \<le> k \<and> k < length objs \<and> \<not> po_used (objs ! k) \<and> (\<forall>i. j \<le> i \<and> i < k \<longrightarrow> po_used (objs ! i))"
proof (induction objs j rule: scan_free.induct)
  case (1 objs j)
  show ?case
  proof (cases "j < length objs \<and> po_used (objs ! j)")
    case True
    have "scan_free objs j = scan_free objs (Suc j)" using True by (subst scan_free.simps) simp
    also have "\<dots> = Some k \<longleftrightarrow> Suc j \<le> k \<and> k < length objs \<and> \<not> po_used (objs ! k) \<and>
        (\<forall>i. Suc j \<le> i \<and> i < k \<longrightarrow> po_used (objs ! i))"
      using 1 True by blast
    finally have e: "scan_free objs j = Some k \<longleftrightarrow> Suc j \<le> k \<and> k < length objs \<and> \<not> po_used (objs ! k) \<and>
        (\<forall>i. Suc j \<le> i \<and> i < k \<longrightarrow> po_used (objs ! i))" .
    have "(\<forall>i. j \<le> i \<and> i < k \<longrightarrow> po_used (objs ! i)) \<longleftrightarrow> (\<forall>i. Suc j \<le> i \<and> i < k \<longrightarrow> po_used (objs ! i))"
      using True by (metis Suc_leD le_neq_implies_less not_less_eq_eq Suc_le_eq)
    moreover have "j \<le> k \<and> \<not> po_used (objs ! k) \<longleftrightarrow> Suc j \<le> k \<and> \<not> po_used (objs ! k)"
      using True by (metis Suc_leD Suc_le_eq le_neq_implies_less)
    ultimately show ?thesis unfolding e by argo
  next
    case False
    then have e: "scan_free objs j = (if j < length objs then Some j else None)" by (subst scan_free.simps) auto
    show ?thesis
    proof (cases "j < length objs")
      case True
      then have "\<not> po_used (objs ! j)" using False by blast
      then show ?thesis using e True le_neq_implies_less [of j k] by auto
    next
      case False
      then show ?thesis using e by simp
    qed
  qed
qed

lemma scan_down_eq:
  "k \<le> j \<Longrightarrow> po_used (objs ! k) \<Longrightarrow> \<forall>i. k < i \<and> i \<le> j \<longrightarrow> \<not> po_used (objs ! i) \<Longrightarrow> scan_down objs j = Some k"
  by (induction j) (auto simp: le_Suc_eq)

text \<open>The used objects of a chunk.\<close>

definition used_objs :: "PoolObj list \<Rightarrow> nat set" where
  "used_objs objs = {j. j < length objs \<and> po_used (objs ! j)}"

lemma used_objs_update [simp]:
  "j < length objs \<Longrightarrow> used_objs (objs[j := obj]) = (if po_used obj then insert j (used_objs objs) else used_objs objs - {j})"
  by (auto simp: used_objs_def nth_list_update split: if_splits)

lemma used_objs_bound: "used_objs objs \<subseteq> {..<length objs}" "finite (used_objs objs)"
  by (auto simp: used_objs_def)

definition first_unused :: "nat \<Rightarrow> nat set \<Rightarrow> nat option" where
  "first_unused n U = (if U = {..<n} then None else Some (LEAST i. i \<notin> U))"

lemma first_unused_SomeI:
  assumes "U \<subseteq> {..<n}" "f \<notin> U" "f < n" "\<forall>i < f. i \<in> U"
  shows "first_unused n U = Some f"
proof -
  have "(LEAST i. i \<notin> U) = f" using assms by (intro Least_equality) (auto simp: not_less)
  then show ?thesis using assms by (auto simp: first_unused_def)
qed

lemma first_unused_SomeD:
  assumes "U \<subseteq> {..<n}" "first_unused n U = Some f"
  shows "f \<notin> U" "f < n" "\<forall>i < f. i \<in> U"
proof -
  have f: "f = (LEAST i. i \<notin> U)" "U \<noteq> {..<n}" using assms(2) by (auto simp: first_unused_def split: if_splits)
  then obtain i where i: "i < n" "i \<notin> U" using assms(1) by blast
  show "f \<notin> U" using LeastI [of "\<lambda>i. i \<notin> U" i] i f by simp
  show "f < n" using Least_le [of "\<lambda>i. i \<notin> U" i] i f by simp
  show "\<forall>i < f. i \<in> U" using not_less_Least f by blast
qed

definition last_ok :: "nat set \<Rightarrow> nat option \<Rightarrow> bool" where
  "last_ok U lu \<longleftrightarrow> (case lu of None \<Rightarrow> U \<subseteq> {0} | Some l \<Rightarrow> l \<in> U \<and> (\<forall>i \<in> U. i \<le> l))"

definition pool_empty :: "ObjectPool \<Rightarrow> bool" where
  "pool_empty self \<longleftrightarrow> op_nobj self = 0 \<and> op_nfree self = 0 \<and> op_firstfree self = None \<and> op_lastused self = None \<and>
     op_last self = NULL \<and>
     (op_keep self = NULL \<and> op_heap self = [] \<or>
      op_keep self = 1 \<and> (\<exists>h. op_heap self = [Some h] \<and> length (hdr_objs h) = op_objsperchunk self \<and> used_objs (hdr_objs h) = {}))"

definition pool_one :: "ObjectPool \<Rightarrow> nat set \<Rightarrow> bool" where
  "pool_one self U \<longleftrightarrow> op_first self = 1 \<and> op_last self = 1 \<and> op_keep self = NULL \<and> op_nobj self = op_objsperchunk self \<and>
     op_nfree self = op_objsperchunk self - card U \<and> op_firstfree self = first_unused (op_objsperchunk self) U \<and>
     last_ok U (op_lastused self) \<and>
     (\<exists>h. op_heap self = [Some h] \<and> hdr_prev h = NULL \<and> hdr_next h = NULL \<and> length (hdr_objs h) = op_objsperchunk self \<and>
        hdr_nfree h = op_nfree self \<and> used_objs (hdr_objs h) = U \<and> (\<forall>j \<in> U. po_id (hdr_objs h ! j) = j))"

definition wf_pool :: "ObjectPool \<Rightarrow> nat set \<Rightarrow> bool" where
  [wf_defs]: "wf_pool self U \<longleftrightarrow> 2 \<le> op_objsperchunk self \<and> (U = {} \<and> pool_empty self \<or> pool_one self U)"

lemmas hdr_defs = hdr_get_def hdr_set_def hdr_unmap_def

lemma alloc_chunk_empty:
  assumes "pool_empty self" "2 \<le> op_objsperchunk self" "op_firstfree self = None"
  shows "\<exists>self'. alloc_chunk self = Some ((1, 0), self') \<and> pool_one self' {0} \<and> op_objsperchunk self' = op_objsperchunk self"
proof -
  have f: "first_unused n {0} = Some 1" if "2 \<le> n" for n
    using that by (intro first_unused_SomeI) auto
  have n: "used_objs (new_objs n) = {}" "length (new_objs n) = n" for n
    by (auto simp: used_objs_def new_objs_def)
  show ?thesis
  proof (cases "op_keep self = NULL")
    case True
    then show ?thesis
      using assms n f [OF assms(2)]
      by (auto simp: pool_empty_def pool_one_def alloc_chunk_def hdr_defs last_ok_def Let_def)
  next
    case False
    then obtain h where h: "op_keep self = 1" "op_heap self = [Some h]" "length (hdr_objs h) = op_objsperchunk self"
      "used_objs (hdr_objs h) = {}" using assms(1) by (auto simp: pool_empty_def)
    have "0 < length (hdr_objs h)" using h(3) assms(2) by simp
    then show ?thesis
      using assms h f [OF assms(2)]
      by (auto simp: pool_empty_def pool_one_def alloc_chunk_def hdr_defs last_ok_def Let_def)
  qed
qed

lemma alloc_free_one:
  assumes one: "pool_one self U" and n: "op_objsperchunk self = n" "2 \<le> n" and ff: "op_firstfree self = Some f"
  shows "\<exists>self'. alloc_free self f = Some ((1, f), self') \<and> pool_one self' (insert f U) \<and> op_objsperchunk self' = n"
proof -
  obtain h where h: "op_heap self = [Some h]" "hdr_prev h = NULL" "hdr_next h = NULL" "length (hdr_objs h) = n"
    "hdr_nfree h = op_nfree self" "used_objs (hdr_objs h) = U" "\<forall>j \<in> U. po_id (hdr_objs h ! j) = j"
    using one unfolding pool_one_def n(1) by blast
  have U: "U \<subseteq> {..<n}" "finite U" using used_objs_bound [of "hdr_objs h"] h by auto
  have f: "f \<notin> U" "f < n" "\<forall>i < f. i \<in> U"
    using first_unused_SomeD [OF U(1), of f] ff one n by (auto simp: pool_one_def)
  have d: "f div n = 0" "f mod n = f" using f(2) by simp_all
  define objs where "objs = (hdr_objs h)[f := \<lparr>po_id = f, po_used = True\<rparr>]"
  have uo: "used_objs objs = insert f U" "length objs = n" using h f(2) by (simp_all add: objs_def)
  have ids: "\<forall>j \<in> insert f U. po_id (objs ! j) = j" using h(4,7) f(2) by (auto simp: objs_def nth_list_update)
  have nf: "op_nfree self = n - card U" "card U < n" "card (insert f U) = Suc (card U)"
    using one n U f psubset_card_mono [of "{..<n}" U] by (auto simp: pool_one_def)
  define l where "l = (case op_lastused self of None \<Rightarrow> f | Some l \<Rightarrow> max f l)"
  have lu: "last_ok (insert f U) (Some l)"
  proof (cases "op_lastused self")
    case None
    then have "U \<subseteq> {0}" using one by (simp add: pool_one_def last_ok_def)
    then have "\<forall>i \<in> U. i \<le> f" by auto
    then show ?thesis using None by (simp add: last_ok_def l_def)
  next
    case (Some m)
    then have "m \<in> U" "\<forall>i \<in> U. i \<le> m" using one by (simp_all add: pool_one_def last_ok_def)
    then show ?thesis using Some by (auto simp: last_ok_def max_def l_def)
  qed
  define h' where "h' = h\<lparr>hdr_nfree := op_nfree self - 1, hdr_objs := objs\<rparr>"
  define res where "res = (\<lambda>nf. self\<lparr>op_nfree := op_nfree self - 1, op_firstfree := nf, op_lastused := Some l, op_heap := [Some h']\<rparr>)"
  have one': "op_first self = 1" "op_last self = 1" "op_keep self = NULL" "op_nobj self = n"
    using one unfolding pool_one_def n(1) by blast+
  have "pool_one (res (first_unused n (insert f U))) (insert f U)"
    using one' n(1) h(2,3) uo ids nf lu by (simp add: pool_one_def res_def h'_def)
  moreover have "alloc_free self f = Some ((1, f), res (first_unused n (insert f U)))"
  proof (cases "op_nfree self = 1")
    case True
    then have "card (insert f U) = card {..<n}" using nf by simp
    then have "insert f U = {..<n}" using U f(2) by (intro card_subset_eq) auto
    then have "first_unused n (insert f U) = None" by (simp add: first_unused_def)
    then show ?thesis
      using one' n(1) h(1,5) d True by (simp add: alloc_free_def hdr_defs Let_def objs_def l_def h'_def res_def)
  next
    case False
    then have "card (insert f U) < card {..<n}" using nf by simp
    then have "\<exists>k. k < n \<and> k \<notin> insert f U" by (metis card_mono finite_insert U(2) lessThan_iff linorder_not_less subsetI)
    then obtain k where "k < n \<and> k \<notin> insert f U" and "\<forall>i < k. \<not> (i < n \<and> i \<notin> insert f U)"
      using exists_least_iff [of "\<lambda>k. k < n \<and> k \<notin> insert f U"] by blast
    then have k: "k < n" "k \<notin> insert f U" "\<forall>i < k. i \<in> insert f U" by auto
    have fk: "f < k" using k f by (metis insertCI not_less_iff_gr_or_eq)
    have "\<not> po_used (objs ! k)" "\<forall>i < k. po_used (objs ! i)"
      using k uo by (auto simp: used_objs_def)
    then have s: "scan_free objs (Suc f) = Some k" using k fk uo(2) by (simp add: scan_free_eq Suc_le_eq)
    have fu: "first_unused n (insert f U) = Some k" using k U(1) f(2) by (intro first_unused_SomeI) auto
    have "op_nfree self - 1 \<noteq> 0" using False nf by simp
    then show ?thesis
      using one' n(1) h(1,5) d s fk fu by (simp add: alloc_free_def hdr_defs Let_def objs_def l_def h'_def res_def)
  qed
  ultimately show ?thesis using n(1) by (auto simp: res_def)
qed

lemma ObjectPool_alloc_wf:
  assumes "wf_pool self U" "card U < op_objsperchunk self"
  shows "\<exists>self'. ObjectPool_alloc self = Some ((1, LEAST i. i \<notin> U), self') \<and>
    wf_pool self' (insert (LEAST i. i \<notin> U) U) \<and> op_objsperchunk self' = op_objsperchunk self"
proof -
  let ?n = "op_objsperchunk self"
  have n: "2 \<le> ?n" using assms(1) by (simp add: wf_pool_def)
  show ?thesis
  proof (cases "pool_one self U")
    case True
    then have k: "op_keep self = NULL" "op_firstfree self = first_unused ?n U" by (simp_all add: pool_one_def)
    have "U \<noteq> {..<?n}" using assms(2) by auto
    then have f: "op_firstfree self = Some (LEAST i. i \<notin> U)" using k(2) by (simp add: first_unused_def)
    from alloc_free_one [OF True refl n f] show ?thesis using k(1) n by (auto simp: ObjectPool_alloc_def wf_pool_def f)
  next
    case False
    then have e: "U = {}" "pool_empty self" using assms(1) by (simp_all add: wf_pool_def)
    define s where "s = (if op_keep self \<noteq> NULL then self\<lparr>op_keepcnt := op_keepcnt self + 1\<rparr> else self)"
    have s: "pool_empty s" "op_objsperchunk s = ?n" "op_firstfree s = None"
      using e(2) by (auto simp: s_def pool_empty_def)
    have "(LEAST i :: nat. i \<notin> {}) = 0" by (rule Least_equality) auto
    moreover have "ObjectPool_alloc self = alloc_chunk s"
      using s(3) by (simp add: ObjectPool_alloc_def Let_def s_def)
    ultimately show ?thesis
      using alloc_chunk_empty [OF s(1) _ s(3)] n s(2) e(1) by (auto simp: wf_pool_def)
  qed
qed

text \<open>Freeing, up to the treatment of the last used object.\<close>

lemma PoolObj_free_one:
  assumes one: "pool_one self U" and n: "op_objsperchunk self = n" and j: "j \<in> U"
  obtains self' where
    "PoolObj_free self (1, j) = (if op_lastused self \<noteq> Some j then Some self' else free_last self' 0 1 (1, j))"
    "op_lastused self' = op_lastused self" "op_objsperchunk self' = n" "j < n"
    "\<And>lu. last_ok (U - {j}) lu \<Longrightarrow> pool_one (self'\<lparr>op_lastused := lu\<rparr>) (U - {j})"
proof -
  obtain h where h: "op_heap self = [Some h]" "hdr_prev h = NULL" "hdr_next h = NULL" "length (hdr_objs h) = n"
    "hdr_nfree h = op_nfree self" "used_objs (hdr_objs h) = U" "\<forall>j \<in> U. po_id (hdr_objs h ! j) = j"
    using one unfolding pool_one_def n(1) by blast
  have U: "U \<subseteq> {..<n}" "finite U" using used_objs_bound [of "hdr_objs h"] h by auto
  have jn: "j < n" "po_id (hdr_objs h ! j) = j" using j U h(7) by auto
  have one': "op_first self = 1" "op_last self = 1" "op_keep self = NULL" "op_nobj self = n" "op_nfree self = n - card U"
    "op_firstfree self = first_unused n U" using one unfolding pool_one_def n by blast+
  define objs where "objs = (hdr_objs h)[j := \<lparr>po_id = j, po_used = False\<rparr>]"
  define h' where "h' = h\<lparr>hdr_objs := objs, hdr_nfree := op_nfree self + 1\<rparr>"
  define ff where "ff = (case op_firstfree self of None \<Rightarrow> j | Some f \<Rightarrow> min j f)"
  define self' where "self' = self\<lparr>op_firstfree := Some ff, op_nfree := op_nfree self + 1, op_heap := [Some h']\<rparr>"
  have uo: "used_objs objs = U - {j}" "length objs = n" using h jn by (simp_all add: objs_def)
  have "first_unused n (U - {j}) = Some ff"
  proof (cases "first_unused n U")
    case None
    then have "U = {..<n}" by (simp add: first_unused_def split: if_splits)
    then show ?thesis using jn U None one'(6) by (intro first_unused_SomeI) (auto simp: ff_def)
  next
    case (Some f)
    note D = first_unused_SomeD [OF U(1) Some]
    have "ff = min j f" using Some one'(6) by (simp add: ff_def)
    then show ?thesis using D jn U j by (intro first_unused_SomeI) (auto simp: min_def)
  qed
  moreover have "card (U - {j}) = card U - 1" "0 < card U" "card U \<le> n"
    using U j card_mono [of "{..<n}" U] by (auto simp: card_gt_0_iff)
  ultimately have "\<And>lu. last_ok (U - {j}) lu \<Longrightarrow> pool_one (self'\<lparr>op_lastused := lu\<rparr>) (U - {j})"
    using one' uo h(2,3,4,7) n jn
    by (simp add: pool_one_def self'_def h'_def) (auto simp: objs_def nth_list_update)
  moreover have "PoolObj_free self (1, j) = (if op_lastused self \<noteq> Some j then Some self' else free_last self' 0 1 (1, j))"
    using one' h(1,3,5) jn n
    by (simp add: PoolObj_free_def hdr_defs Let_def self'_def h'_def objs_def ff_def cong: option.case_cong)
  ultimately show thesis using n jn(1) by (intro that [of self']) (simp_all add: self'_def)
qed

lemma free_last_one:
  assumes one: "\<And>lu. last_ok (U - {j}) lu \<Longrightarrow> pool_one (self\<lparr>op_lastused := lu\<rparr>) (U - {j})"
    and n: "op_objsperchunk self = n" "2 \<le> n" and j: "j \<in> U" "\<forall>i \<in> U. i \<le> j" "j < n" and lu: "op_lastused self = Some j"
  shows "\<exists>self'. free_last self 0 1 (1, j) = Some self' \<and> wf_pool self' (U - {j}) \<and> op_objsperchunk self' = n"
proof (cases "U - {j} = {}")
  case True
  have "pool_one (self\<lparr>op_lastused := None\<rparr>) (U - {j})" using True by (intro one) (auto simp: last_ok_def)
  then have "pool_one (self\<lparr>op_lastused := None\<rparr>) {}" unfolding True .
  then obtain h where h: "op_heap self = [Some h]" "hdr_prev h = NULL" "length (hdr_objs h) = n" "hdr_nfree h = n"
    "used_objs (hdr_objs h) = {}" "op_keep self = NULL" "op_nfree self = n" "op_nobj self = n"
    using n by (auto simp: pool_one_def)
  then show ?thesis
    using n lu by (simp add: free_last_def hdr_defs Let_def True wf_pool_def pool_empty_def)
next
  case False
  define k where "k = Max (U - {j})"
  have fin: "finite (U - {j})" by (rule finite_subset [of _ "{..j}"]) (use j(2) in auto)
  then have k: "k \<in> U" "k < j" "\<forall>i \<in> U - {j}. i \<le> k"
    using Max_in [OF fin False] Max_ge [OF fin] j(2) by (auto simp: k_def order_less_le)
  have ok: "last_ok (U - {j}) (Some k)" using k by (auto simp: last_ok_def)
  from one [OF this] obtain h where h: "op_heap self = [Some h]" "length (hdr_objs h) = n"
    "used_objs (hdr_objs h) = U - {j}" "hdr_nfree h = op_nfree self" "op_nfree self = n - card (U - {j})"
    using n(1) by (auto simp: pool_one_def)
  have "0 < card (U - {j})" "card (U - {j}) \<le> n"
    using fin False h(2,3) used_objs_bound(1) [of "hdr_objs h"] card_mono [of "{..<n}" "U - {j}"] by (auto simp: card_gt_0_iff)
  then have "hdr_nfree h \<noteq> n" using h(4,5) by simp
  then have r: "release_chunks (Suc (length (op_heap self))) self (int 0) 1 = Some (self, int 0, 1)"
    using h(1) n(1) by (simp add: hdr_defs)
  have "po_used (hdr_objs h ! k)" "\<forall>i. k < i \<and> i \<le> j \<longrightarrow> \<not> po_used (hdr_objs h ! i)"
  proof -
    show "po_used (hdr_objs h ! k)" using h(3) k by (auto simp: used_objs_def)
    show "\<forall>i. k < i \<and> i \<le> j \<longrightarrow> \<not> po_used (hdr_objs h ! i)"
    proof (intro allI impI notI)
      fix i assume "k < i \<and> i \<le> j" "po_used (hdr_objs h ! i)"
      then have "i \<in> used_objs (hdr_objs h)" using h(2) j(3) by (simp add: used_objs_def)
      then have "i \<in> U - {j}" unfolding h(3) .
      then have "i \<le> k" using k(3) by blast
      then show False using \<open>k < i \<and> i \<le> j\<close> by simp
    qed
  qed
  then have "scan_down (hdr_objs h) j = Some k" using k by (intro scan_down_eq) auto
  then have "free_last self 0 1 (1, j) = Some (self\<lparr>op_lastused := Some k\<rparr>)"
    using r h(1) lu k(2) unfolding free_last_def by (simp add: hdr_defs)
  then show ?thesis using one [OF ok] n by (simp add: wf_pool_def)
qed

lemma PoolObj_free_wf:
  assumes "wf_pool self U" "j \<in> U"
  shows "\<exists>self'. PoolObj_free self (1, j) = Some self' \<and> wf_pool self' (U - {j}) \<and>
    op_objsperchunk self' = op_objsperchunk self"
proof -
  let ?n = "op_objsperchunk self"
  have one: "pool_one self U" and n: "2 \<le> ?n" using assms by (auto simp: wf_pool_def)
  then have lu: "last_ok U (op_lastused self)" by (simp add: pool_one_def)
  from PoolObj_free_one [OF one refl assms(2)] obtain self' where self':
    "PoolObj_free self (1, j) = (if op_lastused self \<noteq> Some j then Some self' else free_last self' 0 1 (1, j))"
    "op_lastused self' = op_lastused self" "op_objsperchunk self' = ?n" "j < ?n"
    "\<And>lu. last_ok (U - {j}) lu \<Longrightarrow> pool_one (self'\<lparr>op_lastused := lu\<rparr>) (U - {j})" by blast
  show ?thesis
  proof (cases "op_lastused self = Some j")
    case True
    then have "\<forall>i \<in> U. i \<le> j" using lu by (simp add: last_ok_def)
    from free_last_one [OF self'(5) self'(3) n assms(2) this self'(4)] show ?thesis
      using self'(1,2) True by simp
  next
    case False
    then have "last_ok (U - {j}) (op_lastused self')"
      using lu self'(2) by (auto simp: last_ok_def split: option.splits)
    from self'(5) [OF this] show ?thesis using self'(1,3) False n by (simp add: wf_pool_def)
  qed
qed

section \<open>Runs\<close>

datatype pool_op = Alloc | Free pool_obj

fun pool_run :: "ObjectPool \<Rightarrow> pool_op list \<Rightarrow> (ObjectPool \<times> pool_obj list) option" where
  "pool_run self [] = Some (self, [])"
| "pool_run self (Alloc # ops) = do {
     (obj, self) \<leftarrow> ObjectPool_alloc self;
     (self, objs) \<leftarrow> pool_run self ops;
     Some (self, obj # objs) }"
| "pool_run self (Free obj # ops) = do { self \<leftarrow> PoolObj_free self obj; pool_run self ops }"

text \<open>
  The specification: the set of objects in use; the lowest unused one is allocated.  A
  run is admissible when it frees objects in use only and uses at most \<open>n\<close> at a time.
\<close>

definition least_unused :: "nat list \<Rightarrow> nat" where
  "least_unused U = the (List.find (\<lambda>i. i \<notin> set U) [0..<Suc (length U)])"

fun spec_run :: "nat \<Rightarrow> nat list \<Rightarrow> pool_op list \<Rightarrow> (nat list \<times> pool_obj list) option" where
  "spec_run n U [] = Some (U, [])"
| "spec_run n U (Alloc # ops) =
     (if length U < n
      then (let i = least_unused U in do { (U', objs) \<leftarrow> spec_run n (i # U) ops; Some (U', (1, i) # objs) })
      else None)"
| "spec_run n U (Free obj # ops) =
     (if fst obj = 1 \<and> snd obj \<in> set U then spec_run n (removeAll (snd obj) U) ops else None)"

lemma least_unused_Least: "least_unused U = (LEAST i. i \<notin> set U)"
proof -
  have "\<exists>i < Suc (length U). i \<notin> set U"
  proof (rule ccontr)
    assume "\<not> ?thesis"
    then have "{..<Suc (length U)} \<subseteq> set U" by auto
    then have "Suc (length U) \<le> card (set U)" by (metis List.finite_set card_lessThan card_mono)
    then show False using card_length [of U] by simp
  qed
  then obtain i where "List.find (\<lambda>i. i \<notin> set U) [0..<Suc (length U)] = Some i"
    by (cases "List.find (\<lambda>i. i \<notin> set U) [0..<Suc (length U)]") (auto simp: find_None_iff simp del: upt_Suc)
  moreover from this have "i \<notin> set U" "\<forall>k < i. k \<in> set U"
    by (auto simp: find_Some_iff simp del: upt_Suc)
  ultimately show ?thesis
    by (simp add: least_unused_def) (rule Least_equality [symmetric], auto simp: not_less [symmetric])
qed

lemma pool_run_spec:
  "wf_pool self (set U) \<Longrightarrow> distinct U \<Longrightarrow> op_objsperchunk self = n \<Longrightarrow> spec_run n U ops = Some (U', objs) \<Longrightarrow>
   \<exists>self'. pool_run self ops = Some (self', objs) \<and> wf_pool self' (set U') \<and> distinct U' \<and> op_objsperchunk self' = n"
proof (induction n U ops arbitrary: self objs rule: spec_run.induct)
  case (1 n U)
  then show ?case by simp
next
  case (2 n U ops)
  then have U: "length U < n" by (simp split: if_splits)
  let ?i = "LEAST i. i \<notin> set U"
  obtain objs' where r: "spec_run n (?i # U) ops = Some (U', objs')" "objs = (1, ?i) # objs'"
    using "2.prems"(4) U by (auto simp: least_unused_Least Let_def split: bind_splits)
  have "?i \<notin> set U" using least_unused_Least [of U] by (metis LeastI ex_new_if_finite List.finite_set infinite_UNIV_nat)
  then have d: "distinct (?i # U)" using "2.prems"(2) by simp
  obtain self1 where a: "ObjectPool_alloc self = Some ((1, ?i), self1)" "wf_pool self1 (set (?i # U))" "op_objsperchunk self1 = n"
    using ObjectPool_alloc_wf [OF "2.prems"(1)] "2.prems"(2,3) U distinct_card [of U] by auto
  have "?i = least_unused U" by (simp add: least_unused_Least)
  from "2.IH" [OF U this a(2) d a(3) r(1)] show ?case using a(1) r(2) by auto
next
  case (3 n U obj ops)
  then have obj: "fst obj = 1 \<and> snd obj \<in> set U" "spec_run n (removeAll (snd obj) U) ops = Some (U', objs)"
    by (simp_all split: if_splits)
  obtain self1 where a: "PoolObj_free self obj = Some self1" "wf_pool self1 (set (removeAll (snd obj) U))" "op_objsperchunk self1 = n"
    using PoolObj_free_wf [OF "3.prems"(1), of "snd obj"] obj "3.prems"(3) by (cases obj) auto
  show ?case
    using "3.IH" [OF obj(1) a(2) _ a(3) obj(2)] "3.prems"(2) a by (simp add: distinct_removeAll)
qed

lemma destroy_objs_eq:
  "used = length (filter (\<lambda>i. po_used (objs ! i)) [j..<length objs]) \<Longrightarrow>
   destroy_objs objs used j = Some (filter (\<lambda>i. po_used (objs ! i)) [j..<length objs])"
proof (induction objs used j rule: destroy_objs.induct)
  case (1 objs used j)
  show ?case
  proof (cases "j < length objs")
    case True
    then have u: "[j..<length objs] = j # [Suc j..<length objs]" by (rule upt_conv_Cons)
    show ?thesis
    proof (cases "used = 0")
      case used: False
      then show ?thesis
      proof (cases "po_used (objs ! j)")
        case p: True
        then have "destroy_objs objs (used - 1) (Suc j) = Some (filter (\<lambda>i. po_used (objs ! i)) [Suc j..<length objs])"
          using "1.IH"(1) [OF used True p] "1.prems" u by simp
        then show ?thesis using True used p u by (subst destroy_objs.simps) simp
      next
        case p: False
        then have "destroy_objs objs used (Suc j) = Some (filter (\<lambda>i. po_used (objs ! i)) [Suc j..<length objs])"
          using "1.IH"(2) [OF used True p] "1.prems" u by simp
        then show ?thesis using True used p u by (subst destroy_objs.simps) simp
      qed
    next
      case used: True
      then have "filter (\<lambda>i. po_used (objs ! i)) [j..<length objs] = []" using "1.prems" by simp
      then show ?thesis using used by (subst destroy_objs.simps) simp
    qed
  next
    case False
    then have "used = 0" using "1.prems" by simp
    then show ?thesis using False by (subst destroy_objs.simps) simp
  qed
qed

lemma ObjectPool_destroy_one:
  assumes "pool_one self U"
  shows "\<exists>js. ObjectPool_destroy self True = Some ([None], map (Pair 1) js) \<and> distinct js \<and> set js = U"
proof -
  let ?n = "op_objsperchunk self"
  obtain h where h: "op_heap self = [Some h]" "hdr_next h = NULL" "length (hdr_objs h) = ?n"
    "hdr_nfree h = op_nfree self" "used_objs (hdr_objs h) = U"
    using assms unfolding pool_one_def by blast
  have s: "op_keep self = NULL" "op_first self = 1" "op_nfree self = ?n - card U" using assms unfolding pool_one_def by blast+
  define js where "js = filter (\<lambda>i. po_used (hdr_objs h ! i)) [0..<?n]"
  have js: "distinct js" "set js = U" using h(3,5) by (auto simp: js_def used_objs_def)
  have "card U \<le> ?n" using h(3,5) used_objs_bound(1) [of "hdr_objs h"] card_mono [of "{..<?n}" U] by auto
  then have "?n - hdr_nfree h = length js" using js h(4) s(3) distinct_card by fastforce
  then have "destroy_objs (hdr_objs h) (?n - hdr_nfree h) 0 = Some js"
    using destroy_objs_eq [of _ "hdr_objs h" 0] h(3) by (simp add: js_def)
  then have "ObjectPool_destroy self True = Some ([None], map (Pair 1) js)"
    using s(1,2) h(1,2) by (simp add: ObjectPool_destroy_def hdr_defs numeral_2_eq_2)
  with js show ?thesis by blast
qed

lemma wf_pool_create:
  "2 \<le> objsPerChunk \<Longrightarrow> wf_pool (ObjectPool_create pagesz objSz objsPerChunk) {}"
  by (simp add: wf_pool_def pool_empty_def ObjectPool_create_def Let_def)

text \<open>
  C38: A pool as long as one chunk is enough.  Any run of allocations and releases that uses at
  most as many objects at a time as a chunk holds is free of undefined behaviour and
  returns the lowest unused object each time; destroying the pool while objects are in use
  calls the destructor exactly once for each of them and releases the memory.
\<close>

theorem pool_refines_spec:
  assumes "2 \<le> objsPerChunk"
    and "spec_run (op_objsperchunk (ObjectPool_create pagesz objSz objsPerChunk)) [] ops = Some (U, objs)"
  shows "\<exists>self. pool_run (ObjectPool_create pagesz objSz objsPerChunk) ops = Some (self, objs) \<and>
    (U \<noteq> [] \<longrightarrow> (\<exists>js. ObjectPool_destroy self True = Some ([None], map (Pair 1) js) \<and> distinct js \<and> set js = set U))"
proof -
  from pool_run_spec [OF _ _ refl assms(2)] wf_pool_create [OF assms(1)] obtain self where self:
    "pool_run (ObjectPool_create pagesz objSz objsPerChunk) ops = Some (self, objs)" "wf_pool self (set U)" by auto
  then have "U \<noteq> [] \<Longrightarrow> pool_one self (set U)" by (simp add: wf_pool_def)
  with self(1) ObjectPool_destroy_one show ?thesis by blast
qed

theorem pool_refines_spec_witness:
  "\<exists>self. pool_run (ObjectPool_create 4096 1024 3) [Alloc, Alloc, Free (1, 0), Alloc, Alloc] =
     Some (self, [(1, 0), (1, 1), (1, 0), (1, 2)])"
proof -
  have u: "least_unused [] = 0" "least_unused [0] = Suc 0" "least_unused [Suc 0] = 0" "least_unused [0, Suc 0] = 2"
    by (simp_all add: least_unused_def upt_rec)
  have n: "op_objsperchunk (ObjectPool_create 4096 1024 3) = 3"
    by (simp add: ObjectPool_create_def sizeof_ObjPoolHdr_def Let_def)
  have "spec_run (op_objsperchunk (ObjectPool_create 4096 1024 3)) [] [Alloc, Alloc, Free (1, 0), Alloc, Alloc] =
      Some ([2, 0, 1], [(1, 0), (1, 1), (1, 0), (1, 2)])"
    unfolding n by (simp add: u Let_def)
  from pool_refines_spec [OF _ this] show ?thesis by auto
qed

text \<open>A pool with three objects in each chunk, for the runs below.\<close>

definition pool3 :: "nat \<Rightarrow> nat \<Rightarrow> ObjectPool" where
  "pool3 objsz chunksz = \<lparr>op_objsz = objsz, op_objsperchunk = 3, op_nobj = 0, op_nfree = 0, op_chunksz = chunksz,
     op_firstfree = None, op_lastused = None, op_first = NULL, op_last = NULL, op_keep = NULL, op_keepcnt = 0, op_heap = []\<rparr>"

lemma create_pool3: "ObjectPool_create 4096 1024 3 = pool3 1024 4096"
  by (simp add: ObjectPool_create_def sizeof_ObjPoolHdr_def Let_def pool3_def)

lemma pool3_released:
  "case pool_run (pool3 objsz chunksz) [Alloc, Alloc, Free (1, 0), Free (1, 1)] of
     Some (self, objs) \<Rightarrow> objs = [(1, 0), (1, 1)] \<and> ObjectPool_destroy self objdestroy = None
   | None \<Rightarrow> False"
  by code_simp

lemma pool3_lost:
  "case pool_run (pool3 objsz chunksz) [Alloc, Alloc, Alloc, Alloc, Free (1, 0), Free (1, 1), Free (1, 2), Alloc] of
     Some (self, objs) \<Rightarrow> objs = [(1, 0), (1, 1), (1, 2), (2, 0), (1, 0)] \<and> PoolObj_free self (2, 0) = None
   | None \<Rightarrow> False"
  by code_simp

text \<open>
  A pool whose objects were all freed cannot be destroyed.  The chunk that is released when
  the last object is freed stays the first chunk of the pool: destroying the pool unmaps it
  and then reads it.
\<close>

theorem pool_destroy_after_release:
  "\<exists>self. pool_run (ObjectPool_create 4096 1024 3) [Alloc, Alloc, Free (1, 0), Free (1, 1)] = Some (self, [(1, 0), (1, 1)]) \<and>
     ObjectPool_destroy self objdestroy = None"
  using pool3_released [where objsz = 1024 and chunksz = 4096 and objdestroy = objdestroy] by (auto simp: create_pool3 split: option.splits prod.splits)

text \<open>
  Releasing a chunk loses the others.  When the first of two chunks becomes empty it is
  released although the second one is in use: the next allocation hands out the number of
  an object that is still in use, and freeing that object dereferences a null pointer.
\<close>

theorem pool_release_loses_chunks:
  "\<exists>self. pool_run (ObjectPool_create 4096 1024 3)
       [Alloc, Alloc, Alloc, Alloc, Free (1, 0), Free (1, 1), Free (1, 2), Alloc] =
     Some (self, [(1, 0), (1, 1), (1, 2), (2, 0), (1, 0)]) \<and> PoolObj_free self (2, 0) = None"
  using pool3_lost [where objsz = 1024 and chunksz = 4096] by (auto simp: create_pool3 split: option.splits prod.splits)

end
