(* ===== verification/Poser_Event.thy ===== *)
theory Poser_Event
  imports Prelude
begin

text \<open>
  \<open>PSC_Event\<close> (\<open>src/lib/core/event.c\<close>): a linked list of handlers that is run when the
  event is raised.  Handlers may register and unregister handlers and raise events while
  the list is run; the field \<open>handling\<close> is the entry that comes next.

  The entries come from the object pool of the thread; here the pool is the list of its
  cells, of which the lowest free one is allocated, as \<open>Poser_ObjectPool\<close> proves for
  \<open>objectpool.c\<close>.  Entry \<open>p\<close> is cell \<open>p - 1\<close>.
\<close>

section \<open>Model\<close>

record EvHandler =
  eh_cb :: nat
  eh_receiver :: ptr
  eh_id :: int

record EvHandlerEntry =
  en_next :: ptr
  en_handler :: EvHandler

record PSC_Event =
  ev_pool :: bool
  ev_sender :: ptr
  ev_first :: ptr
  ev_last :: ptr
  ev_handling :: ptr

type_synonym ev_cells = "EvHandlerEntry option list"

text \<open>The thread-local \<open>pool\<close> and its reference counter.\<close>

record ev_thread =
  et_pool :: "ev_cells option"
  et_refcnt :: u64

definition poolInit :: "ev_thread \<Rightarrow> ev_thread" where
  "poolInit t = \<lparr>et_pool = (case et_pool t of None \<Rightarrow> Some [] | Some c \<Rightarrow> Some c), et_refcnt = et_refcnt t + 1\<rparr>"

definition poolDone :: "ev_thread \<Rightarrow> ev_thread" where
  "poolDone t = (let r = et_refcnt t - 1 in \<lparr>et_pool = (if r = 0 then None else et_pool t), et_refcnt = r\<rparr>)"

definition PSC_Event_initStatic :: "ev_thread \<Rightarrow> ptr \<Rightarrow> ev_thread \<times> PSC_Event" where
  "PSC_Event_initStatic t sender =
     (poolInit t, \<lparr>ev_pool = True, ev_sender = sender, ev_first = NULL, ev_last = NULL, ev_handling = NULL\<rparr>)"

definition cell_get :: "ev_cells \<Rightarrow> ptr \<Rightarrow> EvHandlerEntry option" where
  "cell_get C p = (if p = NULL \<or> length C < p then None else C ! (p - 1))"

definition cell_alloc :: "ev_cells \<Rightarrow> EvHandlerEntry \<Rightarrow> ptr \<times> ev_cells" where
  "cell_alloc C e =
     (case List.find (\<lambda>i. C ! i = None) [0..<length C] of
        Some i \<Rightarrow> (Suc i, C[i := Some e])
      | None \<Rightarrow> (Suc (length C), C @ [Some e]))"

definition cell_set :: "ev_cells \<Rightarrow> ptr \<Rightarrow> EvHandlerEntry \<Rightarrow> ev_cells" where
  "cell_set C p e = C[p - 1 := Some e]"

definition cell_free :: "ev_cells \<Rightarrow> ptr \<Rightarrow> ev_cells" where
  "cell_free C p = C[p - 1 := None]"

text \<open>
  \<open>findEntry\<close>: the entry and its parent.  No entry is visited twice, so the number of
  cells bounds the rounds.
\<close>

fun find_loop :: "nat \<Rightarrow> ev_cells \<Rightarrow> EvHandler \<Rightarrow> ptr \<Rightarrow> ptr \<Rightarrow> (ptr \<times> ptr) option" where
  "find_loop 0 C handler e p = None"
| "find_loop (Suc fuel) C handler e p =
     (if e = NULL then Some (NULL, NULL)
      else do {
        en \<leftarrow> cell_get C e;
        if en_handler en = handler then Some (e, p) else find_loop fuel C handler (en_next en) e })"

definition findEntry :: "ev_cells \<Rightarrow> PSC_Event \<Rightarrow> EvHandler \<Rightarrow> (ptr \<times> ptr) option" where
  "findEntry C self handler = find_loop (Suc (length C)) C handler (ev_first self) NULL"

definition PSC_Event_register :: "ev_cells \<Rightarrow> PSC_Event \<Rightarrow> EvHandler \<Rightarrow> (ev_cells \<times> PSC_Event) option" where
  "PSC_Event_register C self hdl = do {
     (e, _) \<leftarrow> findEntry C self hdl;
     if e \<noteq> NULL then Some (C, self)
     else do {
       let (entry, C) = cell_alloc C \<lparr>en_next = NULL, en_handler = hdl\<rparr>;
       if ev_last self \<noteq> NULL
       then do {
         l \<leftarrow> cell_get C (ev_last self);
         Some (cell_set C (ev_last self) (l\<lparr>en_next := entry\<rparr>), self\<lparr>ev_last := entry\<rparr>) }
       else Some (C, self\<lparr>ev_first := entry, ev_last := entry\<rparr>) } }"

definition PSC_Event_unregister :: "ev_cells \<Rightarrow> PSC_Event \<Rightarrow> EvHandler \<Rightarrow> (ev_cells \<times> PSC_Event) option" where
  "PSC_Event_unregister C self hdl =
     (if ev_first self = NULL then Some (C, self)
      else do {
        (e, parent) \<leftarrow> findEntry C self hdl;
        if e = NULL then Some (C, self)
        else do {
          entry \<leftarrow> cell_get C e;
          let self = (if e = ev_handling self then self\<lparr>ev_handling := en_next entry\<rparr> else self);
          (C, self) \<leftarrow>
            (if parent \<noteq> NULL
             then do { p \<leftarrow> cell_get C parent; Some (cell_set C parent (p\<lparr>en_next := en_next entry\<rparr>), self) }
             else Some (C, self\<lparr>ev_first := en_next entry\<rparr>));
          let self = (if en_next entry = NULL then self\<lparr>ev_last := parent\<rparr> else self);
          Some (cell_free C e, self) } })"

text \<open>
  Raising.  What a handler does with the event is a parameter: \<open>cb\<close> gives the calls it
  makes.  The argument of a handler is a pointer, or the address of the id when the caller
  passed none.  The trace records the calls.  \<^const>\<open>None\<close> is undefined behaviour, or that
  the fuel was not enough.
\<close>

datatype ev_args = Args ptr | IdArgs int

datatype ev_act = Register EvHandler | Unregister EvHandler | Raise int ev_args

record ev_state =
  es_cells :: ev_cells
  es_event :: PSC_Event
  es_trace :: "(EvHandler \<times> ev_args) list"

type_synonym ev_callbacks = "EvHandler \<Rightarrow> ev_args \<Rightarrow> ev_act list"

definition raise_args :: "int \<Rightarrow> ev_args \<Rightarrow> ev_args" where
  "raise_args evid args = (if args = Args NULL \<and> evid \<noteq> 0 then IdArgs evid else args)"

fun raise_loop :: "nat \<Rightarrow> ev_callbacks \<Rightarrow> int \<Rightarrow> ev_args \<Rightarrow> ptr \<Rightarrow> ev_state \<Rightarrow> ev_state option"
  and run_acts :: "nat \<Rightarrow> ev_callbacks \<Rightarrow> ev_act list \<Rightarrow> ev_state \<Rightarrow> ev_state option" where
  "raise_loop 0 cb evid args entry s = None"
| "raise_loop (Suc fuel) cb evid args entry s =
     (if entry = NULL then Some s
      else do {
        en \<leftarrow> cell_get (es_cells s) entry;
        let s = s\<lparr>es_event := (es_event s)\<lparr>ev_handling := en_next en\<rparr>\<rparr>;
        (s, args) \<leftarrow>
          (if eh_id (en_handler en) = evid
           then do {
             let args = raise_args evid args;
             let s = s\<lparr>es_trace := es_trace s @ [(en_handler en, args)]\<rparr>;
             s \<leftarrow> run_acts fuel cb (cb (en_handler en) args) s;
             Some (s, args) }
           else Some (s, args));
        raise_loop fuel cb evid args (ev_handling (es_event s)) s })"
| "run_acts 0 cb acts s = None"
| "run_acts (Suc fuel) cb [] s = Some s"
| "run_acts (Suc fuel) cb (act # acts) s = do {
     s \<leftarrow> (case act of
         Register h \<Rightarrow> do { (C, ev) \<leftarrow> PSC_Event_register (es_cells s) (es_event s) h; Some (s\<lparr>es_cells := C, es_event := ev\<rparr>) }
       | Unregister h \<Rightarrow> do { (C, ev) \<leftarrow> PSC_Event_unregister (es_cells s) (es_event s) h; Some (s\<lparr>es_cells := C, es_event := ev\<rparr>) }
       | Raise evid args \<Rightarrow> raise_loop fuel cb evid args (ev_first (es_event s)) s);
     run_acts fuel cb acts s }"

definition PSC_Event_raise :: "nat \<Rightarrow> ev_callbacks \<Rightarrow> int \<Rightarrow> ev_args \<Rightarrow> ev_state \<Rightarrow> ev_state option" where
  "PSC_Event_raise fuel cb evid args s = raise_loop fuel cb evid args (ev_first (es_event s)) s"

text \<open>Destroying: every entry is freed, so the number of cells bounds the rounds again.\<close>

fun destroy_entries :: "nat \<Rightarrow> ev_cells \<Rightarrow> ptr \<Rightarrow> ev_cells option" where
  "destroy_entries 0 C entry = None"
| "destroy_entries (Suc fuel) C entry =
     (if entry = NULL then Some C
      else do { en \<leftarrow> cell_get C entry; destroy_entries fuel (cell_free C entry) (en_next en) })"

definition PSC_Event_destroyStatic :: "ev_thread \<Rightarrow> PSC_Event \<Rightarrow> (ev_thread \<times> PSC_Event) option" where
  "PSC_Event_destroyStatic t self =
     (if \<not> ev_pool self then Some (t, self)
      else do {
        C \<leftarrow> et_pool t;
        C \<leftarrow> destroy_entries (Suc (length C)) C (ev_first self);
        Some (poolDone (t\<lparr>et_pool := Some C\<rparr>),
          \<lparr>ev_pool = False, ev_sender = NULL, ev_first = NULL, ev_last = NULL, ev_handling = NULL\<rparr>) })"

section \<open>The list of entries\<close>

fun path :: "ev_cells \<Rightarrow> ptr \<Rightarrow> (ptr \<times> EvHandler) list \<Rightarrow> ptr \<Rightarrow> bool" where
  "path C p [] q \<longleftrightarrow> p = q"
| "path C p ((a, h) # as) q \<longleftrightarrow> p = a \<and> (\<exists>n. cell_get C a = Some \<lparr>en_next = n, en_handler = h\<rparr> \<and> path C n as q)"

definition head :: "(ptr \<times> EvHandler) list \<Rightarrow> ptr" where
  "head xs = (case xs of [] \<Rightarrow> NULL | x # _ \<Rightarrow> fst x)"

definition endp :: "(ptr \<times> EvHandler) list \<Rightarrow> ptr" where
  "endp xs = (if xs = [] then NULL else fst (last xs))"

text \<open>
  The entries of an event: those before \<open>handling\<close>, and those from there on.
\<close>

definition wf_event :: "ev_cells \<Rightarrow> PSC_Event \<Rightarrow> (ptr \<times> EvHandler) list \<Rightarrow> (ptr \<times> EvHandler) list \<Rightarrow> bool" where
  [wf_defs]: "wf_event C ev d r \<longleftrightarrow> path C (ev_first ev) (d @ r) NULL \<and> distinct (map fst (d @ r)) \<and> distinct (map snd (d @ r)) \<and>
     ev_last ev = endp (d @ r) \<and> ev_handling ev = head r"

lemma cell_get_NULL [simp]: "cell_get C NULL = None"
  by (simp add: cell_get_def)

lemma cell_get_set: "cell_get C p = Some e0 \<Longrightarrow> cell_get (cell_set C p e) q = (if q = p then Some e else cell_get C q)"
  by (auto simp: cell_get_def cell_set_def nth_list_update split: if_splits)

lemma cell_get_free: "cell_get C p = Some e0 \<Longrightarrow> cell_get (cell_free C p) q = (if q = p then None else cell_get C q)"
  by (auto simp: cell_get_def cell_free_def nth_list_update split: if_splits)

lemma length_cell_set [simp]: "length (cell_set C p e) = length C" "length (cell_free C p) = length C"
  by (simp_all add: cell_set_def cell_free_def)

lemma cell_alloc_ok:
  assumes "cell_alloc C e = (p, C')"
  shows "p \<noteq> NULL" "cell_get C p = None" "\<And>q. cell_get C' q = (if q = p then Some e else cell_get C q)" "length C \<le> length C'"
proof -
  show "p \<noteq> NULL" "cell_get C p = None" "length C \<le> length C'"
    using assms by (auto simp: cell_alloc_def cell_get_def find_Some_iff split: option.splits)
  show "cell_get C' q = (if q = p then Some e else cell_get C q)" for q
    using assms
    by (auto simp: cell_alloc_def cell_get_def find_Some_iff nth_list_update nth_append split: option.splits if_splits)
qed

lemma path_append: "path C p (as @ bs) q \<longleftrightarrow> (\<exists>m. path C p as m \<and> path C m bs q)"
  by (induction C p as q rule: path.induct) auto

lemma path_cong:
  "(\<And>a. a \<in> fst ` set as \<Longrightarrow> cell_get C' a = cell_get C a) \<Longrightarrow> path C' p as q = path C p as q"
  by (induction C p as q rule: path.induct) auto

lemma path_cells: "path C p as q \<Longrightarrow> a \<in> fst ` set as \<Longrightarrow> cell_get C a \<noteq> None"
  by (induction C p as q rule: path.induct) auto

lemma path_head: "path C p as NULL \<Longrightarrow> p = head as"
  by (cases as) (auto simp: head_def)

lemma path_head_NULL:
  assumes "path C p as NULL"
  shows "head as = NULL \<longleftrightarrow> as = []"
proof (cases as)
  case (Cons x xs)
  then have "cell_get C (fst x) \<noteq> None" using path_cells [OF assms, of "fst x"] by simp
  then have "fst x \<noteq> NULL" by (metis cell_get_NULL)
  then show ?thesis using Cons by (simp add: head_def)
qed (simp add: head_def)

lemma path_length:
  assumes "path C p as q" "distinct (map fst as)"
  shows "length as \<le> length C"
proof -
  have "fst ` set as \<subseteq> {1..length C}"
    using path_cells [OF assms(1)] by (force simp: cell_get_def split: if_splits)
  then have "card (fst ` set as) \<le> length C" using card_mono [of "{1..length C}"] by fastforce
  then show ?thesis using assms(2) by (metis distinct_card length_map set_map)
qed

lemma find_loop_found:
  "path C e (pre @ (a, h) # post) q \<Longrightarrow> h \<notin> snd ` set pre \<Longrightarrow> length pre < fuel \<Longrightarrow>
   find_loop fuel C h e p = Some (a, if pre = [] then p else fst (last pre))"
proof (induction pre arbitrary: e p fuel)
  case Nil
  then obtain k where "fuel = Suc k" by (cases fuel) auto
  then show ?case using Nil.prems(1) cell_get_NULL by (cases "a = NULL") auto
next
  case (Cons x pre)
  obtain b g where x: "x = (b, g)" by fastforce
  obtain k where k: "fuel = Suc k" using Cons.prems(3) by (cases fuel) auto
  obtain n where n: "e = b" "cell_get C b = Some \<lparr>en_next = n, en_handler = g\<rparr>" "path C n (pre @ (a, h) # post) q"
    using Cons.prems(1) x by auto
  have "e \<noteq> NULL" "g \<noteq> h" using n(1,2) Cons.prems(2) x by auto
  then show ?case using Cons.IH [OF n(3), of k e] Cons.prems(2,3) n(1,2) x k by auto
qed

lemma find_loop_absent:
  "path C e xs NULL \<Longrightarrow> h \<notin> snd ` set xs \<Longrightarrow> length xs < fuel \<Longrightarrow> find_loop fuel C h e p = Some (NULL, NULL)"
proof (induction xs arbitrary: e p fuel)
  case Nil
  then show ?case by (cases fuel) auto
next
  case (Cons x xs)
  obtain b g where x: "x = (b, g)" by fastforce
  obtain k where k: "fuel = Suc k" using Cons.prems(3) by (cases fuel) auto
  obtain n where n: "e = b" "cell_get C b = Some \<lparr>en_next = n, en_handler = g\<rparr>" "path C n xs NULL"
    using Cons.prems(1) x by auto
  have "e \<noteq> NULL" "g \<noteq> h" using n(1,2) Cons.prems(2) x by auto
  then show ?case using Cons.IH [OF n(3), of k e] Cons.prems(2,3) n(1,2) x k by auto
qed

lemma findEntry_ok:
  assumes "wf_event C ev d r"
  shows "h \<notin> snd ` set (d @ r) \<Longrightarrow> findEntry C ev h = Some (NULL, NULL)"
    and "d @ r = pre @ (a, h) # post \<Longrightarrow> findEntry C ev h = Some (a, endp pre)"
proof -
  have p: "path C (ev_first ev) (d @ r) NULL" and dis: "distinct (map fst (d @ r))" "distinct (map snd (d @ r))"
    using assms by (simp_all add: wf_event_def)
  have len: "length (d @ r) < Suc (length C)" using path_length [OF p dis(1)] by simp
  show "findEntry C ev h = Some (NULL, NULL)" if "h \<notin> snd ` set (d @ r)"
    using find_loop_absent [OF p that len] by (simp add: findEntry_def)
  show "findEntry C ev h = Some (a, endp pre)" if e: "d @ r = pre @ (a, h) # post"
  proof -
    have "h \<notin> snd ` set pre" using dis(2) unfolding e by auto
    moreover have "length pre < Suc (length C)" using arg_cong [OF e, of length] len by simp
    ultimately show ?thesis
      using find_loop_found [of C "ev_first ev" pre a h post NULL] p unfolding e by (simp add: findEntry_def endp_def del: find_loop.simps)
  qed
qed

lemma endp_snoc [simp]: "endp (xs @ [x]) = fst x" "endp [] = NULL"
  by (simp_all add: endp_def)

lemma endp_append [simp]: "ys \<noteq> [] \<Longrightarrow> endp (xs @ ys) = endp ys"
  by (simp add: endp_def)

lemma endp_Cons [simp]: "endp (x # xs) = (if xs = [] then fst x else endp xs)"
  by (simp add: endp_def)

text \<open>Unlinking an entry.\<close>

lemma path_unlink:
  assumes p: "path C f (pre @ (a, h) # post) NULL" and dis: "distinct (map fst (pre @ (a, h) # post))" and pre: "pre \<noteq> []"
  shows "\<exists>e. cell_get C (endp pre) = Some e \<and>
    path (cell_free (cell_set C (endp pre) (e\<lparr>en_next := head post\<rparr>)) a) f (pre @ post) NULL"
proof -
  obtain ps b g where ps: "pre = ps @ [(b, g)]" using pre by (metis append_butlast_last_id prod.collapse)
  obtain m where m: "path C f ps b" "cell_get C b = Some \<lparr>en_next = m, en_handler = g\<rparr>" "path C m ((a, h) # post) NULL"
    using p ps by (auto simp: path_append)
  obtain n where n: "cell_get C a = Some \<lparr>en_next = n, en_handler = h\<rparr>" "path C n post NULL" using m(3) by auto
  let ?e = "\<lparr>en_next = head post, en_handler = g\<rparr>"
  let ?C = "cell_free (cell_set C b ?e) a"
  have ab: "a \<noteq> b" using dis ps by auto
  have get: "cell_get ?C q = (if q = a then None else if q = b then Some ?e else cell_get C q)" for q
    using ab n(1) m(2) cell_get_set [OF m(2)] cell_get_free [of "cell_set C b ?e" a] by auto
  have "path ?C f ps b" using m(1) dis ps by (subst path_cong [of _ _ C]) (auto simp: get)
  moreover have "path ?C (head post) post NULL"
    using n(2) path_head [OF n(2)] dis ps by (subst path_cong [of _ _ C]) (auto simp: get)
  moreover have "cell_get ?C b = Some ?e" using ab by (simp add: get)
  ultimately have "path ?C f (pre @ post) NULL" by (auto simp: ps path_append)
  then show ?thesis using m(2) by (simp add: ps)
qed

lemma PSC_Event_unregister_ok:
  assumes wf: "wf_event C ev d r"
  shows "\<exists>C' ev'. PSC_Event_unregister C ev h = Some (C', ev') \<and>
    wf_event C' ev' (filter (\<lambda>x. snd x \<noteq> h) d) (filter (\<lambda>x. snd x \<noteq> h) r)"
proof (cases "h \<in> snd ` set (d @ r)")
  case False
  have f: "filter (\<lambda>x. snd x \<noteq> h) d = d" "filter (\<lambda>x. snd x \<noteq> h) r = r"
    using False by (auto intro!: filter_True)
  then show ?thesis using findEntry_ok(1) [OF wf False] wf unfolding f by (simp add: PSC_Event_unregister_def)
next
  case True
  then obtain a where ain: "(a, h) \<in> set (d @ r)" by (metis imageE prod.collapse)
  then obtain pre post where e: "d @ r = pre @ (a, h) # post" by (meson split_list)
  have p: "path C (ev_first ev) (pre @ (a, h) # post) NULL"
    and dis: "distinct (map fst (pre @ (a, h) # post))" "distinct (map snd (pre @ (a, h) # post))"
    and last: "ev_last ev = endp (pre @ (a, h) # post)" and hd: "ev_handling ev = head r"
    using wf unfolding wf_event_def e by blast+
  obtain n where a: "cell_get C a = Some \<lparr>en_next = n, en_handler = h\<rparr>" "path C n post NULL"
    using p by (auto simp: path_append)
  have n: "n = head post" using path_head [OF a(2)] .
  have f: "filter (\<lambda>x. snd x \<noteq> h) d @ filter (\<lambda>x. snd x \<noteq> h) r = pre @ post"
  proof -
    have "filter (\<lambda>x. snd x \<noteq> h) pre = pre" "filter (\<lambda>x. snd x \<noteq> h) post = post"
      using dis(2) by (auto intro!: filter_True)
    then show ?thesis unfolding filter_append [symmetric] e by simp
  qed
  have anull: "a \<noteq> NULL" using a(1) by (metis cell_get_NULL option.distinct(1))
  have "ev_first ev \<noteq> NULL"
  proof
    assume "ev_first ev = NULL"
    then show False using p anull by (cases pre) auto
  qed
  have hpost: "head post = NULL \<longleftrightarrow> post = []"
    by (rule path_head_NULL [OF a(2)])
  define ev1 where "ev1 = (if a = ev_handling ev then ev\<lparr>ev_handling := n\<rparr> else ev)"
  have hd': "ev_handling ev1 = head (filter (\<lambda>x. snd x \<noteq> h) r)"
  proof (cases "a = head r")
    case True
    then obtain g r' where r: "r = (a, g) # r'" using anull by (cases r) (auto simp: head_def)
    have "distinct (map fst (d @ r))" using dis(1) unfolding e .
    then have g: "g = h" using ain r eq_key_imp_eq_value [of "d @ r" a g h] by simp
    have "distinct (map fst (d @ (a, h) # r'))" using dis(1) unfolding e [symmetric] r g .
    then have "(a, h) \<notin> set d" "(a, h) \<notin> set r'" by (force simp: image_iff)+
    then have "post = r'" using e unfolding r g by (simp add: append_Cons_eq_iff)
    moreover have "filter (\<lambda>x. snd x \<noteq> h) r' = r'"
      using dis(2) unfolding e [symmetric] r g by (intro filter_True) auto
    ultimately show ?thesis using True hd n by (simp add: ev1_def r g)
  next
    case False
    show ?thesis
    proof (cases r)
      case Nil
      then show ?thesis using False hd by (simp add: ev1_def)
    next
      case (Cons x r')
      have "inj_on snd (set (d @ r))" using dis(2) unfolding e [symmetric] distinct_map by blast
      then have "snd x = h \<Longrightarrow> x = (a, h)" using ain Cons inj_onD [of snd "set (d @ r)" x "(a, h)"] by simp
      then have "snd x \<noteq> h" using False Cons by (cases x) (auto simp: head_def)
      then show ?thesis using False hd Cons by (simp add: ev1_def head_def)
    qed
  qed
  have dis': "distinct (map fst (pre @ post))" "distinct (map snd (pre @ post))" using dis by auto
  have fe: "findEntry C ev h = Some (a, endp pre)" by (rule findEntry_ok(2) [OF wf e])
  have last': "(if n = NULL then endp pre else ev_last ev) = endp (pre @ post)"
    using last n hpost by (cases "post = []") simp_all
  define ev2 where "ev2 = (if pre = [] then ev1\<lparr>ev_first := n\<rparr> else ev1)"
  define ev3 where "ev3 = (if n = NULL then ev2\<lparr>ev_last := endp pre\<rparr> else ev2)"
  have ev3: "ev_handling ev3 = ev_handling ev1" "ev_last ev3 = endp (pre @ post)" "ev_first ev3 = (if pre = [] then n else ev_first ev)"
    using last' by (auto simp: ev3_def ev2_def ev1_def)
  have "\<exists>C'. PSC_Event_unregister C ev h = Some (C', ev3) \<and> path C' (ev_first ev3) (pre @ post) NULL"
  proof (cases "pre = []")
    case True
    have "path (cell_free C a) n post NULL"
      using a(2) dis(1) True by (subst path_cong [of _ _ C]) (auto simp: cell_get_free [OF a(1)])
    moreover have "PSC_Event_unregister C ev h = Some (cell_free C a, ev3)"
      using \<open>ev_first ev \<noteq> NULL\<close> fe anull a(1) True
      by (simp add: PSC_Event_unregister_def ev1_def ev2_def ev3_def)
    ultimately show ?thesis using True ev3(3) by simp
  next
    case False
    obtain pe where pe: "cell_get C (endp pre) = Some pe"
      "path (cell_free (cell_set C (endp pre) (pe\<lparr>en_next := head post\<rparr>)) a) (ev_first ev) (pre @ post) NULL"
      using path_unlink [OF p dis(1) False] by blast
    have "endp pre \<noteq> NULL" using pe(1) by (metis cell_get_NULL option.distinct(1))
    then have "PSC_Event_unregister C ev h = Some (cell_free (cell_set C (endp pre) (pe\<lparr>en_next := n\<rparr>)) a, ev3)"
      using \<open>ev_first ev \<noteq> NULL\<close> fe anull a(1) pe(1) False
      by (simp add: PSC_Event_unregister_def ev1_def ev2_def ev3_def)
    then show ?thesis using pe(2) False ev3(3) n by simp
  qed
  then show ?thesis using ev3 hd' dis' f unfolding wf_event_def by auto
qed

lemma PSC_Event_register_ok:
  assumes wf: "wf_event C ev d r" and h: "h \<notin> snd ` set (d @ r)"
  shows "\<exists>C' ev' p. PSC_Event_register C ev h = Some (C', ev') \<and>
    wf_event C' ev' (if r = [] then d @ [(p, h)] else d) (if r = [] then [] else r @ [(p, h)])"
proof -
  obtain p C1 where al: "cell_alloc C \<lparr>en_next = NULL, en_handler = h\<rparr> = (p, C1)" by fastforce
  note al' = cell_alloc_ok [OF al]
  have pa: "path C (ev_first ev) (d @ r) NULL" and dis: "distinct (map fst (d @ r))" "distinct (map snd (d @ r))"
    and last: "ev_last ev = endp (d @ r)" and hd: "ev_handling ev = head r"
    using wf unfolding wf_event_def by blast+
  have pn: "p \<notin> fst ` set (d @ r)" using path_cells [OF pa] al'(2) by blast
  have dis': "distinct (map fst ((d @ r) @ [(p, h)]))" "distinct (map snd ((d @ r) @ [(p, h)]))"
    using dis pn h by (auto simp: image_iff)
  have fe: "findEntry C ev h = Some (NULL, NULL)" by (rule findEntry_ok(1) [OF wf h])
  have "\<exists>C' ev'. PSC_Event_register C ev h = Some (C', ev') \<and> path C' (ev_first ev') ((d @ r) @ [(p, h)]) NULL \<and>
      ev_last ev' = p \<and> ev_handling ev' = ev_handling ev"
  proof (cases "d @ r = []")
    case True
    then have "PSC_Event_register C ev h = Some (C1, ev\<lparr>ev_first := p, ev_last := p\<rparr>)"
      using fe al last by (simp add: PSC_Event_register_def)
    moreover have "path C1 p [(p, h)] NULL" using al'(3) by simp
    ultimately show ?thesis using True by auto
  next
    case False
    then obtain ps b g where ps: "d @ r = ps @ [(b, g)]" by (metis append_butlast_last_id prod.collapse)
    obtain m where m: "path C (ev_first ev) ps b" "cell_get C b = Some \<lparr>en_next = NULL, en_handler = g\<rparr>"
      using pa unfolding ps by (auto simp: path_append)
    have bp: "b \<noteq> p" "p \<notin> fst ` set ps" "b \<notin> fst ` set ps" using pn dis(1) unfolding ps by auto
    have b1: "cell_get C1 b = Some \<lparr>en_next = NULL, en_handler = g\<rparr>" using m(2) bp al'(3) by simp
    let ?C = "cell_set C1 b \<lparr>en_next = p, en_handler = g\<rparr>"
    have get: "cell_get ?C q = (if q = b then Some \<lparr>en_next = p, en_handler = g\<rparr>
        else if q = p then Some \<lparr>en_next = NULL, en_handler = h\<rparr> else cell_get C q)" for q
      using cell_get_set [OF b1] al'(3) by auto
    have "path ?C (ev_first ev) ps b" using m(1) bp by (subst path_cong [of _ _ C]) (auto simp: get)
    then have "path ?C (ev_first ev) ((d @ r) @ [(p, h)]) NULL"
      unfolding ps using bp by (auto simp: path_append get)
    moreover have "b \<noteq> NULL" using m(2) by (metis cell_get_NULL option.distinct(1))
    moreover have "ev_last ev = b" using last unfolding ps by simp
    ultimately show ?thesis using fe al b1 by (auto simp: PSC_Event_register_def)
  qed
  then obtain C' ev' where R: "PSC_Event_register C ev h = Some (C', ev')"
    "path C' (ev_first ev') ((d @ r) @ [(p, h)]) NULL" "ev_last ev' = p" "ev_handling ev' = ev_handling ev" by blast
  have "wf_event C' ev' (if r = [] then d @ [(p, h)] else d) (if r = [] then [] else r @ [(p, h)])"
    using R(2-4) dis' hd by (cases r) (auto simp: wf_event_def head_def)
  with R(1) show ?thesis by blast
qed

lemma PSC_Event_register_again:
  assumes wf: "wf_event C ev d r" and h: "h \<in> snd ` set (d @ r)"
  shows "PSC_Event_register C ev h = Some (C, ev)"
proof -
  obtain a where "(a, h) \<in> set (d @ r)" using h by (metis imageE prod.collapse)
  then obtain pre post where e: "d @ r = pre @ (a, h) # post" by (meson split_list)
  have "path C (ev_first ev) (d @ r) NULL" using wf by (simp add: wf_event_def)
  from path_cells [OF this, of a] have "cell_get C a \<noteq> None" unfolding e by simp
  then have "a \<noteq> NULL" by (metis cell_get_NULL)
  then show ?thesis using findEntry_ok(2) [OF wf e] by (simp add: PSC_Event_register_def)
qed

lemma destroy_entries_ok:
  "path C p xs NULL \<Longrightarrow> distinct (map fst xs) \<Longrightarrow> length xs < fuel \<Longrightarrow>
   \<exists>C'. destroy_entries fuel C p = Some C' \<and> (\<forall>q. cell_get C' q = (if q \<in> fst ` set xs then None else cell_get C q))"
proof (induction xs arbitrary: C p fuel)
  case Nil
  then show ?case by (cases fuel) auto
next
  case (Cons x xs)
  obtain b g where x: "x = (b, g)" by fastforce
  obtain k where k: "fuel = Suc k" using Cons.prems(3) by (cases fuel) auto
  obtain n where n: "p = b" "cell_get C b = Some \<lparr>en_next = n, en_handler = g\<rparr>" "path C n xs NULL"
    using Cons.prems(1) x by auto
  have "path (cell_free C b) n xs NULL"
    using n(3) Cons.prems(2) x by (subst path_cong [of _ _ C]) (auto simp: cell_get_free [OF n(2)])
  then obtain C' where "destroy_entries k (cell_free C b) n = Some C'"
    "\<forall>q. cell_get C' q = (if q \<in> fst ` set xs then None else cell_get (cell_free C b) q)"
    using Cons.IH [of "cell_free C b" n k] Cons.prems k by auto
  moreover have "p \<noteq> NULL" using n(1,2) by (metis cell_get_NULL option.distinct(1))
  ultimately show ?case using n(1,2) x k by (auto simp: cell_get_free [OF n(2)])
qed

section \<open>Raising\<close>

text \<open>The handlers that a callback unregisters, and the calls that an event makes then.\<close>

fun unregs :: "ev_act list \<Rightarrow> EvHandler list" where
  "unregs [] = []"
| "unregs (Unregister h # acts) = h # unregs acts"
| "unregs (_ # acts) = unregs acts"

definition only_unregister :: "ev_act list \<Rightarrow> bool" where
  "only_unregister acts \<longleftrightarrow> (\<forall>act \<in> set acts. case act of Unregister _ \<Rightarrow> True | _ \<Rightarrow> False)"

function visit :: "ev_callbacks \<Rightarrow> int \<Rightarrow> ev_args \<Rightarrow> EvHandler list \<Rightarrow> EvHandler list" where
  "visit cb evid args [] = []"
| "visit cb evid args (h # hs) =
     (if eh_id h = evid then h # visit cb evid args (filter (\<lambda>x. x \<notin> set (unregs (cb h args))) hs)
      else visit cb evid args hs)"
  by pat_completeness auto
termination
  by (relation "measure (\<lambda>(_, _, _, hs). length hs)") (auto simp: le_imp_less_Suc)

lemma run_acts_ok:
  "only_unregister acts \<Longrightarrow> wf_event (es_cells s) (es_event s) d r \<Longrightarrow> length acts < fuel \<Longrightarrow>
   \<exists>s'. run_acts fuel cb acts s = Some s' \<and> es_trace s' = es_trace s \<and>
     wf_event (es_cells s') (es_event s') (filter (\<lambda>x. snd x \<notin> set (unregs acts)) d) (filter (\<lambda>x. snd x \<notin> set (unregs acts)) r)"
proof (induction acts arbitrary: s d r fuel)
  case Nil
  then show ?case by (cases fuel) auto
next
  case (Cons act acts)
  obtain k where k: "fuel = Suc k" using Cons.prems(3) by (cases fuel) auto
  obtain h where act: "act = Unregister h"
    using Cons.prems(1) by (auto simp: only_unregister_def split: ev_act.splits)
  obtain C' ev' where u: "PSC_Event_unregister (es_cells s) (es_event s) h = Some (C', ev')"
    "wf_event C' ev' (filter (\<lambda>x. snd x \<noteq> h) d) (filter (\<lambda>x. snd x \<noteq> h) r)"
    using PSC_Event_unregister_ok [OF Cons.prems(2), of h] by blast
  have o: "only_unregister acts" using Cons.prems(1) by (simp add: only_unregister_def)
  show ?case
    using Cons.IH [OF o, of "s\<lparr>es_cells := C', es_event := ev'\<rparr>" "filter (\<lambda>x. snd x \<noteq> h) d"
        "filter (\<lambda>x. snd x \<noteq> h) r" k] u Cons.prems(3) k act
    by (simp add: conj_commute)
qed

lemma raise_args_idem [simp]: "raise_args evid (raise_args evid args) = raise_args evid args"
  by (simp add: raise_args_def)

lemma raise_loop_ok:
  "wf_event (es_cells s) ((es_event s)\<lparr>ev_handling := head r\<rparr>) d r \<Longrightarrow> length r + m < fuel \<Longrightarrow> args' = raise_args evid args \<Longrightarrow>
   (\<And>h. h \<in> snd ` set r \<Longrightarrow> only_unregister (cb h args') \<and> length (cb h args') \<le> m) \<Longrightarrow>
   \<exists>s' xs. raise_loop fuel cb evid args (head r) s = Some s' \<and> wf_event (es_cells s') ((es_event s')\<lparr>ev_handling := NULL\<rparr>) xs [] \<and>
     es_trace s' = es_trace s @ map (\<lambda>h. (h, args')) (visit cb evid args' (map snd r))"
proof (induction fuel arbitrary: s d r args)
  case (Suc fuel)
  show ?case
  proof (cases r)
    case Nil
    then show ?thesis using Suc.prems(1) by (auto simp: head_def wf_event_def)
  next
    case (Cons x r')
    obtain a h where x: "x = (a, h)" by fastforce
    have hr: "head r = a" using Cons x by (simp add: head_def)
    have "path (es_cells s) (ev_first (es_event s)) (d @ (a, h) # r') NULL"
      using Suc.prems(1) Cons x by (simp add: wf_event_def)
    then obtain n where a: "cell_get (es_cells s) a = Some \<lparr>en_next = n, en_handler = h\<rparr>" "path (es_cells s) n r' NULL"
      by (auto simp: path_append)
    have n: "n = head r'" and anull: "a \<noteq> NULL" using path_head [OF a(2)] a(1) by (simp, metis cell_get_NULL option.distinct(1))
    define s1 where "s1 = s\<lparr>es_event := (es_event s)\<lparr>ev_handling := n\<rparr>\<rparr>"
    have wf1: "wf_event (es_cells s1) (es_event s1) (d @ [x]) r'"
      using Suc.prems(1) Cons n by (simp add: s1_def wf_event_def)
    show ?thesis
    proof (cases "eh_id h = evid")
      case True
      define s2 where "s2 = s1\<lparr>es_trace := es_trace s1 @ [(h, args')]\<rparr>"
      let ?P = "\<lambda>x. snd x \<notin> set (unregs (cb h args'))"
      have cbh: "only_unregister (cb h args')" "length (cb h args') \<le> m" using Suc.prems(4) [of h] Cons x by auto
      have wf2: "wf_event (es_cells s2) (es_event s2) (d @ [x]) r'" using wf1 by (simp add: s2_def)
      obtain s3 where s3: "run_acts fuel cb (cb h args') s2 = Some s3" "es_trace s3 = es_trace s2"
        "wf_event (es_cells s3) (es_event s3) (filter ?P (d @ [x])) (filter ?P r')"
        using run_acts_ok [OF cbh(1) wf2, of fuel cb] cbh(2) Suc.prems(2) Cons by auto
      have e: "ev_handling (es_event s3) = head (filter ?P r')" using s3(3) by (simp add: wf_event_def)
      have "wf_event (es_cells s3) ((es_event s3)\<lparr>ev_handling := head (filter ?P r')\<rparr>) (filter ?P (d @ [x])) (filter ?P r')"
        using s3(3) by (simp add: wf_event_def)
      moreover have "length (filter ?P r') + m < fuel"
        using Suc.prems(2) Cons length_filter_le [of ?P r'] by (simp only: list.size)
      ultimately obtain s' xs where IH: "raise_loop fuel cb evid args' (head (filter ?P r')) s3 = Some s'"
        "wf_event (es_cells s') ((es_event s')\<lparr>ev_handling := NULL\<rparr>) xs []"
        "es_trace s' = es_trace s3 @ map (\<lambda>h. (h, args')) (visit cb evid args' (map snd (filter ?P r')))"
        using Suc.IH [of s3 "filter ?P r'" "filter ?P (d @ [x])" args'] Suc.prems(3,4) Cons by auto
      have "raise_loop (Suc fuel) cb evid args (head r) s = Some s'"
        using a(1) anull True s3(1) IH(1) e Suc.prems(3) by (simp add: hr s1_def s2_def)
      moreover have "map snd (filter ?P r') = filter (\<lambda>y. y \<notin> set (unregs (cb h args'))) (map snd r')"
        by (simp add: filter_map o_def)
      ultimately show ?thesis
        using IH(2,3) s3(2) True Cons x by (intro exI [of _ s'] exI [of _ xs]) (simp add: s2_def s1_def)
    next
      case False
      have "wf_event (es_cells s1) ((es_event s1)\<lparr>ev_handling := head r'\<rparr>) (d @ [x]) r'" using wf1 by (simp add: wf_event_def)
      then obtain s' xs where IH: "raise_loop fuel cb evid args (head r') s1 = Some s'"
        "wf_event (es_cells s') ((es_event s')\<lparr>ev_handling := NULL\<rparr>) xs []"
        "es_trace s' = es_trace s1 @ map (\<lambda>h. (h, args')) (visit cb evid args' (map snd r'))"
        using Suc.IH [of s1 r' "d @ [x]" args] Suc.prems(2,3,4) Cons by auto
      have "raise_loop (Suc fuel) cb evid args (head r) s = Some s'"
        using a(1) anull False IH(1) n by (simp add: hr s1_def)
      then show ?thesis using IH(2,3) False Cons x by (intro exI [of _ s'] exI [of _ xs]) (simp add: s1_def)
    qed
  qed
qed simp

section \<open>Events in use\<close>

text \<open>The handlers in the list of an event, and runs of registrations.\<close>

fun handlers_loop :: "nat \<Rightarrow> ev_cells \<Rightarrow> ptr \<Rightarrow> EvHandler list option" where
  "handlers_loop 0 C p = None"
| "handlers_loop (Suc fuel) C p =
     (if p = NULL then Some []
      else do { en \<leftarrow> cell_get C p; hs \<leftarrow> handlers_loop fuel C (en_next en); Some (en_handler en # hs) })"

definition event_handlers :: "ev_cells \<Rightarrow> PSC_Event \<Rightarrow> EvHandler list option" where
  "event_handlers C ev = handlers_loop (Suc (length C)) C (ev_first ev)"

datatype reg_op = Reg EvHandler | Unreg EvHandler

fun reg_run :: "ev_cells \<Rightarrow> PSC_Event \<Rightarrow> reg_op list \<Rightarrow> (ev_cells \<times> PSC_Event) option" where
  "reg_run C ev [] = Some (C, ev)"
| "reg_run C ev (Reg h # ops) = do { (C, ev) \<leftarrow> PSC_Event_register C ev h; reg_run C ev ops }"
| "reg_run C ev (Unreg h # ops) = do { (C, ev) \<leftarrow> PSC_Event_unregister C ev h; reg_run C ev ops }"

fun reg_spec :: "EvHandler list \<Rightarrow> reg_op list \<Rightarrow> EvHandler list" where
  "reg_spec hs [] = hs"
| "reg_spec hs (Reg h # ops) = reg_spec (if h \<in> set hs then hs else hs @ [h]) ops"
| "reg_spec hs (Unreg h # ops) = reg_spec (removeAll h hs) ops"

lemma handlers_loop_ok:
  "path C p xs NULL \<Longrightarrow> length xs < fuel \<Longrightarrow> handlers_loop fuel C p = Some (map snd xs)"
proof (induction xs arbitrary: p fuel)
  case Nil
  then show ?case by (cases fuel) auto
next
  case (Cons x xs)
  obtain b g where x: "x = (b, g)" by fastforce
  obtain k where k: "fuel = Suc k" using Cons.prems(2) by (cases fuel) auto
  obtain n where n: "p = b" "cell_get C b = Some \<lparr>en_next = n, en_handler = g\<rparr>" "path C n xs NULL"
    using Cons.prems(1) x by auto
  moreover have "p \<noteq> NULL" using n(1,2) by (metis cell_get_NULL option.distinct(1))
  ultimately show ?case using Cons.IH [OF n(3), of k] Cons.prems(2) x k by simp
qed

lemma event_handlers_ok: "wf_event C ev d r \<Longrightarrow> event_handlers C ev = Some (map snd (d @ r))"
  unfolding event_handlers_def wf_event_def
  using path_length [of C "ev_first ev" "d @ r" NULL] by (intro handlers_loop_ok) auto

lemma reg_run_ok:
  "wf_event C ev xs [] \<Longrightarrow> \<exists>C' ev' ys. reg_run C ev ops = Some (C', ev') \<and> wf_event C' ev' ys [] \<and>
     map snd ys = reg_spec (map snd xs) ops \<and> ev_pool ev' = ev_pool ev \<and> ev_sender ev' = ev_sender ev"
proof (induction ops arbitrary: C ev xs)
  case Nil
  then show ?case by auto
next
  case (Cons op ops)
  show ?case
  proof (cases op)
    case (Reg h)
    show ?thesis
    proof (cases "h \<in> snd ` set xs")
      case True
      then show ?thesis using Cons Reg PSC_Event_register_again [OF Cons.prems, of h] by simp
    next
      case False
      then obtain C' ev' p where "PSC_Event_register C ev h = Some (C', ev')" "wf_event C' ev' (xs @ [(p, h)]) []"
        using PSC_Event_register_ok [OF Cons.prems, of h] by auto
      moreover from this have "ev_pool ev' = ev_pool ev \<and> ev_sender ev' = ev_sender ev"
        by (auto simp: PSC_Event_register_def split: bind_splits prod.splits if_splits)
      ultimately show ?thesis using Cons.IH [of C' ev' "xs @ [(p, h)]"] Reg False by auto
    qed
  next
    case (Unreg h)
    obtain C' ev' where u: "PSC_Event_unregister C ev h = Some (C', ev')" "wf_event C' ev' (filter (\<lambda>x. snd x \<noteq> h) xs) []"
      using PSC_Event_unregister_ok [OF Cons.prems, of h] by auto
    moreover have "map snd (filter (\<lambda>x. snd x \<noteq> h) xs) = removeAll h (map snd xs)"
      by (induction xs) auto
    moreover have "ev_pool ev' = ev_pool ev \<and> ev_sender ev' = ev_sender ev"
      using u(1) by (auto simp: PSC_Event_unregister_def Let_def split: bind_splits prod.splits if_splits)
    ultimately show ?thesis using Cons.IH [of C' ev' "filter (\<lambda>x. snd x \<noteq> h) xs"] Unreg by auto
  qed
qed

lemma wf_event_init: "wf_event C (snd (PSC_Event_initStatic t sender)) [] []"
  by (simp add: PSC_Event_initStatic_def wf_event_def head_def)

definition no_pool :: ev_thread where
  "no_pool = \<lparr>et_pool = None, et_refcnt = 0\<rparr>"

text \<open>
  The handlers of an event.  After any sequence of registrations and removals the list of
  an event holds the registered handlers, each once and in the order of registration, no
  entry that was freed is accessed, and destroying the last event of a thread gives up
  its pool.
\<close>

theorem event_registry_refines:
  "\<exists>C ev. reg_run [] (snd (PSC_Event_initStatic no_pool sender)) ops = Some (C, ev) \<and>
     event_handlers C ev = Some (reg_spec [] ops) \<and> distinct (reg_spec [] ops) \<and>
     (\<exists>ev'. PSC_Event_destroyStatic ((fst (PSC_Event_initStatic no_pool sender))\<lparr>et_pool := Some C\<rparr>) ev = Some (no_pool, ev'))"
proof -
  obtain C ev ys where r: "reg_run [] (snd (PSC_Event_initStatic no_pool sender)) ops = Some (C, ev)"
    "wf_event C ev ys []" "map snd ys = reg_spec [] ops" "ev_pool ev"
    using reg_run_ok [OF wf_event_init, of "[]" no_pool sender ops] by (auto simp: PSC_Event_initStatic_def)
  have p: "path C (ev_first ev) ys NULL" "distinct (map fst ys)" "distinct (map snd ys)" using r(2) by (simp_all add: wf_event_def)
  obtain C' where "destroy_entries (Suc (length C)) C (ev_first ev) = Some C'"
    using destroy_entries_ok [OF p(1,2), of "Suc (length C)"] path_length [OF p(1,2)] by auto
  then have "\<exists>ev'. PSC_Event_destroyStatic ((fst (PSC_Event_initStatic no_pool sender))\<lparr>et_pool := Some C\<rparr>) ev = Some (no_pool, ev')"
    using r(4) by (simp add: PSC_Event_destroyStatic_def PSC_Event_initStatic_def poolInit_def poolDone_def no_pool_def Let_def)
  then show ?thesis using r(1,3) event_handlers_ok [OF r(2)] p(3) by auto
qed

text \<open>
  C37: Raising an event.  When the handlers do nothing with the event but unregister handlers,
  themselves or others, raising it returns and calls exactly the handlers for the id, in
  the order of registration, each once, except those that an earlier one unregistered; and
  the list is intact afterwards.
\<close>

theorem event_raise_calls:
  assumes "reg_run [] (snd (PSC_Event_initStatic no_pool sender)) ops = Some (C, ev)"
    and "\<And>h. h \<in> set (reg_spec [] ops) \<Longrightarrow>
      only_unregister (cb h (raise_args evid args)) \<and> length (cb h (raise_args evid args)) \<le> m"
    and "length (reg_spec [] ops) + m < fuel"
  shows "\<exists>s. PSC_Event_raise fuel cb evid args \<lparr>es_cells = C, es_event = ev, es_trace = []\<rparr> = Some s \<and>
     es_trace s = map (\<lambda>h. (h, raise_args evid args)) (visit cb evid (raise_args evid args) (reg_spec [] ops)) \<and>
     event_handlers (es_cells s) (es_event s) \<noteq> None"
proof -
  let ?s = "\<lparr>es_cells = C, es_event = ev, es_trace = []\<rparr>"
  obtain ys where r: "wf_event C ev ys []" "map snd ys = reg_spec [] ops"
    using reg_run_ok [OF wf_event_init, of "[]" no_pool sender ops] assms(1) by auto
  have "path C (ev_first ev) ys NULL" using r(1) by (simp add: wf_event_def)
  then have first: "ev_first ev = head ys" by (rule path_head)
  have "wf_event (es_cells ?s) ((es_event ?s)\<lparr>ev_handling := head ys\<rparr>) [] ys" using r(1) by (simp add: wf_event_def)
  moreover have "length ys + m < fuel" using assms(3) arg_cong [OF r(2), of length] by simp
  moreover have "only_unregister (cb h (raise_args evid args)) \<and> length (cb h (raise_args evid args)) \<le> m"
    if "h \<in> snd ` set ys" for h using assms(2) [of h] that arg_cong [OF r(2), of set] by simp
  ultimately obtain s' xs where s': "raise_loop fuel cb evid args (head ys) ?s = Some s'"
    "wf_event (es_cells s') ((es_event s')\<lparr>ev_handling := NULL\<rparr>) xs []"
    "es_trace s' = es_trace ?s @ map (\<lambda>h. (h, raise_args evid args)) (visit cb evid (raise_args evid args) (map snd ys))"
    using raise_loop_ok [of ?s ys "[]" m fuel "raise_args evid args" evid args cb] by blast
  have "event_handlers (es_cells s') (es_event s') \<noteq> None"
    using event_handlers_ok [OF s'(2)] by (simp add: event_handlers_def)
  then show ?thesis using s' first r(2) by (simp add: PSC_Event_raise_def)
qed

theorem event_raise_calls_witness:
  "\<exists>s. PSC_Event_raise 5 (\<lambda>h args. if eh_cb h = 1 then [Unregister \<lparr>eh_cb = 2, eh_receiver = 7, eh_id = 3\<rparr>] else []) 3 (Args NULL)
       \<lparr>es_cells = fst (the (reg_run [] (snd (PSC_Event_initStatic no_pool 9)) [Reg \<lparr>eh_cb = 1, eh_receiver = 7, eh_id = 3\<rparr>,
           Reg \<lparr>eh_cb = 2, eh_receiver = 7, eh_id = 3\<rparr>, Reg \<lparr>eh_cb = 4, eh_receiver = 7, eh_id = 3\<rparr>])),
         es_event = snd (the (reg_run [] (snd (PSC_Event_initStatic no_pool 9)) [Reg \<lparr>eh_cb = 1, eh_receiver = 7, eh_id = 3\<rparr>,
           Reg \<lparr>eh_cb = 2, eh_receiver = 7, eh_id = 3\<rparr>, Reg \<lparr>eh_cb = 4, eh_receiver = 7, eh_id = 3\<rparr>])), es_trace = []\<rparr> = Some s \<and>
     es_trace s = [(\<lparr>eh_cb = 1, eh_receiver = 7, eh_id = 3\<rparr>, IdArgs 3), (\<lparr>eh_cb = 4, eh_receiver = 7, eh_id = 3\<rparr>, IdArgs 3)]"
proof -
  let ?h = "\<lambda>n. \<lparr>eh_cb = n, eh_receiver = 7, eh_id = 3\<rparr> :: EvHandler"
  let ?ops = "[Reg (?h 1), Reg (?h 2), Reg (?h 4)]"
  let ?ev = "snd (PSC_Event_initStatic no_pool 9)"
  let ?cb = "\<lambda>h args. if eh_cb h = 1 then [Unregister (?h 2)] else []"
  obtain C ev where r: "reg_run [] ?ev ?ops = Some (C, ev)"
    using reg_run_ok [OF wf_event_init, of "[]" no_pool 9 ?ops] by auto
  have spec: "reg_spec [] ?ops = [?h 1, ?h 2, ?h 4]" by simp
  have "\<exists>s. PSC_Event_raise 5 ?cb 3 (Args NULL) \<lparr>es_cells = C, es_event = ev, es_trace = []\<rparr> = Some s \<and>
     es_trace s = map (\<lambda>h. (h, raise_args 3 (Args NULL))) (visit ?cb 3 (raise_args 3 (Args NULL)) (reg_spec [] ?ops)) \<and>
     event_handlers (es_cells s) (es_event s) \<noteq> None"
    by (rule event_raise_calls [OF r, where m = 1]) (auto simp: only_unregister_def)
  then obtain s where "PSC_Event_raise 5 ?cb 3 (Args NULL) \<lparr>es_cells = C, es_event = ev, es_trace = []\<rparr> = Some s"
    "es_trace s = [(?h 1, IdArgs 3), (?h 4, IdArgs 3)]" by (auto simp: raise_args_def)
  then show ?thesis unfolding r by (intro exI [of _ s]) simp
qed

definition ev_handler :: "nat \<Rightarrow> ptr \<Rightarrow> int \<Rightarrow> EvHandler" where
  "ev_handler cb receiver evid = \<lparr>eh_cb = cb, eh_receiver = receiver, eh_id = evid\<rparr>"

lemma nested_raise_eval:
  "case reg_run [] (snd (PSC_Event_initStatic no_pool sender)) [Reg (ev_handler 1 r1 7), Reg (ev_handler 2 r2 7)] of
     None \<Rightarrow> False
   | Some (C, ev) \<Rightarrow>
       (case PSC_Event_raise 9 (\<lambda>h args. if eh_cb h = 1 then [Raise 8 (Args NULL)] else []) 7 (Args NULL)
           \<lparr>es_cells = C, es_event = ev, es_trace = []\<rparr> of
          None \<Rightarrow> False
        | Some s \<Rightarrow> es_trace s = [(ev_handler 1 r1 7, IdArgs 7)] \<and>
            event_handlers (es_cells s) (es_event s) = Some [ev_handler 1 r1 7, ev_handler 2 r2 7])"
  by code_simp

text \<open>
  Raising an event from one of its own handlers.  The inner call leaves nothing to handle,
  so the outer one stops as well: a handler that is registered for the id is not called.
\<close>

theorem event_nested_raise_skips:
  "\<exists>C ev s. reg_run [] (snd (PSC_Event_initStatic no_pool sender)) [Reg (ev_handler 1 r1 7), Reg (ev_handler 2 r2 7)] = Some (C, ev) \<and>
     PSC_Event_raise 9 (\<lambda>h args. if eh_cb h = 1 then [Raise 8 (Args NULL)] else []) 7 (Args NULL)
       \<lparr>es_cells = C, es_event = ev, es_trace = []\<rparr> = Some s \<and>
     es_trace s = [(ev_handler 1 r1 7, IdArgs 7)] \<and>
     event_handlers (es_cells s) (es_event s) = Some [ev_handler 1 r1 7, ev_handler 2 r2 7]"
  using nested_raise_eval [where sender = sender and ?r1.0 = r1 and ?r2.0 = r2] by (auto split: option.splits prod.splits)

end
