(* ===== verification/Poser_JobQueue.thy ===== *)
theory Poser_JobQueue
  imports Prelude
begin

text \<open>
  The queue between the service threads and the threads of the thread pool (\<open>JobQueue\<close> in
  \<open>src/lib/core/threadpool.c\<close>), in its two builds: with a mutex, and with atomic
  operations only.  Jobs are pointers, \<open>0\<close> is an empty slot.  The counters are natural
  numbers: the invariants bound them by the size of the queue.

  The calls are modelled as far as they concern the queue: \<open>JobQueue_enqueue\<close> also starts the
  timeout of the job, between taking room in the queue and reserving a slot.

  The atomic build is a transition system: every thread has a program point, with the values
  of its local variables, and every step performs one atomic operation.  Memory is
  sequentially consistent.
\<close>

section \<open>The queue with a mutex\<close>

record JobQueue =
  jq_sz :: nat
  jq_avail :: nat
  jq_enqpos :: nat
  jq_deqpos :: nat
  jq_count :: nat
  jq_jobs :: "ptr list"

definition JobQueue_create :: "nat \<Rightarrow> JobQueue" where
  "JobQueue_create sz = \<lparr>jq_sz = sz, jq_avail = sz, jq_enqpos = 0, jq_deqpos = 0, jq_count = 0, jq_jobs = replicate sz 0\<rparr>"

definition next_pos :: "nat \<Rightarrow> nat \<Rightarrow> nat" where
  "next_pos sz p = (if Suc p = sz then 0 else Suc p)"

definition locked_enqueue :: "JobQueue \<Rightarrow> ptr \<Rightarrow> JobQueue \<times> int" where
  "locked_enqueue self job =
     (if jq_avail self = 0 then (self, -1)
      else (self\<lparr>jq_avail := jq_avail self - 1, jq_jobs := (jq_jobs self)[jq_enqpos self := job],
                 jq_enqpos := next_pos (jq_sz self) (jq_enqpos self), jq_count := jq_count self + 1\<rparr>, 0))"

text \<open>\<^const>\<open>None\<close>: the call blocks on the semaphore, until a job comes or a signal interrupts it.\<close>

definition locked_dequeue :: "JobQueue \<Rightarrow> (JobQueue \<times> ptr) option" where
  "locked_dequeue self =
     (if jq_count self = 0 then None
      else Some (self\<lparr>jq_count := jq_count self - 1, jq_deqpos := next_pos (jq_sz self) (jq_deqpos self),
                       jq_avail := jq_avail self + 1\<rparr>, jq_jobs self ! jq_deqpos self))"

section \<open>The queue with atomic operations\<close>

datatype jq_pc =
    Idle
  | EnqLoadAvail ptr
  | EnqCasAvail nat ptr
  | EnqLoadPos ptr
  | EnqCasPos nat ptr
  | EnqStore nat ptr
  | EnqPost ptr
  | DeqWait
  | DeqLoadPos
  | DeqCasPos nat
  | DeqTake nat
  | DeqRelease ptr

text \<open>
  A configuration: the queue, the program points of the threads, and as history the jobs in
  the order in which they got a slot and in which they were taken, and the results of
  the calls that returned.
\<close>

datatype jq_result = Enqueued ptr | Refused ptr | Dequeued ptr | Interrupted

record jq_conf =
  cf_queue :: JobQueue
  cf_pcs :: "jq_pc list"
  cf_in :: "ptr list"
  cf_out :: "ptr list"
  cf_results :: "(nat \<times> jq_result) list"

definition goto :: "jq_conf \<Rightarrow> nat \<Rightarrow> jq_pc \<Rightarrow> jq_conf" where
  "goto c t pc = c\<lparr>cf_pcs := (cf_pcs c)[t := pc]\<rparr>"

definition returns :: "jq_conf \<Rightarrow> nat \<Rightarrow> jq_result \<Rightarrow> jq_conf" where
  "returns c t r = c\<lparr>cf_pcs := (cf_pcs c)[t := Idle], cf_results := cf_results c @ [(t, r)]\<rparr>"

text \<open>One step of \<open>JobQueue_enqueue\<close> or \<open>JobQueue_dequeue\<close> in thread \<open>t\<close>.\<close>

definition jq_step :: "jq_conf \<Rightarrow> nat \<Rightarrow> jq_conf option" where
  "jq_step c t =
     (let q = cf_queue c in
      case cf_pcs c ! t of
        Idle \<Rightarrow> None
      | EnqLoadAvail job \<Rightarrow> Some (goto c t (EnqCasAvail (jq_avail q) job))
      | EnqCasAvail avail job \<Rightarrow>
          if avail = 0 then Some (returns c t (Refused job))
          else if jq_avail q = avail then Some (goto (c\<lparr>cf_queue := q\<lparr>jq_avail := avail - 1\<rparr>\<rparr>) t (EnqLoadPos job))
          else Some (goto c t (EnqCasAvail (jq_avail q) job))
      | EnqLoadPos job \<Rightarrow> Some (goto c t (EnqCasPos (jq_enqpos q) job))
      | EnqCasPos enqpos job \<Rightarrow>
          if jq_enqpos q = enqpos
          then Some (goto (c\<lparr>cf_queue := q\<lparr>jq_enqpos := next_pos (jq_sz q) enqpos\<rparr>, cf_in := cf_in c @ [job]\<rparr>)
                 t (EnqStore enqpos job))
          else Some (goto c t (EnqCasPos (jq_enqpos q) job))
      | EnqStore enqpos job \<Rightarrow>
          Some (goto (c\<lparr>cf_queue := q\<lparr>jq_jobs := (jq_jobs q)[enqpos := job]\<rparr>\<rparr>) t (EnqPost job))
      | EnqPost job \<Rightarrow> Some (returns (c\<lparr>cf_queue := q\<lparr>jq_count := jq_count q + 1\<rparr>\<rparr>) t (Enqueued job))
      | DeqWait \<Rightarrow>
          if jq_count q = 0 then None
          else Some (goto (c\<lparr>cf_queue := q\<lparr>jq_count := jq_count q - 1\<rparr>\<rparr>) t DeqLoadPos)
      | DeqLoadPos \<Rightarrow> Some (goto c t (DeqCasPos (jq_deqpos q)))
      | DeqCasPos deqpos \<Rightarrow>
          if jq_deqpos q = deqpos
          then Some (goto (c\<lparr>cf_queue := q\<lparr>jq_deqpos := next_pos (jq_sz q) deqpos\<rparr>\<rparr>) t (DeqTake deqpos))
          else Some (goto c t (DeqCasPos (jq_deqpos q)))
      | DeqTake deqpos \<Rightarrow>
          if jq_jobs q ! deqpos = 0 then Some c
          else Some (goto (c\<lparr>cf_queue := q\<lparr>jq_jobs := (jq_jobs q)[deqpos := 0]\<rparr>, cf_out := cf_out c @ [jq_jobs q ! deqpos]\<rparr>)
                 t (DeqRelease (jq_jobs q ! deqpos)))
      | DeqRelease job \<Rightarrow>
          Some (returns (c\<lparr>cf_queue := q\<lparr>jq_avail := jq_avail q + 1\<rparr>\<rparr>) t (Dequeued job)))"

text \<open>
  Calls start when a thread is idle, and a signal may interrupt a thread that waits for the
  semaphore; a schedule is a list of such actions.
\<close>

datatype jq_act = Enqueue ptr | Dequeue | Interrupt | Step

definition jq_act :: "jq_conf \<Rightarrow> nat \<times> jq_act \<Rightarrow> jq_conf option" where
  "jq_act c ta =
     (let t = fst ta in
      if length (cf_pcs c) \<le> t then None
      else case snd ta of
          Enqueue job \<Rightarrow> if cf_pcs c ! t = Idle \<and> job \<noteq> NULL then Some (goto c t (EnqLoadAvail job)) else None
        | Dequeue \<Rightarrow> if cf_pcs c ! t = Idle then Some (goto c t DeqWait) else None
        | Interrupt \<Rightarrow> if cf_pcs c ! t = DeqWait then Some (returns c t Interrupted) else None
        | Step \<Rightarrow> jq_step c t)"

fun jq_run :: "jq_conf \<Rightarrow> (nat \<times> jq_act) list \<Rightarrow> jq_conf option" where
  "jq_run c [] = Some c"
| "jq_run c (ta # tas) = do { c \<leftarrow> jq_act c ta; jq_run c tas }"

definition jq_start :: "nat \<Rightarrow> nat \<Rightarrow> jq_conf" where
  "jq_start sz nthreads = \<lparr>cf_queue = JobQueue_create sz, cf_pcs = replicate nthreads Idle, cf_in = [], cf_out = [], cf_results = []\<rparr>"

text \<open>Schedules in which only thread \<open>w\<close> takes jobs.\<close>

inductive jq_reach :: "nat \<Rightarrow> nat \<Rightarrow> nat \<Rightarrow> jq_conf \<Rightarrow> bool" for sz nthreads w where
  reach_start: "jq_reach sz nthreads w (jq_start sz nthreads)"
| reach_act: "jq_reach sz nthreads w c \<Longrightarrow> jq_act c (t, a) = Some c' \<Longrightarrow> a = Dequeue \<longrightarrow> t = w \<Longrightarrow>
    jq_reach sz nthreads w c'"

section \<open>One worker\<close>

definition cnt :: "('a \<Rightarrow> bool) \<Rightarrow> 'a list \<Rightarrow> nat" where
  "cnt P xs = length (filter P xs)"

lemma cnt_update:
  "i < length xs \<Longrightarrow> cnt P (xs[i := x]) + of_bool (P (xs ! i)) = cnt P xs + of_bool (P x)"
proof (induction xs arbitrary: i)
  case (Cons y ys)
  then show ?case by (cases i) (auto simp: cnt_def)
qed simp

lemma cnt_pos: "i < length xs \<Longrightarrow> P (xs ! i) \<Longrightarrow> 0 < cnt P xs"
  by (auto simp: cnt_def filter_empty_conv)

lemma mod_window: "a \<le> b \<Longrightarrow> b < a + n \<Longrightarrow> a mod n = b mod n \<Longrightarrow> a = (b :: nat)"
  by (metis add_diff_cancel_left' le_add_diff_inverse less_diff_conv2 add.commute mod_eq_dvd_iff_nat nat_dvd_not_less neq0_conv add_0_right)

lemma next_pos_mod: "0 < sz \<Longrightarrow> next_pos sz (k mod sz) = Suc k mod sz"
  by (simp add: next_pos_def mod_Suc)

definition has_avail :: "jq_pc \<Rightarrow> bool" where
  "has_avail pc = (case pc of EnqLoadPos _ \<Rightarrow> True | EnqCasPos _ _ \<Rightarrow> True | _ \<Rightarrow> False)"

definition unposted :: "jq_pc \<Rightarrow> bool" where
  "unposted pc = (case pc of EnqStore _ _ \<Rightarrow> True | EnqPost _ \<Rightarrow> True | _ \<Rightarrow> False)"

definition is_deq :: "jq_pc \<Rightarrow> bool" where
  "is_deq pc = (case pc of DeqWait \<Rightarrow> True | DeqLoadPos \<Rightarrow> True | DeqCasPos _ \<Rightarrow> True | DeqTake _ \<Rightarrow> True
     | DeqRelease _ \<Rightarrow> True | _ \<Rightarrow> False)"

text \<open>How many jobs the worker has passed the semaphore for, or reserved, or taken but not released.\<close>

definition waited :: "jq_pc \<Rightarrow> nat" where
  "waited pc = (case pc of DeqLoadPos \<Rightarrow> 1 | DeqCasPos _ \<Rightarrow> 1 | DeqTake _ \<Rightarrow> 1 | _ \<Rightarrow> 0)"

definition reserved :: "jq_pc \<Rightarrow> nat" where
  "reserved pc = (case pc of DeqTake _ \<Rightarrow> 1 | _ \<Rightarrow> 0)"

definition unreleased :: "jq_pc \<Rightarrow> nat" where
  "unreleased pc = (case pc of DeqRelease _ \<Rightarrow> 1 | _ \<Rightarrow> 0)"

definition pc_job :: "jq_pc \<Rightarrow> ptr option" where
  "pc_job pc = (case pc of EnqLoadAvail job \<Rightarrow> Some job | EnqCasAvail _ job \<Rightarrow> Some job | EnqLoadPos job \<Rightarrow> Some job
     | EnqCasPos _ job \<Rightarrow> Some job | EnqStore _ job \<Rightarrow> Some job | EnqPost job \<Rightarrow> Some job | _ \<Rightarrow> None)"

lemmas pc_defs = has_avail_def unposted_def is_deq_def waited_def reserved_def unreleased_def pc_job_def

definition inv_threads :: "nat \<Rightarrow> jq_conf \<Rightarrow> bool" where
  "inv_threads w c \<longleftrightarrow> w < length (cf_pcs c) \<and>
     (\<forall>t < length (cf_pcs c). (is_deq (cf_pcs c ! t) \<longrightarrow> t = w) \<and> pc_job (cf_pcs c ! t) \<noteq> Some NULL)"

definition inv_counts :: "nat \<Rightarrow> jq_pc \<Rightarrow> JobQueue \<Rightarrow> jq_pc list \<Rightarrow> nat \<Rightarrow> nat \<Rightarrow> bool" where
  "inv_counts sz pc q pcs E D \<longleftrightarrow> 0 < sz \<and> jq_sz q = sz \<and> length (jq_jobs q) = sz \<and>
     jq_avail q + cnt has_avail pcs + E + unreleased pc = sz + D \<and>
     jq_count q + waited pc + D + cnt unposted pcs = E \<and> unreleased pc \<le> D \<and>
     jq_enqpos q = E mod sz \<and> jq_deqpos q = (D + reserved pc) mod sz \<and> (\<forall>p. pc = DeqTake p \<longrightarrow> p = D mod sz)"

text \<open>
  Slots: those of the jobs that were not taken hold the job, or a thread is about to store
  it; all others are empty.
\<close>

definition inv_slots :: "nat \<Rightarrow> ptr list \<Rightarrow> jq_pc list \<Rightarrow> ptr list \<Rightarrow> nat \<Rightarrow> bool" where
  "inv_slots sz jobs pcs ci D \<longleftrightarrow>
     (\<forall>k. D \<le> k \<and> k < length ci \<longrightarrow> jobs ! (k mod sz) = ci ! k \<or>
        jobs ! (k mod sz) = 0 \<and> (\<exists>t < length pcs. pcs ! t = EnqStore (k mod sz) (ci ! k))) \<and>
     (\<forall>t < length pcs. \<forall>p job. pcs ! t = EnqStore p job \<longrightarrow>
        jobs ! p = 0 \<and> (\<exists>k. D \<le> k \<and> k < length ci \<and> k mod sz = p \<and> ci ! k = job)) \<and>
     (\<forall>p < sz. jobs ! p \<noteq> 0 \<longrightarrow> (\<exists>k. D \<le> k \<and> k < length ci \<and> k mod sz = p \<and> jobs ! p = ci ! k)) \<and>
     (\<forall>t < length pcs. \<forall>u < length pcs. \<forall>p a b. pcs ! t = EnqStore p a \<longrightarrow> pcs ! u = EnqStore p b \<longrightarrow> t = u)"

definition inv_hist :: "jq_conf \<Rightarrow> bool" where
  "inv_hist c \<longleftrightarrow> length (cf_out c) \<le> length (cf_in c) \<and> cf_out c = take (length (cf_out c)) (cf_in c) \<and> NULL \<notin> set (cf_in c)"

definition jq_inv :: "nat \<Rightarrow> nat \<Rightarrow> jq_conf \<Rightarrow> bool" where
  [wf_defs]: "jq_inv sz w c \<longleftrightarrow> inv_threads w c \<and>
     inv_counts sz (cf_pcs c ! w) (cf_queue c) (cf_pcs c) (length (cf_in c)) (length (cf_out c)) \<and>
     inv_slots sz (jq_jobs (cf_queue c)) (cf_pcs c) (cf_in c) (length (cf_out c)) \<and> inv_hist c"

lemma inv_threads_update:
  assumes "inv_threads w c" "t < length (cf_pcs c)" "is_deq pc \<longrightarrow> t = w" "pc_job pc \<noteq> Some NULL"
    and "cf_pcs c' = (cf_pcs c)[t := pc]"
  shows "inv_threads w c'"
  using assms by (auto simp: inv_threads_def nth_list_update)

lemma inv_slots_same:
  assumes "inv_slots sz jobs pcs ci D" "t < length pcs" "\<And>p a. pcs ! t \<noteq> EnqStore p a" "\<And>p a. pc \<noteq> EnqStore p a"
  shows "inv_slots sz jobs (pcs[t := pc]) ci D"
proof -
  have e: "(\<exists>u < length pcs. pcs[t := pc] ! u = EnqStore p a) \<longleftrightarrow> (\<exists>u < length pcs. pcs ! u = EnqStore p a)" for p a
    using assms(2-4) by (metis nth_list_update)
  have s: "pcs[t := pc] ! u = EnqStore p a \<longleftrightarrow> pcs ! u = EnqStore p a" if "u < length pcs" for u p a
    using assms(2-4) that by (metis nth_list_update)
  show ?thesis using assms(1) unfolding inv_slots_def length_list_update e by (simp add: s)
qed

text \<open>Steps that change nothing but a program point of the same kind.\<close>

lemma jq_inv_goto:
  assumes inv: "jq_inv sz w c" and t: "t < length (cf_pcs c)" and old: "cf_pcs c ! t = pc0"
    and same: "has_avail pc = has_avail pc0" "unposted pc = unposted pc0" "is_deq pc \<longrightarrow> t = w"
      "waited pc = waited pc0" "reserved pc = reserved pc0" "unreleased pc = unreleased pc0"
      "pc_job pc = pc_job pc0 \<or> pc_job pc = None" "\<And>p a. pc0 \<noteq> EnqStore p a" "\<And>p a. pc \<noteq> EnqStore p a" "\<And>p. pc \<noteq> DeqTake p"
    and c': "cf_pcs c' = (cf_pcs c)[t := pc]" "cf_queue c' = cf_queue c" "cf_in c' = cf_in c" "cf_out c' = cf_out c"
  shows "jq_inv sz w c'"
proof -
  have I: "inv_threads w c" "inv_counts sz (cf_pcs c ! w) (cf_queue c) (cf_pcs c) (length (cf_in c)) (length (cf_out c))"
    "inv_slots sz (jq_jobs (cf_queue c)) (cf_pcs c) (cf_in c) (length (cf_out c))" "inv_hist c"
    using inv by (simp_all add: jq_inv_def)
  have "pc_job pc \<noteq> Some NULL" using I(1) t old same(7) by (auto simp: inv_threads_def)
  then have 1: "inv_threads w c'" using inv_threads_update [OF I(1) t same(3) _ c'(1)] by simp
  have "cnt has_avail (cf_pcs c') = cnt has_avail (cf_pcs c)" "cnt unposted (cf_pcs c') = cnt unposted (cf_pcs c)"
    using cnt_update [OF t, of has_avail pc] cnt_update [OF t, of unposted pc] same(1,2) old c'(1) by simp_all
  moreover have "waited (cf_pcs c' ! w) = waited (cf_pcs c ! w)" "reserved (cf_pcs c' ! w) = reserved (cf_pcs c ! w)"
    "unreleased (cf_pcs c' ! w) = unreleased (cf_pcs c ! w)" "\<And>p. cf_pcs c' ! w = DeqTake p \<Longrightarrow> cf_pcs c ! w = DeqTake p"
    using same(4-6,10) old t by (auto simp: c'(1) nth_list_update split: if_splits)
  ultimately have 2: "inv_counts sz (cf_pcs c' ! w) (cf_queue c') (cf_pcs c') (length (cf_in c')) (length (cf_out c'))"
    using I(2) unfolding inv_counts_def c'(2-4) by auto
  have "inv_slots sz (jq_jobs (cf_queue c')) (cf_pcs c') (cf_in c') (length (cf_out c'))"
    using inv_slots_same [OF I(3) t, of pc] same(8,9) old unfolding c' by blast
  with 1 2 I(4) show ?thesis unfolding jq_inv_def inv_hist_def c' by blast
qed

lemma jq_invD:
  assumes "jq_inv sz w c"
  shows "inv_threads w c" "inv_counts sz (cf_pcs c ! w) (cf_queue c) (cf_pcs c) (length (cf_in c)) (length (cf_out c))"
    "inv_slots sz (jq_jobs (cf_queue c)) (cf_pcs c) (cf_in c) (length (cf_out c))" "inv_hist c" "w < length (cf_pcs c)"
  using assms by (simp_all add: jq_inv_def inv_threads_def)

text \<open>Numbers of an enqueueing thread: the program point of the worker stays.\<close>

lemma inv_counts_enq:
  assumes inv: "jq_inv sz w c" and t: "t < length (cf_pcs c)" "cf_pcs c ! t = pc0" and pc: "\<not> is_deq pc0" "\<not> is_deq pc"
    and q: "jq_sz q = sz" "length (jq_jobs q) = sz" "jq_deqpos q = jq_deqpos (cf_queue c)" "jq_enqpos q = E mod sz"
    and av: "jq_avail q + of_bool (has_avail pc) + E = jq_avail (cf_queue c) + of_bool (has_avail pc0) + length (cf_in c)"
    and co: "jq_count q + of_bool (unposted pc) + length (cf_in c) = jq_count (cf_queue c) + of_bool (unposted pc0) + E"
  shows "inv_counts sz ((cf_pcs c)[t := pc] ! w) q ((cf_pcs c)[t := pc]) E (length (cf_out c))"
proof -
  note I = jq_invD [OF inv]
  have "waited pc = 0 \<and> reserved pc = 0 \<and> unreleased pc = 0 \<and> (\<forall>p. pc \<noteq> DeqTake p)"
    if "\<not> is_deq pc" for pc using that by (cases pc) (simp_all add: pc_defs)
  then have pcw: "waited ((cf_pcs c)[t := pc] ! w) = waited (cf_pcs c ! w)" "reserved ((cf_pcs c)[t := pc] ! w) = reserved (cf_pcs c ! w)"
    "unreleased ((cf_pcs c)[t := pc] ! w) = unreleased (cf_pcs c ! w)"
    "\<And>p. (cf_pcs c)[t := pc] ! w = DeqTake p \<longleftrightarrow> cf_pcs c ! w = DeqTake p"
    using pc t by (auto simp: nth_list_update)
  show ?thesis
    using I(2) q av co cnt_update [OF t(1), of has_avail pc] cnt_update [OF t(1), of unposted pc] t(2)
    unfolding inv_counts_def pcw by auto
qed

lemma window:
  assumes "jq_inv sz w c"
  shows "length (cf_in c) \<le> length (cf_out c) + sz"
    and "t < length (cf_pcs c) \<Longrightarrow> has_avail (cf_pcs c ! t) \<Longrightarrow> length (cf_in c) < length (cf_out c) + sz"
  using jq_invD(2) [OF assms] cnt_pos [of t "cf_pcs c" has_avail] by (auto simp: inv_counts_def)

lemma window_unique:
  assumes "length ci \<le> D + sz" "D \<le> k" "k < length ci" "D \<le> l" "l < length ci" "k mod sz = l mod sz"
  shows "k = l"
  using mod_window [of k l sz] mod_window [of l k sz] assms by (cases "k \<le> l") auto

lemma inv_slots_reserve:
  assumes inv: "inv_slots sz jobs pcs ci D" and t: "t < length pcs" "\<And>p a. pcs ! t \<noteq> EnqStore p a"
    and len: "length ci < D + sz" "D \<le> length ci" and sz: "0 < sz"
  shows "inv_slots sz jobs (pcs[t := EnqStore (length ci mod sz) job]) (ci @ [job]) D"
proof -
  let ?p = "length ci mod sz" and ?pcs = "pcs[t := EnqStore (length ci mod sz) job]"
  have F: "jobs ! (k mod sz) = ci ! k \<or> jobs ! (k mod sz) = 0 \<and> (\<exists>t < length pcs. pcs ! t = EnqStore (k mod sz) (ci ! k))"
    if "D \<le> k" "k < length ci" for k using inv that unfolding inv_slots_def by blast
  have S: "jobs ! p = 0 \<and> (\<exists>k. D \<le> k \<and> k < length ci \<and> k mod sz = p \<and> ci ! k = a)"
    if "u < length pcs" "pcs ! u = EnqStore p a" for u p a using inv that unfolding inv_slots_def by blast
  have Z: "\<exists>k. D \<le> k \<and> k < length ci \<and> k mod sz = p \<and> jobs ! p = ci ! k" if "p < sz" "jobs ! p \<noteq> 0" for p
    using inv that unfolding inv_slots_def by blast
  have U: "u = v" if "u < length pcs" "v < length pcs" "pcs ! u = EnqStore p a" "pcs ! v = EnqStore p b" for u v p a b
    using inv that unfolding inv_slots_def by blast
  have new: "k mod sz \<noteq> ?p" if "D \<le> k" "k < length ci" for k
    using mod_window [of k "length ci" sz] that len by auto
  have no: "pcs ! u \<noteq> EnqStore ?p a" if "u < length pcs" for u a using S [OF that, of ?p a] new by blast
  have nth: "?pcs ! u = (if u = t then EnqStore ?p job else pcs ! u)" if "u < length pcs" for u
    using that t by (simp add: nth_list_update)
  have ex: "\<exists>v < length ?pcs. ?pcs ! v = EnqStore p a" if "u < length pcs" "pcs ! u = EnqStore p a" for u p a
    using that nth t(2) by (metis length_list_update)
  have p0: "jobs ! ?p = 0" using Z [of ?p] new sz by auto
  have 1: "jobs ! (k mod sz) = (ci @ [job]) ! k \<or> jobs ! (k mod sz) = 0 \<and> (\<exists>t < length ?pcs. ?pcs ! t = EnqStore (k mod sz) ((ci @ [job]) ! k))"
    if k: "D \<le> k \<and> k < length (ci @ [job])" for k
  proof (cases "k < length ci")
    case True
    then have "(ci @ [job]) ! k = ci ! k" by (simp add: nth_append)
    then show ?thesis using F [of k] k True ex by metis
  next
    case False
    then have "k = length ci" using k by simp
    then show ?thesis using p0 t(1) nth [OF t(1)] by auto
  qed
  have 2: "jobs ! p = 0 \<and> (\<exists>k. D \<le> k \<and> k < length (ci @ [job]) \<and> k mod sz = p \<and> (ci @ [job]) ! k = a)"
    if "u < length ?pcs" "?pcs ! u = EnqStore p a" for u p a
  proof (cases "u = t")
    case True
    then have "p = ?p" "a = job" using that nth by auto
    then show ?thesis using p0 len(2) by (auto intro!: exI [of _ "length ci"])
  next
    case False
    then have "pcs ! u = EnqStore p a" "u < length pcs" using that nth by auto
    then obtain k where k: "D \<le> k" "k < length ci" "k mod sz = p" "ci ! k = a" "jobs ! p = 0" using S by blast
    show ?thesis using k by (auto simp: nth_append intro!: exI [of _ k])
  qed
  have 3: "\<exists>k. D \<le> k \<and> k < length (ci @ [job]) \<and> k mod sz = p \<and> jobs ! p = (ci @ [job]) ! k" if p: "p < sz" "jobs ! p \<noteq> 0" for p
  proof -
    obtain k where k: "D \<le> k" "k < length ci" "k mod sz = p" "jobs ! p = ci ! k" using Z [OF p] by blast
    show ?thesis using k by (auto simp: nth_append intro!: exI [of _ k])
  qed
  have 4: "u = v" if "u < length ?pcs" "v < length ?pcs" "?pcs ! u = EnqStore p a" "?pcs ! v = EnqStore p b" for u v p a b
  proof (rule ccontr)
    assume "u \<noteq> v"
    then consider "u = t" "v \<noteq> t" | "v = t" "u \<noteq> t" | "u \<noteq> t" "v \<noteq> t" by blast
    then show False
    proof cases
      case 1
      then show False using that no [of v] nth [of u] nth [of v] by auto
    next
      case 2
      then show False using that no [of u] nth [of u] nth [of v] by auto
    next
      case 3
      then show False using that U [of u v p a b] nth [of u] nth [of v] \<open>u \<noteq> v\<close> by simp
    qed
  qed
  show ?thesis unfolding inv_slots_def using 1 2 3 4 by blast
qed

lemma inv_slots_store:
  assumes inv: "inv_slots sz jobs pcs ci D" and t: "t < length pcs" "pcs ! t = EnqStore p job"
    and len: "length ci \<le> D + sz" "length jobs = sz" "p < sz" "job \<noteq> NULL"
  shows "inv_slots sz (jobs[p := job]) (pcs[t := EnqPost job]) ci D"
proof -
  let ?jobs = "jobs[p := job]" and ?pcs = "pcs[t := EnqPost job]"
  have F: "jobs ! (k mod sz) = ci ! k \<or> jobs ! (k mod sz) = 0 \<and> (\<exists>t < length pcs. pcs ! t = EnqStore (k mod sz) (ci ! k))"
    if "D \<le> k" "k < length ci" for k using inv that unfolding inv_slots_def by blast
  have S: "jobs ! p = 0 \<and> (\<exists>k. D \<le> k \<and> k < length ci \<and> k mod sz = p \<and> ci ! k = a)"
    if "u < length pcs" "pcs ! u = EnqStore p a" for u p a using inv that unfolding inv_slots_def by blast
  have Z: "\<exists>k. D \<le> k \<and> k < length ci \<and> k mod sz = p \<and> jobs ! p = ci ! k" if "p < sz" "jobs ! p \<noteq> 0" for p
    using inv that unfolding inv_slots_def by blast
  have U: "u = v" if "u < length pcs" "v < length pcs" "pcs ! u = EnqStore p a" "pcs ! v = EnqStore p b" for u v p a b
    using inv that unfolding inv_slots_def by blast
  have nth: "?pcs ! u = (if u = t then EnqPost job else pcs ! u)" if "u < length pcs" for u
    using that t by (simp add: nth_list_update)
  have jn: "?jobs ! x = (if x = p then job else jobs ! x)" for x
    using len(2,3) by (cases "x < sz") (auto simp: nth_list_update)
  obtain m where m: "D \<le> m" "m < length ci" "m mod sz = p" "ci ! m = job" using S [OF t] by blast
  have 1: "?jobs ! (k mod sz) = ci ! k \<or> ?jobs ! (k mod sz) = 0 \<and> (\<exists>t < length ?pcs. ?pcs ! t = EnqStore (k mod sz) (ci ! k))"
    if k: "D \<le> k \<and> k < length ci" for k
  proof (cases "k mod sz = p")
    case True
    then have "k = m" using window_unique [OF len(1), of k m] k m by auto
    then show ?thesis using m True jn by simp
  next
    case False
    then have "\<exists>v < length ?pcs. ?pcs ! v = EnqStore (k mod sz) (ci ! k)" if "u < length pcs" "pcs ! u = EnqStore (k mod sz) (ci ! k)" for u
      using that nth t(2) by (metis length_list_update jq_pc.inject(5))
    then show ?thesis using F [of k] k jn False by metis
  qed
  have 2: "?jobs ! x = 0 \<and> (\<exists>k. D \<le> k \<and> k < length ci \<and> k mod sz = x \<and> ci ! k = a)"
    if "u < length ?pcs" "?pcs ! u = EnqStore x a" for u x a
  proof -
    have u: "u \<noteq> t" "u < length pcs" "pcs ! u = EnqStore x a" using that nth by (auto split: if_splits)
    then have "x \<noteq> p" using U [of u t x a job] t by auto
    then show ?thesis using S [OF u(2,3)] jn by simp
  qed
  have 3: "\<exists>k. D \<le> k \<and> k < length ci \<and> k mod sz = x \<and> ?jobs ! x = ci ! k" if "x < sz" "?jobs ! x \<noteq> 0" for x
    using Z [of x] m jn that by (cases "x = p") auto
  have 4: "u = v" if "u < length ?pcs" "v < length ?pcs" "?pcs ! u = EnqStore x a" "?pcs ! v = EnqStore x b" for u v x a b
    using that U nth by (cases "u = t"; cases "v = t") auto
  show ?thesis unfolding inv_slots_def using 1 2 3 4 by blast
qed

lemma inv_slots_take:
  assumes inv: "inv_slots sz jobs pcs ci D" and p: "p = D mod sz" "jobs ! p \<noteq> 0"
    and len: "length ci \<le> D + sz" "length jobs = sz" "0 < sz" "D < length ci"
  shows "jobs ! p = ci ! D" "inv_slots sz (jobs[p := 0]) pcs ci (Suc D)"
proof -
  let ?jobs = "jobs[p := 0]"
  have F: "jobs ! (k mod sz) = ci ! k \<or> jobs ! (k mod sz) = 0 \<and> (\<exists>t < length pcs. pcs ! t = EnqStore (k mod sz) (ci ! k))"
    if "D \<le> k" "k < length ci" for k using inv that unfolding inv_slots_def by blast
  have S: "jobs ! p = 0 \<and> (\<exists>k. D \<le> k \<and> k < length ci \<and> k mod sz = p \<and> ci ! k = a)"
    if "u < length pcs" "pcs ! u = EnqStore p a" for u p a using inv that unfolding inv_slots_def by blast
  have Z: "\<exists>k. D \<le> k \<and> k < length ci \<and> k mod sz = p \<and> jobs ! p = ci ! k" if "p < sz" "jobs ! p \<noteq> 0" for p
    using inv that unfolding inv_slots_def by blast
  have pl: "p < sz" using p(1) len(3) by simp
  have jn: "?jobs ! x = (if x = p then 0 else jobs ! x)" for x
    using len(2) pl by (cases "x < sz") (auto simp: nth_list_update)
  obtain m where m: "D \<le> m" "m < length ci" "m mod sz = p" "jobs ! p = ci ! m" using Z [OF pl p(2)] by blast
  have "m = D" using window_unique [OF len(1), of m D] m p(1) len(4) by auto
  then show "jobs ! p = ci ! D" using m by simp
  have other: "k mod sz \<noteq> p" if "Suc D \<le> k" "k < length ci" for k
    using window_unique [OF len(1), of k D] that p(1) len(4) by auto
  have 1: "?jobs ! (k mod sz) = ci ! k \<or> ?jobs ! (k mod sz) = 0 \<and> (\<exists>t < length pcs. pcs ! t = EnqStore (k mod sz) (ci ! k))"
    if k: "Suc D \<le> k \<and> k < length ci" for k using F [of k] k other [of k] jn by auto
  have 2: "?jobs ! x = 0 \<and> (\<exists>k. Suc D \<le> k \<and> k < length ci \<and> k mod sz = x \<and> ci ! k = a)"
    if u: "u < length pcs" "pcs ! u = EnqStore x a" for u x a
  proof -
    obtain k where k: "D \<le> k" "k < length ci" "k mod sz = x" "ci ! k = a" "jobs ! x = 0" using S [OF u] by blast
    then have "k \<noteq> D" using p by auto
    then show ?thesis using k jn by (auto intro!: exI [of _ k])
  qed
  have 3: "\<exists>k. Suc D \<le> k \<and> k < length ci \<and> k mod sz = x \<and> ?jobs ! x = ci ! k" if x: "x < sz" "?jobs ! x \<noteq> 0" for x
  proof -
    have "x \<noteq> p" "jobs ! x \<noteq> 0" using x jn by (auto split: if_splits)
    then obtain k where k: "D \<le> k" "k < length ci" "k mod sz = x" "jobs ! x = ci ! k" using Z [OF x(1)] by blast
    then have "k \<noteq> D" using p(1) \<open>x \<noteq> p\<close> by auto
    then show ?thesis using k jn \<open>x \<noteq> p\<close> by (auto intro!: exI [of _ k])
  qed
  have "\<forall>t < length pcs. \<forall>u < length pcs. \<forall>p a b. pcs ! t = EnqStore p a \<longrightarrow> pcs ! u = EnqStore p b \<longrightarrow> t = u"
    using inv unfolding inv_slots_def by blast
  then show "inv_slots sz ?jobs pcs ci (Suc D)" unfolding inv_slots_def using 1 2 3 by blast
qed

text \<open>The steps of an enqueueing thread that change the queue.\<close>

lemma jq_inv_enq:
  assumes inv: "jq_inv sz w c" and t: "t < length (cf_pcs c)" "cf_pcs c ! t = pc0" and pc: "\<not> is_deq pc0" "\<not> is_deq pc"
      "pc_job pc = pc_job pc0 \<or> pc_job pc = None"
    and cn: "inv_counts sz ((cf_pcs c)[t := pc] ! w) q ((cf_pcs c)[t := pc]) (length ci) (length (cf_out c))"
    and sl: "inv_slots sz (jq_jobs q) ((cf_pcs c)[t := pc]) ci (length (cf_out c))"
    and ci: "ci = cf_in c \<or> (\<exists>job. pc_job pc0 = Some job \<and> ci = cf_in c @ [job])"
    and c': "cf_pcs c' = (cf_pcs c)[t := pc]" "cf_queue c' = q" "cf_in c' = ci" "cf_out c' = cf_out c"
  shows "jq_inv sz w c'"
proof -
  note I = jq_invD [OF inv]
  have nz: "pc_job pc0 \<noteq> Some NULL" using I(1) t by (auto simp: inv_threads_def)
  then have "inv_threads w c'" using inv_threads_update [OF I(1) t(1) _ _ c'(1)] pc by auto
  moreover have "inv_hist c'" using I(4) ci nz by (auto simp: inv_hist_def c')
  ultimately show ?thesis using cn sl by (simp add: jq_inv_def c')
qed

lemma step_CasAvail:
  assumes inv: "jq_inv sz w c" and t: "t < length (cf_pcs c)" "cf_pcs c ! t = EnqCasAvail avail job"
    and "avail \<noteq> 0" "jq_avail (cf_queue c) = avail"
  shows "jq_inv sz w (goto (c\<lparr>cf_queue := (cf_queue c)\<lparr>jq_avail := avail - 1\<rparr>\<rparr>) t (EnqLoadPos job))"
proof (rule jq_inv_enq [OF inv t, where pc = "EnqLoadPos job" and ci = "cf_in c" and q = "(cf_queue c)\<lparr>jq_avail := avail - 1\<rparr>"])
  note I = jq_invD [OF inv]
  show "inv_counts sz ((cf_pcs c)[t := EnqLoadPos job] ! w) ((cf_queue c)\<lparr>jq_avail := avail - 1\<rparr>) ((cf_pcs c)[t := EnqLoadPos job])
      (length (cf_in c)) (length (cf_out c))"
    using I(2) assms(4,5) by (intro inv_counts_enq [OF inv t]) (auto simp: inv_counts_def pc_defs)
  show "inv_slots sz (jq_jobs ((cf_queue c)\<lparr>jq_avail := avail - 1\<rparr>)) ((cf_pcs c)[t := EnqLoadPos job]) (cf_in c) (length (cf_out c))"
    using inv_slots_same [OF I(3) t(1)] t(2) by simp
qed (simp_all add: pc_defs goto_def)

lemma step_CasPos:
  assumes inv: "jq_inv sz w c" and t: "t < length (cf_pcs c)" "cf_pcs c ! t = EnqCasPos enqpos job"
    and e: "jq_enqpos (cf_queue c) = enqpos"
  shows "jq_inv sz w (goto (c\<lparr>cf_queue := (cf_queue c)\<lparr>jq_enqpos := next_pos (jq_sz (cf_queue c)) enqpos\<rparr>, cf_in := cf_in c @ [job]\<rparr>)
      t (EnqStore enqpos job))"
proof (rule jq_inv_enq [OF inv t, where pc = "EnqStore enqpos job" and ci = "cf_in c @ [job]"
      and q = "(cf_queue c)\<lparr>jq_enqpos := next_pos (jq_sz (cf_queue c)) enqpos\<rparr>"])
  note I = jq_invD [OF inv]
  have pos: "enqpos = length (cf_in c) mod sz" "0 < sz" using I(2) e by (simp_all add: inv_counts_def)
  show "inv_counts sz ((cf_pcs c)[t := EnqStore enqpos job] ! w) ((cf_queue c)\<lparr>jq_enqpos := next_pos (jq_sz (cf_queue c)) enqpos\<rparr>)
      ((cf_pcs c)[t := EnqStore enqpos job]) (length (cf_in c @ [job])) (length (cf_out c))"
    using I(2) pos by (intro inv_counts_enq [OF inv t]) (auto simp: inv_counts_def pc_defs next_pos_mod)
  have "length (cf_in c) < length (cf_out c) + sz" using window(2) [OF inv t(1)] t(2) by (simp add: pc_defs)
  moreover have "length (cf_out c) \<le> length (cf_in c)" using I(4) by (simp add: inv_hist_def)
  ultimately show "inv_slots sz (jq_jobs ((cf_queue c)\<lparr>jq_enqpos := next_pos (jq_sz (cf_queue c)) enqpos\<rparr>))
      ((cf_pcs c)[t := EnqStore enqpos job]) (cf_in c @ [job]) (length (cf_out c))"
    using inv_slots_reserve [OF I(3) t(1) _ _ _ pos(2), of job] t(2) pos(1) by simp
qed (simp_all add: pc_defs goto_def)

lemma step_Store:
  assumes inv: "jq_inv sz w c" and t: "t < length (cf_pcs c)" "cf_pcs c ! t = EnqStore enqpos job"
  shows "jq_inv sz w (goto (c\<lparr>cf_queue := (cf_queue c)\<lparr>jq_jobs := (jq_jobs (cf_queue c))[enqpos := job]\<rparr>\<rparr>) t (EnqPost job))"
proof (rule jq_inv_enq [OF inv t, where pc = "EnqPost job" and ci = "cf_in c"
      and q = "(cf_queue c)\<lparr>jq_jobs := (jq_jobs (cf_queue c))[enqpos := job]\<rparr>"])
  note I = jq_invD [OF inv]
  show "inv_counts sz ((cf_pcs c)[t := EnqPost job] ! w) ((cf_queue c)\<lparr>jq_jobs := (jq_jobs (cf_queue c))[enqpos := job]\<rparr>)
      ((cf_pcs c)[t := EnqPost job]) (length (cf_in c)) (length (cf_out c))"
    using I(2) by (intro inv_counts_enq [OF inv t]) (auto simp: inv_counts_def pc_defs)
  have "\<exists>k. k mod sz = enqpos" using I(3) t unfolding inv_slots_def by blast
  then have "enqpos < sz" using I(2) by (auto simp: inv_counts_def)
  moreover have "pc_job (cf_pcs c ! t) \<noteq> Some NULL" using I(1) t(1) by (simp add: inv_threads_def)
  then have "job \<noteq> NULL" using t(2) by (simp add: pc_job_def)
  moreover have "length (jq_jobs (cf_queue c)) = sz" using I(2) by (simp add: inv_counts_def)
  ultimately show "inv_slots sz (jq_jobs ((cf_queue c)\<lparr>jq_jobs := (jq_jobs (cf_queue c))[enqpos := job]\<rparr>))
      ((cf_pcs c)[t := EnqPost job]) (cf_in c) (length (cf_out c))"
    using inv_slots_store [OF I(3) t window(1) [OF inv]] by simp
qed (simp_all add: pc_defs goto_def)

lemma step_Post:
  assumes inv: "jq_inv sz w c" and t: "t < length (cf_pcs c)" "cf_pcs c ! t = EnqPost job"
  shows "jq_inv sz w (returns (c\<lparr>cf_queue := (cf_queue c)\<lparr>jq_count := jq_count (cf_queue c) + 1\<rparr>\<rparr>) t (Enqueued job))"
proof (rule jq_inv_enq [OF inv t, where pc = Idle and ci = "cf_in c" and q = "(cf_queue c)\<lparr>jq_count := jq_count (cf_queue c) + 1\<rparr>"])
  note I = jq_invD [OF inv]
  show "inv_counts sz ((cf_pcs c)[t := Idle] ! w) ((cf_queue c)\<lparr>jq_count := jq_count (cf_queue c) + 1\<rparr>)
      ((cf_pcs c)[t := Idle]) (length (cf_in c)) (length (cf_out c))"
    using I(2) by (intro inv_counts_enq [OF inv t]) (auto simp: inv_counts_def pc_defs)
  show "inv_slots sz (jq_jobs ((cf_queue c)\<lparr>jq_count := jq_count (cf_queue c) + 1\<rparr>)) ((cf_pcs c)[t := Idle]) (cf_in c) (length (cf_out c))"
    using inv_slots_same [OF I(3) t(1)] t(2) by simp
qed (simp_all add: pc_defs returns_def)

text \<open>The steps of the worker.\<close>

lemma jq_inv_deq:
  assumes inv: "jq_inv sz w c" and pc: "pc_job pc = None" "\<not> has_avail pc" "\<not> unposted pc" "\<not> has_avail (cf_pcs c ! w)" "\<not> unposted (cf_pcs c ! w)"
    and q: "jq_sz q = sz" "length (jq_jobs q) = sz" "jq_enqpos q = jq_enqpos (cf_queue c)"
    and av: "jq_avail q + unreleased pc + length (cf_out c) = jq_avail (cf_queue c) + unreleased (cf_pcs c ! w) + length co"
    and cn: "jq_count q + waited pc + length co = jq_count (cf_queue c) + waited (cf_pcs c ! w) + length (cf_out c)"
    and co: "length co \<le> length (cf_in c)" "co = take (length co) (cf_in c)" "unreleased pc \<le> length co"
    and dq: "jq_deqpos q = (length co + reserved pc) mod sz" "\<And>p. pc = DeqTake p \<Longrightarrow> p = length co mod sz"
    and sl: "inv_slots sz (jq_jobs q) (cf_pcs c) (cf_in c) (length co)"
    and c': "cf_pcs c' = (cf_pcs c)[w := pc]" "cf_queue c' = q" "cf_in c' = cf_in c" "cf_out c' = co"
  shows "jq_inv sz w c'"
proof -
  note I = jq_invD [OF inv]
  have "inv_threads w c'" using inv_threads_update [OF I(1) I(5) _ _ c'(1)] pc(1) by simp
  moreover have "cnt has_avail ((cf_pcs c)[w := pc]) = cnt has_avail (cf_pcs c)" "cnt unposted ((cf_pcs c)[w := pc]) = cnt unposted (cf_pcs c)"
    using cnt_update [OF I(5), of has_avail pc] cnt_update [OF I(5), of unposted pc] pc by simp_all
  then have "inv_counts sz pc q ((cf_pcs c)[w := pc]) (length (cf_in c)) (length co)"
    using I(2) q av cn co(3) dq unfolding inv_counts_def by auto
  moreover have "inv_slots sz (jq_jobs q) ((cf_pcs c)[w := pc]) (cf_in c) (length co)"
  proof (rule inv_slots_same [OF sl I(5)])
    show "cf_pcs c ! w \<noteq> EnqStore p a" "pc \<noteq> EnqStore p a" for p a using pc(3,5) by (auto simp: unposted_def)
  qed
  moreover have "inv_hist c'" using I(4) co by (simp add: inv_hist_def c')
  ultimately show ?thesis using I(5) by (simp add: jq_inv_def c')
qed

lemma jq_inv_deq_step:
  assumes inv: "jq_inv sz w c" and t: "t < length (cf_pcs c)" "is_deq (cf_pcs c ! t)" and st: "jq_step c t = Some c'"
  shows "jq_inv sz w c'"
proof -
  note I = jq_invD [OF inv]
  have tw: "t = w" using I(1) t by (auto simp: inv_threads_def)
  have H: "length (cf_out c) \<le> length (cf_in c)" "cf_out c = take (length (cf_out c)) (cf_in c)"
    using I(4) by (simp_all add: inv_hist_def)
  note C = I(2) [unfolded inv_counts_def]
  consider "cf_pcs c ! w = DeqWait" | "cf_pcs c ! w = DeqLoadPos" | p where "cf_pcs c ! w = DeqCasPos p"
    | p where "cf_pcs c ! w = DeqTake p" | job where "cf_pcs c ! w = DeqRelease job"
    using t(2) tw by (cases "cf_pcs c ! w") (auto simp: is_deq_def)
  then show ?thesis
  proof cases
    case 1
    then have q: "jq_count (cf_queue c) \<noteq> 0" and c': "c' = goto (c\<lparr>cf_queue := (cf_queue c)\<lparr>jq_count := jq_count (cf_queue c) - 1\<rparr>\<rparr>) w DeqLoadPos"
      using st tw by (auto simp: jq_step_def Let_def split: if_splits)
    show ?thesis
      using 1 q C H I(3)
      by (intro jq_inv_deq [OF inv, where pc = DeqLoadPos and co = "cf_out c" and q = "(cf_queue c)\<lparr>jq_count := jq_count (cf_queue c) - 1\<rparr>"])
        (auto simp: c' goto_def pc_defs)
  next
    case 2
    then have c': "c' = goto c w (DeqCasPos (jq_deqpos (cf_queue c)))" using st tw by (simp add: jq_step_def Let_def)
    show ?thesis by (rule jq_inv_goto [OF inv I(5) 2]) (simp_all add: c' goto_def pc_defs)
  next
    case (3 p)
    show ?thesis
    proof (cases "jq_deqpos (cf_queue c) = p")
      case True
      then have c': "c' = goto (c\<lparr>cf_queue := (cf_queue c)\<lparr>jq_deqpos := next_pos (jq_sz (cf_queue c)) p\<rparr>\<rparr>) w (DeqTake p)"
        using st tw 3 by (simp add: jq_step_def Let_def)
      show ?thesis
        using 3 True C H I(3)
        by (intro jq_inv_deq [OF inv, where pc = "DeqTake p" and co = "cf_out c"
              and q = "(cf_queue c)\<lparr>jq_deqpos := next_pos (jq_sz (cf_queue c)) p\<rparr>"])
          (auto simp: c' goto_def pc_defs next_pos_mod)
    next
      case False
      then have c': "c' = goto c w (DeqCasPos (jq_deqpos (cf_queue c)))" using st tw 3 by (simp add: jq_step_def Let_def)
      show ?thesis by (rule jq_inv_goto [OF inv I(5) 3]) (simp_all add: c' goto_def pc_defs)
    qed
  next
    case (4 p)
    have p: "p = length (cf_out c) mod sz" "length (cf_out c) < length (cf_in c)" "length (jq_jobs (cf_queue c)) = sz" "0 < sz"
      using C 4 by (auto simp: pc_defs)
    show ?thesis
    proof (cases "jq_jobs (cf_queue c) ! p = 0")
      case True
      then have "c' = c" using st tw 4 by (simp add: jq_step_def Let_def)
      then show ?thesis using inv by simp
    next
      case False
      then have c': "c' = goto (c\<lparr>cf_queue := (cf_queue c)\<lparr>jq_jobs := (jq_jobs (cf_queue c))[p := 0]\<rparr>,
            cf_out := cf_out c @ [jq_jobs (cf_queue c) ! p]\<rparr>) w (DeqRelease (jq_jobs (cf_queue c) ! p))"
        using st tw 4 by (simp add: jq_step_def Let_def)
      note tk = inv_slots_take [OF I(3) p(1) False window(1) [OF inv] p(3,4,2)]
      have "cf_out c @ [jq_jobs (cf_queue c) ! p] = take (Suc (length (cf_out c))) (cf_in c)"
        using H(2) tk(1) p(2) by (simp add: take_Suc_conv_app_nth)
      then have e: "cf_out c @ [jq_jobs (cf_queue c) ! p] = take (length (cf_out c @ [jq_jobs (cf_queue c) ! p])) (cf_in c)"
        by (metis length_append_singleton)
      show ?thesis
      proof (rule jq_inv_deq [OF inv, where pc = "DeqRelease (jq_jobs (cf_queue c) ! p)" and co = "cf_out c @ [jq_jobs (cf_queue c) ! p]"
            and q = "(cf_queue c)\<lparr>jq_jobs := (jq_jobs (cf_queue c))[p := 0]\<rparr>"])
        show "inv_slots sz (jq_jobs ((cf_queue c)\<lparr>jq_jobs := (jq_jobs (cf_queue c))[p := 0]\<rparr>)) (cf_pcs c) (cf_in c)
            (length (cf_out c @ [jq_jobs (cf_queue c) ! p]))" using tk(2) by simp
        show "cf_out c @ [jq_jobs (cf_queue c) ! p] = take (length (cf_out c @ [jq_jobs (cf_queue c) ! p])) (cf_in c)" by (rule e)
      qed (use 4 C p(2,3) in \<open>simp_all add: c' goto_def pc_defs\<close>)
    qed
  next
    case (5 job)
    then have c': "c' = returns (c\<lparr>cf_queue := (cf_queue c)\<lparr>jq_avail := jq_avail (cf_queue c) + 1\<rparr>\<rparr>) w (Dequeued job)"
      using st tw by (simp add: jq_step_def Let_def)
    show ?thesis
      using 5 C H I(3)
      by (intro jq_inv_deq [OF inv, where pc = Idle and co = "cf_out c" and q = "(cf_queue c)\<lparr>jq_avail := jq_avail (cf_queue c) + 1\<rparr>"])
        (auto simp: c' returns_def pc_defs)
  qed
qed

lemma jq_inv_step:
  assumes inv: "jq_inv sz w c" and t: "t < length (cf_pcs c)" and st: "jq_step c t = Some c'"
  shows "jq_inv sz w c'"
proof (cases "cf_pcs c ! t")
  case Idle
  then show ?thesis using st by (simp add: jq_step_def Let_def)
next
  case (EnqLoadAvail job)
  then have c': "c' = goto c t (EnqCasAvail (jq_avail (cf_queue c)) job)" using st by (simp add: jq_step_def Let_def)
  show ?thesis by (rule jq_inv_goto [OF inv t EnqLoadAvail]) (simp_all add: c' goto_def pc_defs)
next
  case (EnqCasAvail avail job)
  consider "avail = 0" | "avail \<noteq> 0" "jq_avail (cf_queue c) = avail" | "avail \<noteq> 0" "jq_avail (cf_queue c) \<noteq> avail" by blast
  then show ?thesis
  proof cases
    case 1
    then have c': "c' = returns c t (Refused job)" using st EnqCasAvail by (simp add: jq_step_def Let_def)
    show ?thesis by (rule jq_inv_goto [OF inv t EnqCasAvail, where pc = Idle]) (simp_all add: c' returns_def pc_defs)
  next
    case 2
    then show ?thesis using step_CasAvail [OF inv t EnqCasAvail 2] st EnqCasAvail by (simp add: jq_step_def Let_def)
  next
    case 3
    then have c': "c' = goto c t (EnqCasAvail (jq_avail (cf_queue c)) job)" using st EnqCasAvail by (simp add: jq_step_def Let_def)
    show ?thesis by (rule jq_inv_goto [OF inv t EnqCasAvail]) (simp_all add: c' goto_def pc_defs)
  qed
next
  case (EnqLoadPos job)
  then have c': "c' = goto c t (EnqCasPos (jq_enqpos (cf_queue c)) job)" using st by (simp add: jq_step_def Let_def)
  show ?thesis by (rule jq_inv_goto [OF inv t EnqLoadPos]) (simp_all add: c' goto_def pc_defs)
next
  case (EnqCasPos p job)
  show ?thesis
  proof (cases "jq_enqpos (cf_queue c) = p")
    case True
    then show ?thesis using step_CasPos [OF inv t EnqCasPos True] st EnqCasPos by (simp add: jq_step_def Let_def)
  next
    case False
    then have c': "c' = goto c t (EnqCasPos (jq_enqpos (cf_queue c)) job)" using st EnqCasPos by (simp add: jq_step_def Let_def)
    show ?thesis by (rule jq_inv_goto [OF inv t EnqCasPos]) (simp_all add: c' goto_def pc_defs)
  qed
next
  case (EnqStore p job)
  then show ?thesis using step_Store [OF inv t EnqStore] st by (simp add: jq_step_def Let_def)
next
  case (EnqPost job)
  then show ?thesis using step_Post [OF inv t EnqPost] st by (simp add: jq_step_def Let_def)
qed (rule jq_inv_deq_step [OF inv t _ st], simp add: is_deq_def)+

lemma jq_inv_act:
  assumes inv: "jq_inv sz w c" and a: "jq_act c (t, a) = Some c'" "a = Dequeue \<longrightarrow> t = w"
  shows "jq_inv sz w c'"
proof -
  have t: "t < length (cf_pcs c)" using a(1) by (auto simp: jq_act_def Let_def split: if_splits)
  show ?thesis
  proof (cases a)
    case (Enqueue job)
    then have i: "cf_pcs c ! t = Idle" "job \<noteq> NULL" and c': "c' = goto c t (EnqLoadAvail job)"
      using a(1) by (auto simp: jq_act_def Let_def split: if_splits)
    have old: "\<not> is_deq Idle" by (simp add: pc_defs)
    note I = jq_invD [OF inv]
    have "inv_threads w c'"
      using inv_threads_update [OF I(1) t, of "EnqLoadAvail job" c'] i(2) by (simp add: c' goto_def pc_defs)
    moreover have "inv_counts sz (cf_pcs c' ! w) (cf_queue c') (cf_pcs c') (length (cf_in c')) (length (cf_out c'))"
      unfolding c' goto_def using I(2) i(1) inv_counts_enq [OF inv t i(1) old, of "EnqLoadAvail job" "cf_queue c" "length (cf_in c)"]
      by (simp add: inv_counts_def pc_defs)
    moreover have "inv_slots sz (jq_jobs (cf_queue c')) (cf_pcs c') (cf_in c') (length (cf_out c'))"
      using inv_slots_same [OF I(3) t, of "EnqLoadAvail job"] i(1) by (simp add: c' goto_def)
    ultimately show ?thesis using I(4) by (simp add: jq_inv_def inv_hist_def c' goto_def)
  next
    case Dequeue
    then have i: "cf_pcs c ! t = Idle" and c': "c' = goto c t DeqWait"
      using a(1) by (auto simp: jq_act_def Let_def split: if_splits)
    show ?thesis using a(2) Dequeue by (intro jq_inv_goto [OF inv t i, where pc = DeqWait]) (simp_all add: c' goto_def pc_defs)
  next
    case Interrupt
    then have i: "cf_pcs c ! t = DeqWait" and c': "c' = returns c t Interrupted"
      using a(1) by (auto simp: jq_act_def Let_def split: if_splits)
    show ?thesis by (rule jq_inv_goto [OF inv t i, where pc = Idle]) (simp_all add: c' returns_def pc_defs)
  next
    case Step
    then have "jq_step c t = Some c'" using a(1) t by (simp add: jq_act_def Let_def)
    then show ?thesis by (rule jq_inv_step [OF inv t])
  qed
qed

lemma jq_inv_start: "0 < sz \<Longrightarrow> w < nthreads \<Longrightarrow> jq_inv sz w (jq_start sz nthreads)"
  by (auto simp: jq_inv_def jq_start_def inv_threads_def inv_counts_def inv_slots_def inv_hist_def JobQueue_create_def pc_defs cnt_def)

lemma jq_reach_inv: "jq_reach sz nthreads w c \<Longrightarrow> 0 < sz \<Longrightarrow> w < nthreads \<Longrightarrow> jq_inv sz w c"
  by (induction rule: jq_reach.induct) (auto intro: jq_inv_start jq_inv_act)

text \<open>
  C39: The lock-free queue with one worker.  However the threads are interleaved, any number of
  threads may enqueue: the jobs are taken in the order in which they got their slots, each
  once and none is lost; at most as many jobs as there are slots are underway; a worker that
  finds its slot empty has a thread to wait for, which stores the next job there; and when all
  calls have returned the counters agree with the jobs left.
\<close>

theorem lockfree_single_worker:
  assumes "jq_reach sz nthreads w c" "0 < sz" "w < nthreads"
  shows "cf_out c = take (length (cf_out c)) (cf_in c) \<and> length (cf_in c) \<le> length (cf_out c) + sz \<and>
    (\<forall>p. cf_pcs c ! w = DeqTake p \<longrightarrow> length (cf_out c) < length (cf_in c) \<and>
      (jq_jobs (cf_queue c) ! p = cf_in c ! length (cf_out c) \<or>
       (\<exists>t < length (cf_pcs c). cf_pcs c ! t = EnqStore p (cf_in c ! length (cf_out c))))) \<and>
    ((\<forall>t < length (cf_pcs c). cf_pcs c ! t = Idle) \<longrightarrow>
      jq_count (cf_queue c) + length (cf_out c) = length (cf_in c) \<and>
      jq_avail (cf_queue c) + length (cf_in c) = sz + length (cf_out c))"
proof (intro conjI allI impI)
  have inv: "jq_inv sz w c" by (rule jq_reach_inv [OF assms])
  note I = jq_invD [OF inv] and C = jq_invD(2) [OF inv, unfolded inv_counts_def]
  show "cf_out c = take (length (cf_out c)) (cf_in c)" using I(4) by (simp add: inv_hist_def)
  show "length (cf_in c) \<le> length (cf_out c) + sz" by (rule window(1) [OF inv])
  show l: "length (cf_out c) < length (cf_in c)" if "cf_pcs c ! w = DeqTake p" for p
    using C that by (auto simp: pc_defs)
  show "jq_jobs (cf_queue c) ! p = cf_in c ! length (cf_out c) \<or>
      (\<exists>t < length (cf_pcs c). cf_pcs c ! t = EnqStore p (cf_in c ! length (cf_out c)))"
    if "cf_pcs c ! w = DeqTake p" for p
  proof -
    have p: "length (cf_out c) mod sz = p" using C that by auto
    show ?thesis using I(3) l [OF that] unfolding inv_slots_def p [symmetric] by blast
  qed
  assume "\<forall>t < length (cf_pcs c). cf_pcs c ! t = Idle"
  then have "cnt has_avail (cf_pcs c) = 0" "cnt unposted (cf_pcs c) = 0" "cf_pcs c ! w = Idle"
    using I(5) by (auto simp: cnt_def filter_empty_conv in_set_conv_nth pc_defs)
  then show "jq_count (cf_queue c) + length (cf_out c) = length (cf_in c)"
    "jq_avail (cf_queue c) + length (cf_in c) = sz + length (cf_out c)" using C by (simp_all add: pc_defs)
qed

lemma jq_reach_run:
  "jq_reach sz nthreads w c \<Longrightarrow> jq_run c tas = Some c' \<Longrightarrow> \<forall>(t, a) \<in> set tas. a = Dequeue \<longrightarrow> t = w \<Longrightarrow> jq_reach sz nthreads w c'"
proof (induction tas arbitrary: c)
  case (Cons ta tas)
  obtain c1 where c1: "jq_act c (fst ta, snd ta) = Some c1" "jq_run c1 tas = Some c'" using Cons.prems(2) by (auto split: bind_splits)
  have "snd ta = Dequeue \<longrightarrow> fst ta = w" using Cons.prems(3) by auto
  from Cons.IH [OF reach_act [OF Cons.prems(1) c1(1) this] c1(2)] Cons.prems(3) show ?case by simp
qed simp

text \<open>A call of \<open>JobQueue_enqueue\<close> and of \<open>JobQueue_dequeue\<close> without interference.\<close>

definition enqueue_call :: "nat \<Rightarrow> ptr \<Rightarrow> (nat \<times> jq_act) list" where
  "enqueue_call t job = (t, Enqueue job) # replicate 6 (t, Step)"

definition dequeue_call :: "nat \<Rightarrow> (nat \<times> jq_act) list" where
  "dequeue_call t = (t, Dequeue) # replicate 5 (t, Step)"

lemma single_worker_eval:
  "case jq_run (jq_start 2 3) (enqueue_call 0 7 @ enqueue_call 1 8 @ dequeue_call 2 @ enqueue_call 0 9) of
     Some c \<Rightarrow> cf_out c = [7] \<and> cf_in c = [7, 8, 9] \<and> cf_pcs c = [Idle, Idle, Idle]
   | None \<Rightarrow> False"
  by code_simp

theorem lockfree_single_worker_witness:
  "\<exists>c. jq_reach 2 3 2 c \<and> cf_in c = [7, 8, 9] \<and> cf_out c = [7] \<and> jq_count (cf_queue c) = 2 \<and> jq_avail (cf_queue c) = 0"
proof -
  obtain c where c: "jq_run (jq_start 2 3) (enqueue_call 0 7 @ enqueue_call 1 8 @ dequeue_call 2 @ enqueue_call 0 9) = Some c"
    "cf_out c = [7]" "cf_in c = [7, 8, 9]" "cf_pcs c = [Idle, Idle, Idle]"
    using single_worker_eval by (auto split: option.splits)
  have r: "jq_reach 2 3 2 c"
    by (rule jq_reach_run [OF reach_start c(1)]) (auto simp: enqueue_call_def dequeue_call_def)
  have "\<forall>t < length (cf_pcs c). cf_pcs c ! t = Idle" using c(4) by (auto simp: less_Suc_eq numeral_3_eq_3)
  then show ?thesis using lockfree_single_worker [OF r] r c(2,3) by (intro exI [of _ c]) simp
qed

lemma two_workers_eval:
  "case jq_run (jq_start 2 4) (enqueue_call 0 7 @ enqueue_call 0 8 @ take 4 (dequeue_call 1) @ dequeue_call 2 @
      enqueue_call 0 9 @ [(1, Step), (1, Step)] @ take 4 (dequeue_call 3)) of
     Some c \<Rightarrow> cf_in c = [7, 8, 9] \<and> cf_out c = [8, 9] \<and> jq_jobs (cf_queue c) = [0, 0] \<and>
       cf_pcs c = [Idle, Idle, Idle, DeqTake 0] \<and>
       cf_results c = [(0, Enqueued 7), (0, Enqueued 8), (2, Dequeued 8), (0, Enqueued 9), (1, Dequeued 9)]
   | None \<Rightarrow> False"
  by code_simp

text \<open>
  The lock-free queue with several workers.  A worker that reserved a slot and is delayed
  before it reads the slot loses its job: another worker finishes, a new job is stored
  into the slot of the delayed worker, and the first job, which was reported as enqueued,
  is gone.  A worker that comes later spins for ever on an empty slot.
\<close>

theorem lockfree_two_workers_lose:
  "\<exists>acts c. jq_run (jq_start 2 4) acts = Some c \<and> (0, Enqueued 7) \<in> set (cf_results c) \<and> 7 \<in> set (cf_in c) \<and>
     7 \<notin> set (cf_out c) \<and> jq_jobs (cf_queue c) = [NULL, NULL] \<and>
     cf_pcs c = [Idle, Idle, Idle, DeqTake 0] \<and> jq_step c 3 = Some c"
proof -
  obtain c where c: "jq_run (jq_start 2 4) (enqueue_call 0 7 @ enqueue_call 0 8 @ take 4 (dequeue_call 1) @ dequeue_call 2 @
      enqueue_call 0 9 @ [(1, Step), (1, Step)] @ take 4 (dequeue_call 3)) = Some c"
    "cf_in c = [7, 8, 9]" "cf_out c = [8, 9]" "jq_jobs (cf_queue c) = [0, 0]" "cf_pcs c = [Idle, Idle, Idle, DeqTake 0]"
    "cf_results c = [(0, Enqueued 7), (0, Enqueued 8), (2, Dequeued 8), (0, Enqueued 9), (1, Dequeued 9)]"
    using two_workers_eval by (auto split: option.splits)
  have st: "jq_step c 3 = Some c" using c(4,5) by (simp add: jq_step_def)
  show ?thesis by (rule exI, rule exI, rule conjI, rule c(1)) (use c(2-6) st in simp)
qed

section \<open>The queue with a mutex as a bounded queue\<close>

datatype 'a bf_op = BEnq 'a | BDeq

datatype 'a bf_res = Ret int | Got 'a | Blocked

fun bf_run :: "('q \<Rightarrow> 'a \<Rightarrow> 'q \<times> int) \<Rightarrow> ('q \<Rightarrow> ('q \<times> 'a) option) \<Rightarrow> 'q \<Rightarrow> 'a bf_op list \<Rightarrow> 'a bf_res list \<times> 'q" where
  "bf_run enq deq q [] = ([], q)"
| "bf_run enq deq q (BEnq x # ops) =
     (let (q', r) = enq q x; (rs, q'') = bf_run enq deq q' ops in (Ret r # rs, q''))"
| "bf_run enq deq q (BDeq # ops) =
     (case deq q of
        None \<Rightarrow> (let (rs, q'') = bf_run enq deq q ops in (Blocked # rs, q''))
      | Some (q', x) \<Rightarrow> (let (rs, q'') = bf_run enq deq q' ops in (Got x # rs, q'')))"

fun bf_spec :: "nat \<Rightarrow> 'a list \<Rightarrow> 'a bf_op list \<Rightarrow> 'a bf_res list \<times> 'a list" where
  "bf_spec n xs [] = ([], xs)"
| "bf_spec n xs (BEnq x # ops) =
     (if length xs < n then (let (rs, ys) = bf_spec n (xs @ [x]) ops in (Ret 0 # rs, ys))
      else (let (rs, ys) = bf_spec n xs ops in (Ret (-1) # rs, ys)))"
| "bf_spec n [] (BDeq # ops) = (let (rs, ys) = bf_spec n [] ops in (Blocked # rs, ys))"
| "bf_spec n (x # xs) (BDeq # ops) = (let (rs, ys) = bf_spec n xs ops in (Got x # rs, ys))"

locale bounded_fifo =
  fixes enq :: "'q \<Rightarrow> 'a \<Rightarrow> 'q \<times> int"
    and deq :: "'q \<Rightarrow> ('q \<times> 'a) option"
    and contents :: "'q \<Rightarrow> 'a list"
    and bound :: "'q \<Rightarrow> nat"
    and ok :: "'q \<Rightarrow> bool"
  assumes enq_full: "ok q \<Longrightarrow> bound q \<le> length (contents q) \<Longrightarrow> enq q x = (q, -1)"
    and enq_room: "ok q \<Longrightarrow> length (contents q) < bound q \<Longrightarrow>
      \<exists>q'. enq q x = (q', 0) \<and> ok q' \<and> contents q' = contents q @ [x] \<and> bound q' = bound q"
    and deq_empty: "ok q \<Longrightarrow> contents q = [] \<Longrightarrow> deq q = None"
    and deq_some: "ok q \<Longrightarrow> contents q = x # xs \<Longrightarrow>
      \<exists>q'. deq q = Some (q', x) \<and> ok q' \<and> contents q' = xs \<and> bound q' = bound q"
begin

lemma run_refines:
  "ok q \<Longrightarrow> \<exists>q'. bf_run enq deq q ops = (fst (bf_spec (bound q) (contents q) ops), q') \<and> ok q' \<and>
     contents q' = snd (bf_spec (bound q) (contents q) ops) \<and> bound q' = bound q"
proof (induction ops arbitrary: q)
  case (Cons a ops)
  show ?case
  proof (cases a)
    case (BEnq x)
    show ?thesis
    proof (cases "length (contents q) < bound q")
      case True
      then obtain q' where "enq q x = (q', 0)" "ok q'" "contents q' = contents q @ [x]" "bound q' = bound q"
        using enq_room [OF Cons.prems] by blast
      with Cons.IH [of q'] BEnq True show ?thesis by (auto split: prod.splits)
    next
      case False
      with enq_full [OF Cons.prems] Cons.IH [OF Cons.prems] BEnq show ?thesis by (auto split: prod.splits)
    qed
  next
    case BDeq
    show ?thesis
    proof (cases "contents q")
      case Nil
      with deq_empty [OF Cons.prems] Cons.IH [OF Cons.prems] BDeq show ?thesis by (auto split: prod.splits)
    next
      case (Cons x xs)
      obtain q' where "deq q = Some (q', x)" "ok q'" "contents q' = xs" "bound q' = bound q"
        using deq_some [OF Cons.prems Cons] by blast
      with Cons.IH [of q'] BDeq Cons show ?thesis by (auto split: prod.splits)
    qed
  qed
qed simp

end

definition jq_list :: "JobQueue \<Rightarrow> ptr list" where
  "jq_list q = map (\<lambda>i. jq_jobs q ! ((jq_deqpos q + i) mod jq_sz q)) [0..<jq_count q]"

definition wf_jq :: "JobQueue \<Rightarrow> bool" where
  [wf_defs]: "wf_jq q \<longleftrightarrow> 0 < jq_sz q \<and> length (jq_jobs q) = jq_sz q \<and> jq_deqpos q < jq_sz q \<and>
     jq_enqpos q = (jq_deqpos q + jq_count q) mod jq_sz q \<and> jq_count q + jq_avail q = jq_sz q"

lemma length_jq_list [simp]: "length (jq_list q) = jq_count q"
  by (simp add: jq_list_def)

lemma locked_enqueue_ok:
  assumes wf: "wf_jq q" and av: "jq_avail q \<noteq> 0"
  shows "wf_jq (fst (locked_enqueue q job)) \<and> jq_list (fst (locked_enqueue q job)) = jq_list q @ [job]"
proof -
  let ?sz = "jq_sz q" and ?q = "fst (locked_enqueue q job)"
  have q: "0 < ?sz" "length (jq_jobs q) = ?sz" "jq_enqpos q = (jq_deqpos q + jq_count q) mod ?sz" "jq_count q < ?sz"
    using wf av by (auto simp: wf_jq_def)
  have "wf_jq ?q" using wf av by (auto simp: locked_enqueue_def wf_jq_def next_pos_mod)
  moreover have "(jq_jobs q)[jq_enqpos q := job] ! ((jq_deqpos q + i) mod ?sz) =
      (if i = jq_count q then job else jq_jobs q ! ((jq_deqpos q + i) mod ?sz))" if "i \<le> jq_count q" for i
  proof (cases "i = jq_count q")
    case False
    then have "(jq_deqpos q + i) mod ?sz \<noteq> jq_enqpos q"
      using q(3,4) that mod_window [of "jq_deqpos q + i" "jq_deqpos q + jq_count q" ?sz] by auto
    then show ?thesis using False by simp
  qed (use q in simp)
  then have "jq_list ?q = jq_list q @ [job]"
    using av q by (auto simp: locked_enqueue_def jq_list_def)
  ultimately show ?thesis by simp
qed

lemma locked_dequeue_ok:
  assumes wf: "wf_jq q" and l: "jq_list q = x # xs"
  shows "\<exists>q'. locked_dequeue q = Some (q', x) \<and> wf_jq q' \<and> jq_list q' = xs \<and> jq_sz q' = jq_sz q"
proof -
  let ?sz = "jq_sz q"
  obtain n where n: "jq_count q = Suc n" using arg_cong [OF l, of length] by (cases "jq_count q") auto
  have q: "0 < ?sz" "jq_deqpos q < ?sz" using wf by (auto simp: wf_jq_def)
  have "x # xs = map (\<lambda>i. jq_jobs q ! ((jq_deqpos q + i) mod ?sz)) (0 # map Suc [0..<n])"
    using l unfolding jq_list_def n by (simp add: upt_conv_Cons map_Suc_upt del: upt_Suc)
  then have x: "x = jq_jobs q ! jq_deqpos q" "xs = map (\<lambda>i. jq_jobs q ! ((Suc (jq_deqpos q) + i) mod ?sz)) [0..<n]"
    using q(2) by simp_all
  have np: "next_pos ?sz (jq_deqpos q) = Suc (jq_deqpos q) mod ?sz" using q next_pos_mod [of ?sz "jq_deqpos q"] by simp
  let ?q = "q\<lparr>jq_count := n, jq_deqpos := next_pos ?sz (jq_deqpos q), jq_avail := jq_avail q + 1\<rparr>"
  have "locked_dequeue q = Some (?q, x)" using n x(1) by (simp add: locked_dequeue_def)
  moreover have "jq_list ?q = xs" by (simp add: jq_list_def x(2) np mod_add_left_eq)
  moreover have "wf_jq ?q" using wf n by (simp add: wf_jq_def np mod_add_left_eq)
  ultimately show ?thesis by (intro exI [of _ ?q]) simp
qed

interpretation locked_queue: bounded_fifo locked_enqueue locked_dequeue jq_list jq_sz wf_jq
proof (unfold_locales, goal_cases)
  case (1 q x)
  then show ?case by (simp add: locked_enqueue_def wf_jq_def)
next
  case (2 q x)
  then have "jq_avail q \<noteq> 0" by (auto simp: wf_jq_def)
  then show ?case using locked_enqueue_ok [of q x] 2(1) by (simp add: locked_enqueue_def)
next
  case (3 q)
  then show ?case using length_jq_list [of q] by (simp add: locked_dequeue_def)
next
  case (4 q x xs)
  then show ?case by (rule locked_dequeue_ok)
qed

text \<open>
  The queue with a mutex.  Every sequence of calls behaves as a FIFO list with at most
  \<open>sz\<close> elements: a full queue refuses, an empty one blocks, and otherwise jobs come out in the
  order in which they went in.
\<close>

theorem locked_queue_refines:
  assumes "0 < sz"
  shows "\<exists>q. bf_run locked_enqueue locked_dequeue (JobQueue_create sz) ops = (fst (bf_spec sz [] ops), q) \<and>
    jq_list q = snd (bf_spec sz [] ops) \<and> jq_avail q = sz - length (snd (bf_spec sz [] ops))"
proof -
  have q0: "wf_jq (JobQueue_create sz)" "jq_sz (JobQueue_create sz) = sz" "jq_list (JobQueue_create sz) = []"
    using assms by (simp_all add: wf_jq_def JobQueue_create_def jq_list_def)
  obtain q where q: "bf_run locked_enqueue locked_dequeue (JobQueue_create sz) ops = (fst (bf_spec sz [] ops), q)"
    "wf_jq q" "jq_list q = snd (bf_spec sz [] ops)" "jq_sz q = sz"
    using locked_queue.run_refines [OF q0(1), of ops] q0(2,3) by auto
  have "jq_avail q = sz - length (jq_list q)" using q(2,4) by (auto simp: wf_jq_def)
  with q show ?thesis by auto
qed

theorem locked_queue_refines_witness:
  "\<exists>q. bf_run locked_enqueue locked_dequeue (JobQueue_create 2) [BEnq 7, BEnq 8, BEnq 9, BDeq, BEnq 9, BDeq, BDeq, BDeq] =
     ([Ret 0, Ret 0, Ret (-1), Got 7, Ret 0, Got 8, Got 9, Blocked], q)"
  using locked_queue_refines [of 2 "[BEnq 7, BEnq 8, BEnq 9, BDeq, BEnq 9, BDeq, BDeq, BDeq]"] by auto

end
