(* ===== verification/Poser_ThreadPool.thy ===== *)
theory Poser_ThreadPool
  imports Poser_JobQueue "HOL-Library.Signed_Division"
begin

text \<open>
  The thread pool (\<open>src/lib/core/threadpool.c\<close>): the options and the sizes computed from
  them, and the way of a job through the pool as a transition system.  The queue is in
  \<open>Poser_JobQueue\<close>.

  A job is owned by one party at a time: the caller, the queue, a pool thread, or the service
  thread that gets the message \<open>threadJobDone\<close>.  The model keeps this place and the fields of
  the job, and records what happens to it.  What the procedure of a job does is not
  determined: it may return, await a task, or panic.
\<close>

section \<open>Options\<close>

record PSC_ThreadOpts =
  to_nThreads :: int
  to_maxThreads :: int
  to_nPerCpu :: int
  to_defNThreads :: int
  to_queueLen :: int
  to_maxQueueLen :: int
  to_minQueueLen :: int
  to_qLenPerThread :: int

definition DEFTHREADS :: int where "DEFTHREADS = 16"
definition MAXTHREADS :: int where "MAXTHREADS = 128"
definition THREADSPERCPU :: int where "THREADSPERCPU = 1"
definition MAXQUEUELEN :: int where "MAXQUEUELEN = 512"
definition MINQUEUELEN :: int where "MINQUEUELEN = 32"
definition QLENPERTHREAD :: int where "QLENPERTHREAD = 2"

definition PSC_ThreadOpts_init :: "int \<Rightarrow> PSC_ThreadOpts" where
  "PSC_ThreadOpts_init defThreads = \<lparr>to_nThreads = 0, to_maxThreads = MAXTHREADS, to_nPerCpu = THREADSPERCPU,
     to_defNThreads = defThreads, to_queueLen = 0, to_maxQueueLen = MAXQUEUELEN, to_minQueueLen = MINQUEUELEN,
     to_qLenPerThread = QLENPERTHREAD\<rparr>"

definition PSC_ThreadOpts_fixedThreads :: "int \<Rightarrow> PSC_ThreadOpts \<Rightarrow> PSC_ThreadOpts" where
  "PSC_ThreadOpts_fixedThreads n opts = opts\<lparr>to_nThreads := n\<rparr>"

definition PSC_ThreadOpts_threadsPerCpu :: "int \<Rightarrow> PSC_ThreadOpts \<Rightarrow> PSC_ThreadOpts" where
  "PSC_ThreadOpts_threadsPerCpu n opts = opts\<lparr>to_nPerCpu := n\<rparr>"

definition PSC_ThreadOpts_maxThreads :: "int \<Rightarrow> PSC_ThreadOpts \<Rightarrow> PSC_ThreadOpts" where
  "PSC_ThreadOpts_maxThreads n opts = opts\<lparr>to_maxThreads := n\<rparr>"

definition PSC_ThreadOpts_fixedQueue :: "int \<Rightarrow> PSC_ThreadOpts \<Rightarrow> PSC_ThreadOpts" where
  "PSC_ThreadOpts_fixedQueue n opts = opts\<lparr>to_queueLen := n\<rparr>"

definition PSC_ThreadOpts_queuePerThread :: "int \<Rightarrow> PSC_ThreadOpts \<Rightarrow> PSC_ThreadOpts" where
  "PSC_ThreadOpts_queuePerThread n opts = opts\<lparr>to_qLenPerThread := n\<rparr>"

definition PSC_ThreadOpts_maxQueue :: "int \<Rightarrow> PSC_ThreadOpts \<Rightarrow> PSC_ThreadOpts" where
  "PSC_ThreadOpts_maxQueue n opts = opts\<lparr>to_maxQueueLen := n\<rparr>"

definition PSC_ThreadOpts_minQueue :: "int \<Rightarrow> PSC_ThreadOpts \<Rightarrow> PSC_ThreadOpts" where
  "PSC_ThreadOpts_minQueue n opts = opts\<lparr>to_minQueueLen := n\<rparr>"

text \<open>Division of C: truncating, and undefined for a zero divisor.\<close>

definition c_div :: "int \<Rightarrow> int \<Rightarrow> int option" where
  "c_div a b = (if b = 0 then None else Some (a sdiv b))"

text \<open>The number of threads and the size of the queue; \<open>ncpu\<close> is the result of \<open>sysconf\<close>.\<close>

definition pool_threads :: "PSC_ThreadOpts \<Rightarrow> int \<Rightarrow> int option" where
  "pool_threads opts ncpu =
     (if to_nThreads opts \<noteq> 0 then Some (to_nThreads opts)
      else if 1 \<le> ncpu
      then do {
        m \<leftarrow> c_div (to_maxThreads opts) (to_nPerCpu opts);
        Some (if ncpu \<le> m then to_nPerCpu opts * ncpu else to_maxThreads opts) }
      else Some (to_defNThreads opts))"

definition pool_queue :: "PSC_ThreadOpts \<Rightarrow> int \<Rightarrow> int option" where
  "pool_queue opts nthreads =
     (if to_queueLen opts \<noteq> 0 then Some (to_queueLen opts)
      else do {
        m \<leftarrow> c_div (to_maxQueueLen opts) (to_qLenPerThread opts);
        Some (if nthreads \<le> m then max (to_qLenPerThread opts * nthreads) (to_minQueueLen opts) else to_maxQueueLen opts) })"

definition pool_sizes :: "PSC_ThreadOpts \<Rightarrow> int \<Rightarrow> (int \<times> int) option" where
  "pool_sizes opts ncpu = do {
     let opts = (if to_defNThreads opts = 0 then PSC_ThreadOpts_init DEFTHREADS else opts);
     nthreads \<leftarrow> pool_threads opts ncpu;
     queuesize \<leftarrow> pool_queue opts nthreads;
     Some (nthreads, queuesize) }"

section \<open>Jobs\<close>

record PSC_ThreadJob =
  tj_hasCompleted :: bool
  tj_pthrno :: int
  tj_thrno :: int
  tj_timeoutMs :: u32
  tj_timeout :: bool
  tj_task :: ptr
  tj_panicmsg :: ptr
  tj_async :: bool

text \<open>
  Where a job is: with its creator, in the queue, run by a pool thread, in a message to the
  service thread, waiting for its task there, or nowhere (\<open>Lost\<close>).
\<close>

datatype job_place = Owned | InQueue | Running nat | DoneMsg | TaskPending | Lost | Destroyed

datatype job_event =
    TimerStarted | TimerStopped | ProcCalled nat | ProcResumed nat | Signalled int
  | TaskCalled ptr | FinishedRaised bool | JobDestroyed | Panicked ptr

record job_sys =
  js_job :: PSC_ThreadJob
  js_place :: job_place
  js_trace :: "job_event list"

definition PSC_ThreadJob_create :: "int \<Rightarrow> u32 \<Rightarrow> job_sys option" where
  "PSC_ThreadJob_create threadNo timeoutMs =
     (if threadNo < -1 then None
      else Some \<lparr>js_job = \<lparr>tj_hasCompleted = True, tj_pthrno = -1, tj_thrno = 0, tj_timeoutMs = timeoutMs, tj_timeout = False,
                           tj_task = NULL, tj_panicmsg = NULL, tj_async = False\<rparr>, js_place = Owned, js_trace = []\<rparr>)"

definition js_upd :: "(PSC_ThreadJob \<Rightarrow> PSC_ThreadJob) \<Rightarrow> job_sys \<Rightarrow> job_sys" where
  "js_upd f s = s\<lparr>js_job := f (js_job s)\<rparr>"

definition js_log :: "job_event list \<Rightarrow> job_sys \<Rightarrow> job_sys" where
  "js_log evs s = s\<lparr>js_trace := js_trace s @ evs\<rparr>"

definition js_move :: "job_place \<Rightarrow> job_sys \<Rightarrow> job_sys" where
  "js_move p s = s\<lparr>js_place := p\<rparr>"

definition PSC_ThreadJob_setAsync :: "job_sys \<Rightarrow> job_sys" where
  "PSC_ThreadJob_setAsync = js_upd (tj_async_update (\<lambda>_. True))"

text \<open>\<open>room\<close>: the queue accepts the job; then its timeout is started.\<close>

definition job_enqueue :: "bool \<Rightarrow> job_sys \<Rightarrow> job_sys \<times> int" where
  "job_enqueue room s =
     (if room then (js_move InQueue (js_log (if tj_timeout (js_job s) then [TimerStarted] else []) s), 0) else (s, -1))"

definition PSC_ThreadPool_enqueue :: "int \<Rightarrow> bool \<Rightarrow> bool \<Rightarrow> job_sys \<Rightarrow> job_sys \<times> int" where
  "PSC_ThreadPool_enqueue threadNo timerOk room s =
     (let s = js_upd (tj_thrno_update (\<lambda>_. threadNo)) s
      in if threadNo < -1 then (s, -1)
         else if tj_timeoutMs (js_job s) \<noteq> 0 \<and> \<not> tj_timeout (js_job s)
         then (if timerOk then job_enqueue room (js_upd (tj_timeout_update (\<lambda>_. True)) s) else (s, -1))
         else job_enqueue room s)"

text \<open>A pool thread takes the job from the queue: the body of the loop in \<open>worker\<close> up to the call.\<close>

definition worker_take :: "nat \<Rightarrow> job_sys \<Rightarrow> job_sys" where
  "worker_take t s =
     (let job = js_job s
      in if tj_hasCompleted job
         then (let s = js_move (Running t) (js_upd (tj_pthrno_update (\<lambda>_. int t)) s)
               in if tj_async job \<and> tj_task job \<noteq> NULL
                  then js_log [ProcResumed t] (js_upd (tj_task_update (\<lambda>_. NULL)) s)
                  else js_log [ProcCalled t] s)
         else js_move DoneMsg s)"

text \<open>The procedure returns; it awaits a task (\<open>PSC_AsyncTask_await\<close>); it panics (\<open>checkpanic\<close>).\<close>

definition proc_returns :: "job_sys \<Rightarrow> job_sys" where
  "proc_returns s = js_move DoneMsg (js_upd (tj_pthrno_update (\<lambda>_. -1)) s)"

definition PSC_AsyncTask_await :: "ptr \<Rightarrow> job_sys \<Rightarrow> job_sys" where
  "PSC_AsyncTask_await task s =
     (let s = js_upd (tj_task_update (\<lambda>_. task)) s
      in js_move DoneMsg (if tj_async (js_job s) then js_upd (tj_pthrno_update (\<lambda>_. -1)) s else s))"

definition proc_panics :: "ptr \<Rightarrow> job_sys \<Rightarrow> job_sys" where
  "proc_panics msg s = js_move DoneMsg (js_upd (tj_panicmsg_update (\<lambda>_. msg)) s)"

definition threadJobDone :: "job_sys \<Rightarrow> job_sys" where
  "threadJobDone s =
     (let job = js_job s; s = js_log (if tj_timeout job then [TimerStopped] else []) s
      in if tj_panicmsg job \<noteq> NULL then js_move Destroyed (js_log [JobDestroyed, Panicked (tj_panicmsg job)] s)
         else if tj_task job \<noteq> NULL then js_move TaskPending (js_log [TaskCalled (tj_task job)] s)
         else js_move Destroyed (js_log [FinishedRaised (tj_hasCompleted job), JobDestroyed] s))"

text \<open>
  The task is complete: a job with its own stack goes back into the queue, and the result of
  that is ignored; otherwise the thread that waits for the task goes on.
\<close>

definition PSC_AsyncTask_complete :: "bool \<Rightarrow> job_sys \<Rightarrow> job_sys" where
  "PSC_AsyncTask_complete room s =
     (if tj_async (js_job s) then (case job_enqueue room s of (s', rc) \<Rightarrow> if rc = 0 then s' else js_move Lost s')
      else (let t = nat (tj_pthrno (js_job s))
            in js_log [ProcResumed t] (js_move (Running t) (js_upd (tj_task_update (\<lambda>_. NULL)) s))))"

definition PSC_ThreadPool_cancel :: "job_sys \<Rightarrow> job_sys" where
  "PSC_ThreadPool_cancel s =
     (let s = js_upd (tj_hasCompleted_update (\<lambda>_. False)) s
      in if 0 \<le> tj_pthrno (js_job s) then js_log [Signalled (tj_pthrno (js_job s))] s else s)"

inductive job_step :: "job_sys \<Rightarrow> job_sys \<Rightarrow> bool" where
  enqueue: "js_place s = Owned \<Longrightarrow> PSC_ThreadPool_enqueue threadNo timerOk room s = (s', rc) \<Longrightarrow> job_step s s'"
| take: "js_place s = InQueue \<Longrightarrow> job_step s (worker_take t s)"
| return: "js_place s = Running t \<Longrightarrow> job_step s (proc_returns s)"
| await: "js_place s = Running t \<Longrightarrow> task \<noteq> NULL \<Longrightarrow> job_step s (PSC_AsyncTask_await task s)"
| panic: "js_place s = Running t \<Longrightarrow> msg \<noteq> NULL \<Longrightarrow> job_step s (proc_panics msg s)"
| job_done: "js_place s = DoneMsg \<Longrightarrow> job_step s (threadJobDone s)"
| complete: "js_place s = TaskPending \<Longrightarrow> job_step s (PSC_AsyncTask_complete room s)"
| cancel: "js_place s \<noteq> Destroyed \<Longrightarrow> job_step s (PSC_ThreadPool_cancel s)"

inductive_cases job_stepE: "job_step s s'"

definition job_reach :: "job_sys \<Rightarrow> job_sys \<Rightarrow> bool" where
  "job_reach = job_step\<^sup>*\<^sup>*"

section \<open>Sizes\<close>

text \<open>
  The sizes of the pool.  With the default options, whatever number of processors the
  system reports, the pool has between one and 128 threads, and the queue has room for 32 to 512
  jobs and for two jobs of each thread.
\<close>

theorem pool_sizes_bounds:
  assumes "1 \<le> d" "d \<le> MAXTHREADS"
  shows "\<exists>nthreads queuesize. pool_sizes (PSC_ThreadOpts_init d) ncpu = Some (nthreads, queuesize) \<and>
    1 \<le> nthreads \<and> nthreads \<le> 128 \<and> 32 \<le> queuesize \<and> queuesize \<le> 512 \<and> 2 * nthreads \<le> queuesize"
proof -
  have "(128 :: int) sdiv 1 = 128" "(512 :: int) sdiv 2 = 256" by (simp_all add: signed_divide_int_def)
  then show ?thesis
    using assms by (auto simp: pool_sizes_def pool_threads_def pool_queue_def c_div_def PSC_ThreadOpts_init_def
        MAXTHREADS_def THREADSPERCPU_def MAXQUEUELEN_def MINQUEUELEN_def QLENPERTHREAD_def Let_def)
qed

theorem pool_sizes_bounds_witness:
  "\<exists>nthreads queuesize. pool_sizes (PSC_ThreadOpts_init 16) 1000 = Some (nthreads, queuesize) \<and> nthreads \<le> 128 \<and> queuesize \<le> 512"
  using pool_sizes_bounds [of 16 1000] by (auto simp: MAXTHREADS_def)

section \<open>The way of a job\<close>

definition ev_count :: "(job_event \<Rightarrow> bool) \<Rightarrow> job_sys \<Rightarrow> nat" where
  "ev_count P s = cnt P (js_trace s)"

fun is_call :: "job_event \<Rightarrow> bool" where "is_call (ProcCalled _) = True" | "is_call _ = False"
fun is_finish :: "job_event \<Rightarrow> bool" where "is_finish (FinishedRaised _) = True" | "is_finish _ = False"
fun is_destroy :: "job_event \<Rightarrow> bool" where "is_destroy JobDestroyed = True" | "is_destroy _ = False"
fun is_task :: "job_event \<Rightarrow> bool" where "is_task (TaskCalled _) = True" | "is_task _ = False"
fun is_panic :: "job_event \<Rightarrow> bool" where "is_panic (Panicked _) = True" | "is_panic _ = False"

lemma ev_count_log [simp]:
  "ev_count P (js_log evs s) = ev_count P s + cnt P evs" "ev_count P (js_upd f s) = ev_count P s" "ev_count P (js_move p s) = ev_count P s"
  by (simp_all add: ev_count_def js_log_def js_upd_def js_move_def cnt_def)

lemma js_simps [simp]:
  "js_job (js_log evs s) = js_job s" "js_job (js_upd f s) = f (js_job s)" "js_job (js_move p s) = js_job s"
  "js_place (js_log evs s) = js_place s" "js_place (js_upd f s) = js_place s" "js_place (js_move p s) = p"
  by (simp_all add: js_log_def js_upd_def js_move_def)

lemma cnt_simps [simp]: "cnt P [] = 0" "cnt P (x # xs) = of_bool (P x) + cnt P xs"
  by (simp_all add: cnt_def)

definition job_inv :: "job_sys \<Rightarrow> bool" where
  [wf_defs]: "job_inv s \<longleftrightarrow>
     ev_count is_destroy s = of_bool (js_place s = Destroyed) \<and>
     ev_count is_finish s + ev_count is_panic s = of_bool (js_place s = Destroyed) \<and>
     ev_count is_call s \<le> 1 \<and>
     (let job = js_job s in case js_place s of
        Owned \<Rightarrow> ev_count is_call s = 0 \<and> tj_task job = NULL \<and> tj_panicmsg job = NULL
      | InQueue \<Rightarrow> (ev_count is_call s = 0 \<and> tj_task job = NULL \<or> tj_async job \<and> tj_task job \<noteq> NULL) \<and> tj_panicmsg job = NULL
      | Running t \<Rightarrow> tj_task job = NULL \<and> tj_panicmsg job = NULL
      | DoneMsg \<Rightarrow> tj_panicmsg job = NULL \<or> tj_task job = NULL
      | TaskPending \<Rightarrow> tj_task job \<noteq> NULL \<and> tj_panicmsg job = NULL
      | Lost \<Rightarrow> tj_async job
      | Destroyed \<Rightarrow> True)"

lemma job_inv_step: "job_step s s' \<Longrightarrow> job_inv s \<Longrightarrow> job_inv s'"
proof (induction rule: job_step.induct)
  case (enqueue s threadNo timerOk room s' rc)
  then show ?case
    by (auto simp: job_inv_def PSC_ThreadPool_enqueue_def job_enqueue_def Let_def split: if_splits)
next
  case (take s t)
  then show ?case by (auto simp: job_inv_def worker_take_def Let_def)
next
  case (return s t)
  then show ?case by (simp add: job_inv_def proc_returns_def Let_def)
next
  case (await s t task)
  then show ?case by (simp add: job_inv_def PSC_AsyncTask_await_def Let_def)
next
  case (panic s t msg)
  then show ?case by (simp add: job_inv_def proc_panics_def Let_def)
next
  case (job_done s)
  then show ?case by (auto simp: job_inv_def threadJobDone_def Let_def)
next
  case (complete s room)
  then show ?case by (auto simp: job_inv_def PSC_AsyncTask_complete_def job_enqueue_def Let_def)
next
  case (cancel s)
  then show ?case by (cases "js_place s") (simp_all add: job_inv_def PSC_ThreadPool_cancel_def Let_def)
qed

lemma job_inv_reach: "job_reach s s' \<Longrightarrow> job_inv s \<Longrightarrow> job_inv s'"
  unfolding job_reach_def by (induction rule: rtranclp_induct) (auto intro: job_inv_step)

lemma job_inv_create: "PSC_ThreadJob_create threadNo ms = Some s \<Longrightarrow> job_inv s"
  by (auto simp: PSC_ThreadJob_create_def job_inv_def ev_count_def split: if_splits)

lemma job_inv_setAsync: "job_inv s \<Longrightarrow> js_place s = Owned \<Longrightarrow> job_inv (PSC_ThreadJob_setAsync s)"
  by (simp add: PSC_ThreadJob_setAsync_def job_inv_def Let_def)

lemma job_reach_step: "job_step s s' \<Longrightarrow> job_reach s' s'' \<Longrightarrow> job_reach s s''"
  by (simp add: job_reach_def converse_rtranclp_into_rtranclp)

lemma job_reach_refl [simp, intro]: "job_reach s s"
  by (simp add: job_reach_def)



text \<open>From any place but the queue's end and the creator's hands a job can still be finished.\<close>

lemma job_step_done:
  assumes "js_place s = DoneMsg" "tj_task (js_job s) = NULL \<or> tj_panicmsg (js_job s) \<noteq> NULL"
  shows "\<exists>s'. job_reach s s' \<and> js_place s' = Destroyed"
  using assms job_reach_step [OF job_done [OF assms(1)] job_reach_refl]
  by (intro exI [of _ "threadJobDone s"]) (auto simp: threadJobDone_def Let_def)

lemma job_running_finishes:
  assumes "js_place s = Running t" "tj_task (js_job s) = NULL"
  shows "\<exists>s'. job_reach s s' \<and> js_place s' = Destroyed"
proof -
  have "\<exists>s'. job_reach (proc_returns s) s' \<and> js_place s' = Destroyed"
    using assms(2) by (intro job_step_done) (simp_all add: proc_returns_def)
  then show ?thesis using job_reach_step [OF return [OF assms(1)]] by blast
qed

lemma job_queue_finishes:
  assumes "js_place s = InQueue" "tj_hasCompleted (js_job s) \<or> tj_task (js_job s) = NULL"
    "tj_task (js_job s) \<noteq> NULL \<longrightarrow> tj_async (js_job s)"
  shows "\<exists>s'. job_reach s s' \<and> js_place s' = Destroyed"
proof -
  have "\<exists>s'. job_reach (worker_take 0 s) s' \<and> js_place s' = Destroyed"
  proof (cases "tj_hasCompleted (js_job s)")
    case True
    then show ?thesis using assms(3) by (intro job_running_finishes [of _ 0]) (auto simp: worker_take_def Let_def)
  next
    case False
    then show ?thesis using assms(2) by (intro job_step_done) (auto simp: worker_take_def Let_def)
  qed
  then show ?thesis using job_reach_step [OF take [OF assms(1)]] by blast
qed

lemma job_pending_finishes:
  assumes "js_place s = TaskPending" "tj_hasCompleted (js_job s) \<or> \<not> tj_async (js_job s)"
  shows "\<exists>s'. job_reach s s' \<and> js_place s' = Destroyed"
proof -
  have "\<exists>s'. job_reach (PSC_AsyncTask_complete True s) s' \<and> js_place s' = Destroyed"
  proof (cases "tj_async (js_job s)")
    case True
    then show ?thesis
      using assms(2) by (intro job_queue_finishes) (auto simp: PSC_AsyncTask_complete_def job_enqueue_def)
  next
    case False
    then show ?thesis
      by (intro job_running_finishes [of _ "nat (tj_pthrno (js_job s))"]) (auto simp: PSC_AsyncTask_complete_def Let_def)
  qed
  then show ?thesis using job_reach_step [OF complete [OF assms(1)]] by blast
qed

text \<open>
  Jobs can always be finished.  From every state in which the pool has a job, unless the job
  was lost or is a cancelled asynchronous one, there are steps that report its end and destroy
  it: nothing waits for something that cannot happen.
\<close>

theorem job_can_finish:
  assumes "PSC_ThreadJob_create threadNo ms = Some s0"
    and "s1 = s0 \<or> s1 = PSC_ThreadJob_setAsync s0" "job_reach s1 s"
    and "js_place s \<notin> {Owned, Lost}" "tj_hasCompleted (js_job s) \<or> \<not> tj_async (js_job s)"
  shows "\<exists>s'. job_reach s s' \<and> js_place s' = Destroyed"
proof -
  have "js_place s0 = Owned" using assms(1) by (auto simp: PSC_ThreadJob_create_def split: if_splits)
  then have "job_inv s1" using job_inv_create [OF assms(1)] job_inv_setAsync assms(2) by auto
  then have inv: "job_inv s" using job_inv_reach assms(3) by blast
  show ?thesis
  proof (cases "js_place s")
    case InQueue
    then show ?thesis using inv assms(5) by (intro job_queue_finishes) (auto simp: job_inv_def Let_def)
  next
    case (Running t)
    then show ?thesis using inv by (intro job_running_finishes) (auto simp: job_inv_def Let_def)
  next
    case DoneMsg
    show ?thesis
    proof (cases "tj_task (js_job s) = NULL")
      case False
      then have "tj_panicmsg (js_job s) = NULL" using inv DoneMsg by (auto simp: job_inv_def Let_def)
      then have "\<exists>s'. job_reach (threadJobDone s) s' \<and> js_place s' = Destroyed"
        using False assms(5) by (intro job_pending_finishes) (auto simp: threadJobDone_def Let_def)
      then show ?thesis using job_reach_step [OF job_done [OF DoneMsg]] by blast
    qed (use DoneMsg job_step_done in blast)
  next
    case TaskPending
    then show ?thesis using assms(5) by (intro job_pending_finishes) auto
  next
    case Destroyed
    then show ?thesis by blast
  qed (use assms(4) in auto)
qed

section \<open>Cancelled and lost jobs\<close>

definition cancelled_task :: "job_sys \<Rightarrow> bool" where
  "cancelled_task s \<longleftrightarrow> tj_async (js_job s) \<and> \<not> tj_hasCompleted (js_job s) \<and> tj_task (js_job s) \<noteq> NULL \<and>
     tj_panicmsg (js_job s) = NULL \<and> js_place s \<in> {InQueue, DoneMsg, TaskPending, Lost}"

lemma cancelled_task_step:
  "job_step s s' \<Longrightarrow> cancelled_task s \<Longrightarrow> cancelled_task s' \<and> ev_count is_finish s' = ev_count is_finish s"
  by (induction rule: job_step.induct)
    (auto simp: cancelled_task_def worker_take_def threadJobDone_def PSC_AsyncTask_complete_def job_enqueue_def
      PSC_ThreadPool_cancel_def Let_def)

lemma cancelled_task_reach:
  "job_reach s s' \<Longrightarrow> cancelled_task s \<Longrightarrow> cancelled_task s' \<and> ev_count is_finish s' = ev_count is_finish s"
  unfolding job_reach_def
proof (induction rule: rtranclp_induct)
  case (step y z)
  then show ?case using cancelled_task_step [of y z] by simp
qed simp

lemma cancelled_task_again:
  assumes "cancelled_task s" "js_place s = TaskPending"
  shows "\<exists>s'. job_reach s s' \<and> cancelled_task s' \<and> js_place s' = TaskPending \<and> ev_count is_task s' = Suc (ev_count is_task s)"
proof -
  let ?a = "PSC_AsyncTask_complete True s"
  let ?b = "worker_take 0 ?a"
  have a: "js_place ?a = InQueue" "js_job ?a = js_job s" "ev_count is_task ?a = ev_count is_task s"
    using assms by (auto simp: cancelled_task_def PSC_AsyncTask_complete_def job_enqueue_def)
  have b: "js_place ?b = DoneMsg" "js_job ?b = js_job s" "ev_count is_task ?b = ev_count is_task s"
    using assms a by (auto simp: cancelled_task_def worker_take_def Let_def)
  have "job_reach s (threadJobDone ?b)"
    by (rule job_reach_step [OF complete [OF assms(2)] job_reach_step [OF take [OF a(1)] job_reach_step [OF job_done [OF b(1)] job_reach_refl]]])
  moreover from this have "cancelled_task (threadJobDone ?b)" using cancelled_task_reach assms(1) by blast
  moreover have "js_place (threadJobDone ?b) = TaskPending" "ev_count is_task (threadJobDone ?b) = Suc (ev_count is_task s)"
    using assms(1) b by (auto simp: threadJobDone_def cancelled_task_def Let_def)
  ultimately show ?thesis by blast
qed

text \<open>
  Cancelled asynchronous jobs never finish.  When an asynchronous job is cancelled while it
  awaits a task, the pool does not resume it, but neither does it report the end of the
  job: the job is never finished or destroyed, and its task can be called any number of times.
\<close>

theorem job_cancelled_never_finishes:
  assumes "cancelled_task s" "js_place s = TaskPending"
  shows "(\<forall>s'. job_reach s s' \<longrightarrow> js_place s' \<noteq> Destroyed \<and> ev_count is_finish s' = ev_count is_finish s) \<and>
    (\<exists>s'. job_reach s s' \<and> js_place s' = TaskPending \<and> ev_count is_task s' = ev_count is_task s + n)"
proof (intro conjI allI impI)
  show "js_place s' \<noteq> Destroyed" "ev_count is_finish s' = ev_count is_finish s" if "job_reach s s'" for s'
    using cancelled_task_reach [OF that assms(1)] by (auto simp: cancelled_task_def)
  have "\<exists>s'. job_reach s s' \<and> cancelled_task s' \<and> js_place s' = TaskPending \<and> ev_count is_task s' = ev_count is_task s + n"
  proof (induction n)
    case 0
    then show ?case using assms by auto
  next
    case (Suc n)
    then obtain s' where s': "job_reach s s'" "cancelled_task s'" "js_place s' = TaskPending" "ev_count is_task s' = ev_count is_task s + n"
      by blast
    then obtain s'' where "job_reach s' s''" "cancelled_task s''" "js_place s'' = TaskPending" "ev_count is_task s'' = Suc (ev_count is_task s')"
      using cancelled_task_again by blast
    with s' show ?case unfolding job_reach_def by (intro exI [of _ s'']) (auto intro: rtranclp_trans)
  qed
  then show "\<exists>s'. job_reach s s' \<and> js_place s' = TaskPending \<and> ev_count is_task s' = ev_count is_task s + n" by blast
qed

text \<open>A run that ends with a job that awaits task 5.\<close>

definition awaiting :: job_sys where
  "awaiting = threadJobDone (PSC_AsyncTask_await 5 (worker_take 0 (fst (PSC_ThreadPool_enqueue (-1) True True
     (PSC_ThreadJob_setAsync (the (PSC_ThreadJob_create (-1) 0)))))))"

lemma awaiting_reach: "job_reach (PSC_ThreadJob_setAsync (the (PSC_ThreadJob_create (-1) 0))) awaiting"
proof -
  let ?s1 = "PSC_ThreadJob_setAsync (the (PSC_ThreadJob_create (-1) 0))"
  let ?s2 = "fst (PSC_ThreadPool_enqueue (-1) True True ?s1)"
  let ?s3 = "worker_take 0 ?s2"
  let ?s4 = "PSC_AsyncTask_await 5 ?s3"
  have p: "js_place ?s1 = Owned" "js_place ?s2 = InQueue" "js_place ?s3 = Running 0" "js_place ?s4 = DoneMsg"
    by code_simp+
  have "job_step ?s1 ?s2" by (rule enqueue [OF p(1), of "-1" True True _ "snd (PSC_ThreadPool_enqueue (-1) True True ?s1)"]) simp
  moreover have "job_step ?s3 ?s4" by (rule await [OF p(3)]) simp
  ultimately show ?thesis
    unfolding awaiting_def by (rule job_reach_step [OF _ job_reach_step [OF take [OF p(2)] job_reach_step [OF _ job_reach_step [OF job_done [OF p(4)] job_reach_refl]]]])
qed

theorem job_cancelled_never_finishes_witness:
  "(\<nexists>s'. job_reach (PSC_ThreadPool_cancel awaiting) s' \<and> js_place s' = Destroyed) \<and>
   (\<exists>s'. job_reach (PSC_ThreadPool_cancel awaiting) s' \<and> js_place s' = TaskPending \<and> ev_count is_task s' = 1 + 10)"
proof -
  have "cancelled_task (PSC_ThreadPool_cancel awaiting)" "js_place (PSC_ThreadPool_cancel awaiting) = TaskPending"
    "ev_count is_task (PSC_ThreadPool_cancel awaiting) = 1" by code_simp+
  with job_cancelled_never_finishes [of "PSC_ThreadPool_cancel awaiting" 10] show ?thesis by auto
qed


theorem job_can_finish_witness:
  "\<exists>s'. job_reach awaiting s' \<and> js_place s' = Destroyed"
proof -
  have c: "PSC_ThreadJob_create (-1) 0 = Some (the (PSC_ThreadJob_create (-1) 0))" by code_simp
  have "js_place awaiting = TaskPending" "tj_hasCompleted (js_job awaiting)" by code_simp+
  then show ?thesis using job_can_finish [OF c _ awaiting_reach] by simp
qed

text \<open>
  A completed task is lost when the queue is full.  The result of putting the job back into
  the queue is ignored, so with a full queue the job is in no place from which it could be
  resumed or finished.
\<close>

theorem job_lost_when_full:
  "job_reach (PSC_ThreadJob_setAsync (the (PSC_ThreadJob_create (-1) 0))) (PSC_AsyncTask_complete False awaiting) \<and>
   (\<nexists>s'. job_step (PSC_AsyncTask_complete False awaiting) s' \<and> js_place s' \<noteq> Lost)"
proof -
  have p: "js_place awaiting = TaskPending" "js_place (PSC_AsyncTask_complete False awaiting) = Lost" by code_simp+
  have "job_reach (PSC_ThreadJob_setAsync (the (PSC_ThreadJob_create (-1) 0))) (PSC_AsyncTask_complete False awaiting)"
    using awaiting_reach complete [OF p(1), of False] unfolding job_reach_def by (rule rtranclp.rtrancl_into_rtrancl)
  moreover have "js_place s' = Lost" if "job_step (PSC_AsyncTask_complete False awaiting) s'" for s'
    using that p(2) by (auto elim!: job_stepE simp: PSC_ThreadPool_cancel_def Let_def)
  ultimately show ?thesis by blast
qed

end
