(* ===== verification/Poser_Connection.thy ===== *)
theory Poser_Connection
  imports Poser_IpAddr
begin

text \<open>
  \<open>PSC_Connection\<close> (\<open>src/lib/core/connection.c\<close>) in the build without TLS: the data of a
  connection and all operations on it.

  A connection talks to four parties: the kernel (results of \<open>read\<close>, \<open>write\<close> and
  \<open>getsockopt\<close>, which are arguments of the operations), the service (registrations of its
  file descriptor and of its handlers), the owner of the connection, whose event handlers are
  a parameter, and the peer.  The field \<open>c_trace\<close> is the history of what happened at these
  interfaces; the code does not have it, and no operation looks at it.

  A handler is a function that gives, for the state and the raised event, the list of calls
  the handler makes on this connection.  Handlers of the closed event make no calls.
  \<open>PSC_Connection_confirmDataReceived\<close> is not called from inside a handler.

  The arrays of write records and of notifications are the lists of their used entries, and
  the write buffer is the list of the \<open>wrbuflen\<close> bytes in it.  A connection for reading from a
  pipe uses the memory of the write buffer as its read buffer, and never writes; the model
  has one read buffer for all types.  The size \<open>WRBUFSZ\<close> of the write buffer is a setting of
  the build.
\<close>

section \<open>Data\<close>

definition NWRITERECS :: nat where "NWRITERECS = 16"

datatype ConnectionType = CT_SOCKET | CT_PIPERD | CT_PIPEWR

datatype ConnectionCreateMode = CCM_NORMAL | CCM_CONNECTING | CCM_PIPERD | CCM_PIPEWR

record WriteRecord =
  rec_wrbuf :: bytes
  rec_id :: ptr
  rec_wrbuflen :: nat
  rec_wrbufpos :: nat

record WriteNotifyRecord =
  not_id :: ptr
  not_wrbufpos :: nat

text \<open>
  \<open>PSC_MessageEndLocator\<close>: the offset of the end of the first message in a C string, given
  without its terminator.
\<close>

type_synonym locator = "bytes \<Rightarrow> nat option"

text \<open>
  The history: data accepted for sending and data written, received and delivered, the events
  raised, and the calls of the service and the kernel.  \<open>Dropped\<close> marks that pending output
  was thrown away after an error, \<open>Skipped\<close> the zero bytes skipped in front of a text.
\<close>

datatype conn_event =
    Accepted bytes ptr | Wrote bytes | Dropped | DataSent ptr
  | Got bytes | Skipped nat | DataReceived bytes | TextReceived bytes
  | ConnectedEv | ClosedEv bool | Blacklisted
  | RegRead | UnregRead | RegWrite | UnregWrite | FdClosed
  | DataDeleted deleter ptr | Freed

record PSC_Connection =
  c_rdlocator :: "locator option"
  c_connectTimer :: bool
  c_ipAddr :: "PSC_IpAddr option"
  c_addr :: "string option"
  c_name :: "string option"
  c_data :: ptr
  c_deleter :: deleter
  c_rdbufsz :: nat
  c_rdbufused :: nat
  c_rdbufpos :: nat
  c_rdexpect :: nat
  c_writerecs :: "WriteRecord list"
  c_writenotify :: "WriteNotifyRecord list"
  c_args_off :: nat
  c_args_size :: nat
  c_handling :: nat
  c_paused :: nat
  c_port :: "int option"
  c_rdreg :: bool
  c_wrreg :: bool
  c_blacklisthits :: int
  c_type :: ConnectionType
  c_wrbufpos :: nat
  c_deleteScheduled :: nat
  c_rdtextsave :: u8
  c_wrbuf :: bytes
  c_rdbuf :: bytes

text \<open>
  A connection together with its surroundings: the size of its write buffer, which of its
  handlers are registered at the service, whether its memory is still there, and the history.
\<close>

record conn = PSC_Connection +
  c_wrbufsz :: nat
  c_onRead :: bool
  c_onWrite :: bool
  c_onTry :: bool
  c_onDelete :: bool
  c_alive :: bool
  c_trace :: "conn_event list"

definition emit :: "conn_event list \<Rightarrow> conn \<Rightarrow> conn" where
  "emit evs c = c\<lparr>c_trace := c_trace c @ evs\<rparr>"

section \<open>Registrations\<close>

definition want_write :: "conn \<Rightarrow> bool" where
  "want_write self \<longleftrightarrow> c_connectTimer self \<or> c_paused self = 0 \<and> (c_wrbuf self \<noteq> [] \<or> c_writerecs self \<noteq> [])"

definition want_read :: "conn \<Rightarrow> bool" where
  "want_read self \<longleftrightarrow> c_deleteScheduled self = 0 \<and> c_paused self = 0 \<and> c_handling self = 0"

definition set_wrreg :: "bool \<Rightarrow> conn \<Rightarrow> conn" where
  "set_wrreg b self =
     (if b then (if \<not> c_wrreg self then emit [RegWrite] self else self)\<lparr>c_wrreg := True\<rparr>
      else (if c_wrreg self then emit [UnregWrite] self else self)\<lparr>c_wrreg := False\<rparr>)"

definition set_rdreg :: "bool \<Rightarrow> conn \<Rightarrow> conn" where
  "set_rdreg b self =
     (if b then (if \<not> c_rdreg self then emit [RegRead] self else self)\<lparr>c_rdreg := True\<rparr>
      else (if c_rdreg self then emit [UnregRead] self else self)\<lparr>c_rdreg := False\<rparr>)"

definition wantreadwrite :: "conn \<Rightarrow> conn" where
  "wantreadwrite self = (let self = set_wrreg (want_write self) self in set_rdreg (want_read self) self)"

section \<open>Calls of the owner\<close>

definition deleteLater :: "conn \<Rightarrow> conn" where
  "deleteLater self =
     (if c_deleteScheduled self = 0
      then (set_rdreg False self)\<lparr>c_onDelete := True, c_deleteScheduled := 1\<rparr>
      else self)"

definition PSC_Connection_close :: "conn \<Rightarrow> bool \<Rightarrow> conn" where
  "PSC_Connection_close self blacklist =
     (if c_deleteScheduled self \<noteq> 0 then self
      else (let self = (if blacklist \<and> c_blacklisthits self \<noteq> 0 \<and> \<not> Option.is_none (c_ipAddr self) then emit [Blacklisted] self else self)
            in deleteLater (emit [ClosedEv (\<not> c_connectTimer self)] self)))"

definition PSC_Connection_sendAsync :: "conn \<Rightarrow> bytes \<Rightarrow> ptr \<Rightarrow> conn \<times> int" where
  "PSC_Connection_sendAsync self buf ident =
     (if c_type self = CT_PIPERD \<or> c_deleteScheduled self \<noteq> 0 \<or> c_connectTimer self \<or> length (c_writerecs self) = NWRITERECS
      then (self, -1)
      else (emit [Accepted buf ident]
              (self\<lparr>c_writerecs := c_writerecs self @
                 [\<lparr>rec_wrbuf = buf, rec_id = ident, rec_wrbuflen = length buf, rec_wrbufpos = 0\<rparr>]\<rparr>), 0))"

definition PSC_Connection_sendTextAsync :: "conn \<Rightarrow> bytes \<Rightarrow> ptr \<Rightarrow> conn \<times> int" where
  "PSC_Connection_sendTextAsync self txt' ident = PSC_Connection_sendAsync self (takeWhile (\<lambda>b. b \<noteq> 0) txt') ident"

definition PSC_Connection_pause :: "conn \<Rightarrow> conn" where
  "PSC_Connection_pause self =
     (if c_paused self \<noteq> 0 then self\<lparr>c_paused := c_paused self + 1\<rparr>
      else (let self = wantreadwrite (self\<lparr>c_paused := 1\<rparr>)
            in self\<lparr>c_onRead := False, c_onTry := (if c_type self \<noteq> CT_PIPERD then False else c_onTry self)\<rparr>))"

definition PSC_Connection_resume :: "conn \<Rightarrow> conn \<times> int" where
  "PSC_Connection_resume self =
     (if c_paused self = 0 then (self, -1)
      else if c_paused self - 1 \<noteq> 0 then (self\<lparr>c_paused := c_paused self - 1\<rparr>, 0)
      else (wantreadwrite (self\<lparr>c_paused := 0, c_onRead := True,
              c_onTry := (if c_type self \<noteq> CT_PIPERD then True else c_onTry self)\<rparr>), 1))"

definition PSC_Connection_receiveBinary :: "conn \<Rightarrow> nat \<Rightarrow> conn \<times> int" where
  "PSC_Connection_receiveBinary self expected =
     (if c_rdbufsz self < expected then (self, -1)
      else (self\<lparr>c_rdlocator := None, c_rdexpect := expected\<rparr>, 0))"

definition PSC_Connection_receiveText :: "conn \<Rightarrow> locator \<Rightarrow> conn" where
  "PSC_Connection_receiveText self loc = self\<lparr>c_rdlocator := Some loc\<rparr>"

text \<open>\<open>strstr (str, "\r\n")\<close> and \<open>strchr\<close>, as offsets.\<close>

fun find_crlf :: "bytes \<Rightarrow> nat option" where
  "find_crlf (a # b # s) = (if a = 13 \<and> b = 10 then Some 0 else map_option Suc (find_crlf (b # s)))"
| "find_crlf s = None"

definition find_byte :: "u8 \<Rightarrow> bytes \<Rightarrow> nat option" where
  "find_byte b s = (let n = length (takeWhile (\<lambda>x. x \<noteq> b) s) in if n < length s then Some n else None)"

definition locateeol :: locator where
  "locateeol str =
     (case find_crlf str of
        Some n \<Rightarrow> Some (n + 2)
      | None \<Rightarrow> (case find_byte 10 str of
            Some n \<Rightarrow> Some (n + 1)
          | None \<Rightarrow> (case find_byte 13 str of Some n \<Rightarrow> Some (n + 1) | None \<Rightarrow> None)))"

definition PSC_Connection_receiveLine :: "conn \<Rightarrow> conn" where
  "PSC_Connection_receiveLine self = PSC_Connection_receiveText self locateeol"

definition PSC_EADataReceived_markHandling :: "conn \<Rightarrow> conn" where
  "PSC_EADataReceived_markHandling self = self\<lparr>c_handling := c_handling self + 1\<rparr>"

definition PSC_Connection_setData :: "conn \<Rightarrow> ptr \<Rightarrow> deleter \<Rightarrow> conn" where
  "PSC_Connection_setData self data del =
     (if c_deleter self \<noteq> NoFn then emit [DataDeleted (c_deleter self) (c_data self)] self else self)
       \<lparr>c_data := data, c_deleter := del\<rparr>"

definition PSC_Connection_setRemoteAddr :: "conn \<Rightarrow> PSC_IpAddr option \<Rightarrow> conn" where
  "PSC_Connection_setRemoteAddr self addr =
     self\<lparr>c_ipAddr := addr, c_addr := None, c_name := None, c_port := (case addr of None \<Rightarrow> Some 0 | Some a \<Rightarrow> ip_port a)\<rparr>"

definition PSC_Connection_setRemoteAddrStr :: "conn \<Rightarrow> string \<Rightarrow> conn" where
  "PSC_Connection_setRemoteAddrStr self addr =
     self\<lparr>c_ipAddr := None, c_addr := Some addr, c_name := None, c_port := Some 0\<rparr>"

definition PSC_Connection_remoteAddr :: "conn \<Rightarrow> string" where
  "PSC_Connection_remoteAddr self =
     (if c_type self = CT_PIPERD \<or> c_type self = CT_PIPEWR then ''pipe''
      else case c_ipAddr self of
          Some a \<Rightarrow> ip_str a
        | None \<Rightarrow> (case c_addr self of None \<Rightarrow> ''<unknown>'' | Some s \<Rightarrow> s))"

section \<open>Event handlers\<close>

text \<open>The calls an event handler of the owner can make on the connection.\<close>

datatype conn_act =
    Send bytes ptr | ReceiveBinary nat | ReceiveText locator | MarkHandling
  | Pause | Resume | Close bool | SetData ptr deleter

fun do_act :: "conn_act \<Rightarrow> conn \<Rightarrow> conn" where
  "do_act (Send buf ident) c = fst (PSC_Connection_sendAsync c buf ident)"
| "do_act (ReceiveBinary n) c = fst (PSC_Connection_receiveBinary c n)"
| "do_act (ReceiveText loc) c = PSC_Connection_receiveText c loc"
| "do_act MarkHandling c = PSC_EADataReceived_markHandling c"
| "do_act Pause c = PSC_Connection_pause c"
| "do_act Resume c = fst (PSC_Connection_resume c)"
| "do_act (Close blacklist) c = PSC_Connection_close c blacklist"
| "do_act (SetData data del) c = PSC_Connection_setData c data del"

type_synonym handlers = "conn \<Rightarrow> conn_event \<Rightarrow> conn_act list"

text \<open>\<open>PSC_Event_raise\<close> with the handlers of the owner.\<close>

definition raise_ev :: "handlers \<Rightarrow> conn_event \<Rightarrow> conn \<Rightarrow> conn" where
  "raise_ev h ev c = (let c = emit [ev] c in fold do_act (h c ev) c)"

section \<open>Writing\<close>

text \<open>Result of \<open>write\<close>: a number of bytes, \<open>EWOULDBLOCK\<close> or \<open>EAGAIN\<close>, another error.\<close>

datatype wr_result = WroteN nat | WriteAgain | WriteFailed

text \<open>Moving queued data to the write buffer; a notification per record that ends there.\<close>

fun fill :: "nat \<Rightarrow> bytes \<Rightarrow> WriteRecord list \<Rightarrow> WriteNotifyRecord list \<Rightarrow> bytes \<times> WriteRecord list \<times> WriteNotifyRecord list" where
  "fill sz wrbuf [] nots = (wrbuf, [], nots)"
| "fill sz wrbuf (rec # recs) nots =
     (if length wrbuf < sz
      then (let chunklen = rec_wrbuflen rec - rec_wrbufpos rec;
                chunklen = (if sz < chunklen + length wrbuf then sz - length wrbuf else chunklen);
                wrbuf = wrbuf @ take chunklen (drop (rec_wrbufpos rec) (rec_wrbuf rec));
                rec = rec\<lparr>rec_wrbufpos := rec_wrbufpos rec + chunklen\<rparr>
            in if rec_wrbufpos rec \<noteq> rec_wrbuflen rec then (wrbuf, rec # recs, nots)
               else fill sz wrbuf recs
                 (if rec_id rec \<noteq> NULL then nots @ [\<lparr>not_id = rec_id rec, not_wrbufpos = length wrbuf\<rparr>] else nots))
      else (wrbuf, rec # recs, nots))"

text \<open>The loop that raises \<open>dataSent\<close>; it leaves the identifiers in place.\<close>

fun notify_loop :: "handlers \<Rightarrow> WriteNotifyRecord list \<Rightarrow> conn \<Rightarrow> conn" where
  "notify_loop h [] self = self"
| "notify_loop h (n # ns) self =
     (if not_wrbufpos n \<le> c_wrbufpos self then notify_loop h ns (raise_ev h (DataSent (not_id n)) self) else self)"

definition drop_output :: "conn \<Rightarrow> conn" where
  "drop_output self = emit [Dropped] (self\<lparr>c_writerecs := [], c_wrbuf := []\<rparr>)"

definition fill_buffer :: "conn \<Rightarrow> conn" where
  "fill_buffer self =
     (if c_writerecs self \<noteq> [] \<and> c_wrbuf self = []
      then (case fill (c_wrbufsz self) [] (c_writerecs self) [] of (wrbuf, recs, nots) \<Rightarrow>
              self\<lparr>c_wrbuf := wrbuf, c_writerecs := recs, c_writenotify := nots\<rparr>)
      else self)"

definition dowrite :: "handlers \<Rightarrow> wr_result \<Rightarrow> conn \<Rightarrow> conn" where
  "dowrite h res self =
     (let self = fill_buffer self;
          nots = dropWhile (\<lambda>n. not_id n = NULL) (c_writenotify self)
      in case res of
           WroteN n \<Rightarrow>
             (let out = take n (drop (c_wrbufpos self) (c_wrbuf self));
                  self = emit [Wrote out] (self\<lparr>c_wrbufpos := c_wrbufpos self + length out\<rparr>);
                  self = notify_loop h nots self
              in if c_wrbufpos self < length (c_wrbuf self) then self
                 else wantreadwrite (self\<lparr>c_wrbuf := [], c_wrbufpos := 0, c_writenotify := []\<rparr>))
         | WriteAgain \<Rightarrow> wantreadwrite self
         | WriteFailed \<Rightarrow> wantreadwrite (PSC_Connection_close (drop_output self) False))"

text \<open>\<open>err\<close>: \<open>getsockopt\<close> fails or reports an error of the attempt to connect.\<close>

definition writeConnection :: "handlers \<Rightarrow> bool \<Rightarrow> wr_result \<Rightarrow> conn \<Rightarrow> conn" where
  "writeConnection h err res self =
     (if c_connectTimer self
      then (if err then PSC_Connection_close self True
            else raise_ev h ConnectedEv (wantreadwrite (self\<lparr>c_connectTimer := False\<rparr>)))
      else if c_writerecs self = [] \<and> c_wrbuf self = [] then wantreadwrite self
      else dowrite h res self)"

definition tryWrite :: "handlers \<Rightarrow> wr_result \<Rightarrow> conn \<Rightarrow> conn" where
  "tryWrite h res self =
     (if \<not> c_wrreg self \<and> (c_writerecs self \<noteq> [] \<or> c_wrbuf self \<noteq> []) then dowrite h res self else self)"

section \<open>Reading\<close>

text \<open>Result of \<open>read\<close>; no bytes are the end of the input.\<close>

datatype rd_result = ReadN bytes | ReadAgain | ReadFailed

definition restore_text :: "conn \<Rightarrow> conn option" where
  "restore_text self =
     (if c_rdtextsave self \<noteq> 0
      then (if c_rdbufpos self < length (c_rdbuf self)
            then Some (self\<lparr>c_rdbuf := (c_rdbuf self)[c_rdbufpos self := c_rdtextsave self], c_rdtextsave := 0\<rparr>) else None)
      else Some self)"

definition skip_nul :: "conn \<Rightarrow> conn" where
  "skip_nul self =
     (let n = length (takeWhile (\<lambda>b. b = 0) (take (c_rdbufused self - c_rdbufpos self) (drop (c_rdbufpos self) (c_rdbuf self))))
      in emit [Skipped n] (self\<lparr>c_rdbufpos := c_rdbufpos self + n\<rparr>))"

text \<open>The C string at an offset of the read buffer; \<^const>\<open>None\<close> when it has no end in it.\<close>

definition c_string :: "bytes \<Rightarrow> nat \<Rightarrow> bytes option" where
  "c_string buf off =
     (let s = takeWhile (\<lambda>b. b \<noteq> 0) (drop off buf) in if off + length s < length buf then Some s else None)"

datatype 'a outcome = Stop 'a | Deliver 'a

text \<open>
  The next message in text mode: \<open>Stop\<close> leaves the loop, \<open>Deliver (len, self)\<close> goes on to raise
  \<open>dataReceived\<close> for the \<open>len\<close> bytes, which are terminated in place.
\<close>

definition next_text :: "locator \<Rightarrow> conn \<Rightarrow> (nat \<times> conn) outcome option" where
  "next_text loc self =
     (let self = skip_nul self; pos = c_rdbufpos self
      in if pos = c_rdbufused self then Some (Stop (0, self\<lparr>c_rdbufused := 0, c_rdbufpos := 0\<rparr>))
         else do {
           str \<leftarrow> c_string (c_rdbuf self) pos;
           let len = (case loc str of
               Some e \<Rightarrow> Some (min e (c_rdbufused self - pos))
             | None \<Rightarrow> if pos \<noteq> 0 \<or> c_rdbufused self < c_rdbufsz self then None else Some (length str));
           case len of
             None \<Rightarrow> Some (Stop (0, self))
           | Some len \<Rightarrow>
               if pos + len < length (c_rdbuf self)
               then Some (Deliver (len, self\<lparr>c_rdtextsave := c_rdbuf self ! (pos + len),
                 c_rdbuf := (c_rdbuf self)[pos + len := 0], c_args_off := pos, c_args_size := 0\<rparr>))
               else None })"

definition next_binary :: "conn \<Rightarrow> (nat \<times> conn) outcome" where
  "next_binary self =
     (let avail = c_rdbufused self - c_rdbufpos self;
          len = (if c_rdexpect self \<noteq> 0 then c_rdexpect self else avail)
      in if avail < len then Stop (0, self)
         else Deliver (len, self\<lparr>c_args_off := c_rdbufpos self, c_args_size := len\<rparr>))"

definition next_message :: "conn \<Rightarrow> (nat \<times> conn) outcome option" where
  "next_message self =
     (case c_rdlocator self of Some loc \<Rightarrow> next_text loc self | None \<Rightarrow> Some (next_binary self))"

text \<open>What the handler of \<open>dataReceived\<close> sees.\<close>

definition message :: "conn \<Rightarrow> conn_event option" where
  "message self =
     (if Option.is_none (c_rdlocator self) then Some (DataReceived (take (c_args_size self) (drop (c_args_off self) (c_rdbuf self))))
      else map_option TextReceived (c_string (c_rdbuf self) (c_args_off self)))"

definition advance_read :: "nat \<Rightarrow> conn \<Rightarrow> conn" where
  "advance_read len self =
     (if c_rdbufpos self + len = c_rdbufused self then self\<lparr>c_rdbufused := 0, c_rdbufpos := 0\<rparr>
      else self\<lparr>c_rdbufpos := c_rdbufpos self + len\<rparr>)"

text \<open>The loop over the received messages; \<^const>\<open>None\<close> also when the fuel is used up.\<close>

fun receive_loop :: "handlers \<Rightarrow> nat \<Rightarrow> conn \<Rightarrow> conn option" where
  "receive_loop h 0 self = None"
| "receive_loop h (Suc fuel) self =
     (if c_handling self \<noteq> 0 \<or> c_rdbufused self = 0 then Some self
      else do {
        self \<leftarrow> restore_text self;
        next \<leftarrow> next_message self;
        case next of
          Stop (_, self) \<Rightarrow> Some self
        | Deliver (len, self) \<Rightarrow> do {
            ev \<leftarrow> message self;
            receive_loop h fuel (advance_read len (raise_ev h ev self)) } })"

definition compact :: "conn \<Rightarrow> conn option" where
  "compact self =
     (let rest = c_rdbufused self - c_rdbufpos self
      in if c_rdbufused self \<noteq> 0 \<and> (\<not> Option.is_none (c_rdlocator self) \<or> rest < c_rdexpect self)
         then (if c_rdbufpos self + rest \<le> length (c_rdbuf self) \<and> rest < length (c_rdbuf self)
               then Some (self\<lparr>c_rdbuf := (take rest (drop (c_rdbufpos self) (c_rdbuf self)) @ drop rest (c_rdbuf self))[rest := 0],
                               c_rdbufused := rest, c_rdbufpos := 0\<rparr>)
               else None)
         else Some self)"

text \<open>The fuel: every message has at least one byte.\<close>

definition raisereceivedevents :: "handlers \<Rightarrow> conn \<Rightarrow> conn option" where
  "raisereceivedevents h self = do {
     self \<leftarrow> receive_loop h (c_rdbufused self - c_rdbufpos self + 1) self;
     compact self }"

definition close_broken :: "conn \<Rightarrow> conn" where
  "close_broken self = PSC_Connection_close (drop_output self) False"

definition doread :: "handlers \<Rightarrow> rd_result \<Rightarrow> conn \<Rightarrow> conn option" where
  "doread h res self =
     (if c_type self = CT_PIPEWR then Some (close_broken self)
      else case res of
          ReadN bs \<Rightarrow>
            (let bs = take (c_rdbufsz self - c_rdbufused self) bs; used = c_rdbufused self + length bs
             in if bs = [] then Some (close_broken self)
                else if used < length (c_rdbuf self)
                then map_option wantreadwrite (raisereceivedevents h
                  (emit [Got bs] (self\<lparr>c_rdbufused := used,
                     c_rdbuf := (take (c_rdbufused self) (c_rdbuf self) @ bs @ drop used (c_rdbuf self))[used := 0]\<rparr>)))
                else None)
        | ReadAgain \<Rightarrow> Some self
        | ReadFailed \<Rightarrow> Some (close_broken self))"

definition readConnection :: "handlers \<Rightarrow> rd_result \<Rightarrow> conn \<Rightarrow> conn option" where
  "readConnection h res self = (if c_handling self \<noteq> 0 then Some (wantreadwrite self) else doread h res self)"

definition PSC_Connection_confirmDataReceived :: "handlers \<Rightarrow> conn \<Rightarrow> (conn \<times> int) option" where
  "PSC_Connection_confirmDataReceived h self =
     (if c_handling self = 0 then Some (self, -1)
      else (let self = self\<lparr>c_handling := c_handling self - 1\<rparr>
            in if c_handling self \<noteq> 0 then Some (self, 0)
               else map_option (\<lambda>self. (wantreadwrite self, 1)) (raisereceivedevents h self)))"

section \<open>Creation and deletion\<close>

definition connectionTimeout :: "conn \<Rightarrow> conn" where
  "connectionTimeout self = PSC_Connection_close self True"

definition notify_pending :: "handlers \<Rightarrow> conn \<Rightarrow> conn" where
  "notify_pending h self =
     (let self = fold (\<lambda>n c. if not_id n \<noteq> NULL then raise_ev h (DataSent (not_id n)) c else c) (c_writenotify self) self
      in fold (\<lambda>recno c. if recno < length (c_writerecs c) \<and> rec_id (c_writerecs c ! recno) \<noteq> NULL
                         then raise_ev h (DataSent (rec_id (c_writerecs c ! recno))) c else c) [0..<NWRITERECS] self)"

definition release :: "conn \<Rightarrow> conn" where
  "release self =
     emit ((if c_deleter self \<noteq> NoFn then [DataDeleted (c_deleter self) (c_data self)] else []) @ [Freed])
       (self\<lparr>c_onTry := False, c_onRead := False, c_onWrite := False, c_alive := False\<rparr>)"

definition PSC_Connection_destroy :: "handlers \<Rightarrow> conn \<Rightarrow> conn" where
  "PSC_Connection_destroy h self =
     (let self = notify_pending h self
      in if c_deleteScheduled self = 1 then self
         else if c_deleteScheduled self \<noteq> 0
         then release ((emit [FdClosed] (set_wrreg False self))\<lparr>c_onDelete := False\<rparr>)
         else release (emit [FdClosed] (set_wrreg False (set_rdreg False (emit [ClosedEv (\<not> c_connectTimer self)] self)))))"

definition deleteConnection :: "handlers \<Rightarrow> conn \<Rightarrow> conn" where
  "deleteConnection h self =
     (if c_wrbuf self \<noteq> [] \<or> c_writerecs self \<noteq> [] then self
      else PSC_Connection_destroy h (self\<lparr>c_deleteScheduled := 2\<rparr>))"

definition conn_type :: "ConnectionCreateMode \<Rightarrow> ConnectionType" where
  "conn_type mode = (case mode of CCM_PIPERD \<Rightarrow> CT_PIPERD | CCM_PIPEWR \<Rightarrow> CT_PIPEWR | _ \<Rightarrow> CT_SOCKET)"

text \<open>
  \<open>mem\<close> is the content of the memory for the read buffer.  Without a timer for the timeout of
  the attempt to connect, the connection is closed and the caller gets a null pointer.
\<close>

definition new_conn :: "nat \<Rightarrow> nat \<Rightarrow> bytes \<Rightarrow> ConnectionCreateMode \<Rightarrow> int \<Rightarrow> conn" where
  "new_conn wrbufsz rdbufsz mem mode blacklisthits =
     \<lparr>c_rdlocator = None, c_connectTimer = False, c_ipAddr = None, c_addr = None, c_name = None, c_data = NULL, c_deleter = NoFn,
      c_rdbufsz = rdbufsz, c_rdbufused = 0, c_rdbufpos = 0, c_rdexpect = 0, c_writerecs = [], c_writenotify = [],
      c_args_off = 0, c_args_size = 0, c_handling = 0, c_paused = 0, c_port = Some 0, c_rdreg = False, c_wrreg = False,
      c_blacklisthits = blacklisthits, c_type = conn_type mode, c_wrbufpos = 0, c_deleteScheduled = 0, c_rdtextsave = 0,
      c_wrbuf = [], c_rdbuf = mem[rdbufsz := 0],
      c_wrbufsz = wrbufsz, c_onRead = True, c_onWrite = (conn_type mode \<noteq> CT_PIPERD), c_onTry = (conn_type mode \<noteq> CT_PIPERD),
      c_onDelete = False, c_alive = True, c_trace = []\<rparr>"

definition PSC_Connection_create :: "nat \<Rightarrow> nat \<Rightarrow> bytes \<Rightarrow> ConnectionCreateMode \<Rightarrow> int \<Rightarrow> bool \<Rightarrow> conn \<times> bool" where
  "PSC_Connection_create wrbufsz rdbufsz mem mode blacklisthits timerOk =
     (let self = new_conn wrbufsz rdbufsz mem mode blacklisthits
      in if mode = CCM_CONNECTING
         then (if timerOk then (emit [RegWrite] (self\<lparr>c_connectTimer := True, c_wrreg := True\<rparr>), True)
               else (PSC_Connection_close self False, False))
         else (emit [RegRead] (self\<lparr>c_rdreg := True\<rparr>), True))"

section \<open>Steps\<close>

text \<open>A locator finds an end behind the first byte and inside of the string.\<close>

definition locator_ok :: "locator \<Rightarrow> bool" where
  "locator_ok loc \<longleftrightarrow> (\<forall>s n. loc s = Some n \<longrightarrow> 0 < n \<and> n \<le> length s)"

fun act_ok :: "conn_act \<Rightarrow> bool" where
  "act_ok (ReceiveText loc) = locator_ok loc"
| "act_ok _ = True"

definition handlers_ok :: "handlers \<Rightarrow> bool" where
  "handlers_ok h \<longleftrightarrow> (\<forall>c ev. list_all act_ok (h c ev))"

text \<open>
  What can happen to a connection: the service calls its handlers when they are registered
  and their condition holds, the timer expires, the owner makes a call.
\<close>

inductive conn_step :: "handlers \<Rightarrow> conn \<Rightarrow> conn \<Rightarrow> bool" for h where
  ready_read: "c_alive c \<Longrightarrow> c_rdreg c \<Longrightarrow> c_onRead c \<Longrightarrow> readConnection h rres c = Some c' \<Longrightarrow> conn_step h c c'"
| ready_write: "c_alive c \<Longrightarrow> c_wrreg c \<Longrightarrow> c_onWrite c \<Longrightarrow> conn_step h c (writeConnection h err wres c)"
| events_done: "c_alive c \<Longrightarrow> c_onTry c \<Longrightarrow> conn_step h c (tryWrite h wres c)"
| events_done_delete: "c_alive c \<Longrightarrow> c_onDelete c \<Longrightarrow> conn_step h c (deleteConnection h c)"
| timeout: "c_alive c \<Longrightarrow> c_connectTimer c \<Longrightarrow> conn_step h c (connectionTimeout c)"
| call: "c_alive c \<Longrightarrow> act_ok a \<Longrightarrow> conn_step h c (do_act a c)"
| confirm: "c_alive c \<Longrightarrow> PSC_Connection_confirmDataReceived h c = Some (c', rc) \<Longrightarrow> conn_step h c c'"

text \<open>
  The states of a connection after its creation.  Calls of \<open>PSC_Connection_destroy\<close> by the owner
  (a server that stops) are separate steps.
\<close>

inductive conn_reach :: "handlers \<Rightarrow> conn \<Rightarrow> conn \<Rightarrow> bool" for h c0 where
  start: "conn_reach h c0 c0"
| step: "conn_reach h c0 c \<Longrightarrow> conn_step h c c' \<Longrightarrow> conn_reach h c0 c'"

inductive conn_reach_destroy :: "handlers \<Rightarrow> conn \<Rightarrow> conn \<Rightarrow> bool" for h c0 where
  dstart: "conn_reach_destroy h c0 c0"
| dstep: "conn_reach_destroy h c0 c \<Longrightarrow> conn_step h c c' \<Longrightarrow> conn_reach_destroy h c0 c'"
| destroy: "conn_reach_destroy h c0 c \<Longrightarrow> c_alive c \<Longrightarrow> conn_reach_destroy h c0 (PSC_Connection_destroy h c)"

text \<open>A run given by the results of the kernel and the calls, for concrete examples.\<close>

datatype conn_input =
    InRead rd_result | InWrite bool wr_result | InDone wr_result | InDelete | InTimeout | InCall conn_act | InConfirm

definition conn_input :: "handlers \<Rightarrow> conn_input \<Rightarrow> conn \<Rightarrow> conn option" where
  "conn_input h i c =
     (if \<not> c_alive c then None
      else case i of
          InRead r \<Rightarrow> if c_rdreg c \<and> c_onRead c then readConnection h r c else None
        | InWrite err w \<Rightarrow> if c_wrreg c \<and> c_onWrite c then Some (writeConnection h err w c) else None
        | InDone w \<Rightarrow> if c_onTry c then Some (tryWrite h w c) else None
        | InDelete \<Rightarrow> if c_onDelete c then Some (deleteConnection h c) else None
        | InTimeout \<Rightarrow> if c_connectTimer c then Some (connectionTimeout c) else None
        | InCall a \<Rightarrow> Some (do_act a c)
        | InConfirm \<Rightarrow> map_option fst (PSC_Connection_confirmDataReceived h c))"

fun conn_run :: "handlers \<Rightarrow> conn_input list \<Rightarrow> conn \<Rightarrow> conn option" where
  "conn_run h [] c = Some c"
| "conn_run h (i # is) c = do { c' \<leftarrow> conn_input h i c; conn_run h is c' }"

fun input_ok :: "conn_input \<Rightarrow> bool" where
  "input_ok (InCall a) = act_ok a"
| "input_ok _ = True"

lemma conn_input_step: "conn_input h i c = Some c' \<Longrightarrow> input_ok i \<Longrightarrow> conn_step h c c'"
  by (cases i) (auto simp: conn_input_def split: if_splits intro: conn_step.intros)

lemma conn_run_reach: "conn_reach h c0 c \<Longrightarrow> conn_run h is c = Some c' \<Longrightarrow> list_all input_ok is \<Longrightarrow> conn_reach h c0 c'"
proof (induction "is" arbitrary: c)
  case (Cons i "is")
  then show ?case by (auto split: Option.bind_splits) (meson conn_input_step conn_reach.step)
qed simp

end
