(* ===== verification/Poser_ConnWrite.thy ===== *)
theory Poser_ConnWrite
  imports Poser_Connection "HOL-Library.Sublist"
begin

text \<open>
  Output of a connection: what is accepted for sending reaches the socket completely and in
  order, whatever the sizes of the buffers, the results of \<open>write\<close> and the event handlers are,
  and \<open>dataSent\<close> is not raised too early.
\<close>

section \<open>Reading the history\<close>

definition tr_accepted :: "conn_event list \<Rightarrow> (bytes \<times> ptr) list" where
  "tr_accepted tr = concat (map (\<lambda>e. case e of Accepted b i \<Rightarrow> [(b, i)] | _ \<Rightarrow> []) tr)"

definition tr_written :: "conn_event list \<Rightarrow> bytes" where
  "tr_written tr = concat (map (\<lambda>e. case e of Wrote b \<Rightarrow> b | _ \<Rightarrow> []) tr)"

definition tr_sent :: "conn_event list \<Rightarrow> ptr list" where
  "tr_sent tr = concat (map (\<lambda>e. case e of DataSent i \<Rightarrow> [i] | _ \<Rightarrow> []) tr)"

definition tr_dropped :: "conn_event list \<Rightarrow> bool" where
  "tr_dropped tr \<longleftrightarrow> list_ex (\<lambda>e. case e of Dropped \<Rightarrow> True | _ \<Rightarrow> False) tr"

lemma tr_append [simp]:
  "tr_accepted (tr @ tr') = tr_accepted tr @ tr_accepted tr'"
  "tr_written (tr @ tr') = tr_written tr @ tr_written tr'"
  "tr_sent (tr @ tr') = tr_sent tr @ tr_sent tr'"
  "tr_dropped (tr @ tr') \<longleftrightarrow> tr_dropped tr \<or> tr_dropped tr'"
  by (simp_all add: tr_accepted_def tr_written_def tr_sent_def tr_dropped_def)

lemma tr_Nil [simp]: "tr_accepted [] = []" "tr_written [] = []" "tr_sent [] = []" "\<not> tr_dropped []"
  by (simp_all add: tr_accepted_def tr_written_def tr_sent_def tr_dropped_def)

lemma tr_Cons [simp]:
  "tr_accepted (e # tr) = (case e of Accepted b i \<Rightarrow> [(b, i)] | _ \<Rightarrow> []) @ tr_accepted tr"
  "tr_written (e # tr) = (case e of Wrote b \<Rightarrow> b | _ \<Rightarrow> []) @ tr_written tr"
  "tr_sent (e # tr) = (case e of DataSent i \<Rightarrow> [i] | _ \<Rightarrow> []) @ tr_sent tr"
  "tr_dropped (e # tr) \<longleftrightarrow> (case e of Dropped \<Rightarrow> True | _ \<Rightarrow> False) \<or> tr_dropped tr"
  by (simp_all add: tr_accepted_def tr_written_def tr_sent_def tr_dropped_def split: conn_event.splits)

section \<open>What the handlers can change\<close>

definition rec_pair :: "WriteRecord \<Rightarrow> bytes \<times> ptr" where
  "rec_pair r = (rec_wrbuf r, rec_id r)"

definition rec_rest :: "WriteRecord \<Rightarrow> bytes" where
  "rec_rest r = drop (rec_wrbufpos r) (rec_wrbuf r)"

definition rec_ok :: "WriteRecord \<Rightarrow> bool" where
  "rec_ok r \<longleftrightarrow> rec_wrbuflen r = length (rec_wrbuf r) \<and> (rec_wrbufpos r < rec_wrbuflen r \<or> rec_wrbufpos r = 0 \<and> rec_wrbuflen r = 0)"

definition rec_fresh :: "WriteRecord \<Rightarrow> bool" where
  "rec_fresh r \<longleftrightarrow> rec_ok r \<and> rec_wrbufpos r = 0"

lemma rec_pair_sel [simp]: "fst (rec_pair r) = rec_wrbuf r" "snd (rec_pair r) = rec_id r"
  by (simp_all add: rec_pair_def)

lemmas rec_defs = rec_pair_def rec_rest_def rec_ok_def rec_fresh_def

text \<open>
  \<open>wext c c' new ids\<close>: from \<open>c\<close> to \<open>c'\<close>, the records \<open>new\<close> were queued, \<open>dataSent\<close> was
  raised for \<open>ids\<close>, and nothing else happened to the output.
\<close>

definition wext :: "conn \<Rightarrow> conn \<Rightarrow> WriteRecord list \<Rightarrow> ptr list \<Rightarrow> bool" where
  "wext c c' new ids \<longleftrightarrow>
     c_wrbuf c' = c_wrbuf c \<and> c_wrbufpos c' = c_wrbufpos c \<and> c_writenotify c' = c_writenotify c \<and> c_wrbufsz c' = c_wrbufsz c \<and> c_alive c' = c_alive c \<and>
     c_writerecs c' = c_writerecs c @ new \<and> list_all rec_fresh new \<and>
     tr_accepted (c_trace c') = tr_accepted (c_trace c) @ map rec_pair new \<and>
     tr_written (c_trace c') = tr_written (c_trace c) \<and> tr_sent (c_trace c') = tr_sent (c_trace c) @ ids \<and>
     (tr_dropped (c_trace c') \<longleftrightarrow> tr_dropped (c_trace c)) \<and>
     (c_deleteScheduled c \<noteq> 0 \<longrightarrow> new = [] \<and> c_deleteScheduled c' = c_deleteScheduled c) \<and>
     (length (c_writerecs c) \<le> NWRITERECS \<longrightarrow> length (c_writerecs c @ new) \<le> NWRITERECS)"

lemma wext_refl [simp]: "wext c c [] []"
  by (simp add: wext_def)

lemma wext_refl_ex [simp]: "\<exists>new snt. wext c c new snt"
  using wext_refl by blast

lemma wext_trans: "wext c c' new ids \<Longrightarrow> wext c' c'' new' ids' \<Longrightarrow> wext c c'' (new @ new') (ids @ ids')"
  by (simp add: wext_def)

lemma wext_set_wrreg: "wext c (set_wrreg b c) [] []"
  by (simp add: wext_def set_wrreg_def emit_def)

lemma wext_set_rdreg: "wext c (set_rdreg b c) [] []"
  by (simp add: wext_def set_rdreg_def emit_def)

lemma wext_wantreadwrite: "wext c (wantreadwrite c) [] []"
  unfolding wantreadwrite_def Let_def
  using wext_trans [OF wext_set_wrreg [of c "want_write c"] wext_set_rdreg] by simp

lemma wext_deleteLater: "wext c (deleteLater c) [] []"
  by (simp add: deleteLater_def wext_def set_rdreg_def emit_def)

lemma wext_close: "wext c (PSC_Connection_close c b) [] []"
proof -
  have e: "wext c (emit [ClosedEv x] c) [] []" "wext c (emit [Blacklisted] c) [] []" for c x
    by (simp_all add: wext_def emit_def)
  then have "wext c (deleteLater (emit [ClosedEv x] c)) [] []" for x c
    using wext_trans [OF e(1) wext_deleteLater] by simp
  with wext_trans [OF e(2) this] show ?thesis by (simp add: PSC_Connection_close_def Let_def)
qed

lemma wext_wrap:
  assumes "wext c c' new ids"
  shows "wext c (c'\<lparr>c_onRead := a, c_onTry := b\<rparr>) new ids" "wext (c\<lparr>c_paused := p\<rparr>) c' new ids"
    "wext (c\<lparr>c_paused := p, c_onRead := a, c_onTry := b\<rparr>) c' new ids"
  using assms by (simp_all add: wext_def)

lemma wext_self: "wext (c\<lparr>c_paused := p\<rparr>) c' new ids \<Longrightarrow> wext c c' new ids"
  "wext (c\<lparr>c_paused := p, c_onRead := a, c_onTry := b\<rparr>) c' new ids \<Longrightarrow> wext c c' new ids"
  by (simp_all add: wext_def)

lemma wext_act: "\<exists>new. wext c (do_act a c) new []"
proof (cases a)
  case Pause
  have "wext c (wantreadwrite (c\<lparr>c_paused := 1\<rparr>)) [] []" by (rule wext_self(1), rule wext_wantreadwrite)
  then show ?thesis using Pause wext_wrap(1) by (auto simp: PSC_Connection_pause_def Let_def wext_def)
next
  case Resume
  have "wext c (wantreadwrite (c\<lparr>c_paused := 0, c_onRead := x, c_onTry := y\<rparr>)) [] []" for x y
    by (rule wext_self(2), rule wext_wantreadwrite)
  then show ?thesis using Resume by (auto simp: PSC_Connection_resume_def Let_def wext_def)
next
  case (Send buf i)
  then show ?thesis
    by (auto simp: PSC_Connection_sendAsync_def wext_def emit_def rec_defs)
next
  case (Close b)
  then show ?thesis using wext_close by auto
qed (auto simp: PSC_Connection_receiveBinary_def PSC_Connection_receiveText_def
    PSC_EADataReceived_markHandling_def PSC_Connection_setData_def wext_def emit_def)

lemma wext_acts: "\<exists>new. wext c (fold do_act as c) new []"
proof (induction "as" arbitrary: c)
  case (Cons a "as")
  from wext_act obtain n1 where "wext c (do_act a c) n1 []" by blast
  moreover from Cons obtain n2 where "wext (do_act a c) (fold do_act as (do_act a c)) n2 []" by blast
  ultimately show ?case using wext_trans by fastforce
qed (auto intro: exI [of _ "[]"])

text \<open>Events of the output itself are the only ones that count.\<close>

definition ev_ids :: "conn_event \<Rightarrow> ptr list" where
  "ev_ids ev = (case ev of DataSent i \<Rightarrow> [i] | _ \<Rightarrow> [])"

definition ev_neutral :: "conn_event \<Rightarrow> bool" where
  "ev_neutral ev \<longleftrightarrow> (case ev of Accepted _ _ \<Rightarrow> False | Wrote _ \<Rightarrow> False | Dropped \<Rightarrow> False | _ \<Rightarrow> True)"

lemma wext_emit: "ev_neutral ev \<Longrightarrow> wext c (emit [ev] c) [] (ev_ids ev)"
  by (simp add: wext_def emit_def ev_ids_def ev_neutral_def split: conn_event.splits)

lemma wext_raise: "ev_neutral ev \<Longrightarrow> \<exists>new. wext c (raise_ev h ev c) new (ev_ids ev)"
  using wext_trans [OF wext_emit] wext_acts unfolding raise_ev_def Let_def by fastforce

lemma wext_notify_loop:
  "\<exists>new. wext c (notify_loop h ns c) new (map not_id (takeWhile (\<lambda>n. not_wrbufpos n \<le> c_wrbufpos c) ns))"
proof (induction ns arbitrary: c)
  case (Cons n ns)
  have "ev_neutral (DataSent (not_id n))" by (simp add: ev_neutral_def)
  from wext_raise [OF this, of c h] obtain n1
    where n1: "wext c (raise_ev h (DataSent (not_id n)) c) n1 [not_id n]" by (auto simp: ev_ids_def)
  then have "c_wrbufpos (raise_ev h (DataSent (not_id n)) c) = c_wrbufpos c" by (simp add: wext_def)
  with Cons obtain n2 where "wext (raise_ev h (DataSent (not_id n)) c) (notify_loop h ns (raise_ev h (DataSent (not_id n)) c)) n2
      (map not_id (takeWhile (\<lambda>n. not_wrbufpos n \<le> c_wrbufpos c) ns))" by metis
  from wext_trans [OF n1 this] show ?case by (auto intro: exI [of _ "[]"])
qed (auto intro: exI [of _ "[]"])

section \<open>Reading does not touch the output\<close>

lemma wext_restore_text: "restore_text c = Some c' \<Longrightarrow> wext c c' [] []"
  by (auto simp: restore_text_def wext_def split: if_splits)

lemma wext_skip_nul: "wext c (skip_nul c) [] []"
  by (simp add: skip_nul_def wext_def emit_def Let_def)

lemma wext_next_text:
  assumes "next_text loc c = Some r" "r = Stop (n, c') \<or> r = Deliver (n, c')"
  shows "wext c c' [] []"
proof -
  have "wext (skip_nul c) c' [] []"
    using assms by (auto simp: next_text_def Let_def wext_def split: if_splits Option.bind_splits option.splits)
  from wext_trans [OF wext_skip_nul this] show ?thesis by simp
qed

lemma wext_next_message:
  assumes "next_message c = Some r" "r = Stop (n, c') \<or> r = Deliver (n, c')"
  shows "wext c c' [] []"
proof (cases "c_rdlocator c")
  case None
  then show ?thesis using assms
    by (auto simp: next_message_def next_binary_def Let_def wext_def split: if_splits)
next
  case (Some loc)
  then show ?thesis using assms wext_next_text by (simp add: next_message_def)
qed

lemma message_neutral: "message c = Some ev \<Longrightarrow> ev_neutral ev \<and> ev_ids ev = []"
  by (auto simp: message_def ev_neutral_def ev_ids_def split: if_splits)

lemma wext_receive_loop: "receive_loop h fuel c = Some c' \<Longrightarrow> \<exists>new. wext c c' new []"
proof (induction h fuel c arbitrary: c' rule: receive_loop.induct)
  case (2 h fuel c)
  show ?case
  proof (cases "c_handling c \<noteq> 0 \<or> c_rdbufused c = 0")
    case True
    then show ?thesis using 2(2) by (auto intro: exI [of _ "[]"])
  next
    case False
    with 2(2) obtain c1 r where c1: "restore_text c = Some c1" and r: "next_message c1 = Some r"
      by (auto split: Option.bind_splits)
    obtain n c2 where n: "r = Stop (n, c2) \<or> r = Deliver (n, c2)" by (cases r) auto
    from wext_trans [OF wext_restore_text [OF c1] wext_next_message [OF r n]]
    have c2: "wext c c2 [] []" by simp
    from n show ?thesis
    proof
      assume "r = Stop (n, c2)"
      with 2(2) False c1 r c2 show ?thesis by auto
    next
      assume d: "r = Deliver (n, c2)"
      with 2(2) False c1 r obtain ev where ev: "message c2 = Some ev"
        and rl: "receive_loop h fuel (advance_read n (raise_ev h ev c2)) = Some c'"
        by (auto split: Option.bind_splits)
      from 2(1) [OF False c1 r d refl ev rl] obtain n2 where n2: "wext (advance_read n (raise_ev h ev c2)) c' n2 []" by blast
      from wext_raise [of ev c2 h] message_neutral [OF ev] obtain n1 where "wext c2 (raise_ev h ev c2) n1 []" by auto
      then have "wext c2 (advance_read n (raise_ev h ev c2)) n1 []" by (simp add: wext_def advance_read_def)
      from wext_trans [OF wext_trans [OF c2 this] n2] show ?thesis by auto
    qed
  qed
qed simp

lemma wext_received: "raisereceivedevents h c = Some c' \<Longrightarrow> \<exists>new. wext c c' new []"
proof -
  assume "raisereceivedevents h c = Some c'"
  then obtain c1 where c1: "receive_loop h (c_rdbufused c - c_rdbufpos c + 1) c = Some c1" "compact c1 = Some c'"
    by (auto simp: raisereceivedevents_def split: Option.bind_splits)
  from wext_receive_loop [OF c1(1)] obtain new where "wext c c1 new []" by blast
  moreover have "wext c1 c' [] []" using c1(2) by (auto simp: compact_def Let_def wext_def split: if_splits)
  ultimately show ?thesis using wext_trans by fastforce
qed

section \<open>Filling the buffer\<close>

definition total_len :: "(bytes \<times> ptr) list \<Rightarrow> nat" where
  "total_len ps = length (concat (map fst ps))"

lemma total_simps [simp]: "total_len [] = 0" "total_len (p # ps) = length (fst p) + total_len ps" "total_len (ps @ qs) = total_len ps + total_len qs"
  by (simp_all add: total_len_def)

definition ids :: "(bytes \<times> ptr) list \<Rightarrow> ptr set" where
  "ids ps = snd ` set ps - {NULL}"

lemma ids_append [simp]: "ids (ps @ qs) = ids ps \<union> ids qs" "ids [] = {}"
  by (auto simp: ids_def)

text \<open>The notifications for records that start at offset \<open>off\<close> of the stream, in a buffer from \<open>base\<close> on.\<close>

fun note_list :: "nat \<Rightarrow> nat \<Rightarrow> (bytes \<times> ptr) list \<Rightarrow> WriteNotifyRecord list" where
  "note_list base off [] = []"
| "note_list base off (p # ps) =
     (if snd p \<noteq> NULL then [\<lparr>not_id = snd p, not_wrbufpos = off + length (fst p) - base\<rparr>] else []) @ note_list base (off + length (fst p)) ps"

lemma notes_ids: "not_id ` set (note_list base off ps) = ids ps"
  by (induction ps arbitrary: off) (auto simp: ids_def image_Un)

lemma notes_le: "n \<in> set (note_list base off ps) \<Longrightarrow> not_wrbufpos n \<le> off + total_len ps - base"
  by (induction ps arbitrary: off) (fastforce split: if_splits)+

lemma notes_length: "length (note_list base off ps) \<le> length ps"
  by (induction ps arbitrary: off) (auto simp: le_SucI)

lemma total_recs: "total_len (map rec_pair rs) = sum_list (map (\<lambda>r. length (rec_wrbuf r)) rs)"
  by (induction rs) (simp_all add: rec_pair_def)

lemma fresh_rest: "list_all rec_fresh rs \<Longrightarrow> length (concat (map rec_rest rs)) = total_len (map rec_pair rs)"
  by (induction rs) (simp_all add: rec_defs)

lemma fill_ok:
  assumes "fill sz wb recs nots = (wb', recs', nots')" "list_all rec_ok recs" "list_all rec_fresh (tl recs)" "length wb \<le> sz"
    and "recs \<noteq> [] \<longrightarrow> off + rec_wrbufpos (hd recs) = base + length wb"
  shows "\<exists>don. map rec_pair recs = don @ map rec_pair recs' \<and>
     wb' @ concat (map rec_rest recs') = wb @ concat (map rec_rest recs) \<and>
     length wb' \<le> sz \<and> list_all rec_ok recs' \<and> list_all rec_fresh (tl recs') \<and> nots' = nots @ note_list base off don"
  using assms
proof (induction sz wb recs nots arbitrary: off rule: fill.induct)
  case (2 sz wb rec recs nots)
  show ?case
  proof (cases "length wb < sz")
    case False
    then show ?thesis using 2(2-) by (intro exI [of _ "[]"]) auto
  next
    case True
    define n where "n = (let m = rec_wrbuflen rec - rec_wrbufpos rec in if sz < m + length wb then sz - length wb else m)"
    define wb1 where "wb1 = wb @ take n (drop (rec_wrbufpos rec) (rec_wrbuf rec))"
    define rec1 where "rec1 = rec\<lparr>rec_wrbufpos := rec_wrbufpos rec + n\<rparr>"
    define nots1 where "nots1 = (if rec_id rec1 \<noteq> NULL then nots @ [\<lparr>not_id = rec_id rec1, not_wrbufpos = length wb1\<rparr>] else nots)"
    have rec: "rec_wrbuflen rec = length (rec_wrbuf rec)" "rec_wrbufpos rec \<le> rec_wrbuflen rec" and fr: "list_all rec_fresh recs"
      using 2(3,4) by (auto simp: rec_ok_def)
    have n: "n \<le> rec_wrbuflen rec - rec_wrbufpos rec" "n + length wb \<le> sz"
      using True by (auto simp: n_def Let_def)
    have l1: "length wb1 = length wb + n" using n rec by (simp add: wb1_def)
    have e: "fill sz wb (rec # recs) nots =
        (if rec_wrbufpos rec1 \<noteq> rec_wrbuflen rec1 then (wb1, rec1 # recs, nots) else fill sz wb1 recs nots1)"
      unfolding fill.simps(2) n_def wb1_def rec1_def nots1_def Let_def using True rec(2) by auto
    have st: "wb1 @ rec_rest rec1 = wb @ rec_rest rec"
      by (simp add: wb1_def rec1_def rec_rest_def add.commute flip: drop_drop)
    show ?thesis
    proof (cases "rec_wrbufpos rec1 \<noteq> rec_wrbuflen rec1")
      case inc: True
      then have r: "wb' = wb1" "recs' = rec1 # recs" "nots' = nots" using 2(2) e by auto
      have "rec_ok rec1" using inc rec n by (auto simp: rec_ok_def rec1_def)
      moreover have "list_all rec_ok recs" using 2(3) by simp
      ultimately show ?thesis
        using r fr st l1 n(2) by (intro exI [of _ "[]"]) (simp add: rec1_def rec_pair_def)
    next
      case False
      then have c: "rec_wrbufpos rec + n = length (rec_wrbuf rec)" using rec by (simp add: rec1_def)
      have f: "fill sz wb1 recs nots1 = (wb', recs', nots')" using 2(2) e False by simp
      have o: "off + length (rec_wrbuf rec) = base + length wb1" using 2(6) c l1 by simp
      have ih: "\<exists>don. map rec_pair recs = don @ map rec_pair recs' \<and>
         wb' @ concat (map rec_rest recs') = wb1 @ concat (map rec_rest recs) \<and>
         length wb' \<le> sz \<and> list_all rec_ok recs' \<and> list_all rec_fresh (tl recs') \<and> nots' = nots1 @ note_list base (off + length (rec_wrbuf rec)) don"
        unfolding nots1_def
      proof (rule 2(1) [OF True refl n_def [unfolded Let_def] wb1_def rec1_def])
        show "\<not> rec_wrbufpos rec1 \<noteq> rec_wrbuflen rec1" by (rule False)
        show "fill sz wb1 recs (if rec_id rec1 \<noteq> NULL then nots @ [\<lparr>not_id = rec_id rec1, not_wrbufpos = length wb1\<rparr>] else nots) = (wb', recs', nots')"
          using f by (simp add: nots1_def rec1_def)
        show "list_all rec_ok recs" using 2(3) by simp
        show "list_all rec_fresh (tl recs)" using fr by (cases recs) auto
        show "length wb1 \<le> sz" using l1 n(2) by simp
        show "recs \<noteq> [] \<longrightarrow> off + length (rec_wrbuf rec) + rec_wrbufpos (hd recs) = base + length wb1"
          using o fr by (cases recs) (auto simp: rec_fresh_def)
      qed
      then obtain don where don: "map rec_pair recs = don @ map rec_pair recs'"
         "wb' @ concat (map rec_rest recs') = wb1 @ concat (map rec_rest recs)"
         "length wb' \<le> sz \<and> list_all rec_ok recs' \<and> list_all rec_fresh (tl recs')"
         "nots' = nots1 @ note_list base (off + length (rec_wrbuf rec)) don" by blast
      have "rec_rest rec1 = []" using c by (simp add: rec1_def rec_rest_def)
      then have "wb1 = wb @ rec_rest rec" using st by simp
      with don show ?thesis
        using o by (intro exI [of _ "rec_pair rec # don"]) (auto simp: nots1_def rec1_def)
    qed
  qed
qed (auto intro: exI [of _ "[]"])

lemma fill_progress:
  assumes "fill sz [] recs [] = (wb', recs', nots')" "recs \<noteq> []" "list_all rec_ok recs" "0 < sz" "rec_wrbuf (hd recs) \<noteq> []"
  shows "wb' \<noteq> []"
proof -
  obtain rec rs where recs: "recs = rec # rs" using assms(2) by (cases recs) auto
  have mono: "\<exists>x. fst (fill sz wb recs nots) = wb @ x" for wb recs nots
    by (induction sz wb recs nots rule: fill.induct) (force simp: Let_def)+
  have "rec_wrbufpos rec < length (rec_wrbuf rec)" "rec_wrbuflen rec = length (rec_wrbuf rec)"
    using assms(3,5) recs by (auto simp: rec_ok_def)
  then show ?thesis
    using assms(1,4) recs mono [of "take (if sz < rec_wrbuflen rec - rec_wrbufpos rec then sz else rec_wrbuflen rec - rec_wrbufpos rec) (drop (rec_wrbufpos rec) (rec_wrbuf rec))" rs]
    by (auto simp: Let_def split: if_splits) (metis append_is_Nil_conv fst_conv diff_is_0_eq' drop_eq_Nil leD take_eq_Nil)+
qed

section \<open>The invariant of the output\<close>

definition buf_ok :: "conn \<Rightarrow> bool" where
  "buf_ok c \<longleftrightarrow> 0 < c_wrbufsz c \<and> length (c_wrbuf c) \<le> c_wrbufsz c \<and> length (c_writerecs c) \<le> NWRITERECS \<and>
     list_all rec_ok (c_writerecs c) \<and> list_all rec_fresh (tl (c_writerecs c))"

definition stream :: "conn \<Rightarrow> bytes" where
  "stream c = concat (map fst (tr_accepted (c_trace c)))"

definition stream_ok :: "conn \<Rightarrow> bool" where
  "stream_ok c \<longleftrightarrow>
     (if tr_dropped (c_trace c)
      then c_wrbuf c = [] \<and> c_writerecs c = [] \<and> c_deleteScheduled c \<noteq> 0 \<and> prefix (tr_written (c_trace c)) (stream c)
      else c_wrbufpos c \<le> length (c_wrbuf c) \<and>
        tr_written (c_trace c) @ drop (c_wrbufpos c) (c_wrbuf c) @ concat (map rec_rest (c_writerecs c)) = stream c)"

definition no_empty :: "conn \<Rightarrow> bool" where
  "no_empty c \<longleftrightarrow> list_all (\<lambda>p. fst p \<noteq> []) (tr_accepted (c_trace c))"

text \<open>Notifications that are due: their last byte was written.\<close>

definition due_notes :: "conn \<Rightarrow> ptr set" where
  "due_notes c = not_id ` {n \<in> set (c_writenotify c). not_wrbufpos n \<le> c_wrbufpos c}"

text \<open>
  The accepted data is what was reported (\<open>A1\<close>), what ends in the buffer (\<open>A2\<close>) and what is
  queued (\<open>A3\<close>).
\<close>

definition sent_ok :: "conn \<Rightarrow> (bytes \<times> ptr) list \<Rightarrow> (bytes \<times> ptr) list \<Rightarrow> (bytes \<times> ptr) list \<Rightarrow> bool" where
  "sent_ok c A1 A2 A3 \<longleftrightarrow>
     tr_accepted (c_trace c) = A1 @ A2 @ A3 \<and> (\<not> tr_dropped (c_trace c) \<longrightarrow> A3 = map rec_pair (c_writerecs c)) \<and>
     c_wrbufpos c \<le> length (tr_written (c_trace c)) \<and> total_len A1 \<le> length (tr_written (c_trace c)) - c_wrbufpos c \<and>
     c_writenotify c = note_list (length (tr_written (c_trace c)) - c_wrbufpos c) (total_len A1) A2 \<and>
     set (tr_sent (c_trace c)) \<subseteq> ids A1 \<union> due_notes c \<and>
     (no_empty c \<longrightarrow> ids A1 \<subseteq> set (tr_sent (c_trace c)) \<and> (A2 \<noteq> [] \<longrightarrow> c_wrbuf c \<noteq> [] \<or> tr_dropped (c_trace c)))"

definition winv :: "conn \<Rightarrow> bool" where
  "winv c \<longleftrightarrow> buf_ok c \<and> stream_ok c \<and> (\<not> c_alive c \<longrightarrow> c_wrbuf c = [] \<and> c_writerecs c = []) \<and>
     (c_alive c \<longrightarrow> (\<exists>A1 A2 A3. sent_ok c A1 A2 A3))"

lemma list_all_tl: "list_all P xs \<Longrightarrow> list_all P (tl xs)"
  by (cases xs) simp_all

lemma buf_ok_wext:
  assumes "buf_ok c" "wext c c' new is"
  shows "buf_ok c'"
proof -
  have e: "c_writerecs c' = c_writerecs c @ new" "list_all rec_fresh new" "c_wrbuf c' = c_wrbuf c" "c_wrbufsz c' = c_wrbufsz c"
    "length (c_writerecs c) \<le> NWRITERECS \<longrightarrow> length (c_writerecs c @ new) \<le> NWRITERECS"
    using assms(2) unfolding wext_def by blast+
  have "list_all rec_ok new" using e(2) by (simp add: list_all_iff rec_fresh_def)
  then show ?thesis using assms(1) e list_all_tl [OF e(2)] by (cases "c_writerecs c") (simp_all add: buf_ok_def)
qed

lemma fresh_bytes: "list_all rec_fresh new \<Longrightarrow> concat (map rec_rest new) = concat (map (fst \<circ> rec_pair) new)"
  by (induction new) (simp_all add: rec_defs)

lemma stream_ok_wext: "stream_ok c \<Longrightarrow> wext c c' new is \<Longrightarrow> stream_ok c'"
  unfolding stream_ok_def wext_def stream_def using fresh_bytes [of new] by (auto split: if_splits)

lemma due_notes_wext: "wext c c' new is \<Longrightarrow> due_notes c' = due_notes c"
  by (simp add: due_notes_def wext_def)

lemma sent_ok_wext:
  assumes "sent_ok c A1 A2 A3" "wext c c' new is" "set is \<subseteq> due_notes c"
  shows "sent_ok c' A1 A2 (A3 @ map rec_pair new)"
proof -
  have "no_empty c' \<longrightarrow> no_empty c" using assms(2) by (simp add: no_empty_def wext_def)
  then show ?thesis
    using assms due_notes_wext [OF assms(2)] unfolding sent_ok_def wext_def by auto
qed

lemma winvI: "buf_ok c \<Longrightarrow> stream_ok c \<Longrightarrow> c_alive c \<Longrightarrow> sent_ok c A1 A2 A3 \<Longrightarrow> winv c"
  unfolding winv_def by blast

lemma winvE:
  assumes "winv c" "c_alive c"
  obtains A1 A2 A3 where "buf_ok c" "stream_ok c" "sent_ok c A1 A2 A3"
  using assms unfolding winv_def by blast

lemma winv_wext:
  assumes "winv c" "c_alive c" "wext c c' new []"
  shows "winv c'" "c_alive c'"
proof -
  show alive: "c_alive c'" using assms(2,3) by (simp add: wext_def)
  from assms(1,2) obtain A1 A2 A3 where i: "buf_ok c" "stream_ok c" "sent_ok c A1 A2 A3" by (rule winvE)
  show "winv c'"
    by (rule winvI [OF buf_ok_wext [OF i(1) assms(3)] stream_ok_wext [OF i(2) assms(3)] alive sent_ok_wext [OF i(3) assms(3)]]) simp
qed

lemma not_dropped: "stream_ok c \<Longrightarrow> c_wrbuf c \<noteq> [] \<or> c_writerecs c \<noteq> [] \<Longrightarrow> \<not> tr_dropped (c_trace c)"
  by (auto simp: stream_ok_def)

text \<open>Lengths of the stream: what was accepted before the queue, and what was consumed.\<close>

lemma rest_le: "list_all rec_ok rs \<Longrightarrow> length (concat (map rec_rest rs)) \<le> total_len (map rec_pair rs)"
  by (induction rs) (auto simp: rec_rest_def)

lemma stream_length:
  assumes "stream_ok c" "\<not> tr_dropped (c_trace c)" "tr_accepted (c_trace c) = A @ map rec_pair (c_writerecs c)"
  shows "length (tr_written (c_trace c)) + length (c_wrbuf c) - c_wrbufpos c + length (concat (map rec_rest (c_writerecs c))) =
    total_len A + total_len (map rec_pair (c_writerecs c))"
proof -
  have "length (tr_written (c_trace c) @ drop (c_wrbufpos c) (c_wrbuf c) @ concat (map rec_rest (c_writerecs c))) = length (stream c)"
    using assms(1,2) by (simp add: stream_ok_def)
  moreover have "c_wrbufpos c \<le> length (c_wrbuf c)" using assms(1,2) by (simp add: stream_ok_def)
  moreover have "length (stream c) = total_len (tr_accepted (c_trace c))" by (simp add: stream_def total_len_def)
  ultimately show ?thesis using assms(3) by simp
qed

lemma fill_buffer_ok:
  assumes "winv c" "c_alive c" "c_wrbuf c \<noteq> [] \<or> c_writerecs c \<noteq> []"
  shows "winv (fill_buffer c)" "c_alive (fill_buffer c)" "\<not> tr_dropped (c_trace (fill_buffer c))"
proof -
  have inv: "buf_ok c" "stream_ok c" using assms by (auto simp: winv_def)
  have nd: "\<not> tr_dropped (c_trace c)" using not_dropped inv assms(3) by blast
  then show "c_alive (fill_buffer c)" "\<not> tr_dropped (c_trace (fill_buffer c))"
    using assms(2) by (auto simp: fill_buffer_def split: prod.splits)
  show "winv (fill_buffer c)"
  proof (cases "c_writerecs c \<noteq> [] \<and> c_wrbuf c = []")
    case False
    then have "fill_buffer c = c" by (auto simp: fill_buffer_def)
    then show ?thesis using assms(1) by simp
  next
    case True
    obtain A1 A2 where A: "sent_ok c A1 A2 (map rec_pair (c_writerecs c))"
      using assms(1,2) nd unfolding winv_def sent_ok_def by blast
    obtain wb recs nots where f: "fill (c_wrbufsz c) [] (c_writerecs c) [] = (wb, recs, nots)" by (metis prod_cases3)
    define c1 where "c1 = c\<lparr>c_wrbuf := wb, c_writerecs := recs, c_writenotify := nots\<rparr>"
    have c1: "fill_buffer c = c1" using True f by (simp add: fill_buffer_def c1_def)
    have pos: "c_wrbufpos c = 0" using inv(2) nd True by (simp add: stream_ok_def)
    define base where "base = length (tr_written (c_trace c))"
    have acc: "tr_accepted (c_trace c) = (A1 @ A2) @ map rec_pair (c_writerecs c)" using A by (simp add: sent_ok_def)
    obtain r rs where rs: "c_writerecs c = r # rs" using True by (cases "c_writerecs c") auto
    have okr: "list_all rec_ok (c_writerecs c)" "list_all rec_fresh (tl (c_writerecs c))" using inv(1) by (auto simp: buf_ok_def)
    have "length (concat (map rec_rest rs)) = total_len (map rec_pair rs)" using fresh_rest okr rs by simp
    moreover have "rec_wrbufpos r \<le> length (rec_wrbuf r)" using okr rs by (auto simp: rec_ok_def)
    ultimately have off: "total_len (A1 @ A2) + rec_wrbufpos r = base"
      using stream_length [OF inv(2) nd acc] pos True rs by (simp add: rec_rest_def base_def)
    have "\<exists>don. map rec_pair (c_writerecs c) = don @ map rec_pair recs \<and>
       wb @ concat (map rec_rest recs) = [] @ concat (map rec_rest (c_writerecs c)) \<and>
       length wb \<le> c_wrbufsz c \<and> list_all rec_ok recs \<and> list_all rec_fresh (tl recs) \<and> nots = [] @ note_list base (total_len (A1 @ A2)) don"
      by (rule fill_ok [OF f okr]) (use off rs in auto)
    then obtain don where don: "map rec_pair (c_writerecs c) = don @ map rec_pair recs"
       "wb @ concat (map rec_rest recs) = concat (map rec_rest (c_writerecs c))"
       "length wb \<le> c_wrbufsz c \<and> list_all rec_ok recs \<and> list_all rec_fresh (tl recs)" "nots = note_list base (total_len (A1 @ A2)) don"
      by auto
    have "length recs \<le> length (c_writerecs c)"
      using arg_cong [OF don(1), of length] by simp
    then have b1: "buf_ok c1" using inv(1) don(3) by (simp add: buf_ok_def c1_def)
    have s1: "stream_ok c1" using inv(2) nd don(2) pos True by (simp add: stream_ok_def stream_def c1_def)
    have "wb \<noteq> []" if "no_empty c"
    proof -
      have "rec_wrbuf (hd (c_writerecs c)) \<noteq> []" using that acc rs by (simp add: no_empty_def)
      then show ?thesis using fill_progress [OF f _ okr(1)] True inv(1) by (simp add: buf_ok_def)
    qed
    moreover have "no_empty c1 = no_empty c" by (simp add: no_empty_def c1_def)
    moreover have "A2 = []" if "no_empty c" using A that True nd by (simp add: sent_ok_def)
    moreover have "due_notes c \<subseteq> ids A2"
      using A notes_ids [of _ "total_len A1" A2] by (auto simp: due_notes_def sent_ok_def)
    ultimately have "sent_ok c1 (A1 @ A2) don (map rec_pair recs)"
      using A don(1,4) off pos nd unfolding sent_ok_def by (auto simp: c1_def base_def)
    then show ?thesis using b1 s1 c1 assms(2) unfolding winv_def by (auto simp: c1_def)
  qed
qed

text \<open>Writing from the buffer.\<close>

definition wrote :: "nat \<Rightarrow> conn \<Rightarrow> conn" where
  "wrote n c = (let out = take n (drop (c_wrbufpos c) (c_wrbuf c)) in emit [Wrote out] (c\<lparr>c_wrbufpos := c_wrbufpos c + length out\<rparr>))"

lemma wrote_ok:
  assumes "winv c" "c_alive c" "\<not> tr_dropped (c_trace c)"
  shows "winv (wrote n c)" "c_alive (wrote n c)" "\<not> tr_dropped (c_trace (wrote n c))"
proof -
  from assms(1,2) obtain A1 A2 A3 where i: "buf_ok c" "stream_ok c" "sent_ok c A1 A2 A3" by (rule winvE)
  define out where "out = take n (drop (c_wrbufpos c) (c_wrbuf c))"
  have w: "wrote n c = emit [Wrote out] (c\<lparr>c_wrbufpos := c_wrbufpos c + length out\<rparr>)" by (simp add: wrote_def out_def)
  show alive: "c_alive (wrote n c)" and nd: "\<not> tr_dropped (c_trace (wrote n c))" using assms by (simp_all add: w emit_def)
  have pos: "c_wrbufpos c \<le> length (c_wrbuf c)" using i(2) assms(3) by (simp add: stream_ok_def)
  have "out @ drop (c_wrbufpos c + length out) (c_wrbuf c) = drop (c_wrbufpos c) (c_wrbuf c)"
    using append_take_drop_id [of n "drop (c_wrbufpos c) (c_wrbuf c)"] by (cases "n \<le> length (c_wrbuf c) - c_wrbufpos c") (simp_all add: out_def add.commute)
  moreover have "c_wrbufpos c + length out \<le> length (c_wrbuf c)" using pos by (simp add: out_def)
  moreover have "tr_written (c_trace c) @ drop (c_wrbufpos c) (c_wrbuf c) @ concat (map rec_rest (c_writerecs c)) = stream c"
    using i(2) assms(3) by (simp add: stream_ok_def)
  ultimately have s: "stream_ok (wrote n c)"
    using assms(3) by (simp add: stream_ok_def stream_def w emit_def) (metis append_assoc)
  have b: "buf_ok (wrote n c)" using i(1) by (simp add: buf_ok_def w emit_def)
  have "due_notes c \<subseteq> due_notes (wrote n c)" by (auto simp: due_notes_def w emit_def)
  then have "sent_ok (wrote n c) A1 A2 A3"
    using i(3) unfolding sent_ok_def no_empty_def by (auto simp: w emit_def)
  with s b alive show "winv (wrote n c)" by (intro winvI)
qed

lemma drop_null_notes: "dropWhile (\<lambda>n. not_id n = NULL) (note_list base off ps) = note_list base off ps"
proof (cases "note_list base off ps")
  case (Cons n ns)
  then have "not_id n \<in> ids ps" using notes_ids [of base off ps] by (metis image_eqI list.set_intros(1))
  then show ?thesis using Cons by (simp add: ids_def)
qed simp

lemma notify_ok:
  fixes h :: handlers
  assumes "winv c" "c_alive c" "\<not> tr_dropped (c_trace c)"
  defines "c' \<equiv> notify_loop h (dropWhile (\<lambda>n. not_id n = NULL) (c_writenotify c)) c"
  shows "winv c'" "c_alive c'" "\<not> tr_dropped (c_trace c')" "c_wrbuf c' = c_wrbuf c" "c_wrbufpos c' = c_wrbufpos c"
    "c_wrbufpos c = length (c_wrbuf c) \<Longrightarrow> winv (c'\<lparr>c_wrbuf := [], c_wrbufpos := 0, c_writenotify := []\<rparr>)"
proof -
  from assms(1,2) obtain A1 A2 A3 where i: "buf_ok c" "stream_ok c" "sent_ok c A1 A2 A3" by (rule winvE)
  define snt where "snt = map not_id (takeWhile (\<lambda>n. not_wrbufpos n \<le> c_wrbufpos c) (c_writenotify c))"
  have n: "c_writenotify c = note_list (length (tr_written (c_trace c)) - c_wrbufpos c) (total_len A1) A2"
    using i(3) by (simp add: sent_ok_def)
  obtain new where x: "wext c c' new snt"
    using wext_notify_loop [of c h "c_writenotify c"] drop_null_notes n unfolding c'_def snt_def by metis
  have "set snt \<subseteq> due_notes c" by (auto simp: snt_def due_notes_def dest: set_takeWhileD)
  with sent_ok_wext [OF i(3) x] have s: "sent_ok c' A1 A2 (A3 @ map rec_pair new)" by blast
  show f: "c_alive c'" "\<not> tr_dropped (c_trace c')" "c_wrbuf c' = c_wrbuf c" "c_wrbufpos c' = c_wrbufpos c"
    using x assms(2,3) unfolding wext_def by blast+
  have b: "buf_ok c'" and st: "stream_ok c'" using buf_ok_wext [OF i(1) x] stream_ok_wext [OF i(2) x] .
  show "winv c'" using winvI [OF b st f(1) s] .
  assume full: "c_wrbufpos c = length (c_wrbuf c)"
  define c2 where "c2 = c'\<lparr>c_wrbuf := [], c_wrbufpos := 0, c_writenotify := []\<rparr>"
  have A3: "A3 @ map rec_pair new = map rec_pair (c_writerecs c')" using s f(2) by (simp add: sent_ok_def)
  have acc: "tr_accepted (c_trace c') = (A1 @ A2) @ map rec_pair (c_writerecs c')" using s A3 by (simp add: sent_ok_def)
  have tot: "total_len (A1 @ A2) \<le> length (tr_written (c_trace c'))"
    using stream_length [OF st f(2) acc] rest_le [of "c_writerecs c'"] b f(3,4) full by (simp add: buf_ok_def)
  have "not_wrbufpos m \<le> c_wrbufpos c" if "m \<in> set (c_writenotify c)" for m
  proof -
    have "length (tr_written (c_trace c)) = length (tr_written (c_trace c'))" using x by (simp add: wext_def)
    then have "total_len A1 + total_len A2 - (length (tr_written (c_trace c)) - c_wrbufpos c) \<le> c_wrbufpos c"
      using tot i(3) by (simp add: sent_ok_def)
    with notes_le that n show ?thesis by (metis le_trans)
  qed
  then have "takeWhile (\<lambda>n. not_wrbufpos n \<le> c_wrbufpos c) (c_writenotify c) = c_writenotify c"
    by (simp add: takeWhile_eq_all_conv)
  then have "snt = map not_id (c_writenotify c)" unfolding snt_def by (rule arg_cong)
  then have "ids A2 = set snt" using notes_ids n by (metis list.set_map)
  then have ids2: "ids A2 \<subseteq> set (tr_sent (c_trace c'))" using x by (simp add: wext_def)
  have "due_notes c' \<subseteq> ids A2"
    using s notes_ids [of _ "total_len A1" A2] by (auto simp: due_notes_def sent_ok_def)
  then have "set (tr_sent (c_trace c')) \<subseteq> ids A1 \<union> ids A2" using s unfolding sent_ok_def by blast
  moreover have "ids A1 \<union> ids A2 \<subseteq> set (tr_sent (c_trace c'))" if "no_empty c'"
    using s ids2 that unfolding sent_ok_def by blast
  moreover have "no_empty c2 = no_empty c'" by (simp add: no_empty_def c2_def)
  ultimately have "sent_ok c2 (A1 @ A2) [] (map rec_pair (c_writerecs c'))"
    unfolding sent_ok_def using acc tot by (simp add: c2_def le_supI1)
  moreover have "stream_ok c2" using st f full by (simp add: stream_ok_def stream_def c2_def)
  moreover have "buf_ok c2" using b by (simp add: buf_ok_def c2_def)
  ultimately show "winv (c'\<lparr>c_wrbuf := [], c_wrbufpos := 0, c_writenotify := []\<rparr>)"
    using f(1) unfolding c2_def [symmetric] by (intro winvI) (auto simp: c2_def)
qed

lemma close_scheduled: "c_deleteScheduled (PSC_Connection_close c b) \<noteq> 0"
  by (simp add: PSC_Connection_close_def deleteLater_def emit_def set_rdreg_def Let_def)

lemma drop_output_ok:
  assumes "winv c" "c_alive c" "wext (drop_output c) c' [] []" "c_deleteScheduled c' \<noteq> 0"
  shows "winv c'"
proof -
  from assms(1,2) obtain A1 A2 A3 where i: "buf_ok c" "stream_ok c" "sent_ok c A1 A2 A3" by (rule winvE)
  have x: "c_wrbuf c' = [] \<and> c_writerecs c' = [] \<and> c_writenotify c' = c_writenotify c \<and> c_wrbufpos c' = c_wrbufpos c \<and> c_alive c' \<and>
      c_wrbufsz c' = c_wrbufsz c"
    "tr_accepted (c_trace c') = tr_accepted (c_trace c)" "tr_written (c_trace c') = tr_written (c_trace c)"
    "tr_sent (c_trace c') = tr_sent (c_trace c)" "tr_dropped (c_trace c')"
    using assms(2,3) by (auto simp: wext_def drop_output_def emit_def)
  have "prefix (tr_written (c_trace c)) (stream c)"
    using i(2) by (auto simp: stream_ok_def split: if_splits intro: prefixI [OF sym])
  then have "stream_ok c'" using x assms(4) by (simp add: stream_ok_def stream_def)
  moreover have "sent_ok c' A1 A2 A3"
    using i(3) x unfolding sent_ok_def no_empty_def due_notes_def by auto
  moreover have "buf_ok c'" using i(1) x by (simp add: buf_ok_def)
  ultimately show ?thesis using x(1) by (intro winvI) auto
qed

lemma winv_close_broken:
  assumes "winv c" "c_alive c"
  shows "winv (close_broken c)" "winv (wantreadwrite (close_broken c))"
proof -
  have x: "wext (drop_output c) (close_broken c) [] []" by (simp add: close_broken_def wext_close)
  show "winv (close_broken c)" by (rule drop_output_ok [OF assms x]) (simp add: close_broken_def close_scheduled)
  have "wext (drop_output c) (wantreadwrite (close_broken c)) [] []" using wext_trans [OF x wext_wantreadwrite] by simp
  moreover have "c_deleteScheduled (wantreadwrite (close_broken c)) \<noteq> 0"
    using wext_wantreadwrite [of "close_broken c"] close_scheduled [of "drop_output c" False] by (simp add: wext_def close_broken_def)
  ultimately show "winv (wantreadwrite (close_broken c))" by (rule drop_output_ok [OF assms])
qed

lemma dowrite_ok:
  assumes "winv c" "c_alive c" "c_wrbuf c \<noteq> [] \<or> c_writerecs c \<noteq> []"
  shows "winv (dowrite h res c)"
proof -
  note f = fill_buffer_ok [OF assms]
  show ?thesis
  proof (cases res)
    case (WroteN n)
    define c1 where "c1 = wrote n (fill_buffer c)"
    define c2 where "c2 = notify_loop h (dropWhile (\<lambda>n. not_id n = NULL) (c_writenotify c1)) c1"
    note w = wrote_ok [OF f, of n, folded c1_def]
    note m = notify_ok [OF w, of h, folded c2_def]
    have "c_writenotify c1 = c_writenotify (fill_buffer c)" by (simp add: c1_def wrote_def emit_def Let_def)
    then have d: "dowrite h res c = (if c_wrbufpos c2 < length (c_wrbuf c2) then c2
        else wantreadwrite (c2\<lparr>c_wrbuf := [], c_wrbufpos := 0, c_writenotify := []\<rparr>))"
      by (simp add: dowrite_def WroteN c2_def c1_def wrote_def Let_def)
    have le: "c_wrbufpos c1 \<le> length (c_wrbuf c1)"
      using w(1,3) by (auto simp: winv_def stream_ok_def)
    show ?thesis
    proof (cases "c_wrbufpos c2 < length (c_wrbuf c2)")
      case True
      then show ?thesis using d m(1) by simp
    next
      case False
      then have "winv (c2\<lparr>c_wrbuf := [], c_wrbufpos := 0, c_writenotify := []\<rparr>)"
        using m(4,5,6) le by simp
      then show ?thesis
        using d False m(2) winv_wext(1) [OF _ _ wext_wantreadwrite] by simp
    qed
  next
    case WriteAgain
    then show ?thesis using winv_wext(1) [OF f(1,2) wext_wantreadwrite] by (simp add: dowrite_def Let_def)
  next
    case WriteFailed
    then show ?thesis using winv_close_broken(2) [OF f(1,2)] by (simp add: dowrite_def Let_def close_broken_def)
  qed
qed

section \<open>Every step keeps the invariant\<close>

lemma wext_fold:
  assumes "\<And>x c. \<exists>new snt. wext c (f x c) new snt"
  shows "\<exists>new snt. wext c (fold f xs c) new snt"
proof (induction xs arbitrary: c)
  case (Cons x xs)
  from assms obtain n1 s1 where "wext c (f x c) n1 s1" by blast
  moreover from Cons obtain n2 s2 where "wext (f x c) (fold f xs (f x c)) n2 s2" by blast
  ultimately show ?case using wext_trans by fastforce
qed (auto intro: exI [of _ "[]"])

lemma wext_notify_pending: "\<exists>new snt. wext c (notify_pending h c) new snt"
proof -
  have r: "\<exists>new snt. wext c (raise_ev h (DataSent i) c) new snt" for i c
    using wext_raise [of "DataSent i" c h] by (auto simp: ev_neutral_def)
  define c1 where "c1 = fold (\<lambda>n c. if not_id n \<noteq> NULL then raise_ev h (DataSent (not_id n)) c else c) (c_writenotify c) c"
  have "\<exists>new snt. wext c c1 new snt"
    unfolding c1_def by (rule wext_fold) (use r wext_refl in auto)
  moreover have "\<exists>new snt. wext c1 (notify_pending h c) new snt"
    unfolding notify_pending_def Let_def c1_def [symmetric] by (rule wext_fold) (use r wext_refl in auto)
  ultimately show ?thesis using wext_trans by blast
qed

lemma winv_delete:
  assumes "winv c" "c_alive c"
  shows "winv (deleteConnection h c)"
proof (cases "c_wrbuf c \<noteq> [] \<or> c_writerecs c \<noteq> []")
  case True
  then show ?thesis using assms by (auto simp: deleteConnection_def)
next
  case False
  from assms obtain A1 A2 A3 where i: "buf_ok c" "stream_ok c" "sent_ok c A1 A2 A3" by (rule winvE)
  define c1 where "c1 = c\<lparr>c_deleteScheduled := 2\<rparr>"
  obtain new snt where x: "wext c1 (notify_pending h c1) new snt" using wext_notify_pending by blast
  define c2 where "c2 = notify_pending h c1"
  have c1: "buf_ok c1" "stream_ok c1" using i(1,2) by (auto simp: c1_def buf_ok_def stream_ok_def stream_def)
  have c2: "buf_ok c2" "stream_ok c2" using buf_ok_wext [OF c1(1) x] stream_ok_wext [OF c1(2) x] by (simp_all add: c2_def)
  have e: "c_wrbuf c2 = []" "c_writerecs c2 = []" "c_deleteScheduled c2 = 2"
    using x False by (auto simp: wext_def c1_def c2_def)
  have "wext c2 (set_wrreg False c2) [] []" by (rule wext_set_wrreg)
  then have "winv (release ((emit [FdClosed] (set_wrreg False c2))\<lparr>c_onDelete := False\<rparr>))"
    using c2 e unfolding winv_def by (auto simp: wext_def release_def emit_def buf_ok_def stream_ok_def stream_def)
  moreover have "deleteConnection h c = release ((emit [FdClosed] (set_wrreg False c2))\<lparr>c_onDelete := False\<rparr>)"
    using False e(3) by (simp add: deleteConnection_def PSC_Connection_destroy_def Let_def c2_def c1_def)
  ultimately show ?thesis by simp
qed

lemma winv_readConnection:
  assumes "winv c" "c_alive c" "readConnection h res c = Some c'"
  shows "winv c'"
proof (cases "c_handling c \<noteq> 0")
  case True
  then show ?thesis using assms winv_wext(1) [OF assms(1,2) wext_wantreadwrite] by (simp add: readConnection_def)
next
  case False
  then have d: "doread h res c = Some c'" using assms(3) by (simp add: readConnection_def)
  show ?thesis
  proof (cases "c' = close_broken c \<or> c' = c")
    case True
    then show ?thesis using assms(1,2) winv_close_broken(1) by blast
  next
    case False
    with d obtain bs used buf c1 where c1: "raisereceivedevents h (emit [Got bs] (c\<lparr>c_rdbufused := used, c_rdbuf := buf\<rparr>)) = Some c1"
      and c': "c' = wantreadwrite c1"
      by (auto simp: doread_def Let_def split: if_splits rd_result.splits)
    have x: "wext c (emit [Got bs] (c\<lparr>c_rdbufused := used, c_rdbuf := buf\<rparr>)) [] []" by (simp add: wext_def emit_def)
    from wext_received [OF c1] obtain new where "wext (emit [Got bs] (c\<lparr>c_rdbufused := used, c_rdbuf := buf\<rparr>)) c1 new []" by blast
    from wext_trans [OF wext_trans [OF x this] wext_wantreadwrite] have "wext c c' new []" by (simp add: c')
    then show ?thesis using winv_wext(1) [OF assms(1,2)] by blast
  qed
qed

lemma winv_writeConnection:
  assumes "winv c" "c_alive c"
  shows "winv (writeConnection h err res c)"
proof -
  have "\<exists>new. wext c (raise_ev h ConnectedEv (wantreadwrite (c\<lparr>c_connectTimer := False\<rparr>))) new []"
  proof -
    have x: "wext c (c\<lparr>c_connectTimer := False\<rparr>) [] []" by (simp add: wext_def)
    obtain new where "wext (wantreadwrite (c\<lparr>c_connectTimer := False\<rparr>)) (raise_ev h ConnectedEv (wantreadwrite (c\<lparr>c_connectTimer := False\<rparr>))) new []"
      using wext_raise [of ConnectedEv "wantreadwrite (c\<lparr>c_connectTimer := False\<rparr>)" h] by (auto simp: ev_neutral_def ev_ids_def)
    from wext_trans [OF wext_trans [OF x wext_wantreadwrite] this] show ?thesis by auto
  qed
  then have "winv (raise_ev h ConnectedEv (wantreadwrite (c\<lparr>c_connectTimer := False\<rparr>)))"
    using winv_wext(1) [OF assms] by blast
  moreover have "winv (PSC_Connection_close c True)" "winv (wantreadwrite c)"
    using winv_wext(1) [OF assms] wext_close wext_wantreadwrite by blast+
  ultimately show ?thesis using dowrite_ok [OF assms] by (auto simp: writeConnection_def)
qed

lemma winv_confirm:
  assumes "winv c" "c_alive c" "PSC_Connection_confirmDataReceived h c = Some (c', rc)"
  shows "winv c'"
proof (cases "c_handling c \<le> 1")
  case False
  then have "c' = c\<lparr>c_handling := c_handling c - 1\<rparr>" using assms(3) by (auto simp: PSC_Connection_confirmDataReceived_def Let_def)
  then have "wext c c' [] []" by (simp add: wext_def)
  then show ?thesis using winv_wext(1) [OF assms(1,2)] by blast
next
  case True
  show ?thesis
  proof (cases "c_handling c = 0")
    case h0: True
    then show ?thesis using assms by (simp add: PSC_Connection_confirmDataReceived_def)
  next
    case False
    with True assms(3) obtain c1 where c1: "raisereceivedevents h (c\<lparr>c_handling := 0\<rparr>) = Some c1" and c': "c' = wantreadwrite c1"
      by (auto simp: PSC_Connection_confirmDataReceived_def Let_def)
    have x: "wext c (c\<lparr>c_handling := 0\<rparr>) [] []" by (simp add: wext_def)
    from wext_received [OF c1] obtain new where "wext (c\<lparr>c_handling := 0\<rparr>) c1 new []" by blast
    from wext_trans [OF wext_trans [OF x this] wext_wantreadwrite] have "wext c c' new []" by (simp add: c')
    then show ?thesis using winv_wext(1) [OF assms(1,2)] by blast
  qed
qed

lemma winv_step: "conn_step h c c' \<Longrightarrow> winv c \<Longrightarrow> winv c'"
proof (induction rule: conn_step.induct)
  case (events_done c wres)
  then show ?case using dowrite_ok [of c h wres] by (auto simp: tryWrite_def)
next
  case (timeout c)
  then show ?case using winv_wext(1) [OF _ _ wext_close] by (simp add: connectionTimeout_def)
next
  case (call c a)
  from wext_act obtain new where "wext c (do_act a c) new []" by blast
  then show ?case using winv_wext(1) call by blast
qed (auto intro: winv_readConnection winv_writeConnection winv_delete winv_confirm)

lemma winv_create: "PSC_Connection_create wrbufsz rdbufsz mem mode hits timerOk = (c, ok) \<Longrightarrow> 0 < wrbufsz \<Longrightarrow> winv c"
proof -
  assume c: "PSC_Connection_create wrbufsz rdbufsz mem mode hits timerOk = (c, ok)" and "0 < wrbufsz"
  define c0 where "c0 = new_conn wrbufsz rdbufsz mem mode hits"
  have "sent_ok c0 [] [] []" by (simp add: c0_def new_conn_def sent_ok_def)
  then have "winv c0" using \<open>0 < wrbufsz\<close>
    by (intro winvI) (simp_all add: c0_def new_conn_def buf_ok_def stream_ok_def stream_def)
  moreover have "c_alive c0" by (simp add: c0_def new_conn_def)
  moreover have "wext c0 (emit [RegWrite] (c0\<lparr>c_connectTimer := True, c_wrreg := True\<rparr>)) [] []"
    "wext c0 (emit [RegRead] (c0\<lparr>c_rdreg := True\<rparr>)) [] []" by (simp_all add: wext_def emit_def)
  ultimately show "winv c"
    using c winv_wext(1) [of c0] wext_close by (auto simp: PSC_Connection_create_def Let_def c0_def split: if_splits)
qed

lemma winv_reach: "conn_reach h c0 c \<Longrightarrow> winv c0 \<Longrightarrow> winv c"
  by (induction rule: conn_reach.induct) (auto intro: winv_step)

section \<open>Properties\<close>

text \<open>The identifiers of the records that end within the first \<open>n\<close> bytes of the stream.\<close>

fun due :: "nat \<Rightarrow> (bytes \<times> ptr) list \<Rightarrow> ptr list" where
  "due n [] = []"
| "due n (p # ps) =
     (if length (fst p) \<le> n then (if snd p \<noteq> NULL then [snd p] else []) @ due (n - length (fst p)) ps else [])"

lemma due_prefix: "total_len A \<le> n \<Longrightarrow> ids A \<subseteq> set (due n (A @ B))"
proof (induction A arbitrary: n)
  case (Cons p A)
  then have "ids A \<subseteq> set (due (n - length (fst p)) (A @ B))" by simp
  moreover have "ids (p # A) = (if snd p \<noteq> NULL then {snd p} else {}) \<union> ids A" by (auto simp: ids_def)
  ultimately show ?case using Cons(2) by auto
qed simp

lemma note_prefix:
  "m \<in> set (note_list base off A) \<Longrightarrow> \<exists>P Q. A = P @ Q \<and> not_id m \<in> ids P \<and> not_wrbufpos m = off + total_len P - base"
proof (induction A arbitrary: off)
  case (Cons p A)
  show ?case
  proof (cases "snd p \<noteq> NULL \<and> m = \<lparr>not_id = snd p, not_wrbufpos = off + length (fst p) - base\<rparr>")
    case True
    then show ?thesis by (intro exI [of _ "[p]"] exI [of _ A]) (simp add: ids_def)
  next
    case False
    then have "m \<in> set (note_list base (off + length (fst p)) A)" using Cons(2) by (auto split: if_splits)
    from Cons(1) [OF this] obtain P Q where "A = P @ Q" "not_id m \<in> ids P" "not_wrbufpos m = off + length (fst p) + total_len P - base" by auto
    then show ?thesis by (intro exI [of _ "p # P"] exI [of _ Q]) (auto simp: ids_def)
  qed
qed simp

lemma sent_due:
  assumes "sent_ok c A1 A2 A3"
  shows "set (tr_sent (c_trace c)) \<subseteq> set (due (length (tr_written (c_trace c))) (tr_accepted (c_trace c)))"
proof -
  define w where "w = length (tr_written (c_trace c))"
  have a: "tr_accepted (c_trace c) = A1 @ A2 @ A3" "c_wrbufpos c \<le> w" "total_len A1 \<le> w - c_wrbufpos c"
    "c_writenotify c = note_list (w - c_wrbufpos c) (total_len A1) A2" "set (tr_sent (c_trace c)) \<subseteq> ids A1 \<union> due_notes c"
    using assms unfolding sent_ok_def w_def by blast+
  have A1: "ids A1 \<subseteq> set (due w (A1 @ A2 @ A3))" using due_prefix a(3) by simp
  have "not_id m \<in> set (due w (A1 @ A2 @ A3))" if "m \<in> set (c_writenotify c)" "not_wrbufpos m \<le> c_wrbufpos c" for m
  proof -
    from note_prefix that(1) a(4) obtain P Q where P: "A2 = P @ Q" "not_id m \<in> ids P"
      "not_wrbufpos m = total_len A1 + total_len P - (w - c_wrbufpos c)" by metis
    have "total_len A1 + total_len P - (w - c_wrbufpos c) \<le> c_wrbufpos c" using that(2) unfolding P(3) .
    then have "total_len (A1 @ P) \<le> w" using a(2) by simp
    from due_prefix [OF this, of "Q @ A3"] have "ids P \<subseteq> set (due w (A1 @ A2 @ A3))" by (simp add: P(1))
    with P(2) show ?thesis by blast
  qed
  then have "due_notes c \<subseteq> set (due w (A1 @ A2 @ A3))" by (auto simp: due_notes_def)
  with a(5) A1 have "set (tr_sent (c_trace c)) \<subseteq> set (due w (A1 @ A2 @ A3))" by (meson Un_least order_trans)
  then show ?thesis by (simp add: a(1) w_def)
qed


definition conn0 :: "nat \<Rightarrow> nat \<Rightarrow> conn" where
  "conn0 wrbufsz rdbufsz = fst (PSC_Connection_create wrbufsz rdbufsz (replicate (rdbufsz + 1) 0) CCM_NORMAL 0 True)"

lemma conn0_create: "PSC_Connection_create wrbufsz rdbufsz (replicate (rdbufsz + 1) 0) CCM_NORMAL 0 True = (conn0 wrbufsz rdbufsz, True)"
  by (simp add: conn0_def PSC_Connection_create_def Let_def)

definition silent :: handlers where
  "silent c ev = []"

lemma output_eval:
  "case conn_run silent [InCall (Send [1, 2, 3] 7), InCall (Send [4, 5] 8), InDone (WroteN 1), InDone (WroteN 2), InWrite False (WroteN 2)] (conn0 2 4) of
     Some c \<Rightarrow> tr_written (c_trace c) = [1, 2, 3, 4] \<and> tr_accepted (c_trace c) = [([1, 2, 3], 7), ([4, 5], 8)] \<and> c_alive c \<and> tr_sent (c_trace c) = [7]
   | None \<Rightarrow> False"
  by code_simp

lemma conn_run_example:
  assumes "case conn_run h is (conn0 wsz rsz) of Some c \<Rightarrow> P c | None \<Rightarrow> False" "list_all input_ok is"
  obtains c where "conn_reach h (conn0 wsz rsz) c" "P c"
proof -
  obtain c where "conn_run h is (conn0 wsz rsz) = Some c" "P c" using assms(1) by (auto split: option.splits)
  then show ?thesis using that conn_run_reach [OF conn_reach.start _ assms(2)] by blast
qed


text \<open>
  Reports of sent data.  While the connection is alive, \<open>dataSent\<close> was raised only for data
  that was written to the socket completely.  When nothing is pending and nothing was thrown
  away, it was raised for all data with an identifier (provided that no empty data was sent).
\<close>

theorem connection_sent:
  assumes "PSC_Connection_create wrbufsz rdbufsz mem mode hits timerOk = (c0, ok)" "0 < wrbufsz" "conn_reach h c0 c" "c_alive c"
  shows "set (tr_sent (c_trace c)) \<subseteq> set (due (length (tr_written (c_trace c))) (tr_accepted (c_trace c))) \<and>
    (no_empty c \<and> \<not> tr_dropped (c_trace c) \<and> c_wrbuf c = [] \<and> c_writerecs c = [] \<longrightarrow>
       set (tr_sent (c_trace c)) = set (map snd (tr_accepted (c_trace c))) - {NULL})"
proof -
  have "winv c" using winv_reach [OF assms(3) winv_create [OF assms(1,2)]] .
  with assms(4) obtain A1 A2 A3 where s: "stream_ok c" "sent_ok c A1 A2 A3" by (metis winvE)
  have "set (tr_sent (c_trace c)) = ids (tr_accepted (c_trace c))"
    if "no_empty c" "\<not> tr_dropped (c_trace c)" "c_wrbuf c = []" "c_writerecs c = []"
  proof -
    have "A2 = []" "A3 = []" "ids A1 \<subseteq> set (tr_sent (c_trace c))" using s(2) that by (simp_all add: sent_ok_def)
    moreover have "due_notes c = {}" using s(2) \<open>A2 = []\<close> by (simp add: sent_ok_def due_notes_def)
    ultimately show ?thesis using s(2) by (auto simp: sent_ok_def)
  qed
  then show ?thesis using sent_due [OF s(2)] by (auto simp: ids_def)
qed

theorem connection_sent_witness:
  "\<exists>c. conn_reach silent (conn0 2 4) c \<and> set (tr_sent (c_trace c)) \<subseteq> set (due 4 [([1, 2, 3], 7), ([4, 5], 8)]) \<and> tr_sent (c_trace c) = [7]"
proof -
  obtain c where c: "conn_reach silent (conn0 2 4) c" "tr_written (c_trace c) = [1, 2, 3, 4] \<and> tr_accepted (c_trace c) = [([1, 2, 3], 7), ([4, 5], 8)] \<and> c_alive c \<and> tr_sent (c_trace c) = [7]"
    using conn_run_example [OF output_eval] by auto
  then show ?thesis using connection_sent [OF conn0_create _ c(1)] by auto
qed

lemma repeated_eval:
  "case conn_run silent [InCall (Send [1] 7), InCall (Send [2] 8), InDone (WroteN 1), InDone (WroteN 1)] (conn0 4 4) of
     Some c \<Rightarrow> tr_accepted (c_trace c) = [([1], 7), ([2], 8)] \<and> tr_sent (c_trace c) = [7, 7, 8]
   | None \<Rightarrow> False"
  by code_simp

text \<open>
  Reports are repeated.  The identifiers of reported data stay in the list of notifications
  until the buffer is empty: when data is written in parts, \<open>dataSent\<close> is raised again for
  data that was reported before.
\<close>

theorem connection_sent_repeated:
  "\<exists>c. conn_reach silent (conn0 4 4) c \<and> tr_accepted (c_trace c) = [([1], 7), ([2], 8)] \<and> tr_sent (c_trace c) = [7, 7, 8]"
  using conn_run_example [OF repeated_eval] by auto

lemma stall_eval:
  "case conn_run silent [InCall (Send [1, 2] 7), InDone (WroteN 1)] (conn0 4 4) of
     Some c \<Rightarrow> c_wrbuf c = [1, 2] \<and> c_wrbufpos c = 1 \<and> want_write c \<and> \<not> c_wrreg c
   | None \<Rightarrow> False"
  by code_simp

text \<open>
  Output can be left waiting.  When a part of the data is written after the events of a turn
  were handled, the connection is not registered for writing, although it wants to write the
  rest: it does not learn when the socket is ready again.
\<close>

theorem connection_output_unregistered:
  "\<exists>c. conn_reach silent (conn0 4 4) c \<and> c_wrbuf c = [1, 2] \<and> c_wrbufpos c = 1 \<and> want_write c \<and> \<not> c_wrreg c"
  using conn_run_example [OF stall_eval] by auto

lemma destroy_eval:
  "case conn_run silent [InCall (Send [1, 2] 7), InCall (Close False)] (conn0 4 4) of
     Some c \<Rightarrow> (let c' = PSC_Connection_destroy silent c
       in c_alive c' \<and> c_onTry c' \<and> \<not> c_wrreg c' \<and> tr_sent (c_trace c') = [7] \<and> tr_written (c_trace c') = [] \<and> map rec_pair (c_writerecs c') = [([1, 2], 7)] \<and>
         tr_written (c_trace (tryWrite silent (WroteN 2) c')) = [1, 2])
   | None \<Rightarrow> False"
  by code_simp

text \<open>
  Data reported as sent is still used.  When \<open>PSC_Connection_destroy\<close> is called for a
  connection that is closing with data in its queue, the data is reported as sent, so its
  owner may free it; the connection stays, and reads the data when it writes it later.
\<close>

theorem connection_destroy_reports_pending:
  "\<exists>c c'. conn_reach silent (conn0 4 4) c \<and> c' = PSC_Connection_destroy silent c \<and> c_alive c' \<and>
     tr_sent (c_trace c') = [7] \<and> tr_written (c_trace c') = [] \<and> map rec_pair (c_writerecs c') = [([1, 2], 7)] \<and>
     conn_step silent c' (tryWrite silent (WroteN 2) c') \<and> tr_written (c_trace (tryWrite silent (WroteN 2) c')) = [1, 2]"
proof -
  have "list_all input_ok [InCall (Send [1, 2] 7), InCall (Close False)]" by simp
  from conn_run_example [OF destroy_eval this] obtain c where c: "conn_reach silent (conn0 4 4) c"
    and d: "let c' = PSC_Connection_destroy silent c
       in c_alive c' \<and> c_onTry c' \<and> \<not> c_wrreg c' \<and> tr_sent (c_trace c') = [7] \<and> tr_written (c_trace c') = [] \<and> map rec_pair (c_writerecs c') = [([1, 2], 7)] \<and>
         tr_written (c_trace (tryWrite silent (WroteN 2) c')) = [1, 2]" .
  define c' where "c' = PSC_Connection_destroy silent c"
  have d': "c_alive c'" "c_onTry c'" "tr_sent (c_trace c') = [7]" "tr_written (c_trace c') = []"
    "map rec_pair (c_writerecs c') = [([1, 2], 7)]" "tr_written (c_trace (tryWrite silent (WroteN 2) c')) = [1, 2]"
    using d unfolding Let_def c'_def by blast+
  show ?thesis by (intro exI conjI) (rule c c'_def d' events_done [OF d'(1,2)])+
qed

end
