(* ===== verification/Poser_ConnRead.thy ===== *)
theory Poser_ConnRead
  imports Poser_ConnWrite
begin

text \<open>
  Input of a connection: every received byte is delivered once and in order, in binary and in
  text mode, with handlers that switch the mode, take their time, or close the connection; the
  read buffer is never overrun, and there is always room to read more.
\<close>

section \<open>Received and delivered\<close>

definition ev_bytes :: "conn_event \<Rightarrow> bytes" where
  "ev_bytes ev = (case ev of DataReceived b \<Rightarrow> b | TextReceived b \<Rightarrow> b | Skipped n \<Rightarrow> replicate n 0 | _ \<Rightarrow> [])"

definition ev_got :: "conn_event \<Rightarrow> bytes" where
  "ev_got ev = (case ev of Got b \<Rightarrow> b | _ \<Rightarrow> [])"

definition tr_delivered :: "conn_event list \<Rightarrow> bytes" where
  "tr_delivered tr = concat (map ev_bytes tr)"

definition tr_got :: "conn_event list \<Rightarrow> bytes" where
  "tr_got tr = concat (map ev_got tr)"

lemma tr_read_simps [simp]:
  "tr_delivered (tr @ tr') = tr_delivered tr @ tr_delivered tr'" "tr_delivered [] = []" "tr_delivered (e # tr) = ev_bytes e @ tr_delivered tr"
  "tr_got (tr @ tr') = tr_got tr @ tr_got tr'" "tr_got [] = []" "tr_got (e # tr) = ev_got e @ tr_got tr"
  by (simp_all add: tr_delivered_def tr_got_def)

lemma ev_bytes_simps [simp]:
  "ev_bytes (Accepted b i) = []" "ev_bytes (Wrote b) = []" "ev_bytes Dropped = []" "ev_bytes (DataSent i) = []" "ev_bytes (Got b) = []"
  "ev_bytes (Skipped n) = replicate n 0" "ev_bytes (DataReceived b) = b" "ev_bytes (TextReceived b) = b" "ev_bytes ConnectedEv = []"
  "ev_bytes (ClosedEv x) = []" "ev_bytes Blacklisted = []" "ev_bytes RegRead = []" "ev_bytes UnregRead = []" "ev_bytes RegWrite = []"
  "ev_bytes UnregWrite = []" "ev_bytes FdClosed = []" "ev_bytes (DataDeleted d p) = []" "ev_bytes Freed = []"
  "ev_got (Accepted b i) = []" "ev_got (Wrote b) = []" "ev_got Dropped = []" "ev_got (DataSent i) = []" "ev_got (Got b) = b"
  "ev_got (Skipped n) = []" "ev_got (DataReceived b) = []" "ev_got (TextReceived b) = []" "ev_got ConnectedEv = []"
  "ev_got (ClosedEv x) = []" "ev_got Blacklisted = []" "ev_got RegRead = []" "ev_got UnregRead = []" "ev_got RegWrite = []"
  "ev_got UnregWrite = []" "ev_got FdClosed = []" "ev_got (DataDeleted d p) = []" "ev_got Freed = []"
  by (simp_all add: ev_bytes_def ev_got_def)

section \<open>What the handlers can change\<close>

definition mode_ok :: "conn \<Rightarrow> bool" where
  "mode_ok c \<longleftrightarrow> c_rdexpect c \<le> c_rdbufsz c \<and> (\<forall>loc. c_rdlocator c = Some loc \<longrightarrow> locator_ok loc)"

definition rext :: "conn \<Rightarrow> conn \<Rightarrow> bool" where
  "rext c c' \<longleftrightarrow>
     c_rdbuf c' = c_rdbuf c \<and> c_rdbufsz c' = c_rdbufsz c \<and> c_rdbufused c' = c_rdbufused c \<and> c_rdbufpos c' = c_rdbufpos c \<and>
     c_rdtextsave c' = c_rdtextsave c \<and> c_handling c \<le> c_handling c' \<and> (mode_ok c \<longrightarrow> mode_ok c') \<and>
     tr_got (c_trace c') = tr_got (c_trace c) \<and> tr_delivered (c_trace c') = tr_delivered (c_trace c)"

lemma rext_refl [simp]: "rext c c"
  by (simp add: rext_def)












section \<open>The read buffer\<close>







section \<open>C strings in the buffer\<close>




section \<open>The next message\<close>












section \<open>The loop and the handlers of the service\<close>





















section \<open>Properties\<close>










section \<open>Flaws\<close>

text \<open>A handler that keeps every message.\<close>

definition keep :: handlers where
  "keep c ev = (case ev of TextReceived _ \<Rightarrow> [MarkHandling] | DataReceived _ \<Rightarrow> [MarkHandling] | _ \<Rightarrow> [])"

lemma keep_ok: "handlers_ok keep"
  by (simp add: handlers_ok_def keep_def split: conn_event.splits)

lemma overwritten_eval:
  "case conn_run keep [InCall (ReceiveBinary 2), InRead (ReadN [1, 2, 3])] (conn0 4 8) of
     Some c \<Rightarrow> c_handling c = 1 \<and> c_args_off c = 0 \<and> c_args_size c = 2 \<and> tr_delivered (c_trace c) = [1, 2] \<and>
       take (c_args_size c) (drop (c_args_off c) (c_rdbuf c)) = [3, 0]
   | None \<Rightarrow> False"
  by code_simp

text \<open>
  A message that is being handled is overwritten.  When a handler marks a message to handle it
  later, the rest of the input is moved to the start of the buffer nevertheless, over the
  message: its bytes change while they are in use.
\<close>

theorem connection_handled_overwritten:
  "\<exists>c. conn_reach keep (conn0 4 8) c \<and> c_handling c = 1 \<and> tr_delivered (c_trace c) = [1, 2] \<and>
     take (c_args_size c) (drop (c_args_off c) (c_rdbuf c)) = [3, 0]"
  using conn_run_example [OF overwritten_eval] by auto

text \<open>The lines that \<open>locateeol\<close> finds.\<close>

lemma find_crlf_none: "10 \<notin> set s \<or> 13 \<notin> set s \<Longrightarrow> find_crlf s = None"
  by (induction s rule: find_crlf.induct) auto

lemma find_crlf_first: "13 \<notin> set l \<Longrightarrow> find_crlf (l @ 13 # 10 # s) = Some (length l)"
proof (induction l)
  case (Cons a l)
  then show ?case by (cases l) auto
qed simp

lemma find_byte_first: "b \<notin> set l \<Longrightarrow> find_byte b (l @ b # s) = Some (length l)"
proof -
  assume "b \<notin> set l"
  then have "takeWhile (\<lambda>x. x \<noteq> b) (l @ b # s) = l" by (subst takeWhile_append2) auto
  then show ?thesis by (simp add: find_byte_def Let_def)
qed

lemma find_byte_none: "b \<notin> set s \<Longrightarrow> find_byte b s = None"
proof -
  assume "b \<notin> set s"
  then have tw: "takeWhile (\<lambda>x. x \<noteq> b) s = s" by (auto simp: takeWhile_eq_all_conv)
  show ?thesis unfolding find_byte_def tw by simp
qed

text \<open>
  Texts with one kind of line end are split at it, and a text without a line end has no end.
\<close>

theorem locateeol_lines:
  assumes "13 \<notin> set l" "10 \<notin> set l"
  shows "locateeol l = None" "locateeol (l @ 13 # 10 # s) = Some (length l + 2)"
    "13 \<notin> set s \<Longrightarrow> locateeol (l @ 10 # s) = Some (length l + 1)"
    "10 \<notin> set s \<Longrightarrow> locateeol (l @ 13 # s) = Some (length l + 1)"
  using assms by (simp_all add: locateeol_def find_crlf_none find_crlf_first find_byte_none find_byte_first)

text \<open>
  With several kinds of line ends, the text up to the first pair of carriage return and line
  feed is one line, although there is a line end before it.
\<close>

theorem locateeol_mixed: "locateeol [97, 10, 98, 13, 10] = Some 5"
  by code_simp

end
