(* ===== verification/Poser_ConnLife.thy ===== *)
theory Poser_ConnLife
  imports Poser_ConnRead
begin

text \<open>
  The life of a connection: the order of its calls of the service and of the kernel, and of the
  events it raises, as a protocol over the history.
\<close>

section \<open>The protocol\<close>







section \<open>The invariant\<close>
























section \<open>Deletion\<close>











section \<open>Property\<close>





end
