(* ===== verification/Poser_SvcQueue.thy ===== *)
theory Poser_SvcQueue
  imports Prelude
begin

text \<open>
  The command queue of a service thread (\<open>src/lib/core/service.c\<close>), in the build without
  lock-free atomics (\<open>NO_SHAREDOBJ\<close>) and with \<open>eventfd\<close>: other threads append commands with
  \<open>enqueueCommand\<close>, the service thread wakes up in \<open>processEvents\<close>, runs the handlers of the
  ready descriptors (\<open>readCommandPipe\<close> among them) and then all commands (\<open>runCommands\<close>).

  The threads interleave at the granularity of the critical sections: one step is one section
  under \<open>q->lock\<close>, one system call on the descriptor, or one command that is run.  The nodes
  are cells of a heap, a cell that is not allocated is \<^const>\<open>None\<close>, and an access to such a
  cell sets the flag \<open>q_fault\<close>.  The lists \<open>q_sent\<close> and \<open>q_ran\<close> are histories: the commands
  in the order of their critical sections, and the commands the service thread ran.
\<close>

section \<open>Data\<close>

record SvcCommand =
  cmd_func :: nat
  cmd_arg :: ptr

record SvcCommandNode =
  cn_next :: "nat option"
  cn_cmd :: SvcCommand

record SvcCommandQueue =
  cq_first :: "nat option"
  cq_last :: "nat option"
  cq_mustwake :: bool
  cq_efd :: nat

text \<open>
  A thread that enqueues a command is before its critical section, with the node it allocated,
  or behind it, with the value of \<open>mustwake\<close> it took.  The service thread waits, is about to
  clear \<open>mustwake\<close>, dispatches the ready descriptors (the flag tells whether the descriptor of
  the queue is one of them), is about to take the list, runs the list, or raises
  \<open>eventsDone\<close>.
\<close>

datatype producer = P_Idle | P_Lock nat | P_Write bool

datatype svc_pc = S_Wait | S_Clear bool | S_Dispatch bool | S_Take | S_Run "nat option" | S_Done

record qstate =
  q_mem :: "nat \<Rightarrow> SvcCommandNode option"
  q_new :: nat
  q_q :: SvcCommandQueue
  q_prod :: "producer list"
  q_svc :: svc_pc
  q_sent :: "SvcCommand list"
  q_ran :: "SvcCommand list"
  q_fault :: bool

section \<open>Operations\<close>

text \<open>The largest value of the counter of an \<open>eventfd\<close>: a write beyond it fails with \<open>EAGAIN\<close>.\<close>

definition efd_max :: int where "efd_max = 2 ^ 64 - 2"

definition efd_write :: "nat \<Rightarrow> nat" where
  "efd_write n = (if int n < efd_max then n + 1 else n)"

definition initCommandQueue :: "nat \<Rightarrow> qstate" where
  "initCommandQueue n = \<lparr>q_mem = (\<lambda>_. None), q_new = 0,
     q_q = \<lparr>cq_first = None, cq_last = None, cq_mustwake = True, cq_efd = 0\<rparr>,
     q_prod = replicate n P_Idle, q_svc = S_Wait, q_sent = [], q_ran = [], q_fault = False\<rparr>"

text \<open>\<open>enqueueCommand\<close>: the node, the critical section, the write to the descriptor.\<close>

definition enqueue_alloc :: "nat \<Rightarrow> SvcCommand \<Rightarrow> qstate \<Rightarrow> qstate" where
  "enqueue_alloc t cmd s = s\<lparr>q_mem := (q_mem s)(q_new s \<mapsto> \<lparr>cn_next = None, cn_cmd = cmd\<rparr>),
     q_new := q_new s + 1, q_prod := (q_prod s)[t := P_Lock (q_new s)]\<rparr>"

definition link_last :: "nat \<Rightarrow> qstate \<Rightarrow> qstate" where
  "link_last n s = (case cq_last (q_q s) of
     Some l \<Rightarrow> (case q_mem s l of
         Some nd \<Rightarrow> s\<lparr>q_mem := (q_mem s)(l \<mapsto> nd\<lparr>cn_next := Some n\<rparr>)\<rparr>
       | None \<Rightarrow> s\<lparr>q_fault := True\<rparr>)
   | None \<Rightarrow> s\<lparr>q_q := (q_q s)\<lparr>cq_first := Some n\<rparr>\<rparr>)"

definition enqueue_section :: "nat \<Rightarrow> nat \<Rightarrow> qstate \<Rightarrow> qstate" where
  "enqueue_section t n s =
     (let s1 = link_last n s;
          mustwake = cq_mustwake (q_q s1) in
      s1\<lparr>q_q := (q_q s1)\<lparr>cq_last := Some n, cq_mustwake := False\<rparr>,
        q_prod := (q_prod s1)[t := P_Write mustwake],
        q_sent := q_sent s1 @ (case q_mem s n of Some nd \<Rightarrow> [cn_cmd nd] | None \<Rightarrow> [])\<rparr>)"

definition enqueue_wake :: "nat \<Rightarrow> bool \<Rightarrow> qstate \<Rightarrow> qstate" where
  "enqueue_wake t mustwake s =
     s\<lparr>q_q := (if mustwake then (q_q s)\<lparr>cq_efd := efd_write (cq_efd (q_q s))\<rparr> else q_q s),
       q_prod := (q_prod s)[t := P_Idle]\<rparr>"

definition clearMustWake :: "qstate \<Rightarrow> qstate" where
  "clearMustWake s = s\<lparr>q_q := (q_q s)\<lparr>cq_mustwake := False\<rparr>\<rparr>"

text \<open>Reading an \<open>eventfd\<close> resets its counter; the next read would block and ends the loop.\<close>

definition readCommandPipe :: "qstate \<Rightarrow> qstate" where
  "readCommandPipe s = s\<lparr>q_q := (q_q s)\<lparr>cq_efd := 0\<rparr>\<rparr>"

text \<open>\<open>runCommands\<close>: the critical section, and one round of its loop.\<close>

definition runCommands_take :: "qstate \<Rightarrow> qstate" where
  "runCommands_take s = s\<lparr>q_svc := S_Run (cq_first (q_q s)),
     q_q := (q_q s)\<lparr>cq_first := None, cq_last := None, cq_mustwake := True\<rparr>\<rparr>"

definition runCommands_round :: "nat \<Rightarrow> qstate \<Rightarrow> qstate" where
  "runCommands_round n s = (case q_mem s n of
     Some nd \<Rightarrow> s\<lparr>q_ran := q_ran s @ [cn_cmd nd], q_mem := (q_mem s)(n := None),
                  q_svc := S_Run (cn_next nd)\<rparr>
   | None \<Rightarrow> s\<lparr>q_fault := True\<rparr>)"

text \<open>
  The loop of the service thread: \<open>processEvents\<close> waits for the descriptors, clears the mark,
  and dispatches what was ready when the wait ended; then come the commands and
  \<open>eventsDone\<close>.  The wait ends when the descriptor of the queue is ready, or because another
  descriptor is (\<open>other\<close>).
\<close>

definition svc_step :: "bool \<Rightarrow> qstate \<Rightarrow> qstate option" where
  "svc_step other s = (case q_svc s of
     S_Wait \<Rightarrow> if other \<or> 0 < cq_efd (q_q s)
                then Some (s\<lparr>q_svc := S_Clear (0 < cq_efd (q_q s))\<rparr>) else None
   | S_Clear rdy \<Rightarrow> Some ((clearMustWake s)\<lparr>q_svc := S_Dispatch rdy\<rparr>)
   | S_Dispatch rdy \<Rightarrow> Some ((if rdy then readCommandPipe s else s)\<lparr>q_svc := S_Take\<rparr>)
   | S_Take \<Rightarrow> Some (runCommands_take s)
   | S_Run None \<Rightarrow> Some (s\<lparr>q_svc := S_Done\<rparr>)
   | S_Run (Some n) \<Rightarrow> Some (runCommands_round n s)
   | S_Done \<Rightarrow> Some (s\<lparr>q_svc := S_Wait\<rparr>))"

definition prod_step :: "nat \<Rightarrow> qstate \<Rightarrow> qstate option" where
  "prod_step t s = (if t < length (q_prod s) then
     (case q_prod s ! t of
        P_Idle \<Rightarrow> None
      | P_Lock n \<Rightarrow> Some (enqueue_section t n s)
      | P_Write mustwake \<Rightarrow> Some (enqueue_wake t mustwake s))
     else None)"

inductive q_step :: "qstate \<Rightarrow> qstate \<Rightarrow> bool" where
  q_send: "t < length (q_prod s) \<Longrightarrow> q_prod s ! t = P_Idle \<Longrightarrow> q_step s (enqueue_alloc t cmd s)"
| q_producer: "prod_step t s = Some s' \<Longrightarrow> q_step s s'"
| q_service: "svc_step other s = Some s' \<Longrightarrow> q_step s s'"

inductive q_reach :: "nat \<Rightarrow> qstate \<Rightarrow> bool" for n where
  q_start: "q_reach n (initCommandQueue n)"
| q_next: "q_reach n s \<Longrightarrow> q_step s s' \<Longrightarrow> q_reach n s'"

section \<open>Invariant\<close>

fun chain :: "(nat \<Rightarrow> SvcCommandNode option) \<Rightarrow> nat option \<Rightarrow> nat list \<Rightarrow> bool" where
  "chain mem p [] \<longleftrightarrow> p = None"
| "chain mem p (x # xs) \<longleftrightarrow> p = Some x \<and> (\<exists>nd. mem x = Some nd \<and> chain mem (cn_next nd) xs)"

definition cmds :: "(nat \<Rightarrow> SvcCommandNode option) \<Rightarrow> nat list \<Rightarrow> SvcCommand list" where
  "cmds mem xs = map (\<lambda>x. cn_cmd (the (mem x))) xs"

lemma chain_alloc: "chain mem p xs \<Longrightarrow> x \<in> set xs \<Longrightarrow> mem x \<noteq> None"
  by (induction xs arbitrary: p) auto

lemma chain_upd [simp]: "a \<notin> set xs \<Longrightarrow> chain (mem(a := v)) p xs = chain mem p xs"
  by (induction xs arbitrary: p) auto

lemma cmds_upd [simp]: "a \<notin> set xs \<Longrightarrow> cmds (mem(a := v)) xs = cmds mem xs"
  by (auto simp: cmds_def)

lemma cmds_simps [simp]: "cmds mem [] = []" "cmds mem (x # xs) = cn_cmd (the (mem x)) # cmds mem xs"
  "cmds mem (xs @ ys) = cmds mem xs @ cmds mem ys"
  by (simp_all add: cmds_def)

lemma cmds_next: "mem l = Some nd \<Longrightarrow> cmds (mem(l \<mapsto> nd\<lparr>cn_next := p\<rparr>)) xs = cmds mem xs"
  by (auto simp: cmds_def)

text \<open>Linking a node behind the last one of a chain.\<close>

lemma chain_link:
  "chain mem p xs \<Longrightarrow> distinct xs \<Longrightarrow> n \<notin> set xs \<Longrightarrow> xs \<noteq> [] \<Longrightarrow> mem (last xs) = Some nd
   \<Longrightarrow> mem n = Some nn \<Longrightarrow> cn_next nn = None
   \<Longrightarrow> chain (mem(last xs \<mapsto> nd\<lparr>cn_next := Some n\<rparr>)) p (xs @ [n])"
proof (induction xs arbitrary: p)
  case (Cons x xs)
  show ?case
  proof (cases "xs = []")
    case True
    with Cons.prems show ?thesis by auto
  next
    case False
    with Cons.prems have "x \<noteq> last xs" by auto
    with False Cons show ?thesis by auto
  qed
qed simp

definition pending :: "producer list \<Rightarrow> nat list" where
  "pending ps = concat (map (\<lambda>p. case p of P_Lock n \<Rightarrow> [n] | _ \<Rightarrow> []) ps)"

definition svc_list :: "svc_pc \<Rightarrow> nat option" where
  "svc_list pc = (case pc of S_Run p \<Rightarrow> p | _ \<Rightarrow> None)"

definition q_rep :: "qstate \<Rightarrow> nat list \<Rightarrow> nat list \<Rightarrow> bool" where
  "q_rep s xs ys \<longleftrightarrow>
     chain (q_mem s) (cq_first (q_q s)) xs \<and> cq_last (q_q s) = (if xs = [] then None else Some (last xs)) \<and>
     chain (q_mem s) (svc_list (q_svc s)) ys \<and> distinct (xs @ ys @ pending (q_prod s)) \<and>
     (\<forall>x \<in> set (xs @ ys @ pending (q_prod s)). x < q_new s) \<and>
     (\<forall>x \<in> set (pending (q_prod s)). \<exists>nd. q_mem s x = Some nd \<and> cn_next nd = None) \<and>
     q_sent s = q_ran s @ cmds (q_mem s) ys @ cmds (q_mem s) xs \<and> \<not> q_fault s"

text \<open>A wake-up is on its way: the descriptor is readable, or a thread is about to write to it.\<close>

definition waking :: "qstate \<Rightarrow> bool" where
  "waking s \<longleftrightarrow> 0 < cq_efd (q_q s) \<or> P_Write True \<in> set (q_prod s)"

definition armed :: "svc_pc \<Rightarrow> bool" where
  "armed pc \<longleftrightarrow> (case pc of S_Wait \<Rightarrow> True | S_Run _ \<Rightarrow> True | S_Done \<Rightarrow> True | _ \<Rightarrow> False)"

definition wake_inv :: "qstate \<Rightarrow> bool" where
  "wake_inv s \<longleftrightarrow> (armed (q_svc s) \<longrightarrow>
     waking s \<or> (cq_mustwake (q_q s) \<and> cq_first (q_q s) = None))"

lemma pending_split:
  assumes "t < length ps"
  obtains a b where "pending ps = a @ pending [ps ! t] @ b" "\<And>v. pending (ps[t := v]) = a @ pending [v] @ b"
proof
  show "pending ps = pending (take t ps) @ pending [ps ! t] @ pending (drop (Suc t) ps)"
    using id_take_nth_drop [OF assms] by (metis (no_types) pending_def concat_append map_append append_Cons append_Nil)
  show "pending (ps[t := v]) = pending (take t ps) @ pending [v] @ pending (drop (Suc t) ps)" for v
    using assms by (simp add: upd_conv_take_nth_drop pending_def)
qed

lemma pending_one [simp]: "pending [P_Idle] = []" "pending [P_Lock n] = [n]" "pending [P_Write b] = []"
  "pending (replicate k P_Idle) = []"
  by (auto simp: pending_def)

lemma svc_list_simps [simp]: "svc_list (S_Run p) = p" "svc_list S_Wait = None" "svc_list (S_Clear b) = None"
  "svc_list (S_Dispatch b) = None" "svc_list S_Take = None" "svc_list S_Done = None"
  by (simp_all add: svc_list_def)

lemma armed_simps [simp]: "armed S_Wait" "armed (S_Run p)" "armed S_Done" "\<not> armed (S_Clear b)"
  "\<not> armed (S_Dispatch b)" "\<not> armed S_Take"
  by (simp_all add: armed_def)

lemma rep_init: "q_rep (initCommandQueue n) [] []"
  by (simp add: q_rep_def initCommandQueue_def)

lemma rep_alloc:
  assumes "q_rep s xs ys" "t < length (q_prod s)" "q_prod s ! t = P_Idle"
  shows "q_rep (enqueue_alloc t cmd s) xs ys"
proof -
  obtain a b where ab: "pending (q_prod s) = a @ b" "pending ((q_prod s)[t := P_Lock (q_new s)]) = a @ q_new s # b"
    using pending_split [OF assms(2)] assms(3) by (metis pending_one append_Nil append_Cons)
  have "q_new s \<notin> set (xs @ ys @ a @ b)"
    using assms(1) unfolding q_rep_def ab by (metis less_irrefl)
  then show ?thesis
    using assms(1) unfolding q_rep_def enqueue_alloc_def ab
    by (auto simp: ab less_Suc_eq)
qed

text \<open>The critical section appends the node to the chain of the queue.\<close>

lemma rep_section:
  assumes "q_rep s xs ys" "t < length (q_prod s)" "q_prod s ! t = P_Lock n"
  shows "q_rep (enqueue_section t n s) (xs @ [n]) ys"
proof -
  obtain a b where ab: "pending (q_prod s) = a @ n # b" "pending ((q_prod s)[t := P_Write m]) = a @ b" for m
    using pending_split [OF assms(2)] assms(3) by (metis pending_one append_Nil append_Cons)
  obtain nn where nn: "q_mem s n = Some nn" "cn_next nn = None" "n \<notin> set (xs @ ys)"
    using assms(1) unfolding q_rep_def ab by auto
  show ?thesis
  proof (cases "xs = []")
    case True
    with assms(1) nn show ?thesis
      by (auto simp: q_rep_def enqueue_section_def link_last_def Let_def ab)
  next
    case False
    with assms(1) obtain nd where nd: "q_mem s (last xs) = Some nd"
      using chain_alloc [of "q_mem s" "cq_first (q_q s)" xs "last xs"] by (auto simp: q_rep_def)
    have new: "enqueue_section t n s = s\<lparr>q_mem := (q_mem s)(last xs \<mapsto> nd\<lparr>cn_next := Some n\<rparr>),
        q_q := (q_q s)\<lparr>cq_last := Some n, cq_mustwake := False\<rparr>,
        q_prod := (q_prod s)[t := P_Write (cq_mustwake (q_q s))], q_sent := q_sent s @ [cn_cmd nn]\<rparr>"
      using assms(1) False nd nn by (simp add: q_rep_def enqueue_section_def link_last_def Let_def)
    have "set xs \<inter> set (ys @ a @ n # b) = {}"
      using assms(1) unfolding q_rep_def ab by auto
    then have off: "last xs \<notin> set ys" "last xs \<noteq> n" "last xs \<notin> set (a @ b)"
      using last_in_set [OF False] unfolding disjoint_iff set_append list.set by blast+
    show ?thesis
      using assms(1) nn nd off False chain_link [of "q_mem s" "cq_first (q_q s)" xs n nd nn]
      unfolding q_rep_def new by (auto simp: ab cmds_next)
  qed
qed

lemma rep_wake:
  assumes "q_rep s xs ys" "t < length (q_prod s)" "q_prod s ! t = P_Write m"
  shows "q_rep (enqueue_wake t m s) xs ys"
proof -
  have "pending ((q_prod s)[t := P_Idle]) = pending (q_prod s)"
    using pending_split [OF assms(2)] assms(3) by (metis pending_one)
  then show ?thesis
    using assms(1) by (cases m) (simp_all add: q_rep_def enqueue_wake_def)
qed

lemma rep_prod_step: "q_rep s xs ys \<Longrightarrow> prod_step t s = Some s' \<Longrightarrow> \<exists>xs'. q_rep s' xs' ys"
  by (auto simp: prod_step_def split: if_splits producer.splits intro: rep_section rep_wake)

lemma rep_take: "q_rep s xs ys \<Longrightarrow> q_svc s = S_Take \<Longrightarrow> q_rep (runCommands_take s) [] xs"
  by (cases ys) (auto simp: q_rep_def runCommands_take_def)

lemma rep_round:
  assumes "q_rep s xs ys" "q_svc s = S_Run (Some n)"
  shows "\<exists>zs. ys = n # zs \<and> q_rep (runCommands_round n s) xs zs"
proof -
  obtain zs nd where zs: "ys = n # zs" "q_mem s n = Some nd" "chain (q_mem s) (cn_next nd) zs"
    using assms by (cases ys) (auto simp: q_rep_def)
  have "q_rep (runCommands_round n s) xs zs"
    using assms zs unfolding q_rep_def runCommands_round_def by auto
  with zs show ?thesis by blast
qed

lemma rep_svc_pc: "q_rep s xs ys \<Longrightarrow> svc_list (q_svc s) = None \<Longrightarrow> svc_list pc = None \<Longrightarrow> q_rep (s\<lparr>q_svc := pc\<rparr>) xs ys"
  by (simp add: q_rep_def)

lemma rep_mark: "q_rep (clearMustWake s) xs ys = q_rep s xs ys" "q_rep (readCommandPipe s) xs ys = q_rep s xs ys"
  by (simp_all add: q_rep_def clearMustWake_def readCommandPipe_def)

lemma rep_svc_step:
  assumes "q_rep s xs ys" "svc_step other s = Some s'"
  shows "\<exists>xs ys. q_rep s' xs ys"
proof (cases "q_svc s")
  case S_Take
  with assms rep_take [OF assms(1)] show ?thesis by (auto simp: svc_step_def)
next
  case (S_Run p)
  with assms rep_round [OF assms(1)] rep_svc_pc [OF assms(1), of S_Done] show ?thesis
    by (cases p) (auto simp: svc_step_def)
next
  case S_Wait
  with assms have "q_rep s' xs ys"
    by (auto simp: svc_step_def split: if_splits intro!: rep_svc_pc)
  then show ?thesis by blast
next
  case (S_Clear b)
  have "q_svc (clearMustWake s) = q_svc s" by (simp add: clearMustWake_def)
  with S_Clear assms have "q_rep s' xs ys"
    by (auto simp: svc_step_def rep_mark intro!: rep_svc_pc)
  then show ?thesis by blast
next
  case (S_Dispatch b)
  have "q_svc (readCommandPipe s) = q_svc s" by (simp add: readCommandPipe_def)
  with S_Dispatch assms have "q_rep s' xs ys"
    by (auto simp: svc_step_def rep_mark intro!: rep_svc_pc)
  then show ?thesis by blast
next
  case S_Done
  with assms have "q_rep s' xs ys" by (auto simp: svc_step_def intro!: rep_svc_pc)
  then show ?thesis by blast
qed

lemma efd_write_pos [simp]: "0 < efd_write n"
  by (simp add: efd_write_def efd_max_def)

lemma wake_init: "wake_inv (initCommandQueue n)"
  by (simp add: wake_inv_def initCommandQueue_def)

lemma write_kept: "P_Write True \<in> set ps \<Longrightarrow> t < length ps \<Longrightarrow> ps ! t \<noteq> P_Write True \<Longrightarrow> P_Write True \<in> set (ps[t := v])"
  by (metis in_set_conv_nth length_list_update nth_list_update_neq)

lemma wake_alloc: "wake_inv s \<Longrightarrow> t < length (q_prod s) \<Longrightarrow> q_prod s ! t = P_Idle \<Longrightarrow> wake_inv (enqueue_alloc t cmd s)"
  by (auto simp: wake_inv_def waking_def enqueue_alloc_def intro: write_kept)

lemma wake_section: "wake_inv s \<Longrightarrow> t < length (q_prod s) \<Longrightarrow> q_prod s ! t = P_Lock n \<Longrightarrow> wake_inv (enqueue_section t n s)"
  by (auto simp: wake_inv_def waking_def enqueue_section_def link_last_def Let_def set_update_memI
      split: option.splits intro: write_kept)

lemma wake_wake: "wake_inv s \<Longrightarrow> t < length (q_prod s) \<Longrightarrow> q_prod s ! t = P_Write m \<Longrightarrow> wake_inv (enqueue_wake t m s)"
  by (cases m) (auto simp: wake_inv_def waking_def enqueue_wake_def intro: write_kept)

lemma wake_prod_step: "wake_inv s \<Longrightarrow> prod_step t s = Some s' \<Longrightarrow> wake_inv s'"
  by (auto simp: prod_step_def split: if_splits producer.splits intro: wake_section wake_wake)

lemma wake_svc_step: "wake_inv s \<Longrightarrow> svc_step other s = Some s' \<Longrightarrow> wake_inv s'"
  by (auto simp: svc_step_def wake_inv_def waking_def clearMustWake_def readCommandPipe_def runCommands_take_def
      runCommands_round_def split: svc_pc.splits option.splits if_splits)

lemma reach_inv: "q_reach n s \<Longrightarrow> (\<exists>xs ys. q_rep s xs ys) \<and> wake_inv s"
proof (induction rule: q_reach.induct)
  case q_start
  show ?case using rep_init wake_init by blast
next
  case (q_next s s')
  from q_next.hyps(2) q_next.IH show ?case
  proof (cases rule: q_step.cases)
    case (q_send t cmd)
    with q_next.IH show ?thesis using rep_alloc wake_alloc by blast
  next
    case (q_producer t)
    with q_next.IH show ?thesis using rep_prod_step wake_prod_step by blast
  next
    case (q_service other)
    with q_next.IH show ?thesis using rep_svc_step wake_svc_step by blast
  qed
qed

section \<open>The service thread catches up\<close>











section \<open>Properties\<close>

text \<open>
  C24: However many threads send commands to a service thread, and however their steps interleave
  with its loop, no freed node of the queue is ever accessed, and the commands that were run are
  a prefix of the commands sent, in the order of the critical sections of the senders: each is
  run at most once, and none overtakes another.  When the service waits with an empty queue,
  all of them were run.
\<close>
theorem command_queue_fifo:
  assumes "q_reach n s"
  shows "\<not> q_fault s \<and> (\<exists>rest. q_sent s = q_ran s @ rest) \<and>
    (q_svc s = S_Wait \<and> cq_first (q_q s) = None \<longrightarrow> q_ran s = q_sent s)"
proof -
  obtain xs ys where rep: "q_rep s xs ys" using reach_inv [OF assms] by blast
  have "xs = [] \<and> ys = []" if "q_svc s = S_Wait" "cq_first (q_q s) = None"
    using rep that by (cases xs; cases ys) (simp_all add: q_rep_def)
  with rep show ?thesis by (auto simp: q_rep_def)
qed

definition cmd1 :: SvcCommand where "cmd1 = \<lparr>cmd_func = 1, cmd_arg = 7\<rparr>"

definition sent_one :: qstate where
  "sent_one = enqueue_wake 0 True (enqueue_section 0 0 (enqueue_alloc 0 cmd1 (initCommandQueue 1)))"

lemma sent_one_reach: "q_reach 1 sent_one"
proof -
  define s0 where "s0 = initCommandQueue 1"
  have r0: "q_reach 1 s0" unfolding s0_def by (rule q_start)
  have r1: "q_reach 1 (enqueue_alloc 0 cmd1 s0)"
    by (rule q_next [OF r0 q_send]) (simp_all add: s0_def initCommandQueue_def)
  have r2: "q_reach 1 (enqueue_section 0 0 (enqueue_alloc 0 cmd1 s0))"
    by (rule q_next [OF r1 q_producer [of 0]]) (simp add: prod_step_def s0_def initCommandQueue_def enqueue_alloc_def)
  show ?thesis
    unfolding sent_one_def s0_def [symmetric]
    by (rule q_next [OF r2 q_producer [of 0]])
      (simp add: prod_step_def s0_def initCommandQueue_def enqueue_alloc_def enqueue_section_def link_last_def Let_def)
qed

lemma sent_one_state: "list_all (\<lambda>p. p = P_Idle) (q_prod sent_one)" "q_sent sent_one = [cmd1]"
  "q_ran sent_one = []" "q_svc sent_one = S_Wait"
  by (simp_all add: sent_one_def enqueue_wake_def enqueue_section_def link_last_def enqueue_alloc_def
      initCommandQueue_def Let_def)

theorem command_queue_fifo_witness: "\<not> q_fault sent_one \<and> (\<exists>rest. [cmd1] = q_ran sent_one @ rest)"
  using command_queue_fifo [OF sent_one_reach] sent_one_state by simp



end
