(* ===== verification/Poser_SvcLockfree.thy ===== *)
theory Poser_SvcLockfree
  imports Poser_SvcQueue
begin

text \<open>
  The command queue of a service thread in the build with lock-free atomics, which is the usual
  one (\<open>src/lib/core/service.c\<close>, \<open>enqueueLockfree\<close>, \<open>runCommands\<close>, \<open>enqueueCommand\<close>, and
  \<open>SharedObj_retire\<close> of \<open>sharedobj.c\<close>).  The queue always holds a node: \<open>first\<close> points to a
  node whose command was run already, \<open>last\<close> to a node near the end.

  One step is one atomic access of one thread, and the accesses are sequentially consistent: what
  can happen here can happen under the weaker orders the code asks for as well.
  \<open>SOM_reserve\<close> is its final read of the pointer.  A node that was retired keeps its memory:
  the queue of a service thread that retired fewer than 1024 nodes never frees one, see
  \<open>Poser_SharedObj\<close> for the reclamation.  Histories: \<open>lf_sent\<close> are the commands whose call of
  \<open>enqueueLockfree\<close> took effect, \<open>lf_ran\<close> the commands that were run.
\<close>

section \<open>Data\<close>

record LfNode =
  ln_next :: "nat option"
  ln_cmd :: "SvcCommand option"

text \<open>
  A call of \<open>enqueueLockfree\<close> with its node: it is about to read \<open>last\<close>, to read the
  successor of the node it found there, to compare and exchange, or to move \<open>last\<close> behind its
  own node.
\<close>

datatype enq = E_Reserve nat | E_Load nat nat | E_Link nat nat "nat option" | E_Swing nat nat

datatype lf_producer = LP_Idle | LP_Enq enq | LP_Exchange | LP_Write bool

datatype lf_pc =
    L_Wait | L_Clear bool | L_Dispatch bool | L_Load | L_Store "nat option"
  | L_Enq enq nat nat | L_Retire nat nat | L_Run nat nat | L_Done

record lfstate =
  lf_mem :: "nat \<Rightarrow> LfNode option"
  lf_new :: nat
  lf_first :: nat
  lf_last :: nat
  lf_mustwake :: bool
  lf_efd :: nat
  lf_retired :: "nat option"
  lf_prod :: "lf_producer list"
  lf_svc :: lf_pc
  lf_sent :: "SvcCommand list"
  lf_ran :: "SvcCommand list"
  lf_fault :: bool

section \<open>Operations\<close>

definition lf_init :: "nat \<Rightarrow> lfstate" where
  "lf_init n = \<lparr>lf_mem = [0 \<mapsto> \<lparr>ln_next = None, ln_cmd = None\<rparr>], lf_new = 1, lf_first = 0, lf_last = 0,
     lf_mustwake = True, lf_efd = 0, lf_retired = None, lf_prod = replicate n LP_Idle, lf_svc = L_Wait,
     lf_sent = [], lf_ran = [], lf_fault = False\<rparr>"

definition SharedObj_create_node :: "SvcCommand option \<Rightarrow> lfstate \<Rightarrow> lfstate \<times> nat" where
  "SharedObj_create_node cmd s =
     (s\<lparr>lf_mem := (lf_mem s)(lf_new s \<mapsto> \<lparr>ln_next = None, ln_cmd = cmd\<rparr>), lf_new := lf_new s + 1\<rparr>, lf_new s)"

definition node_cmds :: "LfNode option \<Rightarrow> SvcCommand list" where
  "node_cmds nd = (case nd of Some x \<Rightarrow> (case ln_cmd x of Some c \<Rightarrow> [c] | None \<Rightarrow> []) | None \<Rightarrow> [])"

text \<open>One atomic access of \<open>enqueueLockfree\<close>; the result \<^const>\<open>None\<close> means that it returned.\<close>

definition enqueueLockfree :: "enq \<Rightarrow> lfstate \<Rightarrow> lfstate \<times> enq option" where
  "enqueueLockfree e s = (case e of
     E_Reserve node \<Rightarrow> (s, Some (E_Load node (lf_last s)))
   | E_Load node l \<Rightarrow> (case lf_mem s l of
         Some nd \<Rightarrow> (s, Some (E_Link node l (ln_next nd)))
       | None \<Rightarrow> (s\<lparr>lf_fault := True\<rparr>, None))
   | E_Link node l None \<Rightarrow> (case lf_mem s l of
         Some nd \<Rightarrow> if ln_next nd = None
           then (s\<lparr>lf_mem := (lf_mem s)(l \<mapsto> nd\<lparr>ln_next := Some node\<rparr>),
                   lf_sent := lf_sent s @ node_cmds (lf_mem s node)\<rparr>, Some (E_Swing node l))
           else (s, Some (E_Reserve node))
       | None \<Rightarrow> (s\<lparr>lf_fault := True\<rparr>, None))
   | E_Link node l (Some next) \<Rightarrow>
       (if lf_last s = l then s\<lparr>lf_last := next\<rparr> else s, Some (E_Reserve node))
   | E_Swing node l \<Rightarrow> (if lf_last s = l then s\<lparr>lf_last := node\<rparr> else s, None))"

text \<open>\<open>SharedObj_retire\<close> puts the node on the list of retired objects, linked by the same field.\<close>

definition retire_node :: "nat \<Rightarrow> lfstate \<Rightarrow> lfstate" where
  "retire_node n s = (case lf_mem s n of
     Some nd \<Rightarrow> s\<lparr>lf_mem := (lf_mem s)(n \<mapsto> nd\<lparr>ln_next := lf_retired s\<rparr>), lf_retired := Some n\<rparr>
   | None \<Rightarrow> s\<lparr>lf_fault := True\<rparr>)"

definition set_prod :: "nat \<Rightarrow> lf_producer \<Rightarrow> lfstate \<Rightarrow> lfstate" where
  "set_prod t p s = s\<lparr>lf_prod := (lf_prod s)[t := p]\<rparr>"

definition lf_send :: "nat \<Rightarrow> SvcCommand \<Rightarrow> lfstate \<Rightarrow> lfstate" where
  "lf_send t cmd s =
     (let (s1, n) = SharedObj_create_node (Some cmd) s in set_prod t (LP_Enq (E_Reserve n)) s1)"

text \<open>\<open>enqueueCommand\<close>: the node is linked, \<open>mustwake\<close> exchanged, and the descriptor written.\<close>

definition lf_prod_step :: "nat \<Rightarrow> lfstate \<Rightarrow> lfstate option" where
  "lf_prod_step t s = (if t < length (lf_prod s) then
     (case lf_prod s ! t of
        LP_Idle \<Rightarrow> None
      | LP_Enq e \<Rightarrow> (let (s1, e') = enqueueLockfree e s in
          Some (set_prod t (case e' of Some e1 \<Rightarrow> LP_Enq e1 | None \<Rightarrow> LP_Exchange) s1))
      | LP_Exchange \<Rightarrow> Some (set_prod t (LP_Write (lf_mustwake s)) (s\<lparr>lf_mustwake := False\<rparr>))
      | LP_Write mustwake \<Rightarrow> Some (set_prod t LP_Idle
          (if mustwake then s\<lparr>lf_efd := efd_write (lf_efd s)\<rparr> else s)))
     else None)"

definition next_of :: "nat \<Rightarrow> lfstate \<Rightarrow> nat option" where
  "next_of n s = (case lf_mem s n of Some nd \<Rightarrow> ln_next nd | None \<Rightarrow> None)"

text \<open>\<open>runCommands\<close>, one round of its loop: run the command, read the successor, retire the node.\<close>

definition lf_round :: "nat \<Rightarrow> nat \<Rightarrow> lfstate \<Rightarrow> lfstate" where
  "lf_round n dummy s = (case lf_mem s n of
     Some nd \<Rightarrow> (case ln_next nd of
         Some next \<Rightarrow> (retire_node n s)\<lparr>lf_ran := lf_ran s @ node_cmds (lf_mem s n), lf_svc := L_Run next dummy\<rparr>
       | None \<Rightarrow> s\<lparr>lf_fault := True\<rparr>)
   | None \<Rightarrow> s\<lparr>lf_fault := True\<rparr>)"

definition lf_svc_step :: "bool \<Rightarrow> lfstate \<Rightarrow> lfstate option" where
  "lf_svc_step other s = (case lf_svc s of
     L_Wait \<Rightarrow> if other \<or> 0 < lf_efd s then Some (s\<lparr>lf_svc := L_Clear (0 < lf_efd s)\<rparr>) else None
   | L_Clear rdy \<Rightarrow> Some (s\<lparr>lf_mustwake := False, lf_svc := L_Dispatch rdy\<rparr>)
   | L_Dispatch rdy \<Rightarrow> Some ((if rdy then s\<lparr>lf_efd := 0\<rparr> else s)\<lparr>lf_svc := L_Load\<rparr>)
   | L_Load \<Rightarrow> Some (s\<lparr>lf_svc := L_Store (next_of (lf_first s) s)\<rparr>)
   | L_Store None \<Rightarrow> Some (s\<lparr>lf_mustwake := True, lf_svc := L_Done\<rparr>)
   | L_Store (Some torun) \<Rightarrow>
       (let (s1, dummy) = SharedObj_create_node None (s\<lparr>lf_mustwake := True\<rparr>) in
        Some (s1\<lparr>lf_svc := L_Enq (E_Reserve dummy) dummy torun\<rparr>))
   | L_Enq e dummy torun \<Rightarrow> (let (s1, e') = enqueueLockfree e s in
        Some (s1\<lparr>lf_svc := (case e' of Some e1 \<Rightarrow> L_Enq e1 dummy torun | None \<Rightarrow> L_Retire dummy torun)\<rparr>))
   | L_Retire dummy torun \<Rightarrow>
        Some ((retire_node (lf_first s) s)\<lparr>lf_first := dummy, lf_svc := L_Run torun dummy\<rparr>)
   | L_Run torun dummy \<Rightarrow>
        Some (if torun = dummy then s\<lparr>lf_svc := L_Done\<rparr> else lf_round torun dummy s)
   | L_Done \<Rightarrow> Some (s\<lparr>lf_svc := L_Wait\<rparr>))"

text \<open>What may happen next: a thread calls \<open>enqueueCommand\<close>, goes on with it, or the service goes on.\<close>

datatype lf_act = A_Send nat SvcCommand | A_Prod nat | A_Svc bool

definition lf_act :: "lf_act \<Rightarrow> lfstate \<Rightarrow> lfstate option" where
  "lf_act a s = (case a of
     A_Send t cmd \<Rightarrow> if t < length (lf_prod s) \<and> lf_prod s ! t = LP_Idle then Some (lf_send t cmd s) else None
   | A_Prod t \<Rightarrow> lf_prod_step t s
   | A_Svc other \<Rightarrow> lf_svc_step other s)"

fun lf_run :: "lf_act list \<Rightarrow> lfstate \<Rightarrow> lfstate option" where
  "lf_run [] s = Some s"
| "lf_run (a # as) s = Option.bind (lf_act a s) (lf_run as)"

definition lf_idle :: "lfstate \<Rightarrow> bool" where
  "lf_idle s \<longleftrightarrow> list_all (\<lambda>p. p = LP_Idle) (lf_prod s)"

section \<open>Two ways to lose a command\<close>

definition lost_wakeup_run :: "SvcCommand \<Rightarrow> lf_act list" where
  "lost_wakeup_run c = replicate 4 (A_Svc True) @ A_Send 0 c # replicate 6 (A_Prod 0) @ replicate 2 (A_Svc False)"

definition lost_command_run :: "SvcCommand \<Rightarrow> SvcCommand \<Rightarrow> lf_act list" where
  "lost_command_run c d = [A_Send 0 c, A_Prod 0, A_Send 1 d] @ replicate 6 (A_Prod 1)
     @ replicate 10 (A_Svc False) @ replicate 3 (A_Svc False) @ replicate 5 (A_Prod 0) @ replicate 6 (A_Svc False)"

inductive lf_reach :: "nat \<Rightarrow> lfstate \<Rightarrow> bool" for n where
  lf_start: "lf_reach n (lf_init n)"
| lf_next: "lf_reach n s \<Longrightarrow> lf_act a s = Some s' \<Longrightarrow> lf_reach n s'"

lemma lf_run_reach: "lf_reach n s \<Longrightarrow> lf_run as s = Some s' \<Longrightarrow> lf_reach n s'"
  by (induction as arbitrary: s) (auto split: Option.bind_splits intro: lf_next)

lemmas lf_eval = lf_init_def SharedObj_create_node_def node_cmds_def enqueueLockfree_def retire_node_def
  set_prod_def lf_send_def lf_prod_step_def next_of_def lf_round_def lf_svc_step_def lf_act_def lf_idle_def
  efd_write_def efd_max_def

text \<open>
  The lock-free queue can lose a wake-up.  The service thread reads that the list is empty,
  another thread appends its command and takes the cleared \<open>mustwake\<close>, so it does not write
  to the descriptor, and only then does the service thread set \<open>mustwake\<close> and go to wait: it
  is blocked although a command is queued and nobody is about to wake it.
\<close>
theorem lockfree_lost_wakeup:
  "\<exists>s. lf_reach 1 s \<and> lf_idle s \<and> lf_svc_step False s = None \<and> next_of (lf_first s) s \<noteq> None \<and>
     lf_sent s = [c] \<and> lf_ran s = []"
proof -
  obtain s where s: "lf_run (lost_wakeup_run c) (lf_init 1) = Some s"
    "lf_idle s \<and> lf_svc_step False s = None \<and> next_of (lf_first s) s \<noteq> None \<and> lf_sent s = [c] \<and> lf_ran s = []"
    by (simp add: lost_wakeup_run_def lf_eval eval_nat_numeral Let_def)
  show ?thesis using lf_run_reach [OF lf_start s(1)] s(2) by blast
qed

text \<open>
  C25: The lock-free queue can lose a command for good.  \<open>SharedObj_retire\<close> links the retired
  node with the same field \<open>next\<close> as the queue: the first node a service thread retires gets a
  null successor again, and a thread that read \<open>last\<close> before takes it for the end of the
  queue and appends its command there.  Both senders have returned, the service thread has run
  all it can reach and waits at the end of the queue, but one of the commands was never run.
\<close>
theorem lockfree_lost_command:
  "\<exists>s. lf_reach 2 s \<and> lf_idle s \<and> lf_svc_step False s = None \<and> lf_first s = lf_last s \<and>
     next_of (lf_first s) s = None \<and> lf_sent s = [d, c] \<and> lf_ran s = [d] \<and> \<not> lf_fault s"
proof -
  obtain s where s: "lf_run (lost_command_run c d) (lf_init 2) = Some s"
    "lf_idle s \<and> lf_svc_step False s = None \<and> lf_first s = lf_last s \<and>
     next_of (lf_first s) s = None \<and> lf_sent s = [d, c] \<and> lf_ran s = [d] \<and> \<not> lf_fault s"
    by (simp add: lost_command_run_def lf_eval eval_nat_numeral Let_def)
  show ?thesis using lf_run_reach [OF lf_start s(1)] s(2) by blast
qed

end
