(* ===== verification/Poser_SvcWatch.thy ===== *)
theory Poser_SvcWatch
  imports Prelude
begin

text \<open>
  The descriptors a service thread watches (\<open>src/lib/core/service.c\<close>): \<open>PSC_Service_registerRead\<close>,
  \<open>PSC_Service_unregisterRead\<close>, \<open>PSC_Service_registerWrite\<close> and
  \<open>PSC_Service_unregisterWrite\<close> in the five back ends of the library: \<open>select\<close>, \<open>poll\<close>,
  \<open>epoll\<close>, event ports and \<open>kqueue\<close>.  The interface is the locale \<open>fd_watcher\<close>: every
  back end keeps a set of pairs of a descriptor and a direction.

  What the kernel remembers between the calls (the interest list of an \<open>epoll\<close> descriptor, the
  associations of an event port, the filters of a \<open>kqueue\<close>) is part of the state, with the
  documented effect of the system calls; errors of these calls are ignored by the code.
\<close>

section \<open>Interface\<close>

datatype dir = DRead | DWrite

datatype watch_op = Reg dir int | Unreg dir int

fun watch_spec :: "(int \<Rightarrow> bool) \<Rightarrow> watch_op list \<Rightarrow> (int \<times> dir) set \<Rightarrow> (int \<times> dir) set" where
  "watch_spec valid [] W = W"
| "watch_spec valid (Reg d fd # os) W = watch_spec valid os (if valid fd then insert (fd, d) W else W)"
| "watch_spec valid (Unreg d fd # os) W = watch_spec valid os (W - {(fd, d)})"

text \<open>A sequence of calls on a back end; \<^const>\<open>None\<close> is an access outside of its memory.\<close>

fun watch_run :: "(dir \<Rightarrow> int \<Rightarrow> 's \<Rightarrow> 's option) \<Rightarrow> (dir \<Rightarrow> int \<Rightarrow> 's \<Rightarrow> 's option) \<Rightarrow> watch_op list \<Rightarrow> 's \<Rightarrow> 's option" where
  "watch_run reg unreg [] s = Some s"
| "watch_run reg unreg (Reg d fd # os) s = Option.bind (reg d fd s) (watch_run reg unreg os)"
| "watch_run reg unreg (Unreg d fd # os) s = Option.bind (unreg d fd s) (watch_run reg unreg os)"

locale fd_watcher =
  fixes valid :: "int \<Rightarrow> bool"
    and reg unreg :: "dir \<Rightarrow> int \<Rightarrow> 's \<Rightarrow> 's option"
    and watched :: "'s \<Rightarrow> (int \<times> dir) set"
    and inv :: "'s \<Rightarrow> bool"
  assumes reg_watches: "inv s \<Longrightarrow> \<exists>s'. reg d fd s = Some s' \<and> inv s' \<and>
      watched s' = (if valid fd then insert (fd, d) (watched s) else watched s)"
    and unreg_watches: "inv s \<Longrightarrow> \<exists>s'. unreg d fd s = Some s' \<and> inv s' \<and> watched s' = watched s - {(fd, d)}"
begin

lemma run_watches:
  "inv s \<Longrightarrow> \<exists>s'. watch_run reg unreg os s = Some s' \<and> inv s' \<and> watched s' = watch_spec valid os (watched s)"
proof (induction os arbitrary: s)
  case (Cons a os)
  show ?case
  proof (cases a)
    case (Reg d fd)
    with reg_watches [OF Cons.prems, of d fd] Cons.IH show ?thesis by fastforce
  next
    case (Unreg d fd)
    with unreg_watches [OF Cons.prems, of d fd] Cons.IH show ?thesis by fastforce
  qed
qed simp

lemma run_watches_from:
  "inv s \<Longrightarrow> watched s = {} \<Longrightarrow> (\<And>fd. valid fd = ok fd)
   \<Longrightarrow> map_option watched (watch_run reg unreg os s) = Some (watch_spec ok os {})"
proof -
  assume s: "inv s" "watched s = {}" and "\<And>fd. valid fd = ok fd"
  then have "valid = ok" by blast
  with run_watches [OF s(1), of os] s(2) show ?thesis by auto
qed

end

lemma watch_spec_ok: "list_all (\<lambda>a. case a of Reg d fd \<Rightarrow> p fd = q fd | Unreg d fd \<Rightarrow> True) os
   \<Longrightarrow> watch_spec p os W = watch_spec q os W"
proof (induction os arbitrary: W)
  case (Cons a os)
  then show ?case by (cases a) simp_all
qed simp

section \<open>select\<close>

record select_svc =
  se_readfds :: "bool list"
  se_writefds :: "bool list"
  se_nread :: int
  se_nwrite :: int
  se_nfds :: int

definition isValidFd_select :: "nat \<Rightarrow> int \<Rightarrow> bool" where
  "isValidFd_select FD_SETSIZE fd \<longleftrightarrow> 0 \<le> fd \<and> fd < int FD_SETSIZE"

definition FD_ISSET :: "int \<Rightarrow> bool list \<Rightarrow> bool" where
  "FD_ISSET fd s = s ! nat fd"

text \<open>The loop of \<open>tryReduceNfds\<close> ends at the largest descriptor up to \<open>n - 1\<close> that is set, plus one.\<close>

fun reduce_loop :: "bool list \<Rightarrow> bool list \<Rightarrow> nat \<Rightarrow> nat" where
  "reduce_loop r w 0 = 0"
| "reduce_loop r w (Suc n) = (if r ! n \<or> w ! n then Suc n else reduce_loop r w n)"

definition tryReduceNfds :: "int \<Rightarrow> select_svc \<Rightarrow> select_svc" where
  "tryReduceNfds fd s =
     (if se_nread s = 0 \<and> se_nwrite s = 0 then s\<lparr>se_nfds := 0\<rparr>
      else if fd + 1 \<ge> se_nfds s
      then s\<lparr>se_nfds := int (reduce_loop (se_readfds s) (se_writefds s) (nat (fd + 1)))\<rparr> else s)"

definition select_registerRead :: "nat \<Rightarrow> int \<Rightarrow> select_svc \<Rightarrow> select_svc" where
  "select_registerRead sz fd s =
     (if \<not> isValidFd_select sz fd then s
      else if FD_ISSET fd (se_readfds s) then s
      else s\<lparr>se_readfds := (se_readfds s)[nat fd := True], se_nread := se_nread s + 1,
             se_nfds := (if fd \<ge> se_nfds s then fd + 1 else se_nfds s)\<rparr>)"

definition select_unregisterRead :: "nat \<Rightarrow> int \<Rightarrow> select_svc \<Rightarrow> select_svc" where
  "select_unregisterRead sz fd s =
     (if \<not> isValidFd_select sz fd then s
      else if \<not> FD_ISSET fd (se_readfds s) then s
      else tryReduceNfds fd (s\<lparr>se_readfds := (se_readfds s)[nat fd := False], se_nread := se_nread s - 1\<rparr>))"

definition select_registerWrite :: "nat \<Rightarrow> int \<Rightarrow> select_svc \<Rightarrow> select_svc" where
  "select_registerWrite sz fd s =
     (if \<not> isValidFd_select sz fd then s
      else if FD_ISSET fd (se_writefds s) then s
      else s\<lparr>se_writefds := (se_writefds s)[nat fd := True], se_nwrite := se_nwrite s + 1,
             se_nfds := (if fd \<ge> se_nfds s then fd + 1 else se_nfds s)\<rparr>)"

definition select_unregisterWrite :: "nat \<Rightarrow> int \<Rightarrow> select_svc \<Rightarrow> select_svc" where
  "select_unregisterWrite sz fd s =
     (if \<not> isValidFd_select sz fd then s
      else if \<not> FD_ISSET fd (se_writefds s) then s
      else tryReduceNfds fd (s\<lparr>se_writefds := (se_writefds s)[nat fd := False], se_nwrite := se_nwrite s - 1\<rparr>))"

definition select_init :: "nat \<Rightarrow> select_svc" where
  "select_init sz = \<lparr>se_readfds = replicate sz False, se_writefds = replicate sz False, se_nread = 0, se_nwrite = 0, se_nfds = 0\<rparr>"

definition select_reg :: "nat \<Rightarrow> dir \<Rightarrow> int \<Rightarrow> select_svc \<Rightarrow> select_svc option" where
  "select_reg sz d fd s = Some (case d of DRead \<Rightarrow> select_registerRead sz fd s | DWrite \<Rightarrow> select_registerWrite sz fd s)"

definition select_unreg :: "nat \<Rightarrow> dir \<Rightarrow> int \<Rightarrow> select_svc \<Rightarrow> select_svc option" where
  "select_unreg sz d fd s = Some (case d of DRead \<Rightarrow> select_unregisterRead sz fd s | DWrite \<Rightarrow> select_unregisterWrite sz fd s)"

text \<open>
  The invariant: the counters count the bits, and \<open>nfds\<close> is the least number that is larger
  than every watched descriptor, which is what \<open>select\<close> is called with.
\<close>

definition fdset :: "bool list \<Rightarrow> int set" where
  "fdset s = {fd. 0 \<le> fd \<and> fd < int (length s) \<and> s ! nat fd}"

definition select_watched :: "select_svc \<Rightarrow> (int \<times> dir) set" where
  "select_watched s = fdset (se_readfds s) \<times> {DRead} \<union> fdset (se_writefds s) \<times> {DWrite}"

definition top_of :: "int set \<Rightarrow> int \<Rightarrow> bool" where
  "top_of D n \<longleftrightarrow> 0 \<le> n \<and> (\<forall>fd \<in> D. 0 \<le> fd \<and> fd < n) \<and> (n \<noteq> 0 \<longrightarrow> n - 1 \<in> D)"

definition nfds_ok :: "select_svc \<Rightarrow> bool" where
  "nfds_ok s \<longleftrightarrow> top_of (fdset (se_readfds s) \<union> fdset (se_writefds s)) (se_nfds s)"

definition select_inv :: "nat \<Rightarrow> select_svc \<Rightarrow> bool" where
  "select_inv sz s \<longleftrightarrow> length (se_readfds s) = sz \<and> length (se_writefds s) = sz \<and>
     se_nread s = int (card (fdset (se_readfds s))) \<and> se_nwrite s = int (card (fdset (se_writefds s))) \<and> nfds_ok s"

lemma top_of_insert: "top_of D n \<Longrightarrow> 0 \<le> fd \<Longrightarrow> top_of (insert fd D) (if fd \<ge> n then fd + 1 else n)"
  by (fastforce simp: top_of_def)

lemma top_of_remove: "top_of (insert fd D) n \<Longrightarrow> fd \<noteq> n - 1 \<Longrightarrow> top_of D n"
  by (auto simp: top_of_def)

lemma fdset_nonneg: "fd \<in> fdset s \<Longrightarrow> 0 \<le> fd"
  by (simp add: fdset_def)

lemma finite_fdset [simp]: "finite (fdset s)"
  by (rule finite_subset [of _ "{0..int (length s)}"]) (auto simp: fdset_def)

lemma fdset_set: "0 \<le> fd \<Longrightarrow> fd < int (length s) \<Longrightarrow> fdset (s[nat fd := True]) = insert fd (fdset s)"
  by (auto simp: fdset_def nth_list_update)

lemma fdset_clr: "0 \<le> fd \<Longrightarrow> fdset (s[nat fd := False]) = fdset s - {fd}"
  by (cases "nat fd < length s") (auto simp: fdset_def nth_list_update)

lemma fdset_mem: "0 \<le> fd \<Longrightarrow> fd < int (length s) \<Longrightarrow> FD_ISSET fd s \<longleftrightarrow> fd \<in> fdset s"
  by (simp add: fdset_def FD_ISSET_def)

lemma reduce_loop_le: "reduce_loop r w n \<le> n"
  by (induction n) auto

lemma reduce_loop_above: "reduce_loop r w n \<le> i \<Longrightarrow> i < n \<Longrightarrow> \<not> r ! i \<and> \<not> w ! i"
  by (induction n) (auto split: if_splits elim: less_SucE)

lemma reduce_loop_at: "reduce_loop r w n \<noteq> 0 \<Longrightarrow> r ! (reduce_loop r w n - 1) \<or> w ! (reduce_loop r w n - 1)"
  by (induction n) auto

lemma tryReduceNfds_frame [simp]: "se_readfds (tryReduceNfds fd s) = se_readfds s"
  "se_writefds (tryReduceNfds fd s) = se_writefds s" "se_nread (tryReduceNfds fd s) = se_nread s"
  "se_nwrite (tryReduceNfds fd s) = se_nwrite s"
  by (simp_all add: tryReduceNfds_def)

lemma reduce_loop_fdset:
  fixes s :: select_svc and fd :: int
  defines "D \<equiv> fdset (se_readfds s) \<union> fdset (se_writefds s)"
  defines "n \<equiv> reduce_loop (se_readfds s) (se_writefds s) (nat (fd + 1))"
  assumes "length (se_readfds s) = sz" "length (se_writefds s) = sz" "0 \<le> fd" "fd < int sz" "\<forall>x \<in> D. x < fd + 1"
  shows "n \<le> sz" "\<forall>x \<in> D. x < int n" "n \<noteq> 0 \<longrightarrow> int n - 1 \<in> D"
proof -
  have le: "n \<le> nat (fd + 1)" unfolding n_def by (rule reduce_loop_le)
  with assms(6) show sz: "n \<le> sz" by simp
  show "\<forall>x \<in> D. x < int n"
  proof
    fix x assume x: "x \<in> D"
    then have x0: "0 \<le> x" "se_readfds s ! nat x \<or> se_writefds s ! nat x" by (auto simp: D_def fdset_def)
    have "nat x < nat (fd + 1)" using x assms(7) x0 by auto
    with x0 have "\<not> n \<le> nat x"
      using reduce_loop_above [of "se_readfds s" "se_writefds s" "nat (fd + 1)" "nat x"] by (auto simp: n_def)
    then show "x < int n" by simp
  qed
  show "n \<noteq> 0 \<longrightarrow> int n - 1 \<in> D"
  proof
    assume n: "n \<noteq> 0"
    then have "se_readfds s ! (n - 1) \<or> se_writefds s ! (n - 1)"
      using reduce_loop_at by (simp add: n_def)
    moreover have "nat (int n - 1) = n - 1" using n by simp
    ultimately show "int n - 1 \<in> D"
      using n sz assms(3,4) by (auto simp: D_def fdset_def)
  qed
qed

lemma tryReduceNfds_ok:
  fixes s :: select_svc
  defines "D \<equiv> fdset (se_readfds s) \<union> fdset (se_writefds s)"
  assumes "length (se_readfds s) = sz" "length (se_writefds s) = sz" "0 \<le> fd" "fd < int sz"
    and "se_nread s = int (card (fdset (se_readfds s)))" "se_nwrite s = int (card (fdset (se_writefds s)))"
    and top: "top_of (insert fd D) (se_nfds s)"
  shows "nfds_ok (tryReduceNfds fd s)"
proof -
  consider (none) "se_nread s = 0" "se_nwrite s = 0" | (top) "\<not> (se_nread s = 0 \<and> se_nwrite s = 0)" "fd + 1 \<ge> se_nfds s"
    | (inner) "\<not> (se_nread s = 0 \<and> se_nwrite s = 0)" "fd + 1 < se_nfds s" by fastforce
  then show ?thesis
  proof cases
    case none
    with assms(6,7) have "fdset (se_readfds s) = {}" "fdset (se_writefds s) = {}" by simp_all
    with none show ?thesis by (simp add: nfds_ok_def tryReduceNfds_def top_of_def)
  next
    case top
    then have "\<forall>x \<in> D. x < fd + 1" using \<open>top_of (insert fd D) (se_nfds s)\<close> by (fastforce simp: top_of_def)
    from reduce_loop_fdset [OF assms(2-5) this [unfolded D_def]] top
    show ?thesis by (auto simp: nfds_ok_def tryReduceNfds_def top_of_def fdset_nonneg)
  next
    case inner
    with top_of_remove [OF top] show ?thesis
      by (auto simp: nfds_ok_def tryReduceNfds_def D_def)
  qed
qed

lemma select_registerRead_inv:
  "select_inv sz s \<Longrightarrow> select_inv sz (select_registerRead sz fd s) \<and>
   fdset (se_readfds (select_registerRead sz fd s)) = (if isValidFd_select sz fd then insert fd (fdset (se_readfds s)) else fdset (se_readfds s)) \<and>
   se_writefds (select_registerRead sz fd s) = se_writefds s"
  using top_of_insert [of "fdset (se_readfds s) \<union> fdset (se_writefds s)" "se_nfds s" fd]
  by (auto simp: select_inv_def select_registerRead_def isValidFd_select_def fdset_mem fdset_set nfds_ok_def insert_absorb)

lemma fdset_valid: "length s = sz \<Longrightarrow> fd \<in> fdset s \<Longrightarrow> isValidFd_select sz fd"
  by (auto simp: fdset_def isValidFd_select_def)

lemma card_fdset_clr: "fd \<in> fdset s \<Longrightarrow> int (card (fdset s - {fd})) = int (card (fdset s)) - 1"
  using card_Suc_Diff1 [OF finite_fdset, of fd s] by linarith

lemma select_unregisterRead_inv:
  assumes "select_inv sz s"
  shows "select_inv sz (select_unregisterRead sz fd s) \<and>
   fdset (se_readfds (select_unregisterRead sz fd s)) = fdset (se_readfds s) - {fd} \<and>
   se_writefds (select_unregisterRead sz fd s) = se_writefds s"
proof (cases "fd \<in> fdset (se_readfds s)")
  case True
  have len: "length (se_readfds s) = sz" "length (se_writefds s) = sz" using assms by (simp_all add: select_inv_def)
  have v: "0 \<le> fd" "fd < int sz" "FD_ISSET fd (se_readfds s)"
    using True len by (auto simp: fdset_def FD_ISSET_def)
  define s1 where "s1 = s\<lparr>se_readfds := (se_readfds s)[nat fd := False], se_nread := se_nread s - 1\<rparr>"
  have new: "select_unregisterRead sz fd s = tryReduceNfds fd s1"
    using v by (simp add: select_unregisterRead_def isValidFd_select_def s1_def)
  have D: "fdset (se_readfds s1) = fdset (se_readfds s) - {fd}" "fdset (se_writefds s1) = fdset (se_writefds s)"
    using v by (simp_all add: s1_def fdset_clr)
  have "nfds_ok (tryReduceNfds fd s1)"
  proof (rule tryReduceNfds_ok)
    show "se_nread s1 = int (card (fdset (se_readfds s1)))"
      using assms card_fdset_clr [OF True] unfolding D by (simp add: s1_def select_inv_def)
    show "se_nwrite s1 = int (card (fdset (se_writefds s1)))" using assms by (simp add: s1_def select_inv_def)
    show "top_of (insert fd (fdset (se_readfds s1) \<union> fdset (se_writefds s1))) (se_nfds s1)"
      using assms insert_Diff [OF True] unfolding D
      by (simp add: select_inv_def nfds_ok_def s1_def Un_insert_left [symmetric] del: Un_insert_left insert_Diff_single)
  qed (use len v in \<open>simp_all add: s1_def\<close>)
  moreover have "se_nread s1 = int (card (fdset (se_readfds s1)))"
    using assms card_fdset_clr [OF True] unfolding D by (simp add: s1_def select_inv_def)
  ultimately show ?thesis
    using assms D unfolding new by (auto simp: select_inv_def s1_def)
next
  case False
  then have "select_unregisterRead sz fd s = s"
    using assms by (auto simp: select_unregisterRead_def select_inv_def isValidFd_select_def fdset_mem)
  with assms False show ?thesis by simp
qed

text \<open>The two directions of \<open>select\<close> are the same code with the two sets exchanged.\<close>

definition swap_dirs :: "select_svc \<Rightarrow> select_svc" where
  "swap_dirs s = \<lparr>se_readfds = se_writefds s, se_writefds = se_readfds s, se_nread = se_nwrite s, se_nwrite = se_nread s, se_nfds = se_nfds s\<rparr>"

lemma swap_dirs_simps [simp]: "se_readfds (swap_dirs s) = se_writefds s" "se_writefds (swap_dirs s) = se_readfds s"
  "swap_dirs (swap_dirs s) = s"
  by (simp_all add: swap_dirs_def)

lemma swap_dirs_inv: "select_inv sz (swap_dirs s) = select_inv sz s"
  by (auto simp: select_inv_def swap_dirs_def nfds_ok_def Un_commute)

lemma swap_dirs_reduce: "reduce_loop w r n = reduce_loop r w n"
  by (induction n) auto

lemma swap_dirs_unregister: "select_unregisterWrite sz fd s = swap_dirs (select_unregisterRead sz fd (swap_dirs s))"
  by (auto simp: select_unregisterWrite_def select_unregisterRead_def tryReduceNfds_def swap_dirs_def
      swap_dirs_reduce [of "se_readfds s"])

lemma swap_dirs_register: "select_registerWrite sz fd s = swap_dirs (select_registerRead sz fd (swap_dirs s))"
  by (auto simp: select_registerWrite_def select_registerRead_def swap_dirs_def)

lemma select_registerWrite_inv:
  "select_inv sz s \<Longrightarrow> select_inv sz (select_registerWrite sz fd s) \<and>
   fdset (se_writefds (select_registerWrite sz fd s)) = (if isValidFd_select sz fd then insert fd (fdset (se_writefds s)) else fdset (se_writefds s)) \<and>
   se_readfds (select_registerWrite sz fd s) = se_readfds s"
  using select_registerRead_inv [of sz "swap_dirs s" fd] by (simp add: swap_dirs_register swap_dirs_inv)

lemma select_unregisterWrite_inv:
  assumes "select_inv sz s"
  shows "select_inv sz (select_unregisterWrite sz fd s) \<and>
   fdset (se_writefds (select_unregisterWrite sz fd s)) = fdset (se_writefds s) - {fd} \<and>
   se_readfds (select_unregisterWrite sz fd s) = se_readfds s"
  using select_unregisterRead_inv [of sz "swap_dirs s" fd] assms by (simp add: swap_dirs_unregister swap_dirs_inv)

lemma select_nfds_le:
  assumes "select_inv sz s"
  shows "se_nfds s \<le> int sz"
proof (cases "se_nfds s = 0")
  case False
  with assms have "se_nfds s - 1 \<in> fdset (se_readfds s) \<union> fdset (se_writefds s)"
    by (simp add: select_inv_def nfds_ok_def top_of_def)
  then have "isValidFd_select sz (se_nfds s - 1)" using assms fdset_valid by (auto simp: select_inv_def)
  then show ?thesis by (simp add: isValidFd_select_def)
qed simp

interpretation sel: fd_watcher "isValidFd_select sz" "select_reg sz" "select_unreg sz" select_watched "select_inv sz" for sz
proof
  fix s d fd assume s: "select_inv sz s"
  show "\<exists>s'. select_reg sz d fd s = Some s' \<and> select_inv sz s' \<and>
      select_watched s' = (if isValidFd_select sz fd then insert (fd, d) (select_watched s) else select_watched s)"
    using select_registerRead_inv [OF s, of fd] select_registerWrite_inv [OF s, of fd]
    by (cases d) (auto simp: select_reg_def select_watched_def)
  show "\<exists>s'. select_unreg sz d fd s = Some s' \<and> select_inv sz s' \<and> select_watched s' = select_watched s - {(fd, d)}"
    using select_unregisterRead_inv [OF s, of fd] select_unregisterWrite_inv [OF s, of fd]
    by (cases d) (auto simp: select_unreg_def select_watched_def)
qed

lemma fdset_replicate [simp]: "fdset (replicate sz False) = {}"
  by (auto simp: fdset_def)

lemma select_init_inv: "select_inv sz (select_init sz)" "select_watched (select_init sz) = {}"
  by (simp_all add: select_inv_def select_init_def nfds_ok_def select_watched_def top_of_def)

section \<open>poll\<close>

definition POLLIN :: u16 where "POLLIN = 1"
definition POLLOUT :: u16 where "POLLOUT = 4"

record pollfd =
  pfd_fd :: int
  pfd_events :: u16
  pfd_revents :: u16

record poll_svc =
  po_nfds :: nat
  po_fdssz :: nat
  po_fds :: "pollfd buf"

definition isValidFd :: "int \<Rightarrow> bool" where
  "isValidFd fd \<longleftrightarrow> 0 \<le> fd"

text \<open>\<open>findFd\<close>: the index of the entry, \<^const>\<open>None\<close> when there is none; the outer option is the memory.\<close>

fun find_fd_loop :: "nat \<Rightarrow> nat \<Rightarrow> int \<Rightarrow> poll_svc \<Rightarrow> nat option option" where
  "find_fd_loop 0 i fd s = Some None"
| "find_fd_loop (Suc k) i fd s = do {
     e \<leftarrow> buf_read (po_fds s) i;
     if pfd_fd e = fd then Some (Some i) else find_fd_loop k (Suc i) fd s }"

definition findFd :: "int \<Rightarrow> poll_svc \<Rightarrow> nat option option" where
  "findFd fd s = find_fd_loop (po_nfds s) 0 fd s"

definition registerPoll :: "int \<Rightarrow> u16 \<Rightarrow> poll_svc \<Rightarrow> poll_svc option" where
  "registerPoll fd flag s =
     (if \<not> isValidFd fd then Some s else do {
        r \<leftarrow> findFd fd s;
        case r of
          Some i \<Rightarrow> do {
            e \<leftarrow> buf_read (po_fds s) i;
            if pfd_events e AND flag \<noteq> 0 then Some s else do {
              b \<leftarrow> buf_write (po_fds s) i (e\<lparr>pfd_events := pfd_events e OR flag\<rparr>);
              Some (s\<lparr>po_fds := b\<rparr>) } }
        | None \<Rightarrow> do {
            let s1 = (if po_nfds s = po_fdssz s
              then s\<lparr>po_fdssz := po_fdssz s + 16, po_fds := buf_realloc (po_fds s) (po_fdssz s + 16)\<rparr> else s);
            b \<leftarrow> buf_write (po_fds s1) (po_nfds s1) \<lparr>pfd_fd = fd, pfd_events = flag, pfd_revents = 0\<rparr>;
            Some (s1\<lparr>po_fds := b, po_nfds := po_nfds s1 + 1\<rparr>) } })"

definition unregisterPoll :: "int \<Rightarrow> u16 \<Rightarrow> poll_svc \<Rightarrow> poll_svc option" where
  "unregisterPoll fd flag s =
     (if \<not> isValidFd fd then Some s else do {
        r \<leftarrow> findFd fd s;
        case r of
          None \<Rightarrow> Some s
        | Some i \<Rightarrow> do {
            e \<leftarrow> buf_read (po_fds s) i;
            b \<leftarrow> buf_write (po_fds s) i (e\<lparr>pfd_events := pfd_events e AND NOT flag\<rparr>);
            if pfd_events e AND NOT flag = 0 then do {
              b1 \<leftarrow> buf_move b i (i + 1) (po_nfds s - 1 - i);
              Some (s\<lparr>po_fds := b1, po_nfds := po_nfds s - 1\<rparr>) }
            else Some (s\<lparr>po_fds := b\<rparr>) } })"

definition poll_reg :: "dir \<Rightarrow> int \<Rightarrow> poll_svc \<Rightarrow> poll_svc option" where
  "poll_reg d fd = registerPoll fd (case d of DRead \<Rightarrow> POLLIN | DWrite \<Rightarrow> POLLOUT)"

definition poll_unreg :: "dir \<Rightarrow> int \<Rightarrow> poll_svc \<Rightarrow> poll_svc option" where
  "poll_unreg d fd = unregisterPoll fd (case d of DRead \<Rightarrow> POLLIN | DWrite \<Rightarrow> POLLOUT)"

definition poll_init :: poll_svc where
  "poll_init = \<lparr>po_nfds = 0, po_fdssz = 0, po_fds = []\<rparr>"

text \<open>The entries of the array, and the invariant: no descriptor twice, no entry without an event.\<close>

definition poll_entries :: "poll_svc \<Rightarrow> pollfd list" where
  "poll_entries s = map the (take (po_nfds s) (po_fds s))"

definition ev_dirs :: "'a::len word \<Rightarrow> dir set" where
  "ev_dirs e = (if e AND 1 \<noteq> 0 then {DRead} else {}) \<union> (if e AND 4 \<noteq> 0 then {DWrite} else {})"

definition poll_watched :: "poll_svc \<Rightarrow> (int \<times> dir) set" where
  "poll_watched s = {(fd, d). \<exists>e \<in> set (poll_entries s). pfd_fd e = fd \<and> d \<in> ev_dirs (pfd_events e)}"

definition ev_ok :: "'a::len word \<Rightarrow> bool" where
  "ev_ok e \<longleftrightarrow> e = 1 \<or> e = 4 \<or> e = 5"

definition poll_rep :: "poll_svc \<Rightarrow> pollfd list \<Rightarrow> bool" where
  "poll_rep s es \<longleftrightarrow> (\<exists>rest. po_fds s = map Some es @ rest) \<and> po_nfds s = length es \<and> po_fdssz s = length (po_fds s) \<and>
     distinct (map pfd_fd es) \<and> (\<forall>e \<in> set es. 0 \<le> pfd_fd e \<and> ev_ok (pfd_events e))"

definition poll_inv :: "poll_svc \<Rightarrow> bool" where
  "poll_inv s \<longleftrightarrow> (\<exists>es. poll_rep s es)"

text \<open>Facts about the event flags, for words of any length that holds them.\<close>

lemma ev_flags_u16:
  "ev_dirs (1 :: u16) = {DRead}" "ev_dirs (4 :: u16) = {DWrite}" "ev_dirs (5 :: u16) = {DRead, DWrite}"
  "ev_dirs (0 :: u16) = {}"
  by (simp_all add: ev_dirs_def insert_commute)

lemma ev_flags_u32:
  "ev_dirs (1 :: u32) = {DRead}" "ev_dirs (4 :: u32) = {DWrite}" "ev_dirs (5 :: u32) = {DRead, DWrite}"
  "ev_dirs (0 :: u32) = {}"
  by (simp_all add: ev_dirs_def insert_commute)

definition dir_flag :: "dir \<Rightarrow> 'a::len word" where
  "dir_flag d = (case d of DRead \<Rightarrow> 1 | DWrite \<Rightarrow> 4)"

lemma flag_u16:
  fixes e :: u16
  assumes "ev_ok e"
  shows "e AND dir_flag d \<noteq> 0 \<longleftrightarrow> d \<in> ev_dirs e" "d \<notin> ev_dirs e \<Longrightarrow> ev_ok (e OR dir_flag d)"
    "d \<notin> ev_dirs e \<Longrightarrow> ev_dirs (e OR dir_flag d) = insert d (ev_dirs e)"
    "ev_dirs (e AND NOT (dir_flag d)) = ev_dirs e - {d}" "e AND NOT (dir_flag d) \<noteq> 0 \<Longrightarrow> ev_ok (e AND NOT (dir_flag d))"
    "e AND NOT (dir_flag d) = 0 \<Longrightarrow> ev_dirs e \<subseteq> {d}" "ev_ok (dir_flag d :: u16)" "ev_dirs (dir_flag d :: u16) = {d}"
  using assms by (cases d; auto simp: ev_ok_def dir_flag_def ev_flags_u16)+

lemma flag_u32:
  fixes e :: u32
  assumes "ev_ok e"
  shows "e AND dir_flag d \<noteq> 0 \<longleftrightarrow> d \<in> ev_dirs e" "d \<notin> ev_dirs e \<Longrightarrow> ev_ok (e OR dir_flag d)"
    "d \<notin> ev_dirs e \<Longrightarrow> ev_dirs (e OR dir_flag d) = insert d (ev_dirs e)"
    "ev_dirs (e AND NOT (dir_flag d)) = ev_dirs e - {d}" "e AND NOT (dir_flag d) \<noteq> 0 \<Longrightarrow> ev_ok (e AND NOT (dir_flag d))"
    "e AND NOT (dir_flag d) = 0 \<Longrightarrow> ev_dirs e \<subseteq> {d}" "ev_ok (dir_flag d :: u32)" "ev_dirs (dir_flag d :: u32) = {d}"
  using assms by (cases d; auto simp: ev_ok_def dir_flag_def ev_flags_u32)+

lemma entries_read: "buf_read (map Some (a @ e # b) @ rest) (length a) = Some e"
  by (simp add: buf_read_def nth_append)

lemma entries_write: "buf_write (map Some (a @ e # b) @ rest) (length a) v = Some (map Some (a @ v # b) @ rest)"
  by (simp add: buf_write_def list_update_append)

lemma entries_remove:
  "buf_move (map Some (a @ e # b) @ rest) (length a) (Suc (length a)) (length b)
   = Some (map Some (a @ b) @ (last (map Some (e # b)) # rest))"
  by (simp add: buf_move_def, cases b rule: rev_cases) (simp_all)

lemma poll_entries_rep [simp]: "poll_rep s es \<Longrightarrow> poll_entries s = es"
  by (auto simp: poll_rep_def poll_entries_def comp_def)

lemma find_fd_loop_rep:
  "po_fds s = map Some (a @ b) @ rest \<Longrightarrow>
   find_fd_loop (length b) (length a) fd s =
     Some (if fd \<in> pfd_fd ` set b then Some (length a + length (takeWhile (\<lambda>e. pfd_fd e \<noteq> fd) b)) else None)"
proof (induction b arbitrary: a)
  case (Cons e b)
  have "buf_read (po_fds s) (length a) = Some e" using Cons.prems entries_read by metis
  with Cons.IH [of "a @ [e]"] Cons.prems show ?case by auto
qed simp

lemma findFd_rep:
  assumes "poll_rep s es"
  shows "findFd fd s = Some (if fd \<in> pfd_fd ` set es then Some (length (takeWhile (\<lambda>e. pfd_fd e \<noteq> fd) es)) else None)"
  using find_fd_loop_rep [of s "[]" es] assms unfolding findFd_def poll_rep_def by auto

lemma split_entry:
  assumes "distinct (map pfd_fd es)" "fd \<in> pfd_fd ` set es"
  obtains a e b where "es = a @ e # b" "pfd_fd e = fd" "length (takeWhile (\<lambda>e. pfd_fd e \<noteq> fd) es) = length a"
    "\<forall>x \<in> set (a @ b). pfd_fd x \<noteq> fd"
proof -
  obtain a e b where es: "es = a @ e # b" "pfd_fd e = fd" using assms(2) by (metis imageE split_list)
  then have "\<forall>x \<in> set (a @ b). pfd_fd x \<noteq> fd" using assms(1) by (auto simp: image_iff)
  moreover from this have "takeWhile (\<lambda>e. pfd_fd e \<noteq> fd) es = a"
    unfolding es(1) by (subst takeWhile_append2) (use es(2) in auto)
  ultimately show ?thesis using that es by blast
qed

lemma poll_watched_rep: "poll_rep s es \<Longrightarrow> poll_watched s = {(fd, d). \<exists>e \<in> set es. pfd_fd e = fd \<and> d \<in> ev_dirs (pfd_events e)}"
  by (simp add: poll_watched_def)

lemma poll_flag [simp]: "(case d of DRead \<Rightarrow> POLLIN | DWrite \<Rightarrow> POLLOUT) = dir_flag d"
  by (cases d) (simp_all add: dir_flag_def POLLIN_def POLLOUT_def)

lemma poll_rep_update:
  assumes "poll_rep s (a @ e # b)" "pfd_fd e' = pfd_fd e" "ev_ok (pfd_events e')"
  shows "\<exists>b'. buf_write (po_fds s) (length a) e' = Some b' \<and> poll_rep (s\<lparr>po_fds := b'\<rparr>) (a @ e' # b)"
proof -
  obtain rest where "po_fds s = map Some (a @ e # b) @ rest" using assms(1) by (auto simp: poll_rep_def)
  with assms show ?thesis using entries_write [of a e b rest e'] by (auto simp: poll_rep_def)
qed

lemma poll_grow_rep:
  assumes "poll_rep s es"
  defines "s1 \<equiv> if po_nfds s = po_fdssz s
       then s\<lparr>po_fdssz := po_fdssz s + 16, po_fds := buf_realloc (po_fds s) (po_fdssz s + 16)\<rparr> else s"
  obtains v rest where "po_fds s1 = map Some es @ v # rest" "poll_rep s1 es"
proof -
  obtain r where r: "po_fds s = map Some es @ r" "po_fdssz s = length es + length r" "po_nfds s = length es"
    using assms(1) by (auto simp: poll_rep_def)
  show ?thesis
  proof (cases r)
    case Nil
    with r have s1: "s1 = s\<lparr>po_fdssz := length es + 16, po_fds := map Some es @ replicate 16 None\<rparr>"
      by (simp add: s1_def buf_realloc_def)
    show ?thesis
    proof (rule that)
      show "po_fds s1 = map Some es @ None # replicate 15 None" by (simp add: s1 eval_nat_numeral)
      show "poll_rep s1 es" using assms(1) by (simp add: s1 poll_rep_def)
    qed
  next
    case (Cons v rest)
    with r that assms(1) show ?thesis by (simp add: s1_def)
  qed
qed

text \<open>What registering keeps of the entries: their descriptors and reported events; new ones come last.\<close>

definition entry_keys :: "pollfd list \<Rightarrow> (int \<times> u16) list" where
  "entry_keys es = map (\<lambda>e. (pfd_fd e, pfd_revents e)) es"

lemma entry_keys_simps [simp]: "entry_keys [] = []" "entry_keys (e # es) = (pfd_fd e, pfd_revents e) # entry_keys es"
  "entry_keys (a @ b) = entry_keys a @ entry_keys b" "length (entry_keys es) = length es"
  by (simp_all add: entry_keys_def)

lemma poll_reg_rep:
  assumes "poll_rep s es"
  shows "\<exists>s' es' n. poll_reg d fd s = Some s' \<and> poll_rep s' es' \<and> entry_keys es' = entry_keys es @ map (\<lambda>fd. (fd, 0)) n \<and>
    poll_watched s' = (if isValidFd fd then insert (fd, d) (poll_watched s) else poll_watched s)"
proof -
  consider (inv) "\<not> isValidFd fd" | (old) "isValidFd fd" "fd \<in> pfd_fd ` set es" | (new) "isValidFd fd" "fd \<notin> pfd_fd ` set es"
    by blast
  then show ?thesis
  proof cases
    case inv
    then show ?thesis using assms by (intro exI [of _ s] exI [of _ es] exI [of _ "[]"]) (simp add: poll_reg_def registerPoll_def)
  next
    case old
    obtain a e b where es: "es = a @ e # b" "pfd_fd e = fd" "length (takeWhile (\<lambda>e. pfd_fd e \<noteq> fd) es) = length a"
      "\<forall>x \<in> set (a @ b). pfd_fd x \<noteq> fd"
      using split_entry [OF _ old(2)] assms by (auto simp: poll_rep_def)
    have ok: "ev_ok (pfd_events e)" using assms es by (simp add: poll_rep_def)
    have rd: "buf_read (po_fds s) (length a) = Some e" using assms es by (auto simp: poll_rep_def entries_read simp del: map_append)
    show ?thesis
    proof (cases "d \<in> ev_dirs (pfd_events e)")
      case True
      then have "poll_reg d fd s = Some s"
        using old rd es flag_u16(1) [OF ok] by (simp add: poll_reg_def registerPoll_def findFd_rep [OF assms])
      moreover have "(fd, d) \<in> poll_watched s" using True es by (auto simp: poll_watched_rep [OF assms])
      ultimately show ?thesis using old assms
        by (intro exI [of _ s] exI [of _ es] exI [of _ "[]"]) (simp add: insert_absorb)
    next
      case False
      define e' where "e' = e\<lparr>pfd_events := pfd_events e OR dir_flag d\<rparr>"
      obtain b' where b': "buf_write (po_fds s) (length a) e' = Some b'" "poll_rep (s\<lparr>po_fds := b'\<rparr>) (a @ e' # b)"
        using poll_rep_update [of s a e b e'] assms es flag_u16(2) [OF ok False] by (auto simp: e'_def)
      have "poll_reg d fd s = Some (s\<lparr>po_fds := b'\<rparr>)"
        using old rd es flag_u16(1) [OF ok] False b'(1)
        by (simp add: poll_reg_def registerPoll_def findFd_rep [OF assms] e'_def)
      moreover have "poll_watched (s\<lparr>po_fds := b'\<rparr>) = insert (fd, d) (poll_watched s)"
        using es flag_u16(3) [OF ok False] by (auto simp: poll_watched_rep [OF assms] poll_watched_rep [OF b'(2)] e'_def)
      ultimately show ?thesis using old b'(2) es
        by (intro exI [of _ "s\<lparr>po_fds := b'\<rparr>"] exI [of _ "a @ e' # b"] exI [of _ "[]"]) (simp add: e'_def)
    qed
  next
    case new
    define e' where "e' = \<lparr>pfd_fd = fd, pfd_events = dir_flag d, pfd_revents = 0\<rparr>"
    define s1 where "s1 = (if po_nfds s = po_fdssz s
       then s\<lparr>po_fdssz := po_fdssz s + 16, po_fds := buf_realloc (po_fds s) (po_fdssz s + 16)\<rparr> else s)"
    obtain v rest where fds: "po_fds s1 = map Some es @ v # rest" and s1: "poll_rep s1 es"
      using poll_grow_rep [OF assms] unfolding s1_def by metis
    define s2 where "s2 = s1\<lparr>po_fds := map Some (es @ [e']) @ rest, po_nfds := Suc (po_nfds s1)\<rparr>"
    have "buf_write (po_fds s1) (po_nfds s1) e' = Some (map Some (es @ [e']) @ rest)"
      using s1 fds by (simp add: buf_write_def poll_rep_def list_update_append)
    then have "poll_reg d fd s = Some s2"
      using new by (simp add: poll_reg_def registerPoll_def findFd_rep [OF assms] s1_def [symmetric] e'_def [symmetric] s2_def)
    moreover have rep2: "poll_rep s2 (es @ [e'])"
      using s1 new fds flag_u16(7) [of 1] by (auto simp: poll_rep_def s2_def e'_def isValidFd_def ev_ok_def)
    moreover have "poll_watched s2 = insert (fd, d) (poll_watched s)"
      using flag_u16(8) [of 1 d] by (auto simp: poll_watched_rep [OF assms] poll_watched_rep [OF rep2] e'_def ev_ok_def)
    ultimately show ?thesis using new
      by (intro exI [of _ s2] exI [of _ "es @ [e']"] exI [of _ "[fd]"]) (simp add: e'_def)
  qed
qed

lemma poll_unreg_rep:
  assumes "poll_rep s es"
  shows "\<exists>s' es'. poll_unreg d fd s = Some s' \<and> poll_rep s' es' \<and> poll_watched s' = poll_watched s - {(fd, d)}"
proof (cases "isValidFd fd \<and> fd \<in> pfd_fd ` set es")
  case False
  then have "(fd, d) \<notin> poll_watched s"
    using assms by (auto simp: poll_watched_rep [OF assms] poll_rep_def isValidFd_def)
  moreover have "poll_unreg d fd s = Some s"
    using False by (auto simp: poll_unreg_def unregisterPoll_def findFd_rep [OF assms])
  ultimately show ?thesis using assms by auto
next
  case True
  obtain a e b where es: "es = a @ e # b" "pfd_fd e = fd" "length (takeWhile (\<lambda>e. pfd_fd e \<noteq> fd) es) = length a"
    "\<forall>x \<in> set (a @ b). pfd_fd x \<noteq> fd"
    using split_entry [of es fd] assms True by (auto simp: poll_rep_def)
  have ok: "ev_ok (pfd_events e)" using assms es by (simp add: poll_rep_def)
  obtain rest where rest: "po_fds s = map Some (a @ e # b) @ rest" using assms es by (auto simp: poll_rep_def)
  define e' where "e' = e\<lparr>pfd_events := pfd_events e AND NOT (dir_flag d)\<rparr>"
  have wr: "buf_write (po_fds s) (length a) e' = Some (map Some (a @ e' # b) @ rest)"
    unfolding rest by (rule entries_write)
  have nf: "po_nfds s = length a + Suc (length b)" using assms es by (simp add: poll_rep_def)
  have un: "poll_unreg d fd s = (if pfd_events e AND NOT (dir_flag d) = 0 then do {
        b1 \<leftarrow> buf_move (map Some (a @ e' # b) @ rest) (length a) (Suc (length a)) (length b);
        Some (s\<lparr>po_fds := b1, po_nfds := po_nfds s - 1\<rparr>) }
      else Some (s\<lparr>po_fds := map Some (a @ e' # b) @ rest\<rparr>))"
    using True es wr nf entries_read [of a e b rest]
    by (simp add: poll_unreg_def unregisterPoll_def findFd_rep [OF assms] e'_def rest)
  show ?thesis
  proof (cases "pfd_events e AND NOT (dir_flag d) = 0")
    case zero: True
    define s' where "s' = s\<lparr>po_fds := map Some (a @ b) @ (last (map Some (e' # b)) # rest), po_nfds := po_nfds s - 1\<rparr>"
    have rep: "poll_rep s' (a @ b)"
      using assms es nf rest by (auto simp: poll_rep_def s'_def)
    have "poll_watched s' = poll_watched s - {(fd, d)}"
      using flag_u16(6) [OF ok zero] es by (auto simp: poll_watched_rep [OF assms] poll_watched_rep [OF rep])
    then show ?thesis using un zero rep entries_remove [of a e' b rest] by (auto simp: s'_def simp del: map_append last.simps)
  next
    case nonzero: False
    define s' where "s' = s\<lparr>po_fds := map Some (a @ e' # b) @ rest\<rparr>"
    have rep: "poll_rep s' (a @ e' # b)"
      using assms es rest flag_u16(5) [OF ok nonzero] by (auto simp: poll_rep_def s'_def e'_def)
    have "poll_watched s' = poll_watched s - {(fd, d)}"
      using flag_u16(4) [OF ok, of d] es by (auto simp: poll_watched_rep [OF assms] poll_watched_rep [OF rep] e'_def)
    then show ?thesis using un nonzero rep by (auto simp: s'_def)
  qed
qed

interpretation pol: fd_watcher isValidFd poll_reg poll_unreg poll_watched poll_inv
  by unfold_locales (metis poll_inv_def poll_reg_rep, metis poll_inv_def poll_unreg_rep)

lemma poll_init_inv: "poll_inv poll_init" "poll_watched poll_init = {}"
  by (auto simp: poll_inv_def poll_rep_def poll_init_def poll_watched_def poll_entries_def)

section \<open>epoll and event ports\<close>

text \<open>
  Both keep the watches in 32 chains; the chain of a descriptor is given by its low five bits.
  The kernel keeps the flags of every descriptor that was added.
\<close>

record EpollWatch =
  ew_fd :: int
  ew_events :: u32

definition EPOLLIN :: u32 where "EPOLLIN = 1"
definition EPOLLOUT :: u32 where "EPOLLOUT = 4"

type_synonym watches = "int \<Rightarrow> EpollWatch list"

definition watch_hash :: "int \<Rightarrow> int" where
  "watch_hash fd = fd AND 31"

definition findWatch :: "watches \<Rightarrow> int \<Rightarrow> EpollWatch option" where
  "findWatch ws fd = (if fd < 0 then None else find (\<lambda>w. ew_fd w = fd) (ws (watch_hash fd)))"

text \<open>A new watch goes to the end of its chain; flags are changed in place; a watch is unlinked.\<close>

fun set_events :: "int \<Rightarrow> u32 \<Rightarrow> EpollWatch list \<Rightarrow> EpollWatch list" where
  "set_events fd e [] = []"
| "set_events fd e (w # ws) = (if ew_fd w = fd then w\<lparr>ew_events := e\<rparr> # ws else w # set_events fd e ws)"

fun unlink :: "int \<Rightarrow> EpollWatch list \<Rightarrow> EpollWatch list" where
  "unlink fd [] = []"
| "unlink fd (w # ws) = (if ew_fd w = fd then ws else w # unlink fd ws)"

definition add_watch :: "int \<Rightarrow> u32 \<Rightarrow> watches \<Rightarrow> watches" where
  "add_watch fd e ws = ws(watch_hash fd := ws (watch_hash fd) @ [\<lparr>ew_fd = fd, ew_events = e\<rparr>])"

record epoll_svc =
  ep_open :: bool
  ep_watches :: watches
  ep_kernel :: "int \<Rightarrow> u32 option"

text \<open>
  \<open>epoll_ctl\<close>: adding a descriptor that is there and changing one that is not fail with
  \<open>EEXIST\<close> and \<open>ENOENT\<close>.
\<close>

definition ctl_add :: "int \<Rightarrow> u32 \<Rightarrow> epoll_svc \<Rightarrow> epoll_svc" where
  "ctl_add fd e s = (if ep_kernel s fd = None then s\<lparr>ep_kernel := (ep_kernel s)(fd \<mapsto> e)\<rparr> else s)"

definition ctl_mod :: "int \<Rightarrow> u32 \<Rightarrow> epoll_svc \<Rightarrow> epoll_svc" where
  "ctl_mod fd e s = (if ep_kernel s fd = None then s else s\<lparr>ep_kernel := (ep_kernel s)(fd \<mapsto> e)\<rparr>)"

definition ctl_del :: "int \<Rightarrow> epoll_svc \<Rightarrow> epoll_svc" where
  "ctl_del fd s = s\<lparr>ep_kernel := (ep_kernel s)(fd := None)\<rparr>"

definition registerWatch :: "int \<Rightarrow> u32 \<Rightarrow> epoll_svc \<Rightarrow> epoll_svc" where
  "registerWatch fd flag s =
     (if \<not> ep_open s then s else if \<not> isValidFd fd then s
      else case findWatch (ep_watches s) fd of
        Some w \<Rightarrow> if ew_events w AND flag \<noteq> 0 then s
          else ctl_mod fd (ew_events w OR flag) (s\<lparr>ep_watches := (ep_watches s)
             (watch_hash fd := set_events fd (ew_events w OR flag) (ep_watches s (watch_hash fd)))\<rparr>)
      | None \<Rightarrow> ctl_add fd flag (s\<lparr>ep_watches := add_watch fd flag (ep_watches s)\<rparr>))"

definition unregisterWatch :: "int \<Rightarrow> u32 \<Rightarrow> epoll_svc \<Rightarrow> epoll_svc" where
  "unregisterWatch fd flag s =
     (if \<not> ep_open s then s else if \<not> isValidFd fd then s
      else case findWatch (ep_watches s) fd of
        None \<Rightarrow> s
      | Some w \<Rightarrow> if ew_events w AND flag = 0 then s
          else let e = ew_events w AND NOT flag in
          if e \<noteq> 0 then ctl_mod fd e (s\<lparr>ep_watches := (ep_watches s)
             (watch_hash fd := set_events fd e (ep_watches s (watch_hash fd)))\<rparr>)
          else ctl_del fd (s\<lparr>ep_watches := (ep_watches s)
             (watch_hash fd := unlink fd (ep_watches s (watch_hash fd)))\<rparr>))"

text \<open>Event ports: \<open>port_associate\<close> adds or replaces an association.\<close>

definition port_associate :: "int \<Rightarrow> u32 \<Rightarrow> epoll_svc \<Rightarrow> epoll_svc" where
  "port_associate fd e s = s\<lparr>ep_kernel := (ep_kernel s)(fd \<mapsto> e)\<rparr>"

definition evport_registerWatch :: "int \<Rightarrow> u32 \<Rightarrow> epoll_svc \<Rightarrow> epoll_svc" where
  "evport_registerWatch fd flag s =
     (if \<not> ep_open s then s else if \<not> isValidFd fd then s
      else case findWatch (ep_watches s) fd of
        Some w \<Rightarrow> if ew_events w AND flag \<noteq> 0 then s
          else port_associate fd (ew_events w OR flag) (s\<lparr>ep_watches := (ep_watches s)
             (watch_hash fd := set_events fd (ew_events w OR flag) (ep_watches s (watch_hash fd)))\<rparr>)
      | None \<Rightarrow> port_associate fd flag (s\<lparr>ep_watches := add_watch fd flag (ep_watches s)\<rparr>))"

definition evport_unregisterWatch :: "int \<Rightarrow> u32 \<Rightarrow> epoll_svc \<Rightarrow> epoll_svc" where
  "evport_unregisterWatch fd flag s =
     (if \<not> ep_open s then s else if \<not> isValidFd fd then s
      else case findWatch (ep_watches s) fd of
        None \<Rightarrow> s
      | Some w \<Rightarrow> if ew_events w AND flag = 0 then s
          else let e = ew_events w AND NOT flag in
          if e \<noteq> 0 then port_associate fd e (s\<lparr>ep_watches := (ep_watches s)
             (watch_hash fd := set_events fd e (ep_watches s (watch_hash fd)))\<rparr>)
          else ctl_del fd (s\<lparr>ep_watches := (ep_watches s)
             (watch_hash fd := unlink fd (ep_watches s (watch_hash fd)))\<rparr>))"

definition epoll_reg :: "dir \<Rightarrow> int \<Rightarrow> epoll_svc \<Rightarrow> epoll_svc option" where
  "epoll_reg d fd s = Some (registerWatch fd (case d of DRead \<Rightarrow> EPOLLIN | DWrite \<Rightarrow> EPOLLOUT) s)"

definition epoll_unreg :: "dir \<Rightarrow> int \<Rightarrow> epoll_svc \<Rightarrow> epoll_svc option" where
  "epoll_unreg d fd s = Some (unregisterWatch fd (case d of DRead \<Rightarrow> EPOLLIN | DWrite \<Rightarrow> EPOLLOUT) s)"

definition evport_reg :: "dir \<Rightarrow> int \<Rightarrow> epoll_svc \<Rightarrow> epoll_svc option" where
  "evport_reg d fd s = Some (evport_registerWatch fd (case d of DRead \<Rightarrow> EPOLLIN | DWrite \<Rightarrow> EPOLLOUT) s)"

definition evport_unreg :: "dir \<Rightarrow> int \<Rightarrow> epoll_svc \<Rightarrow> epoll_svc option" where
  "evport_unreg d fd s = Some (evport_unregisterWatch fd (case d of DRead \<Rightarrow> EPOLLIN | DWrite \<Rightarrow> EPOLLOUT) s)"

definition epoll_init :: epoll_svc where
  "epoll_init = \<lparr>ep_open = True, ep_watches = (\<lambda>_. []), ep_kernel = (\<lambda>_. None)\<rparr>"

text \<open>What is watched is what the kernel knows; the invariant says that the chains agree with it.\<close>

definition epoll_watched :: "epoll_svc \<Rightarrow> (int \<times> dir) set" where
  "epoll_watched s = {(fd, d). \<exists>e. ep_kernel s fd = Some e \<and> d \<in> ev_dirs e}"

definition chain_ok :: "int \<Rightarrow> EpollWatch list \<Rightarrow> bool" where
  "chain_ok h l \<longleftrightarrow> distinct (map ew_fd l) \<and> (\<forall>w \<in> set l. 0 \<le> ew_fd w \<and> watch_hash (ew_fd w) = h \<and> ev_ok (ew_events w))"

definition epoll_inv :: "epoll_svc \<Rightarrow> bool" where
  "epoll_inv s \<longleftrightarrow> ep_open s \<and> (\<forall>h. chain_ok h (ep_watches s h)) \<and>
     (\<forall>fd. ep_kernel s fd = map_option ew_events (findWatch (ep_watches s) fd))"

lemma epoll_flag [simp]: "(case d of DRead \<Rightarrow> EPOLLIN | DWrite \<Rightarrow> EPOLLOUT) = dir_flag d"
  by (cases d) (simp_all add: dir_flag_def EPOLLIN_def EPOLLOUT_def)

lemma find_set_events: "find (\<lambda>w. ew_fd w = x) (set_events fd e l) =
    (if x = fd then map_option (\<lambda>w. w\<lparr>ew_events := e\<rparr>) (find (\<lambda>w. ew_fd w = fd) l) else find (\<lambda>w. ew_fd w = x) l)"
  by (induction l) auto

lemma find_unlink: "distinct (map ew_fd l) \<Longrightarrow>
    find (\<lambda>w. ew_fd w = x) (unlink fd l) = (if x = fd then None else find (\<lambda>w. ew_fd w = x) l)"
  by (induction l) (auto simp: find_None_iff image_iff)

lemma find_append_watch: "find P (l @ [w]) = (case find P l of Some v \<Rightarrow> Some v | None \<Rightarrow> if P w then Some w else None)"
  by (induction l) auto

lemma fds_set_events [simp]: "map ew_fd (set_events fd e l) = map ew_fd l"
  by (induction l) auto

lemma set_set_events: "w \<in> set (set_events fd e l) \<Longrightarrow> w \<in> set l \<or> (\<exists>v \<in> set l. w = v\<lparr>ew_events := e\<rparr>)"
  by (induction l) (auto split: if_splits)

lemma set_unlink: "set (unlink fd l) \<subseteq> set l" "distinct (map ew_fd l) \<Longrightarrow> distinct (map ew_fd (unlink fd l))"
  by (induction l) (auto split: if_splits)

lemma chain_ok_set: "chain_ok h l \<Longrightarrow> ev_ok e \<Longrightarrow> chain_ok h (set_events fd e l)"
  by (fastforce simp: chain_ok_def dest: set_set_events)

lemma chain_ok_unlink: "chain_ok h l \<Longrightarrow> chain_ok h (unlink fd l)"
  using set_unlink(1) [of fd l] set_unlink(2) [of l fd] by (auto simp: chain_ok_def)

lemma chain_ok_add: "chain_ok (watch_hash fd) l \<Longrightarrow> 0 \<le> fd \<Longrightarrow> ev_ok e \<Longrightarrow> find (\<lambda>w. ew_fd w = fd) l = None
   \<Longrightarrow> chain_ok (watch_hash fd) (l @ [\<lparr>ew_fd = fd, ew_events = e\<rparr>])"
  by (auto simp: chain_ok_def find_None_iff)

lemma findWatch_other: "watch_hash x \<noteq> h \<Longrightarrow> findWatch (ws(h := l)) x = findWatch ws x"
  by (simp add: findWatch_def)

lemma findWatch_ok: "(\<forall>h. chain_ok h (ws h)) \<Longrightarrow> findWatch ws fd = Some w \<Longrightarrow> 0 \<le> fd \<and> ew_fd w = fd \<and> ev_ok (ew_events w)"
  by (auto simp: findWatch_def chain_ok_def find_Some_iff split: if_splits) (metis nth_mem)

lemma findWatch_set: "findWatch ws fd = Some w \<Longrightarrow>
    findWatch (ws(watch_hash fd := set_events fd e (ws (watch_hash fd)))) x = (if x = fd then Some (w\<lparr>ew_events := e\<rparr>) else findWatch ws x)"
  by (auto simp: findWatch_def find_set_events split: if_splits)

lemma findWatch_unlink: "\<forall>h. chain_ok h (ws h) \<Longrightarrow>
    findWatch (ws(watch_hash fd := unlink fd (ws (watch_hash fd)))) x = (if x = fd then None else findWatch ws x)"
  by (auto simp: findWatch_def find_unlink chain_ok_def)

lemma findWatch_add: "0 \<le> fd \<Longrightarrow> findWatch ws fd = None \<Longrightarrow>
    findWatch (add_watch fd e ws) x = (if x = fd then Some \<lparr>ew_fd = fd, ew_events = e\<rparr> else findWatch ws x)"
  by (auto simp: findWatch_def add_watch_def find_append_watch split: option.splits)

lemma epoll_inv_upd:
  "epoll_inv s \<Longrightarrow> (\<And>h. chain_ok h (ws h)) \<Longrightarrow> (\<And>x. map_option ew_events (findWatch ws x) = k x)
   \<Longrightarrow> epoll_inv (s\<lparr>ep_watches := ws, ep_kernel := k\<rparr>)"
  by (simp add: epoll_inv_def)

lemma epoll_kernel: "epoll_inv s \<Longrightarrow> ep_kernel s fd = map_option ew_events (findWatch (ep_watches s) fd)"
  by (simp add: epoll_inv_def)

lemma epoll_watched_upd: "epoll_watched (s\<lparr>ep_watches := ws, ep_kernel := (ep_kernel s)(fd \<mapsto> e)\<rparr>)
   = {p \<in> epoll_watched s. fst p \<noteq> fd} \<union> {fd} \<times> ev_dirs e"
  by (auto simp: epoll_watched_def split: if_splits)

lemma epoll_watched_at: "epoll_inv s \<Longrightarrow> findWatch (ep_watches s) fd = Some w \<Longrightarrow>
    (fd, x) \<in> epoll_watched s \<longleftrightarrow> x \<in> ev_dirs (ew_events w)"
  by (auto simp: epoll_watched_def epoll_kernel)

lemma upd_insert: "(\<And>x. (fd, x) \<in> E \<longleftrightarrow> x \<in> D) \<Longrightarrow> {p \<in> E. fst p \<noteq> fd} \<union> {fd} \<times> insert d D = insert (fd, d) E"
  by auto

lemma epoll_reg_inv:
  assumes "epoll_inv s"
  shows "epoll_inv (registerWatch fd (dir_flag d) s) \<and>
    epoll_watched (registerWatch fd (dir_flag d) s) = (if isValidFd fd then insert (fd, d) (epoll_watched s) else epoll_watched s)"
proof -
  have op: "ep_open s" "\<forall>h. chain_ok h (ep_watches s h)" using assms by (simp_all add: epoll_inv_def)
  consider (inv) "\<not> isValidFd fd" | (old) w where "isValidFd fd" "findWatch (ep_watches s) fd = Some w" "d \<in> ev_dirs (ew_events w)"
    | (more) w where "isValidFd fd" "findWatch (ep_watches s) fd = Some w" "d \<notin> ev_dirs (ew_events w)"
    | (new) "isValidFd fd" "findWatch (ep_watches s) fd = None" by (metis option.exhaust)
  then show ?thesis
  proof cases
    case inv
    with assms op show ?thesis by (simp add: registerWatch_def)
  next
    case (old w)
    note w = findWatch_ok [OF op(2) old(2)]
    have "registerWatch fd (dir_flag d) s = s"
      using old op flag_u32(1) [of "ew_events w" d] w by (simp add: registerWatch_def)
    moreover have "(fd, d) \<in> epoll_watched s"
      using old by (simp add: epoll_watched_def epoll_kernel [OF assms])
    ultimately show ?thesis using assms old by (simp add: insert_absorb)
  next
    case (more w)
    note w = findWatch_ok [OF op(2) more(2)]
    define e where "e = ew_events w OR dir_flag d"
    have ok: "ev_ok (ew_events w)" using w by blast
    have e: "ev_ok e" "ev_dirs e = insert d (ev_dirs (ew_events w))"
      unfolding e_def by (rule flag_u32(2) [OF ok more(3)], rule flag_u32(3) [OF ok more(3)])
    have nz: "\<not> ew_events w AND dir_flag d \<noteq> 0" unfolding flag_u32(1) [OF ok] by (rule more(3))
    define ws where "ws = (ep_watches s)(watch_hash fd := set_events fd e (ep_watches s (watch_hash fd)))"
    have new: "registerWatch fd (dir_flag d) s = s\<lparr>ep_watches := ws, ep_kernel := (ep_kernel s)(fd \<mapsto> e)\<rparr>"
      unfolding registerWatch_def ctl_mod_def more(2) option.case if_not_P [OF nz] ws_def e_def
      using more(1,2) op(1) by (simp add: epoll_kernel [OF assms])
    have "epoll_inv (registerWatch fd (dir_flag d) s)"
      unfolding new using assms
      by (rule epoll_inv_upd) (use op e(1) in \<open>simp add: ws_def chain_ok_set\<close>,
        use more(2) in \<open>simp add: ws_def findWatch_set epoll_kernel [OF assms]\<close>)
    moreover have "epoll_watched (registerWatch fd (dir_flag d) s) = insert (fd, d) (epoll_watched s)"
      unfolding new epoll_watched_upd e(2) by (rule upd_insert [OF epoll_watched_at [OF assms more(2)]])
    ultimately show ?thesis using more by simp
  next
    case new
    define ws where "ws = add_watch fd (dir_flag d) (ep_watches s)"
    have fd: "0 \<le> fd" "ev_ok (dir_flag d :: u32)" "ev_dirs (dir_flag d :: u32) = {d}"
      using new flag_u32(7,8) [of 1] by (simp_all add: isValidFd_def ev_ok_def)
    have eq: "registerWatch fd (dir_flag d) s = s\<lparr>ep_watches := ws, ep_kernel := (ep_kernel s)(fd \<mapsto> dir_flag d)\<rparr>"
      using new op by (simp add: registerWatch_def ctl_add_def epoll_kernel [OF assms] ws_def)
    have nf: "find (\<lambda>w. ew_fd w = fd) (ep_watches s (watch_hash fd)) = None" using new fd by (simp add: findWatch_def)
    have "epoll_inv (registerWatch fd (dir_flag d) s)"
      unfolding eq using assms
    proof (rule epoll_inv_upd)
      show "chain_ok h (ws h)" for h
        using op(2) fd nf chain_ok_add [of fd "ep_watches s (watch_hash fd)" "dir_flag d"] by (auto simp: ws_def add_watch_def)
      show "map_option ew_events (findWatch ws x) = ((ep_kernel s)(fd \<mapsto> dir_flag d)) x" for x
        using fd new(2) by (simp add: ws_def findWatch_add epoll_kernel [OF assms])
    qed
    moreover have "epoll_watched (registerWatch fd (dir_flag d) s) = insert (fd, d) (epoll_watched s)"
    proof -
      have "(fd, x) \<notin> epoll_watched s" for x using new(2) by (simp add: epoll_watched_def epoll_kernel [OF assms])
      then show ?thesis unfolding eq epoll_watched_upd fd(3) by auto
    qed
    ultimately show ?thesis using new by simp
  qed
qed

lemma epoll_unreg_inv:
  assumes "epoll_inv s"
  shows "epoll_inv (unregisterWatch fd (dir_flag d) s) \<and>
    epoll_watched (unregisterWatch fd (dir_flag d) s) = epoll_watched s - {(fd, d)}"
proof -
  have op: "ep_open s" "\<forall>h. chain_ok h (ep_watches s h)" using assms by (simp_all add: epoll_inv_def)
  consider (none) "(fd, d) \<notin> epoll_watched s"
    | (some) w where "findWatch (ep_watches s) fd = Some w" "d \<in> ev_dirs (ew_events w)"
    by (auto simp: epoll_watched_def epoll_kernel [OF assms])
  then show ?thesis
  proof cases
    case none
    then have "unregisterWatch fd (dir_flag d) s = s"
      using flag_u32(1) findWatch_ok [OF op(2)]
      by (auto simp: unregisterWatch_def epoll_watched_def epoll_kernel [OF assms] split: option.splits)
    with none assms show ?thesis by simp
  next
    case (some w)
    note w = findWatch_ok [OF op(2) some(1)]
    then have v: "isValidFd fd" "ev_ok (ew_events w)" by (simp_all add: isValidFd_def)
    define e where "e = ew_events w AND NOT (dir_flag d)"
    have e: "ev_dirs e = ev_dirs (ew_events w) - {d}" "e \<noteq> 0 \<Longrightarrow> ev_ok e"
      using flag_u32(4,5) [OF v(2)] by (simp_all add: e_def)
    have nz: "ew_events w AND dir_flag d \<noteq> 0" using flag_u32(1) [OF v(2)] some(2) by simp
    show ?thesis
    proof (cases "e = 0")
      case True
      define ws where "ws = (ep_watches s)(watch_hash fd := unlink fd (ep_watches s (watch_hash fd)))"
      have new: "unregisterWatch fd (dir_flag d) s = s\<lparr>ep_watches := ws, ep_kernel := (ep_kernel s)(fd := None)\<rparr>"
        using some op v nz True unfolding unregisterWatch_def Let_def e_def by (simp add: ctl_del_def ws_def)
      have "epoll_inv (unregisterWatch fd (dir_flag d) s)"
        unfolding new using assms
        by (rule epoll_inv_upd) (use op in \<open>auto simp: ws_def chain_ok_unlink findWatch_unlink epoll_kernel [OF assms]\<close>)
      moreover have "ev_dirs (ew_events w) = {d}" using e(1) some(2) True by (auto simp: ev_flags_u32)
      moreover have "epoll_watched (s\<lparr>ep_watches := ws, ep_kernel := (ep_kernel s)(fd := None)\<rparr>) = {p \<in> epoll_watched s. fst p \<noteq> fd}"
        by (auto simp: epoll_watched_def split: if_splits)
      ultimately show ?thesis using epoll_watched_at [OF assms some(1)] unfolding new by auto
    next
      case False
      define ws where "ws = (ep_watches s)(watch_hash fd := set_events fd e (ep_watches s (watch_hash fd)))"
      have new: "unregisterWatch fd (dir_flag d) s = s\<lparr>ep_watches := ws, ep_kernel := (ep_kernel s)(fd \<mapsto> e)\<rparr>"
        using some op v nz False unfolding unregisterWatch_def Let_def ws_def e_def
        by (simp add: ctl_mod_def epoll_kernel [OF assms])
      have "epoll_inv (unregisterWatch fd (dir_flag d) s)"
        unfolding new using assms
        by (rule epoll_inv_upd) (use op e(2) False some(1) in \<open>auto simp: ws_def chain_ok_set findWatch_set epoll_kernel [OF assms]\<close>)
      moreover have "epoll_watched (unregisterWatch fd (dir_flag d) s) = epoll_watched s - {(fd, d)}"
        using epoll_watched_at [OF assms some(1)] unfolding new epoll_watched_upd e(1) by auto
      ultimately show ?thesis by blast
    qed
  qed
qed

interpretation epl: fd_watcher isValidFd epoll_reg epoll_unreg epoll_watched epoll_inv
  by unfold_locales (simp_all add: epoll_reg_def epoll_unreg_def epoll_reg_inv epoll_unreg_inv)

lemma epoll_init_inv: "epoll_inv epoll_init" "epoll_watched epoll_init = {}"
  by (auto simp: epoll_inv_def epoll_init_def chain_ok_def findWatch_def epoll_watched_def)

text \<open>An event port is told the same as an \<open>epoll\<close> descriptor, only by other calls.\<close>

lemma evport_as_epoll:
  assumes "epoll_inv s"
  shows "evport_registerWatch fd flg s = registerWatch fd flg s" "evport_unregisterWatch fd flg s = unregisterWatch fd flg s"
  using epoll_kernel [OF assms, of fd] unfolding Let_def
  by (auto simp: evport_registerWatch_def registerWatch_def evport_unregisterWatch_def unregisterWatch_def Let_def
      port_associate_def ctl_mod_def ctl_add_def split: option.splits)

interpretation evp: fd_watcher isValidFd evport_reg evport_unreg epoll_watched epoll_inv
  by unfold_locales (simp_all add: evport_reg_def evport_unreg_def evport_as_epoll epoll_reg_inv epoll_unreg_inv)

section \<open>kqueue\<close>

text \<open>
  The code only collects changes; they reach the kernel when the buffer of 128 changes is full,
  and with the next wait.  Of the filters the kernel keeps, those of descriptors are modelled:
  \<open>EV_ADD\<close> of a filter that is there changes nothing here, and \<open>EV_DELETE\<close> of one that is
  not fails with \<open>ENOENT\<close>, which is ignored.
\<close>

definition KQ_MAX_CHANGES :: nat where "KQ_MAX_CHANGES = 128"

record kqueue_svc =
  kq_open :: bool
  kq_changes :: "(int \<times> dir \<times> bool) list"
  kq_kernel :: "(int \<times> dir) set"

definition kq_apply :: "(int \<times> dir \<times> bool) list \<Rightarrow> (int \<times> dir) set \<Rightarrow> (int \<times> dir) set" where
  "kq_apply cs K = foldl (\<lambda>K (fd, d, add). if add then insert (fd, d) K else K - {(fd, d)}) K cs"

definition flushChanges :: "kqueue_svc \<Rightarrow> kqueue_svc" where
  "flushChanges s = s\<lparr>kq_kernel := kq_apply (kq_changes s) (kq_kernel s), kq_changes := []\<rparr>"

definition addChange :: "int \<times> dir \<times> bool \<Rightarrow> kqueue_svc \<Rightarrow> kqueue_svc" where
  "addChange c s = (let s1 = (if length (kq_changes s) = KQ_MAX_CHANGES then flushChanges s else s) in
     s1\<lparr>kq_changes := kq_changes s1 @ [c]\<rparr>)"

definition verifyKqueue :: "int \<Rightarrow> kqueue_svc \<Rightarrow> bool" where
  "verifyKqueue fd s \<longleftrightarrow> kq_open s \<and> isValidFd fd"

definition kqueue_reg :: "dir \<Rightarrow> int \<Rightarrow> kqueue_svc \<Rightarrow> kqueue_svc option" where
  "kqueue_reg d fd s = Some (if verifyKqueue fd s then addChange (fd, d, True) s else s)"

definition kqueue_unreg :: "dir \<Rightarrow> int \<Rightarrow> kqueue_svc \<Rightarrow> kqueue_svc option" where
  "kqueue_unreg d fd s = Some (if verifyKqueue fd s then addChange (fd, d, False) s else s)"

definition kqueue_init :: kqueue_svc where
  "kqueue_init = \<lparr>kq_open = True, kq_changes = [], kq_kernel = {}\<rparr>"

text \<open>What is watched is what the kernel will know at the next wait.\<close>

definition kqueue_watched :: "kqueue_svc \<Rightarrow> (int \<times> dir) set" where
  "kqueue_watched s = kq_apply (kq_changes s) (kq_kernel s)"

definition kqueue_inv :: "kqueue_svc \<Rightarrow> bool" where
  "kqueue_inv s \<longleftrightarrow> kq_open s \<and> length (kq_changes s) \<le> KQ_MAX_CHANGES \<and> (\<forall>(fd, d) \<in> kqueue_watched s. isValidFd fd)"

lemma kq_apply_snoc: "kq_apply (cs @ [(fd, d, add)]) K = (if add then insert (fd, d) (kq_apply cs K) else kq_apply cs K - {(fd, d)})"
  "kq_apply [] K = K"
  by (simp_all add: kq_apply_def)

lemma addChange_watched: "kqueue_watched (addChange (fd, d, add) s) =
    (if add then insert (fd, d) (kqueue_watched s) else kqueue_watched s - {(fd, d)})"
  using kq_apply_snoc(1) [of "[]"] by (simp add: addChange_def kqueue_watched_def flushChanges_def Let_def kq_apply_snoc)

lemma addChange_inv: "kqueue_inv s \<Longrightarrow> isValidFd fd \<Longrightarrow> kqueue_inv (addChange (fd, d, add) s)"
  using addChange_watched [of fd d add s]
  by (auto simp: kqueue_inv_def addChange_def flushChanges_def Let_def KQ_MAX_CHANGES_def)

interpretation kqu: fd_watcher isValidFd kqueue_reg kqueue_unreg kqueue_watched kqueue_inv
  by unfold_locales
    (auto simp: kqueue_reg_def kqueue_unreg_def verifyKqueue_def addChange_watched addChange_inv, auto simp: kqueue_inv_def)

lemma kqueue_init_inv: "kqueue_inv kqueue_init" "kqueue_watched kqueue_init = {}"
  by (simp_all add: kqueue_inv_def kqueue_init_def kqueue_watched_def kq_apply_def)

section \<open>Properties\<close>

text \<open>
  C27: All five back ends do the same.  After any sequence of registrations and
  unregistrations of descriptors below \<open>FD_SETSIZE\<close>, \<open>select\<close>, \<open>poll\<close>, \<open>epoll\<close>, event
  ports and \<open>kqueue\<close> watch the same pairs of a descriptor and a direction, those that were
  registered and not unregistered since, and no call accesses memory outside the array of
  \<open>poll\<close>, however the entries were added, merged and removed.
\<close>
theorem backends_equivalent:
  assumes "list_all (\<lambda>a. case a of Reg d fd \<Rightarrow> fd < int sz | Unreg d fd \<Rightarrow> True) ops"
  shows "map_option select_watched (watch_run (select_reg sz) (select_unreg sz) ops (select_init sz))
        = Some (watch_spec isValidFd ops {}) \<and>
      map_option poll_watched (watch_run poll_reg poll_unreg ops poll_init) = Some (watch_spec isValidFd ops {}) \<and>
      map_option epoll_watched (watch_run epoll_reg epoll_unreg ops epoll_init) = Some (watch_spec isValidFd ops {}) \<and>
      map_option epoll_watched (watch_run evport_reg evport_unreg ops epoll_init) = Some (watch_spec isValidFd ops {}) \<and>
      map_option kqueue_watched (watch_run kqueue_reg kqueue_unreg ops kqueue_init) = Some (watch_spec isValidFd ops {})"
proof (intro conjI)
  have "watch_spec (isValidFd_select sz) ops {} = watch_spec isValidFd ops {}"
    by (rule watch_spec_ok) (use assms in \<open>auto simp: list_all_iff isValidFd_select_def isValidFd_def split: watch_op.splits\<close>)
  then show "map_option select_watched (watch_run (select_reg sz) (select_unreg sz) ops (select_init sz))
      = Some (watch_spec isValidFd ops {})"
    using sel.run_watches_from [OF select_init_inv] by metis
qed (rule pol.run_watches_from [OF poll_init_inv] epl.run_watches_from [OF epoll_init_inv]
    evp.run_watches_from [OF epoll_init_inv] kqu.run_watches_from [OF kqueue_init_inv]; simp)+

theorem backends_equivalent_witness:
  "map_option select_watched (watch_run (select_reg 8) (select_unreg 8) [Reg DRead 3, Reg DWrite 5, Unreg DRead 3] (select_init 8))
     = Some {(5, DWrite)} \<and>
   map_option poll_watched (watch_run poll_reg poll_unreg [Reg DRead 3, Reg DWrite 5, Unreg DRead 3] poll_init) = Some {(5, DWrite)}"
  using backends_equivalent [of 8 "[Reg DRead 3, Reg DWrite 5, Unreg DRead 3]"]
  by (auto simp: isValidFd_def)

text \<open>
  \<open>select\<close> is always called with the right bound.  In every state the calls can lead to,
  \<open>nfds\<close> is larger than every watched descriptor and at most \<open>FD_SETSIZE\<close>, it is not larger
  than necessary (the descriptor below it is watched), and the counters \<open>nread\<close> and
  \<open>nwrite\<close>, which decide whether a set is passed at all, are the sizes of the sets.
\<close>
theorem select_nfds:
  assumes "watch_run (select_reg sz) (select_unreg sz) ops (select_init sz) = Some s"
  shows "(\<forall>(fd, d) \<in> select_watched s. fd < se_nfds s) \<and> se_nfds s \<le> int sz \<and>
    (se_nfds s = 0 \<or> (\<exists>d. (se_nfds s - 1, d) \<in> select_watched s)) \<and>
    se_nread s = int (card {fd. (fd, DRead) \<in> select_watched s}) \<and>
    se_nwrite s = int (card {fd. (fd, DWrite) \<in> select_watched s})"
proof -
  have inv: "select_inv sz s"
    using sel.run_watches [OF select_init_inv(1), of sz ops] assms by auto
  then have top: "top_of (fdset (se_readfds s) \<union> fdset (se_writefds s)) (se_nfds s)"
    by (simp add: select_inv_def nfds_ok_def)
  have sz: "se_nfds s \<le> int sz" by (rule select_nfds_le [OF inv])
  have D: "{fd. (fd, DRead) \<in> select_watched s} = fdset (se_readfds s)" "{fd. (fd, DWrite) \<in> select_watched s} = fdset (se_writefds s)"
    by (auto simp: select_watched_def)
  have "se_nfds s = 0 \<or> (\<exists>d. (se_nfds s - 1, d) \<in> select_watched s)"
    using top by (auto simp: top_of_def select_watched_def)
  moreover have "\<forall>(fd, d) \<in> select_watched s. fd < se_nfds s"
    using top by (auto simp: top_of_def select_watched_def)
  ultimately show ?thesis using sz inv unfolding D by (simp add: select_inv_def)
qed

theorem select_nfds_witness:
  "\<exists>s. watch_run (select_reg 8) (select_unreg 8) [Reg DRead 3, Reg DWrite 5, Unreg DWrite 5] (select_init 8) = Some s \<and>
     se_nfds s \<le> int 8 \<and> se_nfds s = 4"
proof -
  obtain s where s: "watch_run (select_reg 8) (select_unreg 8) [Reg DRead 3, Reg DWrite 5, Unreg DWrite 5] (select_init 8) = Some s"
    "se_nfds s = 4"
    by (simp add: select_reg_def select_unreg_def select_init_def select_registerRead_def select_registerWrite_def
        select_unregisterWrite_def isValidFd_select_def FD_ISSET_def tryReduceNfds_def eval_nat_numeral)
  show ?thesis using s select_nfds [OF s(1)] by blast
qed

end
