(* ===== verification/Poser_SvcDispatch.thy ===== *)
theory Poser_SvcDispatch
  imports Poser_SvcWatch
begin

text \<open>
  One round of the event loop (\<open>src/lib/core/service.c\<close>, \<open>processEvents\<close> of the back ends
  \<open>select\<close>, \<open>poll\<close> and \<open>epoll\<close>), from the return of the waiting call on: the events
  \<open>readyWrite\<close> and \<open>readyRead\<close> are raised for the descriptors the kernel reported.  What the
  handlers of an event do to the registrations is a parameter: a list of calls for every event.
  On the main thread one descriptor carries signals (\<open>SIGFD_RDFD\<close>); reading it, \<open>handleSigfd\<close>,
  is an event of its own here, and may fail.
\<close>

section \<open>Events and handlers\<close>

datatype raised = Ready dir int | Signals

record dispatch_env =
  env_ops :: "raised \<Rightarrow> watch_op list"
  env_sigfd :: "int option"
  env_sigok :: bool

datatype 's round_result = Processed 's "raised list" | Failed 's "raised list"

definition pre :: "raised list \<Rightarrow> 's round_result \<Rightarrow> 's round_result" where
  "pre tr r = (case r of Processed s t \<Rightarrow> Processed s (tr @ t) | Failed s t \<Rightarrow> Failed s (tr @ t))"

section \<open>poll\<close>

definition poll_raise :: "dispatch_env \<Rightarrow> raised \<Rightarrow> poll_svc \<Rightarrow> poll_svc option" where
  "poll_raise env r s = watch_run poll_reg poll_unreg (env_ops env r) s"

text \<open>
  The body of the loop for an entry with events.  The code reads \<open>svc->fds[i]\<close> anew after
  each handler.
\<close>

definition poll_entry :: "dispatch_env \<Rightarrow> nat \<Rightarrow> pollfd \<Rightarrow> poll_svc \<Rightarrow> poll_svc round_result option" where
  "poll_entry env i e s =
     (if pfd_revents e AND POLLIN \<noteq> 0 \<and> env_sigfd env = Some (pfd_fd e)
      then if env_sigok env then do {
          s1 \<leftarrow> poll_raise env Signals s;
          e1 \<leftarrow> buf_read (po_fds s1) i;
          b \<leftarrow> buf_write (po_fds s1) i (e1\<lparr>pfd_revents := 0\<rparr>);
          Some (Processed (s1\<lparr>po_fds := b\<rparr>) [Signals]) }
        else Some (Failed s [])
      else do {
        (s1, t1) \<leftarrow> (if pfd_revents e AND POLLOUT \<noteq> 0
            then map_option (\<lambda>x. (x, [Ready DWrite (pfd_fd e)])) (poll_raise env (Ready DWrite (pfd_fd e)) s)
            else Some (s, []));
        e1 \<leftarrow> buf_read (po_fds s1) i;
        (s2, t2) \<leftarrow> (if pfd_revents e1 AND POLLIN \<noteq> 0
            then map_option (\<lambda>x. (x, [Ready DRead (pfd_fd e1)])) (poll_raise env (Ready DRead (pfd_fd e1)) s1)
            else Some (s1, []));
        e2 \<leftarrow> buf_read (po_fds s2) i;
        b \<leftarrow> buf_write (po_fds s2) i (e2\<lparr>pfd_revents := 0\<rparr>);
        Some (Processed (s2\<lparr>po_fds := b\<rparr>) (t1 @ t2)) })"

text \<open>
  The loop over the entries, with the number \<open>prc\<close> of entries left to handle.  It ends, since
  every round consumes one of them or goes on in an array that is not changed.
\<close>

function poll_events :: "dispatch_env \<Rightarrow> nat \<Rightarrow> nat \<Rightarrow> poll_svc \<Rightarrow> poll_svc round_result option" where
  "poll_events env prc i s =
     (if prc = 0 \<or> po_nfds s \<le> i then Some (Processed s []) else do {
        e \<leftarrow> buf_read (po_fds s) i;
        if pfd_revents e = 0 then poll_events env prc (i + 1) s
        else do {
          r \<leftarrow> poll_entry env i e s;
          case r of
            Failed s' tr \<Rightarrow> Some (Failed s' tr)
          | Processed s' tr \<Rightarrow> map_option (pre tr) (poll_events env (prc - 1) (i + 1) s') } })"
  by pat_completeness auto
termination
  by (relation "measures [\<lambda>(env, prc, i, s). prc, \<lambda>(env, prc, i, s). po_nfds s - i]") auto

declare poll_events.simps [simp del]

text \<open>The kernel fills in \<open>revents\<close> and returns the number of entries with events.\<close>

definition poll_kernel :: "(int \<Rightarrow> u16) \<Rightarrow> poll_svc \<Rightarrow> poll_svc" where
  "poll_kernel rdy s = s\<lparr>po_fds := map (\<lambda>e. Some (e\<lparr>pfd_revents := rdy (pfd_fd e)\<rparr>)) (poll_entries s)
      @ drop (po_nfds s) (po_fds s)\<rparr>"

definition processEvents_poll :: "dispatch_env \<Rightarrow> (int \<Rightarrow> u16) \<Rightarrow> poll_svc \<Rightarrow> poll_svc round_result option" where
  "processEvents_poll env rdy s =
     poll_events env (length (filter (\<lambda>e. rdy (pfd_fd e) \<noteq> 0) (poll_entries s))) 0 (poll_kernel rdy s)"

text \<open>The events that are due for a descriptor, in the order the loops raise them.\<close>

definition due_key :: "dispatch_env \<Rightarrow> int \<times> u16 \<Rightarrow> raised list" where
  "due_key env k = (if snd k AND POLLIN \<noteq> 0 \<and> env_sigfd env = Some (fst k) then [Signals]
     else (if snd k AND POLLOUT \<noteq> 0 then [Ready DWrite (fst k)] else [])
        @ (if snd k AND POLLIN \<noteq> 0 then [Ready DRead (fst k)] else []))"

definition only_registers :: "dispatch_env \<Rightarrow> bool" where
  "only_registers env \<longleftrightarrow> (\<forall>r. list_all (\<lambda>a. case a of Reg d fd \<Rightarrow> True | Unreg d fd \<Rightarrow> False) (env_ops env r))"

text \<open>The entries before and after handlers that only register.\<close>

definition grown :: "pollfd list \<Rightarrow> pollfd list \<Rightarrow> bool" where
  "grown es es' \<longleftrightarrow> (\<exists>n. entry_keys es' = entry_keys es @ map (\<lambda>fd. (fd, 0)) n)"

lemma grown_refl: "grown es es"
  by (simp add: grown_def exI [of _ "[]"])

lemma grown_trans: "grown a b \<Longrightarrow> grown b c \<Longrightarrow> grown a c"
  unfolding grown_def by (metis append.assoc map_append)

lemma grown_nth: "grown es es' \<Longrightarrow> i < length es \<Longrightarrow>
    i < length es' \<and> pfd_fd (es' ! i) = pfd_fd (es ! i) \<and> pfd_revents (es' ! i) = pfd_revents (es ! i)"
proof -
  assume g: "grown es es'" and i: "i < length es"
  then obtain n where n: "entry_keys es' = entry_keys es @ map (\<lambda>fd. (fd, 0)) n" by (auto simp: grown_def)
  then have len: "i < length es'" using i by (metis entry_keys_simps(4) length_append trans_less_add1)
  have "entry_keys es' ! i = entry_keys es ! i" using n i by (simp add: nth_append)
  with len i show ?thesis by (simp add: entry_keys_def)
qed

lemma run_registers:
  "poll_rep s es \<Longrightarrow> list_all (\<lambda>a. case a of Reg d fd \<Rightarrow> True | Unreg d fd \<Rightarrow> False) ops \<Longrightarrow>
   \<exists>s' es'. watch_run poll_reg poll_unreg ops s = Some s' \<and> poll_rep s' es' \<and> grown es es'"
proof (induction ops arbitrary: s es)
  case Nil
  then show ?case using grown_refl by auto
next
  case (Cons a ops)
  then obtain d fd where a: "a = Reg d fd" by (auto split: watch_op.splits)
  obtain s1 es1 where s1: "poll_reg d fd s = Some s1" "poll_rep s1 es1" "grown es es1"
    using poll_reg_rep [OF Cons.prems(1), of d fd] by (auto simp: grown_def)
  with Cons.IH [OF s1(2)] Cons.prems a grown_trans [OF s1(3)] show ?case by force
qed

lemma poll_raise_rep:
  "only_registers env \<Longrightarrow> poll_rep s es \<Longrightarrow> \<exists>s' es'. poll_raise env r s = Some s' \<and> poll_rep s' es' \<and> grown es es'"
  unfolding poll_raise_def only_registers_def using run_registers by metis

lemma cond_raise_rep:
  assumes "only_registers env" "poll_rep s es"
  shows "\<exists>s1 es1. (if P then map_option (\<lambda>x. (x, [r])) (poll_raise env r s) else Some (s, [])) = Some (s1, if P then [r] else []) \<and>
    poll_rep s1 es1 \<and> grown es es1"
proof (cases P)
  case True
  with poll_raise_rep [OF assms, of r] show ?thesis by auto
next
  case False
  with assms(2) grown_refl show ?thesis by auto
qed

lemma poll_read_rep: "poll_rep s es \<Longrightarrow> i < length es \<Longrightarrow> buf_read (po_fds s) i = Some (es ! i)"
  by (auto simp: poll_rep_def buf_read_def nth_append)

lemma poll_clear_rep:
  assumes "poll_rep s es" "i < length es"
  shows "\<exists>b. buf_write (po_fds s) i ((es ! i)\<lparr>pfd_revents := 0\<rparr>) = Some b \<and>
    poll_rep (s\<lparr>po_fds := b\<rparr>) (es[i := (es ! i)\<lparr>pfd_revents := 0\<rparr>])"
proof -
  obtain a e b where es: "es = a @ e # b" "length a = i" using assms(2) by (metis id_take_nth_drop length_take min.absorb4)
  have "ev_ok (pfd_events e)" using assms(1) es by (simp add: poll_rep_def)
  with poll_rep_update [of s a e b "e\<lparr>pfd_revents := 0\<rparr>"] assms(1) es show ?thesis
    by (auto simp: nth_append list_update_append)
qed

lemma poll_entry_rep:
  assumes env: "only_registers env" "env_sigok env" and rep: "poll_rep s es" and i: "i < length es"
  shows "\<exists>s' es' x. poll_entry env i (es ! i) s = Some (Processed s' (due_key env (pfd_fd (es ! i), pfd_revents (es ! i)))) \<and>
    poll_rep s' (es'[i := x]) \<and> grown es es'"
proof (cases "pfd_revents (es ! i) AND POLLIN \<noteq> 0 \<and> env_sigfd env = Some (pfd_fd (es ! i))")
  case True
  obtain s1 es1 where s1: "poll_raise env Signals s = Some s1" "poll_rep s1 es1" "grown es es1"
    using poll_raise_rep [OF env(1) rep] by blast
  have i1: "i < length es1" using grown_nth [OF s1(3) i] by blast
  obtain b where "buf_write (po_fds s1) i ((es1 ! i)\<lparr>pfd_revents := 0\<rparr>) = Some b"
    "poll_rep (s1\<lparr>po_fds := b\<rparr>) (es1[i := (es1 ! i)\<lparr>pfd_revents := 0\<rparr>])"
    using poll_clear_rep [OF s1(2) i1] by blast
  with True s1 env(2) show ?thesis
    by (auto simp: poll_entry_def poll_read_rep [OF s1(2) i1] due_key_def intro!: exI)
next
  case False
  define W where "W = (if pfd_revents (es ! i) AND POLLOUT \<noteq> 0 then [Ready DWrite (pfd_fd (es ! i))] else [])"
  obtain s1 es1 where s1: "(if pfd_revents (es ! i) AND POLLOUT \<noteq> 0
      then map_option (\<lambda>x. (x, [Ready DWrite (pfd_fd (es ! i))])) (poll_raise env (Ready DWrite (pfd_fd (es ! i))) s)
      else Some (s, [])) = Some (s1, W)" "poll_rep s1 es1" "grown es es1"
    using cond_raise_rep [OF env(1) rep] unfolding W_def by blast
  have e1: "i < length es1" "pfd_fd (es1 ! i) = pfd_fd (es ! i)" "pfd_revents (es1 ! i) = pfd_revents (es ! i)"
    using grown_nth [OF s1(3) i] by blast+
  define R where "R = (if pfd_revents (es1 ! i) AND POLLIN \<noteq> 0 then [Ready DRead (pfd_fd (es1 ! i))] else [])"
  obtain s2 es2 where s2: "(if pfd_revents (es1 ! i) AND POLLIN \<noteq> 0
      then map_option (\<lambda>x. (x, [Ready DRead (pfd_fd (es1 ! i))])) (poll_raise env (Ready DRead (pfd_fd (es1 ! i))) s1)
      else Some (s1, [])) = Some (s2, R)" "poll_rep s2 es2" "grown es1 es2"
    using cond_raise_rep [OF env(1) s1(2)] unfolding R_def by blast
  have i2: "i < length es2" using grown_nth [OF s2(3) e1(1)] by blast
  obtain b where b: "buf_write (po_fds s2) i ((es2 ! i)\<lparr>pfd_revents := 0\<rparr>) = Some b"
    "poll_rep (s2\<lparr>po_fds := b\<rparr>) (es2[i := (es2 ! i)\<lparr>pfd_revents := 0\<rparr>])"
    using poll_clear_rep [OF s2(2) i2] by blast
  have "due_key env (pfd_fd (es ! i), pfd_revents (es ! i)) = W @ R"
    using False e1 by (auto simp: due_key_def W_def R_def)
  moreover have "poll_entry env i (es ! i) s = Some (Processed (s2\<lparr>po_fds := b\<rparr>) (W @ R))"
    unfolding poll_entry_def if_not_P [OF False] s1(1) by (simp add: poll_read_rep [OF s1(2) e1(1)] s2(1) poll_read_rep [OF s2(2) i2] b(1))
  ultimately show ?thesis using b(2) grown_trans [OF s1(3) s2(3)] by auto
qed


lemma grown_rest:
  assumes "grown es es'" "i < length es"
  shows "concat (map (due_key env) (drop (Suc i) (entry_keys (es'[i := x])))) = concat (map (due_key env) (drop (Suc i) (entry_keys es)))"
    and "filter (\<lambda>k. snd k \<noteq> 0) (drop (Suc i) (entry_keys (es'[i := x]))) = filter (\<lambda>k. snd k \<noteq> 0) (drop (Suc i) (entry_keys es))"
proof -
  obtain n where n: "entry_keys es' = entry_keys es @ map (\<lambda>fd. (fd, 0)) n" using assms(1) by (auto simp: grown_def)
  have "drop (Suc i) (entry_keys (es'[i := x])) = drop (Suc i) (entry_keys es')"
    by (simp add: entry_keys_def map_update)
  with n assms(2) have *: "drop (Suc i) (entry_keys (es'[i := x])) = drop (Suc i) (entry_keys es) @ map (\<lambda>fd. (fd, 0)) n"
    by simp
  have z: "due_key env (fd, 0) = []" for fd by (simp add: due_key_def)
  show "concat (map (due_key env) (drop (Suc i) (entry_keys (es'[i := x])))) = concat (map (due_key env) (drop (Suc i) (entry_keys es)))"
    unfolding * by (simp add: comp_def z)
  show "filter (\<lambda>k. snd k \<noteq> 0) (drop (Suc i) (entry_keys (es'[i := x]))) = filter (\<lambda>k. snd k \<noteq> 0) (drop (Suc i) (entry_keys es))"
    unfolding * by simp
qed

lemma due_none: "filter (\<lambda>k. snd k \<noteq> 0) ks = [] \<Longrightarrow> concat (map (due_key env) ks) = []"
  by (induction ks) (auto simp: due_key_def split: if_splits)

lemma poll_events_rep:
  "poll_rep s es \<Longrightarrow> only_registers env \<Longrightarrow> env_sigok env \<Longrightarrow> prc = length (filter (\<lambda>k. snd k \<noteq> 0) (drop i (entry_keys es))) \<Longrightarrow>
    \<exists>s'. poll_events env prc i s = Some (Processed s' (concat (map (due_key env) (drop i (entry_keys es))))) \<and> poll_inv s'"
proof (induction env prc i s arbitrary: es rule: poll_events.induct)
  case (1 env prc i s)
  have nf: "po_nfds s = length es" using "1.prems"(1) by (simp add: poll_rep_def)
  show ?case
  proof (cases "prc = 0 \<or> po_nfds s \<le> i")
    case True
    then have "filter (\<lambda>k. snd k \<noteq> 0) (drop i (entry_keys es)) = []" using "1.prems"(4) nf by auto
    then show ?thesis
      using True "1.prems"(1) due_none [of "drop i (entry_keys es)" env] by (auto simp: poll_events.simps poll_inv_def)
  next
    case False
    then have i: "i < length es" using nf by simp
    have rd: "buf_read (po_fds s) i = Some (es ! i)" by (rule poll_read_rep [OF "1.prems"(1) i])
    have dr: "drop i (entry_keys es) = (pfd_fd (es ! i), pfd_revents (es ! i)) # drop (Suc i) (entry_keys es)"
      using i by (simp add: entry_keys_def Cons_nth_drop_Suc [symmetric])
    show ?thesis
    proof (cases "pfd_revents (es ! i) = 0")
      case z: True
      then have "due_key env (pfd_fd (es ! i), pfd_revents (es ! i)) = []" by (simp add: due_key_def)
      with "1.IH"(1) [OF False rd z "1.prems"(1-3)] "1.prems"(4) z False rd show ?thesis
        by (subst poll_events.simps) (simp add: dr)
    next
      case nz: False
      obtain s' es' x where e: "poll_entry env i (es ! i) s = Some (Processed s' (due_key env (pfd_fd (es ! i), pfd_revents (es ! i))))"
        "poll_rep s' (es'[i := x])" "grown es es'"
        using poll_entry_rep [OF _ _ "1.prems"(1) i] "1.prems"(2,3) by blast
      note g = grown_rest [OF e(3) i, where x = x]
      have "prc - 1 = length (filter (\<lambda>k. snd k \<noteq> 0) (drop (i + 1) (entry_keys (es'[i := x]))))"
        using "1.prems"(4) nz by (simp add: dr g(2))
      with "1.IH"(2) [OF False rd nz e(1) refl e(2) "1.prems"(2,3)] obtain s'' where
        "poll_events env (prc - 1) (i + 1) s' = Some (Processed s'' (concat (map (due_key env) (drop (Suc i) (entry_keys es)))))" "poll_inv s''"
        by (auto simp: g(1))
      with False rd nz e(1) show ?thesis
        by (subst poll_events.simps) (simp add: dr pre_def)
    qed
  qed
qed

text \<open>The events due for a descriptor, by the directions that are ready.\<close>

definition due_dirs :: "dispatch_env \<Rightarrow> int \<Rightarrow> dir set \<Rightarrow> raised list" where
  "due_dirs env fd D = (if DRead \<in> D \<and> env_sigfd env = Some fd then [Signals]
     else (if DWrite \<in> D then [Ready DWrite fd] else []) @ (if DRead \<in> D then [Ready DRead fd] else []))"

lemma ev_dirs_mem: "DRead \<in> ev_dirs e \<longleftrightarrow> e AND 1 \<noteq> 0" "DWrite \<in> ev_dirs e \<longleftrightarrow> e AND 4 \<noteq> 0"
  by (auto simp: ev_dirs_def)

lemma due_due_dirs: "due_key env (fd, e) = due_dirs env fd (ev_dirs e)"
  by (simp add: due_key_def due_dirs_def POLLIN_def POLLOUT_def ev_dirs_mem)

lemma poll_kernel_rep:
  assumes "poll_rep s es"
  shows "poll_rep (poll_kernel rdy s) (map (\<lambda>e. e\<lparr>pfd_revents := rdy (pfd_fd e)\<rparr>) es)"
proof -
  obtain rest where "po_fds s = map Some es @ rest" "po_nfds s = length es" using assms by (auto simp: poll_rep_def)
  with assms show ?thesis unfolding poll_kernel_def poll_entries_rep [OF assms] by (simp add: poll_rep_def comp_def)
qed

section \<open>epoll\<close>

definition epoll_raise :: "dispatch_env \<Rightarrow> raised \<Rightarrow> epoll_svc \<Rightarrow> epoll_svc option" where
  "epoll_raise env r s = watch_run epoll_reg epoll_unreg (env_ops env r) s"

text \<open>The loop over the events that \<open>epoll_wait\<close> returned.\<close>

fun processEvents_epoll :: "dispatch_env \<Rightarrow> (int \<times> u32) list \<Rightarrow> epoll_svc \<Rightarrow> epoll_svc round_result option" where
  "processEvents_epoll env [] s = Some (Processed s [])"
| "processEvents_epoll env ((fd, e) # evs) s =
     (if e AND EPOLLIN \<noteq> 0 \<and> env_sigfd env = Some fd
      then if env_sigok env then do {
          s1 \<leftarrow> epoll_raise env Signals s;
          map_option (pre [Signals]) (processEvents_epoll env evs s1) }
        else Some (Failed s [])
      else do {
        (s1, t1) \<leftarrow> (if e AND EPOLLOUT \<noteq> 0
            then map_option (\<lambda>x. (x, [Ready DWrite fd])) (epoll_raise env (Ready DWrite fd) s) else Some (s, []));
        (s2, t2) \<leftarrow> (if e AND EPOLLIN \<noteq> 0
            then map_option (\<lambda>x. (x, [Ready DRead fd])) (epoll_raise env (Ready DRead fd) s1) else Some (s1, []));
        map_option (pre (t1 @ t2)) (processEvents_epoll env evs s2) })"

lemma epoll_raise_inv: "epoll_inv s \<Longrightarrow> \<exists>s'. epoll_raise env r s = Some s' \<and> epoll_inv s'"
  unfolding epoll_raise_def using epl.run_watches by blast

lemma epoll_events_all:
  "epoll_inv s \<Longrightarrow> env_sigok env \<Longrightarrow> \<exists>s'. processEvents_epoll env evs s
     = Some (Processed s' (concat (map (\<lambda>(fd, e). due_dirs env fd (ev_dirs e)) evs))) \<and> epoll_inv s'"
proof (induction evs arbitrary: s)
  case (Cons k evs)
  obtain fd e where k: "k = (fd, e)" by fastforce
  have cond: "\<exists>s1. (if P then map_option (\<lambda>x. (x, [r])) (epoll_raise env r s0) else Some (s0, [])) = Some (s1, if P then [r] else []) \<and> epoll_inv s1"
    if "epoll_inv s0" for P r s0 using epoll_raise_inv [OF that, of env r] that by (cases P) auto
  show ?case
  proof (cases "e AND EPOLLIN \<noteq> 0 \<and> env_sigfd env = Some fd")
    case True
    then have due_key: "due_dirs env fd (ev_dirs e) = [Signals]" by (simp add: due_dirs_def ev_dirs_mem EPOLLIN_def)
    obtain s1 where "epoll_raise env Signals s = Some s1" "epoll_inv s1" using epoll_raise_inv [OF Cons.prems(1)] by blast
    with Cons.IH [of s1] Cons.prems(2) True k due_key show ?thesis by (auto simp: pre_def)
  next
    case False
    obtain s1 where s1: "(if e AND EPOLLOUT \<noteq> 0 then map_option (\<lambda>x. (x, [Ready DWrite fd])) (epoll_raise env (Ready DWrite fd) s)
        else Some (s, [])) = Some (s1, if e AND EPOLLOUT \<noteq> 0 then [Ready DWrite fd] else [])" "epoll_inv s1"
      using cond [OF Cons.prems(1)] by blast
    obtain s2 where s2: "(if e AND EPOLLIN \<noteq> 0 then map_option (\<lambda>x. (x, [Ready DRead fd])) (epoll_raise env (Ready DRead fd) s1)
        else Some (s1, [])) = Some (s2, if e AND EPOLLIN \<noteq> 0 then [Ready DRead fd] else [])" "epoll_inv s2"
      using cond [OF s1(2)] by blast
    obtain s3 where s3: "processEvents_epoll env evs s2 = Some (Processed s3 (concat (map (\<lambda>(fd, e). due_dirs env fd (ev_dirs e)) evs)))" "epoll_inv s3"
      using Cons.IH [OF s2(2) Cons.prems(2)] by blast
    have "due_dirs env fd (ev_dirs e) = (if e AND EPOLLOUT \<noteq> 0 then [Ready DWrite fd] else []) @ (if e AND EPOLLIN \<noteq> 0 then [Ready DRead fd] else [])"
      using False by (auto simp: due_dirs_def ev_dirs_mem EPOLLIN_def EPOLLOUT_def)
    then show ?thesis
      unfolding k processEvents_epoll.simps if_not_P [OF False] s1(1) using s3 by (simp add: s2(1) pre_def)
  qed
qed simp

section \<open>select\<close>

definition select_raise :: "nat \<Rightarrow> dispatch_env \<Rightarrow> raised \<Rightarrow> select_svc \<Rightarrow> select_svc option" where
  "select_raise sz env r s = watch_run (select_reg sz) (select_unreg sz) (env_ops env r) s"

text \<open>
  The loops over the two sets that \<open>select\<close> left behind, with the number \<open>src\<close> of bits to
  handle; a descriptor beyond the set is outside of its memory.
\<close>

function select_writes :: "nat \<Rightarrow> dispatch_env \<Rightarrow> bool list \<Rightarrow> nat \<Rightarrow> nat \<Rightarrow> select_svc \<Rightarrow> (nat \<times> select_svc \<times> raised list) option" where
  "select_writes sz env w src i s =
     (if src = 0 \<or> se_nfds s \<le> int i then Some (src, s, [])
      else if length w \<le> i then None
      else if w ! i then do {
        s1 \<leftarrow> select_raise sz env (Ready DWrite (int i)) s;
        (src2, s2, t) \<leftarrow> select_writes sz env w (src - 1) (i + 1) s1;
        Some (src2, s2, Ready DWrite (int i) # t) }
      else select_writes sz env w src (i + 1) s)"
  by pat_completeness auto
termination
  by (relation "measure (\<lambda>(sz, env, w, src, i, s). length w - i)") auto

function select_reads :: "nat \<Rightarrow> dispatch_env \<Rightarrow> bool list \<Rightarrow> nat \<Rightarrow> nat \<Rightarrow> select_svc \<Rightarrow> select_svc round_result option" where
  "select_reads sz env r src i s =
     (if src = 0 \<or> se_nfds s \<le> int i then Some (Processed s [])
      else if length r \<le> i then None
      else if r ! i then
        if env_sigfd env = Some (int i)
        then if env_sigok env then do {
            s1 \<leftarrow> select_raise sz env Signals s;
            map_option (pre [Signals]) (select_reads sz env r (src - 1) (i + 1) s1) }
          else Some (Failed s [])
        else do {
          s1 \<leftarrow> select_raise sz env (Ready DRead (int i)) s;
          map_option (pre [Ready DRead (int i)]) (select_reads sz env r (src - 1) (i + 1) s1) }
      else select_reads sz env r src (i + 1) s)"
  by pat_completeness auto
termination
  by (relation "measure (\<lambda>(sz, env, r, src, i, s). length r - i)") auto

declare select_writes.simps [simp del] select_reads.simps [simp del]

definition bits :: "bool list \<Rightarrow> nat list" where
  "bits l = filter (\<lambda>i. l ! i) [0..<length l]"

text \<open>A set is passed only when it is not empty; \<open>rdyw\<close> and \<open>rdyr\<close> are what \<open>select\<close> leaves of it.\<close>

definition processEvents_select ::
  "nat \<Rightarrow> dispatch_env \<Rightarrow> bool list \<Rightarrow> bool list \<Rightarrow> select_svc \<Rightarrow> select_svc round_result option" where
  "processEvents_select sz env rdyw rdyr s =
     (let w = (if se_nwrite s \<noteq> 0 then Some rdyw else None);
          r = (if se_nread s \<noteq> 0 then Some rdyr else None);
          src = length (case w of Some l \<Rightarrow> bits l | None \<Rightarrow> []) + length (case r of Some l \<Rightarrow> bits l | None \<Rightarrow> []) in
      do {
        (src1, s1, t1) \<leftarrow> (case w of Some l \<Rightarrow> select_writes sz env l src 0 s | None \<Rightarrow> Some (src, s, []));
        case r of
          Some l \<Rightarrow> map_option (pre t1) (select_reads sz env l src1 0 s1)
        | None \<Rightarrow> Some (Processed s1 t1) })"

definition bits_from :: "nat \<Rightarrow> bool list \<Rightarrow> nat list" where
  "bits_from i l = filter (\<lambda>j. l ! j) [i..<length l]"

lemma bits_from_step: "i < length l \<Longrightarrow> bits_from i l = (if l ! i then i # bits_from (Suc i) l else bits_from (Suc i) l)"
  by (simp add: bits_from_def upt_conv_Cons)

lemma select_nfds_mono: "se_nfds s \<le> se_nfds (select_registerRead sz fd s)" "se_nfds s \<le> se_nfds (select_registerWrite sz fd s)"
  by (simp_all add: select_registerRead_def select_registerWrite_def)

lemma select_run_registers:
  "select_inv sz s \<Longrightarrow> list_all (\<lambda>a. case a of Reg d fd \<Rightarrow> True | Unreg d fd \<Rightarrow> False) ops \<Longrightarrow>
   \<exists>s'. watch_run (select_reg sz) (select_unreg sz) ops s = Some s' \<and> select_inv sz s' \<and> se_nfds s \<le> se_nfds s'"
proof (induction ops arbitrary: s)
  case (Cons a ops)
  then obtain d fd where a: "a = Reg d fd" by (auto split: watch_op.splits)
  obtain s1 where s1: "select_reg sz d fd s = Some s1" "select_inv sz s1"
    using sel.reg_watches [OF Cons.prems(1), of d fd] by blast
  moreover have "se_nfds s \<le> se_nfds s1"
    using s1(1) select_nfds_mono by (cases d) (auto simp: select_reg_def)
  ultimately show ?case using Cons.IH [OF s1(2)] Cons.prems a by fastforce
qed simp

lemma select_raise_inv:
  "only_registers env \<Longrightarrow> select_inv sz s \<Longrightarrow> \<exists>s'. select_raise sz env r s = Some s' \<and> select_inv sz s' \<and> se_nfds s \<le> se_nfds s'"
  unfolding select_raise_def only_registers_def using select_run_registers by metis

lemma below_nfds: "\<forall>j \<in> set (bits_from i l). int j < n \<Longrightarrow> n \<le> int i \<Longrightarrow> bits_from i l = []"
proof -
  assume b: "\<forall>j \<in> set (bits_from i l). int j < n" and n: "n \<le> int i"
  have "j \<notin> set (bits_from i l)" for j
  proof
    assume j: "j \<in> set (bits_from i l)"
    then have "i \<le> j" by (simp add: bits_from_def)
    with b j n show False by fastforce
  qed
  then show ?thesis by (metis last_in_set)
qed

lemma select_writes_all:
  "only_registers env \<Longrightarrow> select_inv sz s \<Longrightarrow> length w = sz \<Longrightarrow> \<forall>j \<in> set (bits_from i w). int j < se_nfds s
   \<Longrightarrow> src = length (bits_from i w) + k \<Longrightarrow>
   \<exists>s'. select_writes sz env w src i s = Some (k, s', map (\<lambda>j. Ready DWrite (int j)) (bits_from i w)) \<and>
     select_inv sz s' \<and> se_nfds s \<le> se_nfds s'"
proof (induction sz env w src i s rule: select_writes.induct)
  case (1 sz env w src i s)
  show ?case
  proof (cases "src = 0 \<or> se_nfds s \<le> int i")
    case True
    then have "bits_from i w = []" using below_nfds [OF "1.prems"(4)] "1.prems"(5) by auto
    with True "1.prems" show ?thesis by (simp add: select_writes.simps)
  next
    case False
    have i: "i < length w"
      using select_nfds_le [OF "1.prems"(2)] False "1.prems"(3) by linarith
    show ?thesis
    proof (cases "w ! i")
      case True
      obtain s1 where s1: "select_raise sz env (Ready DWrite (int i)) s = Some s1" "select_inv sz s1" "se_nfds s \<le> se_nfds s1"
        using select_raise_inv [OF "1.prems"(1,2)] by blast
      have b: "\<forall>j \<in> set (bits_from (i + 1) w). int j < se_nfds s1" "src - 1 = length (bits_from (i + 1) w) + k"
        using "1.prems"(4,5) s1(3) bits_from_step [OF i] True by (fastforce, simp)
      obtain s2 where "select_writes sz env w (src - 1) (i + 1) s1 = Some (k, s2, map (\<lambda>j. Ready DWrite (int j)) (bits_from (i + 1) w))"
        "select_inv sz s2" "se_nfds s1 \<le> se_nfds s2"
        using "1.IH"(1) [OF False _ True s1(1) "1.prems"(1) s1(2) "1.prems"(3) b] i by (metis not_le)
      with False i True s1 show ?thesis
        by (subst select_writes.simps) (auto simp: bits_from_step [OF i])
    next
      case f: False
      with "1.IH"(2) [OF False _ f "1.prems"(1-3)] i "1.prems"(4,5) bits_from_step [OF i] False show ?thesis
        by (subst select_writes.simps) auto
    qed
  qed
qed

lemma select_reads_all:
  "only_registers env \<Longrightarrow> env_sigok env \<Longrightarrow> select_inv sz s \<Longrightarrow> length r = sz \<Longrightarrow> \<forall>j \<in> set (bits_from i r). int j < se_nfds s
   \<Longrightarrow> src = length (bits_from i r) \<Longrightarrow>
   \<exists>s'. select_reads sz env r src i s = Some (Processed s' (concat (map (\<lambda>j. due_dirs env (int j) {DRead}) (bits_from i r)))) \<and>
     select_inv sz s'"
proof (induction sz env r src i s rule: select_reads.induct)
  case (1 sz env r src i s)
  show ?case
  proof (cases "src = 0 \<or> se_nfds s \<le> int i")
    case True
    then have "bits_from i r = []" using below_nfds [OF "1.prems"(5)] "1.prems"(6) by auto
    with True "1.prems" show ?thesis by (simp add: select_reads.simps)
  next
    case False
    have i: "i < length r" "\<not> length r \<le> i"
      using select_nfds_le [OF "1.prems"(3)] False "1.prems"(4) by linarith+
    show ?thesis
    proof (cases "r ! i")
      case True
      define x where "x = (if env_sigfd env = Some (int i) then Signals else Ready DRead (int i))"
      have due_key: "due_dirs env (int i) {DRead} = [x]" by (simp add: due_dirs_def x_def)
      obtain s1 where s1: "select_raise sz env x s = Some s1" "select_inv sz s1" "se_nfds s \<le> se_nfds s1"
        using select_raise_inv [OF "1.prems"(1,3)] by blast
      have b: "\<forall>j \<in> set (bits_from (i + 1) r). int j < se_nfds s1" "src - 1 = length (bits_from (i + 1) r)"
        using "1.prems"(5,6) s1(3) bits_from_step [OF i(1)] True by (fastforce, simp)
      have "\<exists>s2. select_reads sz env r (src - 1) (i + 1) s1 =
          Some (Processed s2 (concat (map (\<lambda>j. due_dirs env (int j) {DRead}) (bits_from (i + 1) r)))) \<and> select_inv sz s2"
      proof (cases "env_sigfd env = Some (int i)")
        case c: True
        with s1(1) have "select_raise sz env Signals s = Some s1" by (simp add: x_def)
        from "1.IH"(1) [OF False i(2) True c "1.prems"(2) this "1.prems"(1,2) s1(2) "1.prems"(4) b] show ?thesis .
      next
        case c: False
        with s1(1) have "select_raise sz env (Ready DRead (int i)) s = Some s1" by (simp add: x_def)
        from "1.IH"(2) [OF False i(2) True c this "1.prems"(1,2) s1(2) "1.prems"(4) b] show ?thesis .
      qed
      with False i True s1 "1.prems"(2) due_key show ?thesis
        by (subst select_reads.simps) (auto simp: bits_from_step [OF i(1)] x_def pre_def split: if_splits)
    next
      case f: False
      with "1.IH"(3) [OF False i(2) f "1.prems"(1-4)] "1.prems"(5,6) bits_from_step [OF i(1)] False i show ?thesis
        by (subst select_reads.simps) auto
    qed
  qed
qed

lemma bits_bits_from: "bits l = bits_from 0 l"
  by (simp add: bits_def bits_from_def)

lemma bits_below:
  assumes "select_inv sz s" "length l = sz" "l' = se_readfds s \<or> l' = se_writefds s" "\<forall>i < sz. l ! i \<longrightarrow> l' ! i"
  shows "\<forall>j \<in> set (bits_from 0 l). int j < se_nfds s"
proof
  fix j assume j: "j \<in> set (bits_from 0 l)"
  with assms have "int j \<in> fdset (se_readfds s) \<union> fdset (se_writefds s)"
    by (auto simp: bits_from_def fdset_def select_inv_def)
  then show "int j < se_nfds s" using assms(1) by (auto simp: select_inv_def nfds_ok_def top_of_def)
qed

lemma no_bits: "select_inv sz s \<Longrightarrow> length l = sz \<Longrightarrow> se_nread s = 0 \<Longrightarrow> \<forall>i < sz. l ! i \<longrightarrow> se_readfds s ! i \<Longrightarrow> bits_from 0 l = []"
  "select_inv sz s \<Longrightarrow> length l = sz \<Longrightarrow> se_nwrite s = 0 \<Longrightarrow> \<forall>i < sz. l ! i \<longrightarrow> se_writefds s ! i \<Longrightarrow> bits_from 0 l = []"
proof -
  have *: "bits_from 0 l = []" if "fdset m = {}" "length m = length l" "\<forall>i < length l. l ! i \<longrightarrow> m ! i" for m
  proof -
    have "\<not> l ! i" if "i < length l" for i
    proof
      assume "l ! i"
      with that \<open>\<forall>i < length l. l ! i \<longrightarrow> m ! i\<close> \<open>length m = length l\<close> have "int i \<in> fdset m" by (simp add: fdset_def)
      with \<open>fdset m = {}\<close> show False by simp
    qed
    then show ?thesis by (simp add: bits_from_def filter_empty_conv)
  qed
  show "select_inv sz s \<Longrightarrow> length l = sz \<Longrightarrow> se_nread s = 0 \<Longrightarrow> \<forall>i < sz. l ! i \<longrightarrow> se_readfds s ! i \<Longrightarrow> bits_from 0 l = []"
    by (rule * [of "se_readfds s"]) (auto simp: select_inv_def)
  show "select_inv sz s \<Longrightarrow> length l = sz \<Longrightarrow> se_nwrite s = 0 \<Longrightarrow> \<forall>i < sz. l ! i \<longrightarrow> se_writefds s ! i \<Longrightarrow> bits_from 0 l = []"
    by (rule * [of "se_writefds s"]) (auto simp: select_inv_def)
qed

lemma select_events_all:
  assumes inv: "select_inv sz s" and env: "only_registers env" "env_sigok env"
    and w: "length rdyw = sz" "\<forall>i < sz. rdyw ! i \<longrightarrow> se_writefds s ! i"
    and r: "length rdyr = sz" "\<forall>i < sz. rdyr ! i \<longrightarrow> se_readfds s ! i"
  shows "\<exists>s'. processEvents_select sz env rdyw rdyr s = Some (Processed s'
     (map (\<lambda>j. Ready DWrite (int j)) (bits rdyw) @ concat (map (\<lambda>j. due_dirs env (int j) {DRead}) (bits rdyr)))) \<and> select_inv sz s'"
proof -
  define srcr where "srcr = (if se_nread s \<noteq> 0 then length (bits rdyr) else 0)"
  have "\<exists>s1. (if se_nwrite s \<noteq> 0 then select_writes sz env rdyw (length (bits rdyw) + srcr) 0 s else Some (srcr, s, []))
      = Some (srcr, s1, map (\<lambda>j. Ready DWrite (int j)) (bits rdyw)) \<and> select_inv sz s1 \<and> se_nfds s \<le> se_nfds s1"
  proof (cases "se_nwrite s = 0")
    case True
    then show ?thesis using no_bits(2) [OF inv w(1) _ w(2)] inv by (simp add: bits_bits_from)
  next
    case False
    then show ?thesis
      using select_writes_all [OF env(1) inv w(1) bits_below [OF inv w(1) _ w(2)] refl, of srcr] by (simp add: bits_bits_from)
  qed
  then obtain s1 where s1: "(if se_nwrite s \<noteq> 0 then select_writes sz env rdyw (length (bits rdyw) + srcr) 0 s else Some (srcr, s, []))
      = Some (srcr, s1, map (\<lambda>j. Ready DWrite (int j)) (bits rdyw))" "select_inv sz s1" "se_nfds s \<le> se_nfds s1" by blast
  have br: "\<forall>j \<in> set (bits_from 0 rdyr). int j < se_nfds s1"
    using bits_below [OF inv r(1) _ r(2)] s1(3) by fastforce
  obtain s2 where s2: "select_reads sz env rdyr (length (bits rdyr)) 0 s1 =
      Some (Processed s2 (concat (map (\<lambda>j. due_dirs env (int j) {DRead}) (bits rdyr))))" "select_inv sz s2"
    using select_reads_all [OF env s1(2) r(1) br refl] by (auto simp: bits_bits_from)
  show ?thesis
  proof (cases "se_nread s = 0")
    case True
    then have "bits rdyr = []" using no_bits(1) [OF inv r(1) _ r(2)] by (simp add: bits_bits_from)
    with True s1 show ?thesis
      by (cases "se_nwrite s = 0") (auto simp: processEvents_select_def srcr_def)
  next
    case False
    with s1 s2 show ?thesis
      by (cases "se_nwrite s = 0") (auto simp: processEvents_select_def srcr_def pre_def)
  qed
qed

section \<open>Properties\<close>

text \<open>
  C28: With \<open>poll\<close>, one round raises exactly what is due.  For every set of descriptors that
  was built up by any calls, whatever events the kernel reports for them: as long as the handlers
  only register descriptors and do not unregister any, \<open>readyWrite\<close> and \<open>readyRead\<close> are raised
  once for each entry whose descriptor is ready, in the order of the entries, even when handlers
  make the array grow and move; the loop ends without an access outside of it.
\<close>
theorem poll_dispatch:
  assumes "watch_run poll_reg poll_unreg ops poll_init = Some s" "only_registers env" "env_sigok env"
  shows "\<exists>s'. processEvents_poll env rdy s = Some (Processed s'
     (concat (map (\<lambda>e. due_dirs env (pfd_fd e) (ev_dirs (rdy (pfd_fd e)))) (poll_entries s)))) \<and> poll_inv s'"
proof -
  have "poll_inv s" using pol.run_watches [OF poll_init_inv(1), of ops] assms(1) by auto
  then obtain es where es: "poll_rep s es" by (auto simp: poll_inv_def)
  note k = poll_kernel_rep [OF es, of rdy]
  have "length (filter (\<lambda>e. rdy (pfd_fd e) \<noteq> 0) es)
      = length (filter (\<lambda>k. snd k \<noteq> 0) (drop 0 (entry_keys (map (\<lambda>e. e\<lparr>pfd_revents := rdy (pfd_fd e)\<rparr>) es))))"
    by (simp add: entry_keys_def filter_map comp_def)
  from poll_events_rep [OF k assms(2,3) this] es show ?thesis
    by (simp add: processEvents_poll_def entry_keys_def comp_def due_due_dirs)
qed

definition idle_env :: dispatch_env where
  "idle_env = \<lparr>env_ops = (\<lambda>_. []), env_sigfd = None, env_sigok = True\<rparr>"

theorem poll_dispatch_witness:
  "\<exists>s s'. watch_run poll_reg poll_unreg [Reg DRead 3, Reg DWrite 4] poll_init = Some s \<and>
     processEvents_poll idle_env (\<lambda>fd. if fd = 4 then 4 else 0) s = Some (Processed s' [Ready DWrite 4])"
proof -
  obtain s where s: "watch_run poll_reg poll_unreg [Reg DRead 3, Reg DWrite 4] poll_init = Some s" "map pfd_fd (poll_entries s) = [3, 4]"
    by (simp add: poll_reg_def registerPoll_def findFd_def poll_init_def isValidFd_def buf_realloc_def buf_write_def
        buf_read_def poll_entries_def eval_nat_numeral)
  have "only_registers idle_env" "env_sigok idle_env" by (simp_all add: idle_env_def only_registers_def)
  from poll_dispatch [OF s(1) this, of "\<lambda>fd. if fd = 4 then 4 else 0"]
  obtain s' where s': "processEvents_poll idle_env (\<lambda>fd. if fd = 4 then 4 else 0) s =
      Some (Processed s' (concat (map (\<lambda>e. due_dirs idle_env (pfd_fd e) (ev_dirs (if pfd_fd e = 4 then 4 else 0 :: u16))) (poll_entries s))))" by blast
  have "map (\<lambda>e. due_dirs idle_env (pfd_fd e) (ev_dirs (if pfd_fd e = 4 then 4 else 0 :: u16))) (poll_entries s)
      = map (\<lambda>fd. due_dirs idle_env fd (ev_dirs (if fd = 4 then 4 else 0 :: u16))) (map pfd_fd (poll_entries s))"
    by (simp add: comp_def)
  with s' s show ?thesis by (auto simp: due_dirs_def ev_flags_u16 idle_env_def)
qed

text \<open>
  With \<open>poll\<close>, a handler that unregisters its own descriptor makes the loop skip the next
  one.  The entries behind it move down by one, so the entry that follows is not looked at in
  this round, and its \<open>revents\<close> is even cleared: descriptor 4 is reported as ready and stays
  watched, but \<open>readyRead\<close> is raised for descriptor 3 only.
\<close>
theorem poll_dispatch_skips:
  "\<exists>s s'. watch_run poll_reg poll_unreg [Reg DRead 3, Reg DRead 4] poll_init = Some s \<and>
     processEvents_poll \<lparr>env_ops = (\<lambda>r. if r = Ready DRead 3 then [Unreg DRead 3] else []), env_sigfd = None, env_sigok = True\<rparr> (\<lambda>_. 1) s
       = Some (Processed s' [Ready DRead 3]) \<and> map pfd_fd (poll_entries s') = [4]"
  by (simp add: processEvents_poll_def poll_kernel_def poll_raise_def poll_entry_def poll_events.simps poll_reg_def poll_unreg_def
      registerPoll_def unregisterPoll_def findFd_def poll_init_def isValidFd_def buf_realloc_def buf_write_def
      buf_read_def buf_move_def poll_entries_def POLLIN_def POLLOUT_def dir_flag_def pre_def eval_nat_numeral)

text \<open>
  With \<open>epoll\<close>, one round raises exactly what is due, whatever the handlers do to the
  registrations: the events were copied by the kernel before, and none is skipped or repeated.
\<close>
theorem epoll_dispatch:
  assumes "watch_run epoll_reg epoll_unreg ops epoll_init = Some s" "env_sigok env"
  shows "\<exists>s'. processEvents_epoll env evs s
     = Some (Processed s' (concat (map (\<lambda>(fd, e). due_dirs env fd (ev_dirs e)) evs))) \<and> epoll_inv s'"
proof -
  have "epoll_inv s" using epl.run_watches [OF epoll_init_inv(1), of ops] assms(1) by auto
  then show ?thesis using assms(2) by (rule epoll_events_all)
qed

theorem epoll_dispatch_witness:
  "\<exists>s'. processEvents_epoll (idle_env\<lparr>env_ops := (\<lambda>_. [Unreg DRead 3])\<rparr>) [(3, 1), (4, 5)] epoll_init
     = Some (Processed s' [Ready DRead 3, Ready DWrite 4, Ready DRead 4])"
  using epoll_dispatch [of "[]" epoll_init "idle_env\<lparr>env_ops := (\<lambda>_. [Unreg DRead 3])\<rparr>" "[(3, 1), (4, 5)]"]
  by (auto simp: due_dirs_def ev_flags_u32 idle_env_def)

text \<open>
  With \<open>select\<close>, one round raises exactly what is due, in ascending order of the
  descriptors, \<open>readyWrite\<close> for all of them before the first \<open>readyRead\<close>: for every reachable
  set of registrations and every subset of it that \<open>select\<close> reports, as long as the handlers
  only register descriptors.
\<close>
theorem select_dispatch:
  assumes "watch_run (select_reg sz) (select_unreg sz) ops (select_init sz) = Some s" "only_registers env" "env_sigok env"
    and "length rdyw = sz" "\<forall>i < sz. rdyw ! i \<longrightarrow> se_writefds s ! i"
    and "length rdyr = sz" "\<forall>i < sz. rdyr ! i \<longrightarrow> se_readfds s ! i"
  shows "\<exists>s'. processEvents_select sz env rdyw rdyr s = Some (Processed s'
     (map (\<lambda>j. Ready DWrite (int j)) (bits rdyw) @ concat (map (\<lambda>j. due_dirs env (int j) {DRead}) (bits rdyr))))"
proof -
  have "select_inv sz s" using sel.run_watches [OF select_init_inv(1), of sz ops] assms(1) by auto
  from select_events_all [OF this assms(2-)] show ?thesis by blast
qed

theorem select_dispatch_witness:
  "\<exists>s s'. watch_run (select_reg 4) (select_unreg 4) [Reg DRead 1] (select_init 4) = Some s \<and>
     processEvents_select 4 idle_env (replicate 4 False) [False, True, False, False] s = Some (Processed s' [Ready DRead 1])"
proof -
  define s where "s = select_registerRead 4 1 (select_init 4)"
  have s: "watch_run (select_reg 4) (select_unreg 4) [Reg DRead 1] (select_init 4) = Some s" "se_readfds s = [False, True, False, False]"
    by (simp_all add: s_def select_reg_def select_registerRead_def isValidFd_select_def FD_ISSET_def select_init_def eval_nat_numeral)
  have env: "only_registers idle_env" "env_sigok idle_env" by (simp_all add: idle_env_def only_registers_def)
  from select_dispatch [OF s(1) env, of "replicate 4 False" "[False, True, False, False]"] s
  show ?thesis by (auto simp: bits_def upt_rec due_dirs_def idle_env_def)
qed

end
