(* ===== verification/Poser_Service.thy ===== *)
theory Poser_Service
  imports Poser_SvcQueue
begin

text \<open>
  The service (\<open>src/lib/core/service.c\<close>) around its event loop: panic handlers, signal
  handlers, exited children, the shutdown counter, the choice of the thread for a command, and
  \<open>serviceLoop\<close> itself, from the first system call to the last.  The build is the usual one on
  Linux: \<open>epoll\<close>, \<open>signalfd\<close> and \<open>eventfd\<close>, with lock-free atomics.
\<close>

section \<open>Panic handlers\<close>

definition MAXPANICHANDLERS :: nat where "MAXPANICHANDLERS = 8"

record panic_state =
  ph_handlers :: "nat buf"
  ph_num :: nat

definition registerPanic :: "nat \<Rightarrow> panic_state \<Rightarrow> panic_state option" where
  "registerPanic handler s =
     (if MAXPANICHANDLERS \<le> ph_num s then Some s else do {
        b \<leftarrow> buf_write (ph_handlers s) (ph_num s) handler;
        Some \<lparr>ph_handlers = b, ph_num = ph_num s + 1\<rparr> })"

fun unregister_loop :: "nat \<Rightarrow> nat \<Rightarrow> nat \<Rightarrow> panic_state \<Rightarrow> panic_state option" where
  "unregister_loop 0 i handler s = Some s"
| "unregister_loop (Suc k) i handler s = do {
     h \<leftarrow> buf_read (ph_handlers s) i;
     if h = handler then
       let n = ph_num s - 1 in
       if n > i then do {
         b \<leftarrow> buf_move (ph_handlers s) i (i + 1) (n - i);
         Some \<lparr>ph_handlers = b, ph_num = n\<rparr> }
       else Some (s\<lparr>ph_num := n\<rparr>)
     else unregister_loop k (i + 1) handler s }"

definition unregisterPanic :: "nat \<Rightarrow> panic_state \<Rightarrow> panic_state option" where
  "unregisterPanic handler s = unregister_loop (ph_num s) 0 handler s"

definition panic_init :: panic_state where
  "panic_init = \<lparr>ph_handlers = buf_alloc MAXPANICHANDLERS, ph_num = 0\<rparr>"

text \<open>
  \<open>PSC_Service_panic\<close>: the handlers that are called, and whether the process aborts.  They are
  called when the main loop of the calling thread runs; then the loop is left by \<open>longjmp\<close>.
\<close>

definition panic :: "bool \<Rightarrow> panic_state \<Rightarrow> (nat list \<times> bool) option" where
  "panic mainpanic s = (if mainpanic
     then if ph_num s \<le> length (ph_handlers s) \<and> None \<notin> set (take (ph_num s) (ph_handlers s))
       then Some (map the (take (ph_num s) (ph_handlers s)), False) else None
     else Some ([], True))"

datatype panic_op = PReg nat | PUnreg nat

fun panic_run :: "panic_op list \<Rightarrow> panic_state \<Rightarrow> panic_state option" where
  "panic_run [] s = Some s"
| "panic_run (PReg h # os) s = Option.bind (registerPanic h s) (panic_run os)"
| "panic_run (PUnreg h # os) s = Option.bind (unregisterPanic h s) (panic_run os)"

text \<open>The reference: a list of at most eight handlers; removing takes out the first occurrence.\<close>

fun panic_spec :: "panic_op list \<Rightarrow> nat list \<Rightarrow> nat list" where
  "panic_spec [] hs = hs"
| "panic_spec (PReg h # os) hs = panic_spec os (if length hs < MAXPANICHANDLERS then hs @ [h] else hs)"
| "panic_spec (PUnreg h # os) hs = panic_spec os (remove1 h hs)"

definition panic_rep :: "panic_state \<Rightarrow> nat list \<Rightarrow> bool" where
  "panic_rep s hs \<longleftrightarrow> (\<exists>rest. ph_handlers s = map Some hs @ rest) \<and> length (ph_handlers s) = MAXPANICHANDLERS \<and>
     ph_num s = length hs"

lemma registerPanic_rep:
  assumes "panic_rep s hs"
  shows "\<exists>s'. registerPanic h s = Some s' \<and> panic_rep s' (if length hs < MAXPANICHANDLERS then hs @ [h] else hs)"
proof (cases "length hs < MAXPANICHANDLERS")
  case True
  obtain rest where rest: "ph_handlers s = map Some hs @ rest" using assms by (auto simp: panic_rep_def)
  with assms True obtain v rest' where "rest = v # rest'" by (cases rest) (auto simp: panic_rep_def)
  with assms True rest show ?thesis
    by (simp add: registerPanic_def panic_rep_def buf_write_def list_update_append)
next
  case False
  with assms show ?thesis by (simp add: registerPanic_def panic_rep_def)
qed

lemma unregister_loop_rep:
  "panic_rep s (a @ hs) \<Longrightarrow> h \<notin> set a \<Longrightarrow> \<exists>s'. unregister_loop (length hs) (length a) h s = Some s' \<and> panic_rep s' (a @ remove1 h hs)"
proof (induction hs arbitrary: a)
  case (Cons x hs)
  obtain rest where rest: "ph_handlers s = map Some (a @ x # hs) @ rest" using Cons.prems(1) by (auto simp: panic_rep_def)
  have rd: "buf_read (ph_handlers s) (length a) = Some x" unfolding rest by (simp add: buf_read_def nth_append)
  show ?case
  proof (cases "x = h")
    case True
    show ?thesis
    proof (cases "hs = []")
      case e: True
      with Cons.prems True rd show ?thesis by (auto simp: panic_rep_def)
    next
      case ne: False
      have "buf_move (ph_handlers s) (length a) (length a + 1) (length hs) = Some (map Some (a @ hs) @ last (map Some (x # hs)) # rest)"
        unfolding rest by (simp add: buf_move_def, cases hs rule: rev_cases) simp_all
      with Cons.prems True ne rd rest show ?thesis
        by (auto simp: panic_rep_def Let_def)
    qed
  next
    case False
    with Cons.IH [of "a @ [x]"] Cons.prems rd show ?thesis by auto
  qed
qed simp

lemma unregisterPanic_rep: "panic_rep s hs \<Longrightarrow> \<exists>s'. unregisterPanic h s = Some s' \<and> panic_rep s' (remove1 h hs)"
  using unregister_loop_rep [of s "[]" hs h] by (simp add: unregisterPanic_def panic_rep_def)

lemma panic_run_rep: "panic_rep s hs \<Longrightarrow> \<exists>s'. panic_run ops s = Some s' \<and> panic_rep s' (panic_spec ops hs)"
proof (induction ops arbitrary: s hs)
  case (Cons a ops)
  show ?case
  proof (cases a)
    case (PReg h)
    obtain s1 where "registerPanic h s = Some s1" "panic_rep s1 (if length hs < MAXPANICHANDLERS then hs @ [h] else hs)"
      using registerPanic_rep [OF Cons.prems] by blast
    with Cons.IH PReg show ?thesis by simp
  next
    case (PUnreg h)
    obtain s1 where "unregisterPanic h s = Some s1" "panic_rep s1 (remove1 h hs)"
      using unregisterPanic_rep [OF Cons.prems] by blast
    with Cons.IH PUnreg show ?thesis by simp
  qed
qed simp

section \<open>Signal handlers\<close>

text \<open>
  Records are kept in 32 chains by the low five bits of the signal number, with the handler (or
  none), and the set of blocked signals that the signal descriptor reports.
\<close>

record sig_state =
  sg_chains :: "int \<Rightarrow> (int \<times> nat option) list"
  sg_mask :: "int set"
  sg_running :: bool

definition SIGINT :: int where "SIGINT = 2"
definition SIGALRM :: int where "SIGALRM = 14"
definition SIGTERM :: int where "SIGTERM = 15"
definition SIGCHLD :: int where "SIGCHLD = 17"

definition sig_hash :: "int \<Rightarrow> int" where
  "sig_hash signo = signo AND 31"

definition sighdlrec :: "int \<Rightarrow> sig_state \<Rightarrow> (int \<times> nat option) option" where
  "sighdlrec signo s = find (\<lambda>r. fst r = signo) (sg_chains s (sig_hash signo))"

fun set_hdl :: "int \<Rightarrow> nat option \<Rightarrow> (int \<times> nat option) list \<Rightarrow> (int \<times> nat option) list" where
  "set_hdl signo h [] = [(signo, h)]"
| "set_hdl signo h (r # rs) = (if fst r = signo then (signo, h) # rs else r # set_hdl signo h rs)"

definition registerSignal :: "int \<Rightarrow> nat option \<Rightarrow> sig_state \<Rightarrow> sig_state" where
  "registerSignal signo handler s =
     (let r = sighdlrec signo s;
          special = (signo = SIGTERM \<or> signo = SIGINT \<or> signo = SIGALRM \<or> signo = SIGCHLD);
          mask = (if sg_running s \<and> \<not> special then
              (if r \<noteq> None \<and> handler = None then sg_mask s - {signo}
               else if r = None \<and> handler \<noteq> None then insert signo (sg_mask s) else sg_mask s)
            else sg_mask s) in
      s\<lparr>sg_mask := mask, sg_chains := (sg_chains s)(sig_hash signo := set_hdl signo handler (sg_chains s (sig_hash signo)))\<rparr>)"

text \<open>The handler that \<open>handleSigfd\<close> calls for a signal.\<close>

definition sig_handler :: "int \<Rightarrow> sig_state \<Rightarrow> nat option" where
  "sig_handler signo s = (case sighdlrec signo s of Some r \<Rightarrow> snd r | None \<Rightarrow> None)"

definition sig_init :: sig_state where
  "sig_init = \<lparr>sg_chains = (\<lambda>_. []), sg_mask = {SIGTERM, SIGINT, SIGALRM, SIGCHLD, 13}, sg_running = False\<rparr>"

lemma find_set_hdl: "find (\<lambda>r. fst r = x) (set_hdl signo h l) = (if x = signo then Some (signo, h) else find (\<lambda>r. fst r = x) l)"
  by (induction l) auto

lemma sig_handler_register:
  "sig_handler x (registerSignal signo h s) = (if x = signo then h else sig_handler x s)"
  by (auto simp: sig_handler_def sighdlrec_def registerSignal_def Let_def find_set_hdl)

section \<open>Signals that arrive, and exited children\<close>

datatype wait_status = Exited int | Signaled int | Other

record PSC_EAChildExited =
  ea_pid :: int
  ea_val :: int
  ea_signaled :: bool

definition PSC_CHILD_SIGNALED :: int where "PSC_CHILD_SIGNALED = 256"

definition PSC_EAChildExited_status :: "PSC_EAChildExited \<Rightarrow> int" where
  "PSC_EAChildExited_status e = (if ea_signaled e then PSC_CHILD_SIGNALED else ea_val e)"

definition PSC_EAChildExited_signal :: "PSC_EAChildExited \<Rightarrow> int" where
  "PSC_EAChildExited_signal e = (if \<not> ea_signaled e then 0 else ea_val e)"

text \<open>\<open>reapChildren\<close>: \<open>waitpid\<close> yields the children that changed state, one after the other.\<close>

fun reapChildren :: "(int \<times> wait_status) list \<Rightarrow> PSC_EAChildExited list" where
  "reapChildren [] = []"
| "reapChildren ((pid, st) # ps) =
     (if pid \<le> 0 then []
      else case st of
        Exited v \<Rightarrow> \<lparr>ea_pid = pid, ea_val = v, ea_signaled = False\<rparr> # reapChildren ps
      | Signaled v \<Rightarrow> \<lparr>ea_pid = pid, ea_val = v, ea_signaled = True\<rparr> # reapChildren ps
      | Other \<Rightarrow> reapChildren ps)"

section \<open>Shutdown\<close>

text \<open>
  The counter is \<open>-1\<close> while the service runs; the loop ends when it is \<open>0\<close>.  The timer of
  five seconds is started by the first \<open>PSC_Service_shutdownLock\<close>; creating it may fail.
\<close>

record shutdown_state =
  sd_ref :: int
  sd_timer :: bool

definition PSC_Service_quit :: "shutdown_state \<Rightarrow> shutdown_state" where
  "PSC_Service_quit s = (if sd_ref s = -1 then s\<lparr>sd_ref := 0\<rparr> else s)"

definition PSC_Service_shutdownLock :: "bool \<Rightarrow> shutdown_state \<Rightarrow> shutdown_state" where
  "PSC_Service_shutdownLock timer_ok s =
     (let s1 = (if sd_ref s \<ge> 0 then s\<lparr>sd_ref := sd_ref s + 1\<rparr> else s) in
      if sd_timer s1 then s1
      else if timer_ok then s1\<lparr>sd_timer := True\<rparr> else s1\<lparr>sd_ref := 0\<rparr>)"

definition PSC_Service_shutdownUnlock :: "shutdown_state \<Rightarrow> shutdown_state" where
  "PSC_Service_shutdownUnlock s = (if sd_ref s > 0 then s\<lparr>sd_ref := sd_ref s - 1\<rparr> else s)"

definition shutdownTimeout :: "shutdown_state \<Rightarrow> shutdown_state" where
  "shutdownTimeout s = s\<lparr>sd_ref := 0\<rparr>"

text \<open>\<open>SIGTERM\<close> or \<open>SIGINT\<close>: the counter is reset, then the handlers of \<open>shutdown\<close> run.\<close>

datatype sd_op = Lock | Unlock

definition sd_do :: "bool \<Rightarrow> sd_op \<Rightarrow> shutdown_state \<Rightarrow> shutdown_state" where
  "sd_do timer_ok a s = (case a of Lock \<Rightarrow> PSC_Service_shutdownLock timer_ok s | Unlock \<Rightarrow> PSC_Service_shutdownUnlock s)"

definition handle_term :: "bool \<Rightarrow> sd_op list \<Rightarrow> shutdown_state \<Rightarrow> shutdown_state" where
  "handle_term timer_ok handlers s = fold (sd_do timer_ok) handlers (s\<lparr>sd_ref := 0\<rparr>)"

definition balance :: "sd_op list \<Rightarrow> int" where
  "balance as = int (length (filter (\<lambda>a. a = Lock) as)) - int (length (filter (\<lambda>a. a = Unlock) as))"

lemma sd_fold:
  "0 \<le> sd_ref s \<Longrightarrow> (\<forall>n \<le> length as. 0 \<le> sd_ref s + balance (take n as)) \<Longrightarrow> sd_ref (fold (sd_do True) as s) = sd_ref s + balance as"
proof (induction as arbitrary: s)
  case (Cons a as)
  define s1 where "s1 = sd_do True a s"
  have "0 \<le> sd_ref s + balance (take (Suc 0) (a # as))" using Cons.prems(2) by (metis Suc_le_mono le0 length_Cons)
  then have s1: "sd_ref s1 = sd_ref s + balance [a]"
    using Cons.prems(1) by (cases a) (auto simp: s1_def sd_do_def PSC_Service_shutdownLock_def PSC_Service_shutdownUnlock_def balance_def Let_def)
  have b: "balance (a # xs) = balance [a] + balance xs" for xs by (cases a) (simp_all add: balance_def)
  have "\<forall>n \<le> length as. 0 \<le> sd_ref s1 + balance (take n as)"
  proof (intro allI impI)
    fix n assume "n \<le> length as"
    then have "0 \<le> sd_ref s + balance (take (Suc n) (a # as))" using Cons.prems(2) by (metis Suc_le_mono length_Cons)
    then show "0 \<le> sd_ref s1 + balance (take n as)" using b [of "take n as"] s1 by simp
  qed
  moreover have "0 \<le> sd_ref s1" using calculation by (auto simp: balance_def)
  ultimately show ?case using Cons.IH [of s1] s1 b [of as] by (simp add: s1_def)
qed (simp add: balance_def)

section \<open>Running a function on another thread\<close>

datatype svc_thread = NoService | MainThread | Worker int

datatype run_on = RunNow | EnqueueMain | EnqueueWorker int | LogMissing

definition PSC_Service_threadNo :: "svc_thread \<Rightarrow> int" where
  "PSC_Service_threadNo cur = (case cur of NoService \<Rightarrow> -2 | MainThread \<Rightarrow> -1 | Worker i \<Rightarrow> i)"

definition PSC_Service_runOnThread :: "int \<Rightarrow> svc_thread \<Rightarrow> int \<Rightarrow> run_on" where
  "PSC_Service_runOnThread nssvc cur threadNo =
     (if threadNo < 0 then if cur = MainThread then RunNow else EnqueueMain
      else if threadNo \<ge> nssvc then LogMissing
      else if cur = Worker threadNo then RunNow else EnqueueWorker threadNo)"

section \<open>The service loop\<close>

text \<open>
  What the system calls and handlers on the way return, in the order of the code; a negative
  descriptor is a failure.  The last entry is how the loop itself ends.
\<close>

datatype loop_result = L_Quit | L_Error | L_Panic

record svc_env =
  e_pool :: bool
  e_mask :: bool
  e_signalfd :: int
  e_epoll :: int
  e_prestartup :: int
  e_privileges :: bool
  e_startup :: int
  e_mask2 :: bool
  e_eventfd :: int
  e_workers :: "bool list"
  e_loop :: loop_result
  e_restore :: bool

datatype svc_act =
    A_Open int | A_Close int | A_Prestartup | A_Startup | A_Loop | A_Spawn nat | A_Join nat

record svc_vars =
  r_svc :: bool
  r_sfd :: int
  r_epfd :: int
  r_efd :: int
  r_nssvc :: nat
  r_trace :: "svc_act list"

definition EXIT_SUCCESS :: int where "EXIT_SUCCESS = 0"
definition EXIT_FAILURE :: int where "EXIT_FAILURE = 1"

definition act :: "svc_act \<Rightarrow> svc_vars \<Rightarrow> svc_vars" where
  "act a r = r\<lparr>r_trace := r_trace r @ [a]\<rparr>"

text \<open>The static variables at the start of the process: \<open>sfd\<close> is \<open>-1\<close>, the queue \<open>cq\<close> is zero.\<close>

definition svc_static :: "bool \<Rightarrow> svc_vars" where
  "svc_static inited = \<lparr>r_svc = inited, r_sfd = -1, r_epfd = -1, r_efd = 0, r_nssvc = 0, r_trace = []\<rparr>"

definition destroyCommandQueue :: "svc_vars \<Rightarrow> svc_vars" where
  "destroyCommandQueue r = (if r_efd r \<ge> 0 then act (A_Close (r_efd r)) r else r)"

text \<open>The label \<open>done\<close>; without a \<open>svc\<close> it dereferences a null pointer.\<close>

definition svc_done :: "svc_env \<Rightarrow> int \<Rightarrow> svc_vars \<Rightarrow> (svc_vars \<times> int) option" where
  "svc_done env rc r =
     (let r1 = (fold (\<lambda>i. act (A_Join i)) [0..<r_nssvc r] r)\<lparr>r_nssvc := 0\<rparr>;
          r2 = destroyCommandQueue r1;
          rc2 = (if e_restore env then rc else EXIT_FAILURE);
          r3 = (if r_sfd r2 \<ge> 0 then (act (A_Close (r_sfd r2)) r2)\<lparr>r_sfd := -1\<rparr> else r2) in
      if \<not> r_svc r3 then None
      else Some ((if r_epfd r3 \<ge> 0 then act (A_Close (r_epfd r3)) r3 else r3)\<lparr>r_svc := False\<rparr>, rc2))"

text \<open>The threads are created one after the other, until one fails.\<close>

fun spawn :: "nat \<Rightarrow> bool list \<Rightarrow> svc_vars \<Rightarrow> bool \<times> svc_vars" where
  "spawn i [] r = (True, r)"
| "spawn i (ok # oks) r = (if ok then spawn (i + 1) oks (act (A_Spawn i) r) else (False, r))"

definition svc_main_loop :: "svc_env \<Rightarrow> svc_vars \<Rightarrow> (svc_vars \<times> int) option" where
  "svc_main_loop env r =
     (let (ok, r1) = spawn 0 (e_workers env) (r\<lparr>r_nssvc := length (e_workers env)\<rparr>) in
      if \<not> ok then svc_done env EXIT_SUCCESS r1
      else let r2 = act A_Loop r1 in
        svc_done env (case e_loop env of L_Quit \<Rightarrow> EXIT_SUCCESS | L_Error \<Rightarrow> EXIT_FAILURE | L_Panic \<Rightarrow> EXIT_FAILURE) r2)"

text \<open>
  From the \<open>startup\<close> event on.  \<open>eventfd\<close> sets the field of the queue in any case; when the
  signal mask cannot be set, the code returns what it has.
\<close>

definition svc_started :: "svc_env \<Rightarrow> svc_vars \<Rightarrow> (svc_vars \<times> int) option" where
  "svc_started env r0 =
     (let r = act A_Startup r0; rc = e_startup env in
      if rc \<noteq> EXIT_SUCCESS then svc_done env rc r
      else if \<not> e_mask2 env then Some (r, rc)
      else if e_eventfd env < 0 then svc_done env rc (r\<lparr>r_efd := e_eventfd env\<rparr>)
      else svc_main_loop env (act (A_Open (e_eventfd env)) (r\<lparr>r_efd := e_eventfd env\<rparr>)))"

definition serviceLoop :: "bool \<Rightarrow> svc_env \<Rightarrow> svc_vars \<Rightarrow> (svc_vars \<times> int) option" where
  "serviceLoop svcrun env r0 =
     (if svcrun \<and> \<not> e_pool env then Some (r0, EXIT_FAILURE)
      else if \<not> e_mask env then Some (r0, EXIT_FAILURE)
      else if e_signalfd env < 0 then svc_done env EXIT_FAILURE (r0\<lparr>r_sfd := e_signalfd env\<rparr>)
      else let r1 = (act (A_Open (e_signalfd env)) r0)\<lparr>r_sfd := e_signalfd env, r_svc := True\<rparr> in
      if e_epoll env < 0 then svc_done env EXIT_FAILURE (r1\<lparr>r_epfd := e_epoll env\<rparr>)
      else let r2 = act A_Prestartup ((act (A_Open (e_epoll env)) r1)\<lparr>r_epfd := e_epoll env\<rparr>) in
      if e_prestartup env \<noteq> EXIT_SUCCESS then svc_done env (e_prestartup env) r2
      else if \<not> e_privileges env then Some (r2, EXIT_FAILURE)
      else svc_started env r2)"

section \<open>Properties\<close>

text \<open>
  The table of panic handlers is a list of at most eight: after any sequence of
  registrations and unregistrations, a panic on the main thread calls exactly the handlers that
  the reference list holds, in the order of their registration, and no access leaves the array;
  on any other thread the process aborts.
\<close>
theorem panic_handlers_refine:
  "\<exists>s. panic_run ops panic_init = Some s \<and> panic True s = Some (panic_spec ops [], False) \<and> panic False s = Some ([], True) \<and>
     ph_num s \<le> MAXPANICHANDLERS"
proof -
  have "panic_rep panic_init []" by (simp add: panic_rep_def panic_init_def buf_alloc_def)
  from panic_run_rep [OF this, of ops] obtain s where s: "panic_run ops panic_init = Some s" "panic_rep s (panic_spec ops [])" by blast
  from s(2) obtain rest where rest: "ph_handlers s = map Some (panic_spec ops []) @ rest" "ph_num s = length (panic_spec ops [])"
    "length (ph_handlers s) = MAXPANICHANDLERS" by (auto simp: panic_rep_def)
  then have "ph_num s \<le> MAXPANICHANDLERS" by (metis length_append length_map le_add1)
  with s(1) rest show ?thesis by (auto simp: panic_def comp_def intro!: exI [of _ s])
qed

text \<open>
  A signal handler that is registered is the one that is called: after any registrations,
  \<open>handleSigfd\<close> finds for every signal the handler that was registered last, also when it was
  removed meanwhile or when other signals share its chain.
\<close>
theorem signal_handlers_refine:
  "sig_handler x (fold (\<lambda>(signo, h). registerSignal signo h) ops sig_init) = fold (\<lambda>(signo, h) m. m(signo := h)) ops (\<lambda>_. None) x"
proof -
  have "sig_handler x (fold (\<lambda>(signo, h). registerSignal signo h) ops s) = fold (\<lambda>(signo, h) m. m(signo := h)) ops m x"
    if "\<And>x. sig_handler x s = m x" for s m
    using that
  proof (induction ops arbitrary: s m)
    case (Cons a ops)
    obtain signo h where a: "a = (signo, h)" by fastforce
    have "sig_handler y (registerSignal signo h s) = (m(signo := h)) y" for y
      using Cons.prems by (simp add: sig_handler_register)
    from Cons.IH [OF this] a show ?case by simp
  qed simp
  then show ?thesis by (simp add: sig_handler_def sighdlrec_def sig_init_def)
qed

text \<open>
  A signal that was given up cannot be handled again while the service runs.  The record of
  a removed handler stays in the table, so registering a handler again does not block the signal:
  the table has the handler, but the signal is not among the signals the descriptor reports, and
  takes its default action instead.
\<close>
theorem signal_reregister_ignored:
  assumes "signo \<notin> {SIGTERM, SIGINT, SIGALRM, SIGCHLD}" "sg_running s"
  shows "signo \<in> sg_mask (registerSignal signo (Some h) (s\<lparr>sg_chains := \<lambda>_. []\<rparr>)) \<and>
    sig_handler signo (registerSignal signo (Some h') (registerSignal signo None (registerSignal signo (Some h) s))) = Some h' \<and>
    signo \<notin> sg_mask (registerSignal signo (Some h') (registerSignal signo None (registerSignal signo (Some h) s)))"
proof -
  have r: "sighdlrec signo (registerSignal signo x t) = Some (signo, x)" for x t
    by (simp add: sighdlrec_def registerSignal_def Let_def find_set_hdl)
  have run: "sg_running (registerSignal signo x t) = sg_running t" for x t by (simp add: registerSignal_def Let_def)
  define s1 where "s1 = registerSignal signo (Some h) s"
  define s2 where "s2 = registerSignal signo None s1"
  have m2: "signo \<notin> sg_mask s2" "sighdlrec signo s2 = Some (signo, None)" "sg_running s2"
    using assms r [of "Some h" s] run [of "Some h" s] r [of None s1] run [of None s1]
    by (auto simp: s2_def s1_def registerSignal_def [of signo None] Let_def)
  then have "signo \<notin> sg_mask (registerSignal signo (Some h') s2)"
    by (simp add: registerSignal_def Let_def)
  moreover have "signo \<in> sg_mask (registerSignal signo (Some h) (s\<lparr>sg_chains := \<lambda>_. []\<rparr>))"
    using assms by (simp add: registerSignal_def sighdlrec_def Let_def)
  ultimately show ?thesis by (simp add: sig_handler_register s1_def s2_def)
qed

theorem signal_reregister_ignored_witness:
  "10 \<notin> sg_mask (registerSignal 10 (Some 2) (registerSignal 10 None (registerSignal 10 (Some 1) (sig_init\<lparr>sg_running := True\<rparr>))))"
  using signal_reregister_ignored [of 10 "sig_init\<lparr>sg_running := True\<rparr>" 1 2]
  by (simp add: SIGTERM_def SIGINT_def SIGALRM_def SIGCHLD_def)

text \<open>
  Shutdown waits for the locks.  When a termination signal arrives and the timer can be
  created, then after any further locks and unlocks, of which no prefix unlocks more often than
  was locked, the counter is the number of locks that are still held: the loop goes on exactly
  as long as there is one, and the timeout ends it in any case.
\<close>
theorem shutdown_counts_locks:
  assumes "\<forall>n \<le> length (as @ bs). 0 \<le> balance (take n (as @ bs))"
  shows "sd_ref (fold (sd_do True) bs (handle_term True as s)) = balance (as @ bs) \<and>
    sd_ref (shutdownTimeout (fold (sd_do True) bs (handle_term True as s))) = 0"
proof -
  have "fold (sd_do True) bs (handle_term True as s) = fold (sd_do True) (as @ bs) (s\<lparr>sd_ref := 0\<rparr>)"
    by (simp add: handle_term_def)
  with sd_fold [of "s\<lparr>sd_ref := 0\<rparr>" "as @ bs"] assms show ?thesis by (simp add: shutdownTimeout_def)
qed

theorem shutdown_counts_locks_witness:
  "sd_ref (fold (sd_do True) [Unlock] (handle_term True [Lock, Lock] \<lparr>sd_ref = -1, sd_timer = False\<rparr>)) = 1"
proof -
  have "\<forall>n \<le> length ([Lock, Lock] @ [Unlock]). 0 \<le> balance (take n ([Lock, Lock] @ [Unlock]))"
    by (auto simp: balance_def le_Suc_eq)
  from shutdown_counts_locks [OF this] show ?thesis by (simp add: balance_def)
qed

text \<open>
  A service that gets as far as its loop cleans up after itself: whatever ends the loop,
  each descriptor it opened is closed once, no other is, every worker thread is joined, and the
  exit code is that of a failure for an error of the loop, a panic, or a signal mask that cannot
  be restored.
\<close>
theorem service_cleanup:
  assumes "e_pool env" "e_mask env" "0 \<le> e_signalfd env" "0 \<le> e_epoll env" "e_prestartup env = EXIT_SUCCESS" "e_privileges env"
    "e_startup env = EXIT_SUCCESS" "e_mask2 env" "0 \<le> e_eventfd env" "list_all (\<lambda>ok. ok) (e_workers env)"
  shows "\<exists>r. serviceLoop svcrun env (svc_static inited) = Some (r,
      if e_loop env = L_Quit \<and> e_restore env then EXIT_SUCCESS else EXIT_FAILURE) \<and>
    r_trace r = [A_Open (e_signalfd env), A_Open (e_epoll env), A_Prestartup, A_Startup, A_Open (e_eventfd env)]
      @ map A_Spawn [0..<length (e_workers env)] @ A_Loop # map A_Join [0..<length (e_workers env)]
      @ [A_Close (e_eventfd env), A_Close (e_signalfd env), A_Close (e_epoll env)]"
proof -
  have spawn: "spawn i oks r = (True, r\<lparr>r_trace := r_trace r @ map A_Spawn [i..<i + length oks]\<rparr>)" if "list_all (\<lambda>ok. ok) oks" for i oks r
    using that by (induction oks arbitrary: i r) (simp_all add: act_def upt_conv_Cons del: upt_Suc)
  have join: "fold (\<lambda>i. act (A_Join i)) ks r = r\<lparr>r_trace := r_trace r @ map A_Join ks\<rparr>" for ks r
    by (induction ks arbitrary: r) (simp_all add: act_def)
  show ?thesis
    using assms
    by (cases "e_loop env")
      (simp_all add: serviceLoop_def svc_started_def svc_main_loop_def svc_done_def destroyCommandQueue_def svc_static_def
        spawn join act_def Let_def EXIT_SUCCESS_def EXIT_FAILURE_def)
qed

definition good_env :: svc_env where
  "good_env = \<lparr>e_pool = True, e_mask = True, e_signalfd = 3, e_epoll = 4, e_prestartup = 0, e_privileges = True, e_startup = 0,
     e_mask2 = True, e_eventfd = 5, e_workers = [True], e_loop = L_Quit, e_restore = True\<rparr>"

theorem service_cleanup_witness:
  "\<exists>r. serviceLoop True good_env (svc_static False) = Some (r, 0) \<and>
     r_trace r = [A_Open 3, A_Open 4, A_Prestartup, A_Startup, A_Open 5, A_Spawn 0, A_Loop, A_Join 0, A_Close 5, A_Close 3, A_Close 4]"
  using service_cleanup [of good_env True False] by (simp add: good_env_def EXIT_SUCCESS_def)

text \<open>
  A service whose start is refused closes standard input.  When a handler of
  \<open>prestartup\<close> returns an error, the command queue was not set up, its descriptor is still the zero of static storage, and the cleanup closes descriptor 0, which the
  service did not open.
\<close>
theorem refused_start_closes_stdin:
  assumes "e_pool env" "e_mask env" "0 < e_signalfd env" "0 < e_epoll env" "e_prestartup env \<noteq> EXIT_SUCCESS"
  shows "\<exists>r rc. serviceLoop svcrun env (svc_static inited) = Some (r, rc) \<and> A_Close 0 \<in> set (r_trace r) \<and> A_Open 0 \<notin> set (r_trace r)"
  using assms by (simp add: serviceLoop_def svc_done_def destroyCommandQueue_def svc_static_def act_def Let_def)

theorem refused_start_closes_stdin_witness:
  "\<exists>r rc. serviceLoop True (good_env\<lparr>e_prestartup := 1\<rparr>) (svc_static False) = Some (r, rc) \<and> A_Close 0 \<in> set (r_trace r)"
  using refused_start_closes_stdin [of "good_env\<lparr>e_prestartup := 1\<rparr>" True False] by (auto simp: good_env_def EXIT_SUCCESS_def)

end
