(* ===== verification/Poser_Timer.thy ===== *)
theory Poser_Timer
  imports Prelude "HOL-Library.Multiset"
begin

text \<open>
  Timers (\<open>src/lib/core/timer.c\<close>): the build with \<open>timerfd\<close>, which is the usual one, with the
  pool of timers a thread keeps, and of the fallback build with \<open>setitimer\<close> the list of jobs,
  its time arithmetic and its lock.

  The kernel side of a \<open>timerfd\<close> is the time to the next expiration, the interval, and the
  number of expirations that were not read; time passes in milliseconds.  Handlers of the event
  \<open>expired\<close> may call the operations of the timer again: what they do is a parameter.
\<close>

section \<open>The timer descriptor\<close>

record timerfd =
  k_value :: nat
  k_interval :: nat
  k_count :: nat

definition tfd_settime :: "nat \<Rightarrow> nat \<Rightarrow> timerfd \<Rightarrow> timerfd" where
  "tfd_settime value interval k = \<lparr>k_value = value, k_interval = interval, k_count = 0\<rparr>"

definition tfd_tick :: "timerfd \<Rightarrow> timerfd" where
  "tfd_tick k = (if k_value k = 0 then k
     else if k_value k = 1 then k\<lparr>k_value := k_interval k, k_count := k_count k + 1\<rparr>
     else k\<lparr>k_value := k_value k - 1\<rparr>)"

text \<open>A \<open>struct timespec\<close>, and the milliseconds it stands for.\<close>

definition timespec_ms :: "u32 \<Rightarrow> u32 \<Rightarrow> nat" where
  "timespec_ms sec nsec = (unat sec * 1000000000 + unat nsec) div 1000000"

section \<open>Timers\<close>

record PSC_Timer =
  tm_tfd :: int
  tm_kernel :: timerfd
  tm_job :: bool
  tm_ms :: u32
  tm_periodic :: bool
  tm_raised :: nat

definition enableTimer :: "PSC_Timer \<Rightarrow> PSC_Timer" where
  "enableTimer t = t\<lparr>tm_job := False, tm_ms := 1000, tm_periodic := False, tm_raised := 0\<rparr>"

definition createTimer :: "int \<Rightarrow> PSC_Timer option" where
  "createTimer tfd = (if tfd < 0 then None else Some (enableTimer
     \<lparr>tm_tfd = tfd, tm_kernel = \<lparr>k_value = 0, k_interval = 0, k_count = 0\<rparr>, tm_job = False, tm_ms = 0,
       tm_periodic = False, tm_raised = 0\<rparr>))"

definition PSC_Timer_start :: "bool \<Rightarrow> PSC_Timer \<Rightarrow> PSC_Timer" where
  "PSC_Timer_start periodic t =
     (if tm_tfd t \<ge> 0 \<and> \<not> tm_job t \<and> tm_ms t \<noteq> 0 then
        let sec = tm_ms t div 1000; nsec = 1000000 * (tm_ms t mod 1000) in
        t\<lparr>tm_kernel := tfd_settime (timespec_ms sec nsec) (if periodic then timespec_ms sec nsec else 0) (tm_kernel t),
          tm_job := True\<rparr>
      else t)"

definition PSC_Timer_stop :: "PSC_Timer \<Rightarrow> PSC_Timer" where
  "PSC_Timer_stop t = (if tm_tfd t \<ge> 0 \<and> tm_job t
     then t\<lparr>tm_kernel := tfd_settime 0 0 (tm_kernel t), tm_job := False\<rparr> else t)"

definition PSC_Timer_setMs :: "u32 \<Rightarrow> PSC_Timer \<Rightarrow> PSC_Timer" where
  "PSC_Timer_setMs ms t = (if tm_job t then PSC_Timer_start (tm_periodic t) (t\<lparr>tm_ms := ms\<rparr>) else t\<lparr>tm_ms := ms\<rparr>)"

datatype timer_op = T_Start bool | T_Stop | T_SetMs u32

fun timer_do :: "timer_op \<Rightarrow> PSC_Timer \<Rightarrow> PSC_Timer" where
  "timer_do (T_Start p) t = PSC_Timer_start p t"
| "timer_do T_Stop t = PSC_Timer_stop t"
| "timer_do (T_SetMs ms) t = PSC_Timer_setMs ms t"

text \<open>The handler of \<open>readyRead\<close>: it reads the count and raises \<open>expired\<close> that many times.\<close>

definition raise_expired :: "timer_op list \<Rightarrow> PSC_Timer \<Rightarrow> PSC_Timer" where
  "raise_expired handler t = fold timer_do handler (t\<lparr>tm_raised := tm_raised t + 1\<rparr>)"

definition timer_expired :: "timer_op list \<Rightarrow> PSC_Timer \<Rightarrow> PSC_Timer" where
  "timer_expired handler t =
     (if tm_tfd t < 0 \<or> k_count (tm_kernel t) = 0 then t
      else let times = k_count (tm_kernel t);
               t1 = (raise_expired handler ^^ times) (t\<lparr>tm_kernel := (tm_kernel t)\<lparr>k_count := 0\<rparr>\<rparr>) in
        if tm_periodic t1 then t1 else t1\<lparr>tm_job := False\<rparr>)"

definition tick :: "PSC_Timer \<Rightarrow> PSC_Timer" where
  "tick t = t\<lparr>tm_kernel := tfd_tick (tm_kernel t)\<rparr>"

lemma tick_sel [simp]: "tm_tfd (tick t) = tm_tfd t" "tm_job (tick t) = tm_job t" "tm_ms (tick t) = tm_ms t"
  "tm_periodic (tick t) = tm_periodic t" "tm_raised (tick t) = tm_raised t" "tm_kernel (tick t) = tfd_tick (tm_kernel t)"
  by (simp_all add: tick_def)

lemma ticks_sel: "(tick ^^ n) t = t\<lparr>tm_kernel := (tfd_tick ^^ n) (tm_kernel t)\<rparr>"
  by (induction n) (simp_all add: tick_def)

lemma tfd_ticks: "n < v \<Longrightarrow> (tfd_tick ^^ n) \<lparr>k_value = v, k_interval = i, k_count = c\<rparr> = \<lparr>k_value = v - n, k_interval = i, k_count = c\<rparr>"
  by (induction n) (auto simp: tfd_tick_def)

lemma tfd_ticks_expire: "0 < v \<Longrightarrow> (tfd_tick ^^ v) \<lparr>k_value = v, k_interval = i, k_count = c\<rparr> = \<lparr>k_value = i, k_interval = i, k_count = c + 1\<rparr>"
  using tfd_ticks [of "v - 1" v i c] by (cases v) (auto simp: tfd_tick_def)



text \<open>The arithmetic on 32-bit words does not wrap around: the time is the one that was asked for.\<close>

lemma timespec_exact:
  fixes ms :: u32
  shows "timespec_ms (ms div 1000) (1000000 * (ms mod 1000)) = unat ms"
proof -
  have "unat (ms mod 1000) < 1000" by (simp add: unat_mod)
  then have "1000000 * unat (ms mod 1000) < 2 ^ 32" by simp
  then have "unat (1000000 * (ms mod 1000)) = 1000000 * (unat ms mod 1000)"
    by (subst unat_mult_lem [THEN iffD1]) (simp_all add: unat_mod)
  then show ?thesis by (simp add: timespec_ms_def unat_div)
qed

definition new_timer :: PSC_Timer where
  "new_timer = the (createTimer 3)"

section \<open>The pool of timers\<close>

text \<open>
  A thread keeps its destroyed timers for the next ones; the pool itself goes when the last
  timer does.  The state has the timers that are in use, and the descriptors that are open.
\<close>

record TimerPool =
  tp_free :: "PSC_Timer list"
  tp_refcnt :: nat

record timer_thread =
  tt_pool :: "TimerPool option"
  tt_live :: "PSC_Timer list"
  tt_open :: "int list"

definition TimerPool_init :: "timer_thread \<Rightarrow> TimerPool" where
  "TimerPool_init s = (case tt_pool s of Some p \<Rightarrow> p\<lparr>tp_refcnt := tp_refcnt p + 1\<rparr> | None \<Rightarrow> \<lparr>tp_free = [], tp_refcnt = 1\<rparr>)"

text \<open>The last reference destroys the timers of the pool, which closes their descriptors.\<close>

definition TimerPool_done :: "TimerPool \<Rightarrow> timer_thread \<Rightarrow> timer_thread" where
  "TimerPool_done p s =
     (if tp_refcnt p - 1 = 0
      then s\<lparr>tt_pool := None, tt_open := fold (\<lambda>t. remove1 (tm_tfd t)) (tp_free p) (tt_open s)\<rparr>
      else s\<lparr>tt_pool := Some (p\<lparr>tp_refcnt := tp_refcnt p - 1\<rparr>)\<rparr>)"

definition PSC_Timer_create :: "int \<Rightarrow> timer_thread \<Rightarrow> timer_thread" where
  "PSC_Timer_create tfd s =
     (let p = TimerPool_init s in
      case tp_free p of
        t # ts \<Rightarrow> s\<lparr>tt_pool := Some (p\<lparr>tp_free := ts\<rparr>), tt_live := tt_live s @ [enableTimer t]\<rparr>
      | [] \<Rightarrow> (case createTimer tfd of
            Some t \<Rightarrow> s\<lparr>tt_pool := Some p, tt_live := tt_live s @ [t], tt_open := tfd # tt_open s\<rparr>
          | None \<Rightarrow> TimerPool_done p s))"

text \<open>\<open>disableTimer\<close> of this build only destroys the event; the descriptor stays armed.\<close>

definition PSC_Timer_destroy :: "nat \<Rightarrow> timer_thread \<Rightarrow> timer_thread option" where
  "PSC_Timer_destroy i s =
     (if length (tt_live s) \<le> i then None
      else case tt_pool s of
        None \<Rightarrow> None
      | Some p \<Rightarrow> Some (TimerPool_done (p\<lparr>tp_free := tp_free p @ [tt_live s ! i]\<rparr>)
          (s\<lparr>tt_live := take i (tt_live s) @ drop (Suc i) (tt_live s)\<rparr>)))"

definition thread0 :: timer_thread where
  "thread0 = \<lparr>tt_pool = None, tt_live = [], tt_open = []\<rparr>"

inductive timers_reach :: "timer_thread \<Rightarrow> bool" where
  tr_start: "timers_reach thread0"
| tr_create: "timers_reach s \<Longrightarrow> tfd \<notin> set (tt_open s) \<Longrightarrow> timers_reach (PSC_Timer_create tfd s)"
| tr_timer: "timers_reach s \<Longrightarrow> i < length (tt_live s) \<Longrightarrow>
    timers_reach (s\<lparr>tt_live := (tt_live s)[i := timer_do op (tt_live s ! i)]\<rparr>)"
| tr_destroy: "timers_reach s \<Longrightarrow> PSC_Timer_destroy i s = Some s' \<Longrightarrow> timers_reach s'"

definition pool_timers :: "timer_thread \<Rightarrow> PSC_Timer list" where
  "pool_timers s = (case tt_pool s of Some p \<Rightarrow> tp_free p | None \<Rightarrow> [])"

definition timers_inv :: "timer_thread \<Rightarrow> bool" where
  "timers_inv s \<longleftrightarrow> mset (tt_open s) = mset (map tm_tfd (tt_live s @ pool_timers s)) \<and> distinct (tt_open s) \<and>
     (case tt_pool s of Some p \<Rightarrow> tp_refcnt p = length (tt_live s) \<and> tt_live s \<noteq> [] | None \<Rightarrow> tt_live s = [])"

lemma mset_fold_remove1: "mset (fold (\<lambda>t. remove1 (tm_tfd t)) ts xs) = mset xs - mset (map tm_tfd ts)"
  by (induction ts arbitrary: xs) simp_all

lemma distinct_fold_remove1: "distinct xs \<Longrightarrow> distinct (fold (\<lambda>t. remove1 (tm_tfd t)) ts xs)"
  by (induction ts arbitrary: xs) simp_all

text \<open>Giving back one of the references that were counted.\<close>

lemma TimerPool_done_inv:
  assumes "mset (tt_open s) = mset (map tm_tfd (tt_live s @ tp_free p))" "distinct (tt_open s)" "tp_refcnt p = Suc (length (tt_live s))"
  shows "timers_inv (TimerPool_done p s)"
proof (cases "tt_live s = []")
  case True
  with assms show ?thesis
    by (simp add: timers_inv_def TimerPool_done_def pool_timers_def mset_fold_remove1 distinct_fold_remove1)
next
  case False
  with assms show ?thesis by (simp add: timers_inv_def TimerPool_done_def pool_timers_def)
qed

lemma createTimer_tfd: "createTimer tfd = Some t \<Longrightarrow> tm_tfd t = tfd"
  by (auto simp: createTimer_def enableTimer_def split: if_splits)

lemma enableTimer_tfd [simp]: "tm_tfd (enableTimer t) = tm_tfd t"
  by (simp add: enableTimer_def)

lemma timer_create_inv:
  assumes "timers_inv s" "tfd \<notin> set (tt_open s)"
  shows "timers_inv (PSC_Timer_create tfd s)"
proof -
  define p where "p = TimerPool_init s"
  have p: "tp_refcnt p = Suc (length (tt_live s))" "tp_free p = pool_timers s"
    using assms(1) by (auto simp: p_def TimerPool_init_def timers_inv_def pool_timers_def split: option.splits)
  show ?thesis
  proof (cases "tp_free p")
    case (Cons t ts)
    then have "PSC_Timer_create tfd s = s\<lparr>tt_pool := Some (p\<lparr>tp_free := ts\<rparr>), tt_live := tt_live s @ [enableTimer t]\<rparr>"
      by (simp add: PSC_Timer_create_def p_def Let_def)
    moreover have "mset (tt_open s) = mset (map tm_tfd (tt_live s @ t # ts))" "distinct (tt_open s)"
      using assms(1) p(2) Cons by (simp_all add: timers_inv_def)
    ultimately show ?thesis using p(1) by (simp add: timers_inv_def pool_timers_def)
  next
    case Nil
    show ?thesis
    proof (cases "createTimer tfd")
      case None
      then have "PSC_Timer_create tfd s = TimerPool_done p s" using Nil by (simp add: PSC_Timer_create_def p_def Let_def)
      with TimerPool_done_inv [of s p] assms(1) p show ?thesis by (simp add: timers_inv_def)
    next
      case (Some t)
      then have "PSC_Timer_create tfd s = s\<lparr>tt_pool := Some p, tt_live := tt_live s @ [t], tt_open := tfd # tt_open s\<rparr>"
        using Nil by (simp add: PSC_Timer_create_def p_def Let_def)
      moreover have "mset (tt_open s) = mset (map tm_tfd (tt_live s))" "distinct (tt_open s)"
        using assms(1) p(2) Nil by (simp_all add: timers_inv_def)
      ultimately show ?thesis
        using p(1) Nil assms(2) createTimer_tfd [OF Some] by (simp add: timers_inv_def pool_timers_def)
    qed
  qed
qed

lemma timer_destroy_inv:
  assumes "timers_inv s" "PSC_Timer_destroy i s = Some s'"
  shows "timers_inv s'"
proof -
  obtain p where p: "tt_pool s = Some p" "i < length (tt_live s)"
    and s': "s' = TimerPool_done (p\<lparr>tp_free := tp_free p @ [tt_live s ! i]\<rparr>)
          (s\<lparr>tt_live := take i (tt_live s) @ drop (Suc i) (tt_live s)\<rparr>)"
    using assms(2) by (auto simp: PSC_Timer_destroy_def split: if_splits option.splits)
  have "mset (map tm_tfd (tt_live s)) = mset (map tm_tfd (take i (tt_live s) @ tt_live s ! i # drop (Suc i) (tt_live s)))"
    using id_take_nth_drop [OF p(2)] by metis
  with assms(1) p show ?thesis
    unfolding s' by (intro TimerPool_done_inv) (auto simp: timers_inv_def pool_timers_def)
qed

lemma timer_do_tfd [simp]: "tm_tfd (timer_do op t) = tm_tfd t"
  by (cases op) (simp_all add: PSC_Timer_start_def PSC_Timer_stop_def PSC_Timer_setMs_def Let_def)

lemma timer_do_inv:
  assumes "timers_inv s" "i < length (tt_live s)"
  shows "timers_inv (s\<lparr>tt_live := (tt_live s)[i := timer_do op (tt_live s ! i)]\<rparr>)"
proof -
  have "map tm_tfd ((tt_live s)[i := timer_do op (tt_live s ! i)]) = map tm_tfd (tt_live s)"
    using assms(2) by (simp add: map_update list_update_same_conv)
  with assms show ?thesis by (auto simp: timers_inv_def pool_timers_def split: option.splits simp del: mset_map)
qed

lemma timers_reach_inv: "timers_reach s \<Longrightarrow> timers_inv s"
proof (induction rule: timers_reach.induct)
  case tr_start
  show ?case by (simp add: timers_inv_def thread0_def pool_timers_def)
qed (simp_all add: timer_create_inv timer_do_inv timer_destroy_inv)

section \<open>The fallback with setitimer\<close>

record timeval =
  tv_sec :: int
  tv_usec :: int

definition tvlessthan :: "timeval \<Rightarrow> timeval \<Rightarrow> bool" where
  "tvlessthan l r \<longleftrightarrow> tv_sec l < tv_sec r \<or> (tv_sec l = tv_sec r \<and> tv_usec l < tv_usec r)"

definition tvsuborzero :: "timeval \<Rightarrow> timeval \<Rightarrow> timeval" where
  "tvsuborzero tv sub =
     (if tvlessthan sub tv then
        let s = tv_sec tv - tv_sec sub; u = tv_usec tv - tv_usec sub in
        if u < 0 then \<lparr>tv_sec = s - 1, tv_usec = u + 1000000\<rparr> else \<lparr>tv_sec = s, tv_usec = u\<rparr>
      else \<lparr>tv_sec = 0, tv_usec = 0\<rparr>)"

type_synonym jobs = "(nat \<times> timeval) list"

definition adjust :: "timeval \<Rightarrow> jobs \<Rightarrow> jobs" where
  "adjust elapsed js = (if tv_sec elapsed = 0 \<and> tv_usec elapsed = 0 then js
     else map (\<lambda>(t, r). (t, tvsuborzero r elapsed)) js)"

fun insert_job :: "nat \<times> timeval \<Rightarrow> jobs \<Rightarrow> jobs" where
  "insert_job j [] = [j]"
| "insert_job j (x # xs) = (if tvlessthan (snd x) (snd j) then x # insert_job j xs else j # x # xs)"

definition remaining_of :: "u32 \<Rightarrow> timeval" where
  "remaining_of ms = \<lparr>tv_sec = uint (ms div 1000), tv_usec = uint (1000 * (ms mod 1000))\<rparr>"

definition tv_us :: "timeval \<Rightarrow> int" where
  "tv_us tv = tv_sec tv * 1000000 + tv_usec tv"

definition tv_ok :: "timeval \<Rightarrow> bool" where
  "tv_ok tv \<longleftrightarrow> 0 \<le> tv_sec tv \<and> 0 \<le> tv_usec tv \<and> tv_usec tv < 1000000"

lemma tvlessthan_us: "tv_ok a \<Longrightarrow> tv_ok b \<Longrightarrow> tvlessthan a b \<longleftrightarrow> tv_us a < tv_us b"
  by (auto simp: tvlessthan_def tv_us_def tv_ok_def)

lemma tvsuborzero_us:
  assumes "tv_ok a" "tv_ok b"
  shows "tv_ok (tvsuborzero a b)" "tv_us (tvsuborzero a b) = max 0 (tv_us a - tv_us b)"
  using assms tvlessthan_us [OF assms(2,1)]
  by (auto simp: tvsuborzero_def tv_us_def tv_ok_def tvlessthan_def Let_def max_def)

definition jobs_ok :: "jobs \<Rightarrow> bool" where
  "jobs_ok js \<longleftrightarrow> (\<forall>j \<in> set js. tv_ok (snd j)) \<and> sorted_wrt (\<lambda>x y. tv_us (snd x) \<le> tv_us (snd y)) js"

lemma set_insert_job [simp]: "set (insert_job j js) = insert j (set js)"
  by (induction js) auto

lemma insert_job_ok: "jobs_ok js \<Longrightarrow> tv_ok (snd j) \<Longrightarrow> jobs_ok (insert_job j js)"
proof (induction js)
  case (Cons x xs)
  then have "jobs_ok xs" by (simp add: jobs_ok_def)
  with Cons show ?case by (auto simp: jobs_ok_def tvlessthan_us)
qed (simp add: jobs_ok_def)

lemma adjust_ok:
  assumes "jobs_ok js" "tv_ok e"
  shows "jobs_ok (adjust e js)" "map (\<lambda>(t, r). (t, tv_us r)) (adjust e js) = map (\<lambda>(t, r). (t, max 0 (tv_us r - tv_us e))) js"
proof -
  have z: "tv_us e = 0" if "tv_sec e = 0" "tv_usec e = 0" using that by (simp add: tv_us_def)
  have pos: "0 \<le> tv_us r" if "tv_ok r" for r using that by (simp add: tv_us_def tv_ok_def)
  show "map (\<lambda>(t, r). (t, tv_us r)) (adjust e js) = map (\<lambda>(t, r). (t, max 0 (tv_us r - tv_us e))) js"
    using assms z pos by (auto simp: adjust_def jobs_ok_def tvsuborzero_us)
  show "jobs_ok (adjust e js)"
  proof (cases "tv_sec e = 0 \<and> tv_usec e = 0")
    case False
    have "sorted_wrt (\<lambda>x y. tv_us (tvsuborzero (snd x) e) \<le> tv_us (tvsuborzero (snd y) e)) js"
    proof (rule sorted_wrt_mono_rel [of js "\<lambda>x y. tv_us (snd x) \<le> tv_us (snd y)"])
      show "sorted_wrt (\<lambda>x y. tv_us (snd x) \<le> tv_us (snd y)) js" using assms(1) by (simp add: jobs_ok_def)
      fix x y assume "x \<in> set js" "y \<in> set js" "tv_us (snd x) \<le> tv_us (snd y)"
      moreover from this have "tv_ok (snd x)" "tv_ok (snd y)" using assms(1) by (simp_all add: jobs_ok_def)
      ultimately show "tv_us (tvsuborzero (snd x) e) \<le> tv_us (tvsuborzero (snd y) e)"
        using assms(2) by (simp add: tvsuborzero_us)
    qed
    moreover have "\<forall>x \<in> set js. tv_ok (tvsuborzero (snd x) e)"
      using assms tvsuborzero_us(1) by (simp add: jobs_ok_def)
    ultimately show ?thesis
      unfolding adjust_def if_not_P [OF False] by (simp add: jobs_ok_def sorted_wrt_map case_prod_unfold)
  qed (use assms in \<open>auto simp: adjust_def\<close>)
qed

text \<open>
  The state: the lock, the jobs, what \<open>setitimer\<close> was set to, the timers (milliseconds and
  period), and the commands sent to the main thread.  Taking the lock while it is held never
  returns: \<^const>\<open>None\<close>.  \<open>start\<close> is only called with the lock held, and \<open>PSC_Timer_underrun\<close>
  begins by taking it.
\<close>

datatype timer_cmd = C_Start nat | C_Stop nat | C_Raise nat

record itimers =
  it_locked :: bool
  it_jobs :: jobs
  it_real :: timeval
  it_timers :: "nat \<Rightarrow> u32 \<times> bool"
  it_sent :: "timer_cmd list"

definition tv_zero :: timeval where "tv_zero = \<lparr>tv_sec = 0, tv_usec = 0\<rparr>"

definition mutex_lock :: "itimers \<Rightarrow> itimers option" where
  "mutex_lock s = (if it_locked s then None else Some (s\<lparr>it_locked := True\<rparr>))"

definition mutex_unlock :: "itimers \<Rightarrow> itimers" where
  "mutex_unlock s = s\<lparr>it_locked := False\<rparr>"

definition stopandadjust :: "itimers \<Rightarrow> itimers" where
  "stopandadjust s = (case it_jobs s of [] \<Rightarrow> s
     | j # js \<Rightarrow> s\<lparr>it_real := tv_zero, it_jobs := adjust (tvsuborzero (snd j) (it_real s)) (it_jobs s)\<rparr>)"

definition start :: "itimers \<Rightarrow> itimers option" where
  "start s = (case it_jobs s of [] \<Rightarrow> Some s
     | j # js \<Rightarrow> if tv_sec (snd j) \<noteq> 0 \<or> tv_usec (snd j) \<noteq> 0 then Some (s\<lparr>it_real := snd j\<rparr>)
                 else mutex_lock s)"

definition enqueueandstart :: "nat \<Rightarrow> itimers \<Rightarrow> itimers option" where
  "enqueueandstart t s = start (s\<lparr>it_jobs := insert_job (t, remaining_of (fst (it_timers s t))) (it_jobs s)\<rparr>)"

definition dostoplocked :: "nat \<Rightarrow> itimers \<Rightarrow> itimers option" where
  "dostoplocked t s = (case it_jobs s of [] \<Rightarrow> Some s
     | j # js \<Rightarrow> if fst j = t then let s1 = stopandadjust s in start (s1\<lparr>it_jobs := tl (it_jobs s1)\<rparr>)
                 else Some (s\<lparr>it_jobs := j # filter (\<lambda>x. fst x \<noteq> t) js\<rparr>))"

definition dostartlocked :: "nat \<Rightarrow> itimers \<Rightarrow> itimers option" where
  "dostartlocked t s = do {
     s1 \<leftarrow> (if t \<in> fst ` set (it_jobs s) then dostoplocked t s else Some s);
     if fst (it_timers s1 t) \<noteq> 0 then enqueueandstart t (stopandadjust s1) else Some s1 }"

definition dostart :: "nat \<Rightarrow> itimers \<Rightarrow> itimers option" where
  "dostart t s = do { s1 \<leftarrow> mutex_lock s; s2 \<leftarrow> dostartlocked t s1; Some (mutex_unlock s2) }"

text \<open>\<open>PSC_Service_runOnThread (-1, ...)\<close> calls the function at once when on the main thread.\<close>

definition itimer_start :: "bool \<Rightarrow> nat \<Rightarrow> bool \<Rightarrow> itimers \<Rightarrow> itimers option" where
  "itimer_start on_main t periodic s = do {
     s1 \<leftarrow> mutex_lock s;
     let s2 = s1\<lparr>it_timers := (it_timers s1)(t := (fst (it_timers s1 t), periodic))\<rparr>;
     s3 \<leftarrow> (if on_main then dostart t s2 else Some (s2\<lparr>it_sent := it_sent s2 @ [C_Start t]\<rparr>));
     Some (mutex_unlock s3) }"

definition underrun :: "itimers \<Rightarrow> itimers option" where
  "underrun s = do {
     s1 \<leftarrow> mutex_lock s;
     case it_jobs s1 of
       [] \<Rightarrow> Some s1
     | j # js \<Rightarrow> do {
         let s2 = s1\<lparr>it_jobs := adjust (snd j) js\<rparr>;
         s3 \<leftarrow> (if snd (it_timers s2 (fst j)) then enqueueandstart (fst j) s2 else start s2);
         Some (mutex_unlock (s3\<lparr>it_sent := it_sent s3 @ [C_Raise (fst j)]\<rparr>)) } }"

section \<open>Properties\<close>



text \<open>
  A periodic timer cannot be stopped once it has timer_expired.  \<open>PSC_Timer_start\<close> of the build
  with \<open>timerfd\<close> does not store that the timer is periodic, so the first expiration marks it as
  stopped while the kernel goes on, and \<open>PSC_Timer_stop\<close>, which looks at the mark, does
  nothing: after one period, a stop, and another period the event is raised again.
\<close>
theorem timer_periodic_unstoppable:
  assumes "ms \<noteq> 0"
  defines "t \<equiv> timer_expired [] ((tick ^^ unat ms) (PSC_Timer_start True (PSC_Timer_setMs ms new_timer)))"
  shows "tm_raised t = 1 \<and> PSC_Timer_stop t = t \<and> tm_raised (timer_expired [] ((tick ^^ unat ms) (PSC_Timer_stop t))) = 2"
proof -
  have pos: "0 < unat ms" using assms(1) by (simp add: unat_gt_0)
  have new: "tm_tfd new_timer = 3" "tm_raised new_timer = 0" "\<not> tm_periodic new_timer" "\<not> tm_job new_timer"
    by (simp_all add: new_timer_def createTimer_def enableTimer_def)
  have s: "PSC_Timer_start True (PSC_Timer_setMs ms new_timer)
      = new_timer\<lparr>tm_ms := ms, tm_job := True, tm_kernel := \<lparr>k_value = unat ms, k_interval = unat ms, k_count = 0\<rparr>\<rparr>"
    using assms(1) by (simp add: PSC_Timer_start_def PSC_Timer_setMs_def new tfd_settime_def timespec_exact Let_def)
  have t: "t = new_timer\<lparr>tm_ms := ms, tm_job := False, tm_raised := 1, tm_kernel := \<lparr>k_value = unat ms, k_interval = unat ms, k_count = 0\<rparr>\<rparr>"
    unfolding t_def s ticks_sel using pos by (simp add: tfd_ticks_expire timer_expired_def raise_expired_def new Let_def)
  show ?thesis
    unfolding t using pos by (simp add: PSC_Timer_stop_def ticks_sel tfd_ticks_expire timer_expired_def raise_expired_def new Let_def)
qed

theorem timer_periodic_unstoppable_witness:
  "tm_raised (timer_expired [] ((tick ^^ 10) (PSC_Timer_stop (timer_expired [] ((tick ^^ 10) (PSC_Timer_start True (PSC_Timer_setMs 10 new_timer))))))) = 2"
proof -
  have "(10 :: u32) \<noteq> 0" "unat (10 :: u32) = 10" by simp_all
  with timer_periodic_unstoppable [of 10] show ?thesis by metis
qed

text \<open>
  The pool of timers keeps its books: whatever timers a thread creates and destroys, also
  when the system has no descriptor left, the open descriptors are exactly those of the timers in
  use and of the timers kept for later, none is shared, and when the last timer is destroyed
  all of them are closed.
\<close>
theorem timer_pool_descriptors:
  assumes "timers_reach s"
  shows "mset (tt_open s) = mset (map tm_tfd (tt_live s @ pool_timers s)) \<and> distinct (tt_open s) \<and> (tt_live s = [] \<longrightarrow> tt_open s = [])"
  using timers_reach_inv [OF assms] by (auto simp: timers_inv_def pool_timers_def split: option.splits)

theorem timer_pool_descriptors_witness: "distinct (tt_open (PSC_Timer_create 7 thread0)) \<and> tt_open (PSC_Timer_create 7 thread0) = [7]"
proof -
  have "timers_reach (PSC_Timer_create 7 thread0)" by (rule tr_create [OF tr_start]) (simp add: thread0_def)
  from timer_pool_descriptors [OF this] show ?thesis
    by (simp add: PSC_Timer_create_def thread0_def TimerPool_init_def createTimer_def)
qed

text \<open>
  A destroyed timer that is reused keeps running: its descriptor was not disarmed, so the next
  timer created has an armed descriptor although it was never started.
\<close>

lemma timer_reused_armed:
  defines "s1 \<equiv> PSC_Timer_create 8 (PSC_Timer_create 7 thread0)"
  defines "s2 \<equiv> s1\<lparr>tt_live := (tt_live s1)[1 := timer_do (T_Start True) (tt_live s1 ! 1)]\<rparr>"
  defines "s3 \<equiv> PSC_Timer_create 9 (the (PSC_Timer_destroy 1 s2))"
  shows "timers_reach s3 \<and> \<not> tm_job (tt_live s3 ! 1) \<and> k_value (tm_kernel (tt_live s3 ! 1)) = 1000"
proof -
  have r1: "timers_reach s1"
    unfolding s1_def by (intro tr_create tr_start) (auto simp: PSC_Timer_create_def thread0_def TimerPool_init_def createTimer_def)
  have l1: "tt_live s1 = [enableTimer (the (createTimer 7)), enableTimer (the (createTimer 8))]"
    "tt_pool s1 = Some \<lparr>tp_free = [], tp_refcnt = 2\<rparr>" "tt_open s1 = [8, 7]"
    by (simp_all add: s1_def PSC_Timer_create_def thread0_def TimerPool_init_def createTimer_def enableTimer_def)
  have r2: "timers_reach s2" unfolding s2_def by (rule tr_timer [OF r1]) (simp add: l1)
  have d: "\<exists>s'. PSC_Timer_destroy 1 s2 = Some s'" by (simp add: PSC_Timer_destroy_def s2_def l1)
  have "timers_reach s3"
    unfolding s3_def using d tr_destroy [OF r2, of 1]
    by (auto intro!: tr_create simp: PSC_Timer_destroy_def s2_def l1 TimerPool_done_def)
  moreover have "k_value (tm_kernel (tt_live s3 ! 1)) = 1000" "\<not> tm_job (tt_live s3 ! 1)"
    using timespec_exact [of 1000]
    by (simp_all add: s3_def s2_def PSC_Timer_destroy_def l1 TimerPool_done_def PSC_Timer_create_def TimerPool_init_def
        enableTimer_def createTimer_def PSC_Timer_start_def tfd_settime_def Let_def)
  ultimately show ?thesis by blast
qed

text \<open>
  The list of jobs of the fallback is a faithful queue of deadlines.  When the first timer
  expires, every other job has exactly the time left that it had beyond the first one, and the
  list stays ordered, so the next signal is set for the right time; a new job is put at its
  place, and times are kept with normalized microseconds.
\<close>
theorem itimer_jobs_exact:
  assumes "jobs_ok (j # js)"
  shows "map (\<lambda>(t, r). (t, tv_us r)) (adjust (snd j) js) = map (\<lambda>(t, r). (t, tv_us r - tv_us (snd j))) js \<and>
    jobs_ok (insert_job (t, remaining_of ms) (adjust (snd j) js)) \<and> tv_us (remaining_of ms) = int (unat ms) * 1000"
proof -
  have js: "jobs_ok js" "tv_ok (snd j)" "\<forall>x \<in> set js. tv_us (snd j) \<le> tv_us (snd x)" using assms by (simp_all add: jobs_ok_def)
  have ms: "uint (1000 * (ms mod 1000)) = 1000 * (uint ms mod 1000)"
  proof -
    have "uint (ms mod 1000) < 1000" by (simp add: uint_mod)
    then have "1000 * uint (ms mod 1000) < 2 ^ 32" by simp
    then show ?thesis by (simp add: uint_word_ariths uint_mod)
  qed
  have "tv_us (remaining_of ms) = uint ms div 1000 * 1000000 + 1000 * (uint ms mod 1000)"
    by (simp add: remaining_of_def tv_us_def ms uint_div)
  also have "\<dots> = uint ms * 1000" using div_mult_mod_eq [of "uint ms" 1000] by linarith
  finally have "tv_us (remaining_of ms) = int (unat ms) * 1000" by simp
  moreover have "tv_ok (remaining_of ms)" by (simp add: remaining_of_def tv_ok_def ms uint_div pos_imp_zdiv_nonneg_iff)
  moreover have "map (\<lambda>(t, r). (t, tv_us r)) (adjust (snd j) js) = map (\<lambda>(t, r). (t, tv_us r - tv_us (snd j))) js"
    unfolding adjust_ok(2) [OF js(1,2)] using js(3) by (auto simp: max_def)
  ultimately show ?thesis using insert_job_ok [OF adjust_ok(1) [OF js(1,2)]] by simp
qed

theorem itimer_jobs_exact_witness: "tv_us (remaining_of 1500) = 1500000 \<and> jobs_ok (insert_job (2, remaining_of 1500) (adjust (remaining_of 10) []))"
  using itimer_jobs_exact [of "(1, remaining_of 10)" "[]" 2 1500]
  by (simp add: jobs_ok_def remaining_of_def tv_ok_def)

text \<open>
  With the fallback, starting a timer on the main thread never returns.
  \<open>PSC_Timer_start\<close> holds the lock while it hands \<open>dostart\<close> to the main thread; on the main
  thread itself that means calling it at once, and \<open>dostart\<close> takes the same lock.  From another
  thread the call only leaves a command.
\<close>
theorem itimer_start_deadlocks:
  "itimer_start True t periodic s = None \<and>
   (\<not> it_locked s \<longrightarrow> (\<exists>s'. itimer_start False t periodic s = Some s' \<and> it_sent s' = it_sent s @ [C_Start t] \<and> \<not> it_locked s'))"
  by (auto simp: itimer_start_def mutex_lock_def dostart_def mutex_unlock_def Let_def)

end
