(* ===== verification/Poser_SharedObj.thy ===== *)
theory Poser_SharedObj
  imports Prelude
begin

text \<open>
  Reclamation of shared objects (\<open>src/lib/core/sharedobj.c\<close>), which the lock-free queues use: a
  reader publishes the epoch in which it reads a pointer, an object that was retired is freed
  only when no published epoch lies between its creation and its retirement.

  First the operations as they are, on 32-bit epochs; then the protocol as a transition system in
  which the threads interleave at their atomic accesses, with the epochs counted without
  wrap-around.  The two are connected by the test for a conflict.
\<close>

section \<open>Operations\<close>

record SharedObj =
  so_created :: u32
  so_retired :: u32

text \<open>The state of one thread, and the global epoch.\<close>

record som =
  som_intEpoch :: u32
  som_intDestroy :: u32
  som_epoch :: u32
  som_res :: "u32 list"
  som_ncreated :: u32
  som_nretired :: u32
  som_list :: "SharedObj list"
  som_freed :: "SharedObj list"

definition SharedObj_create :: "som \<Rightarrow> som \<times> SharedObj" where
  "SharedObj_create s =
     (let n = som_ncreated s + 1;
          s1 = (if n = som_intEpoch s then s\<lparr>som_ncreated := 0, som_epoch := som_epoch s + 1\<rparr> else s\<lparr>som_ncreated := n\<rparr>) in
      (s1, \<lparr>so_created = som_epoch s, so_retired = som_epoch s - 1\<rparr>))"

text \<open>The test in the innermost loop; an object that lived across a wrap-around has \<open>creat > retd\<close>.\<close>

definition so_conflict :: "u32 \<Rightarrow> u32 \<Rightarrow> u32 \<Rightarrow> bool" where
  "so_conflict creat retd tres \<longleftrightarrow> (if creat > retd then tres \<ge> creat \<or> tres \<le> retd else tres \<ge> creat \<and> tres \<le> retd)"

definition conflicts :: "u32 list \<Rightarrow> SharedObj \<Rightarrow> bool" where
  "conflicts res so \<longleftrightarrow> list_ex (so_conflict (so_created so) (so_retired so)) res"

text \<open>The loop over the retired objects: those without a conflict are unlinked and freed.\<close>

fun purge :: "u32 list \<Rightarrow> SharedObj list \<Rightarrow> SharedObj list \<times> SharedObj list" where
  "purge res [] = ([], [])"
| "purge res (so # sos) =
     (let (kept, freed) = purge res sos in if conflicts res so then (so # kept, freed) else (kept, so # freed))"

definition SharedObj_retire :: "SharedObj \<Rightarrow> som \<Rightarrow> som" where
  "SharedObj_retire so s =
     (let l = so\<lparr>so_retired := som_epoch s\<rparr> # som_list s; n = som_nretired s + 1 in
      if n = som_intDestroy s
      then let (kept, freed) = purge (som_res s) l in
        s\<lparr>som_nretired := 0, som_list := kept, som_freed := som_freed s @ freed\<rparr>
      else s\<lparr>som_nretired := n, som_list := l\<rparr>)"

definition SOM_release :: "nat \<Rightarrow> som \<Rightarrow> som" where
  "SOM_release tid s = s\<lparr>som_res := (som_res s)[tid := som_epoch s - 1]\<rparr>"

lemma purge_kept: "so \<in> set (fst (purge res l)) \<longleftrightarrow> so \<in> set l \<and> conflicts res so"
  by (induction l) (auto simp: Let_def split: prod.splits)

lemma purge_freed: "so \<in> set (snd (purge res l)) \<longleftrightarrow> so \<in> set l \<and> \<not> conflicts res so"
  by (induction l) (auto simp: Let_def split: prod.splits)

lemma purge_length: "length (fst (purge res l)) + length (snd (purge res l)) = length l"
  by (induction l) (auto simp: Let_def split: prod.splits)




section \<open>The protocol\<close>
















section \<open>Properties\<close>





end
