(* ===== verification/Poser_StackMgr.thy ===== *)
theory Poser_StackMgr
  imports Prelude
begin

text \<open>
  The manager of the stacks that asynchronous thread jobs run on (\<open>src/lib/core/stackmgr.c\<close>),
  and the options of the service (\<open>src/lib/core/runopts.c\<close>).  A stack is an address; the
  array of unused stacks is a buffer, null, or freed memory.
\<close>

section \<open>Stacks\<close>

datatype stacks_ptr = Null | Array "ptr buf" | Dangling

record StackMgr =
  sm_sz :: nat
  sm_stacks :: stacks_ptr
  sm_nstacks :: nat
  sm_cstacks :: nat

definition STACKSCHUNK :: nat where "STACKSCHUNK = 16"

definition stackmgr_init :: StackMgr where
  "stackmgr_init = \<lparr>sm_sz = 2 * 1024 * 1024, sm_stacks = Null, sm_nstacks = 0, sm_cstacks = 0\<rparr>"

definition StackMgr_setSize :: "nat \<Rightarrow> StackMgr \<Rightarrow> StackMgr \<times> int" where
  "StackMgr_setSize stacksz s =
     (if sm_stacks s \<noteq> Null then (s, -1)
      else (s\<lparr>sm_sz := (let a = (if stacksz < 64 * 1024 then 64 * 1024 else stacksz) in
              if a > 16 * 1024 * 1024 then 16 * 1024 * 1024 else a)\<rparr>, 0))"

text \<open>\<open>fresh\<close> is the memory that \<open>mmap\<close> (or \<open>malloc\<close>) would give; it is used when there is no spare stack.\<close>

definition StackMgr_getStack :: "ptr \<Rightarrow> StackMgr \<Rightarrow> (StackMgr \<times> ptr) option" where
  "StackMgr_getStack fresh s =
     (if sm_nstacks s = 0 then Some (s, fresh)
      else case sm_stacks s of
        Array b \<Rightarrow> map_option (\<lambda>p. (s\<lparr>sm_nstacks := sm_nstacks s - 1\<rparr>, p)) (buf_read b (sm_nstacks s - 1))
      | _ \<Rightarrow> None)"

text \<open>\<open>realloc\<close> of a null pointer allocates; of freed memory it is undefined.\<close>

definition StackMgr_returnStack :: "ptr \<Rightarrow> StackMgr \<Rightarrow> StackMgr option" where
  "StackMgr_returnStack stack s =
     (if stack = 0 then Some s
      else do {
        (b, c) \<leftarrow> (if sm_nstacks s = sm_cstacks s
          then (case sm_stacks s of
              Null \<Rightarrow> Some (buf_alloc (sm_cstacks s + STACKSCHUNK), sm_cstacks s + STACKSCHUNK)
            | Array b \<Rightarrow> Some (buf_realloc b (sm_cstacks s + STACKSCHUNK), sm_cstacks s + STACKSCHUNK)
            | Dangling \<Rightarrow> None)
          else (case sm_stacks s of Array b \<Rightarrow> Some (b, sm_cstacks s) | _ \<Rightarrow> None));
        b1 \<leftarrow> buf_write b (sm_nstacks s) stack;
        Some (s\<lparr>sm_stacks := Array b1, sm_nstacks := sm_nstacks s + 1, sm_cstacks := c\<rparr>) })"

text \<open>\<open>StackMgr_clean\<close> releases the stacks and the array, but does not reset the pointer.\<close>

definition StackMgr_clean :: "StackMgr \<Rightarrow> StackMgr" where
  "StackMgr_clean s = s\<lparr>sm_stacks := (case sm_stacks s of Null \<Rightarrow> Null | _ \<Rightarrow> Dangling), sm_nstacks := 0, sm_cstacks := 0\<rparr>"

datatype stack_op = Get ptr | Return ptr

fun stacks_run :: "stack_op list \<Rightarrow> StackMgr \<Rightarrow> (StackMgr \<times> ptr list) option" where
  "stacks_run [] s = Some (s, [])"
| "stacks_run (Get fresh # os) s = do {
     (s1, p) \<leftarrow> StackMgr_getStack fresh s;
     (s2, ps) \<leftarrow> stacks_run os s1;
     Some (s2, p # ps) }"
| "stacks_run (Return p # os) s = Option.bind (StackMgr_returnStack p s) (stacks_run os)"

text \<open>The reference: a stack of spare stacks.\<close>

fun stacks_spec :: "stack_op list \<Rightarrow> ptr list \<Rightarrow> ptr list" where
  "stacks_spec [] sp = []"
| "stacks_spec (Get fresh # os) sp = (case sp of [] \<Rightarrow> fresh # stacks_spec os [] | p # ps \<Rightarrow> p # stacks_spec os ps)"
| "stacks_spec (Return p # os) sp = stacks_spec os (if p = 0 then sp else p # sp)"

definition stacks_rep :: "StackMgr \<Rightarrow> ptr list \<Rightarrow> bool" where
  "stacks_rep s sp \<longleftrightarrow> sm_nstacks s = length sp \<and>
     (case sm_stacks s of
        Null \<Rightarrow> sp = [] \<and> sm_cstacks s = 0
      | Array b \<Rightarrow> length b = sm_cstacks s \<and> (\<exists>rest. b = map Some (rev sp) @ rest)
      | Dangling \<Rightarrow> False)"

lemma getStack_rep:
  "stacks_rep s sp \<Longrightarrow> \<exists>s'. StackMgr_getStack fresh s = Some (s', case sp of [] \<Rightarrow> fresh | p # ps \<Rightarrow> p) \<and> stacks_rep s' (tl sp)"
  by (cases sp; cases "sm_stacks s") (auto simp: stacks_rep_def StackMgr_getStack_def buf_read_def nth_append)

lemma write_next: "length b = c \<Longrightarrow> b = map Some xs @ rest \<Longrightarrow> length xs < c \<Longrightarrow>
    \<exists>rest'. buf_write b (length xs) v = Some (map Some (xs @ [v]) @ rest')"
  by (cases rest) (auto simp: buf_write_def list_update_append)

lemma write_length: "buf_write b i v = Some b' \<Longrightarrow> length b' = length b"
  by (auto simp: buf_write_def split: if_splits)

lemma returnStack_rep:
  assumes "stacks_rep s sp"
  shows "\<exists>s'. StackMgr_returnStack p s = Some s' \<and> stacks_rep s' (if p = 0 then sp else p # sp)"
proof (cases "p = 0")
  case True
  with assms show ?thesis by (simp add: StackMgr_returnStack_def)
next
  case False
  have "\<exists>b c rest. (if sm_nstacks s = sm_cstacks s
          then (case sm_stacks s of
              Null \<Rightarrow> Some (buf_alloc (sm_cstacks s + STACKSCHUNK), sm_cstacks s + STACKSCHUNK)
            | Array b \<Rightarrow> Some (buf_realloc b (sm_cstacks s + STACKSCHUNK), sm_cstacks s + STACKSCHUNK)
            | Dangling \<Rightarrow> None)
          else (case sm_stacks s of Array b \<Rightarrow> Some (b, sm_cstacks s) | _ \<Rightarrow> None)) = Some (b, c) \<and>
      length b = c \<and> b = map Some (rev sp) @ rest \<and> length sp < c"
    using assms by (cases "sm_stacks s") (auto simp: stacks_rep_def buf_alloc_def buf_realloc_def STACKSCHUNK_def)
  then obtain b c rest where b: "(if sm_nstacks s = sm_cstacks s
          then (case sm_stacks s of
              Null \<Rightarrow> Some (buf_alloc (sm_cstacks s + STACKSCHUNK), sm_cstacks s + STACKSCHUNK)
            | Array b \<Rightarrow> Some (buf_realloc b (sm_cstacks s + STACKSCHUNK), sm_cstacks s + STACKSCHUNK)
            | Dangling \<Rightarrow> None)
          else (case sm_stacks s of Array b \<Rightarrow> Some (b, sm_cstacks s) | _ \<Rightarrow> None)) = Some (b, c)"
      "length b = c" "b = map Some (rev sp) @ rest" "length sp < c" by blast
  obtain rest' where w: "buf_write b (length sp) p = Some (map Some (rev sp @ [p]) @ rest')"
    using write_next [of b c "rev sp" rest p] b by auto
  then have "length (map Some (rev sp @ [p]) @ rest') = c"
    using b(2) write_length [OF w] by simp
  with assms False b(1) w show ?thesis
    by (simp add: StackMgr_returnStack_def stacks_rep_def)
qed

lemma stacks_run_spec: "stacks_rep s sp \<Longrightarrow> \<exists>s'. stacks_run ops s = Some (s', stacks_spec ops sp)"
proof (induction ops arbitrary: s sp)
  case (Cons a ops)
  show ?case
  proof (cases a)
    case (Get fresh)
    obtain s1 where s1: "StackMgr_getStack fresh s = Some (s1, case sp of [] \<Rightarrow> fresh | p # ps \<Rightarrow> p)" "stacks_rep s1 (tl sp)"
      using getStack_rep [OF Cons.prems] by blast
    with Cons.IH [OF s1(2)] Get show ?thesis by (cases sp) auto
  next
    case (Return p)
    obtain s1 where s1: "StackMgr_returnStack p s = Some s1" "stacks_rep s1 (if p = 0 then sp else p # sp)"
      using returnStack_rep [OF Cons.prems] by blast
    with Cons.IH [OF s1(2)] Return show ?thesis by auto
  qed
qed simp

section \<open>Options of the service\<close>

record PSC_RunOpts =
  ro_pidfile :: ptr
  ro_logident :: ptr
  ro_uid :: int
  ro_gid :: int
  ro_workerThreads :: int
  ro_daemonize :: bool
  ro_waitLaunched :: bool
  ro_logEnabled :: bool
  ro_initialized :: bool

definition runopts_static :: PSC_RunOpts where
  "runopts_static = \<lparr>ro_pidfile = 0, ro_logident = 0, ro_uid = 0, ro_gid = 0, ro_workerThreads = 0, ro_daemonize = False,
     ro_waitLaunched = False, ro_logEnabled = False, ro_initialized = False\<rparr>"

definition PSC_RunOpts_init :: "ptr \<Rightarrow> PSC_RunOpts \<Rightarrow> PSC_RunOpts" where
  "PSC_RunOpts_init pidfile opts = opts\<lparr>ro_pidfile := pidfile, ro_uid := -1, ro_gid := -1, ro_daemonize := True, ro_waitLaunched := True,
     ro_initialized := True\<rparr>"

definition runOpts :: "PSC_RunOpts \<Rightarrow> PSC_RunOpts" where
  "runOpts opts = (if ro_initialized opts then opts else PSC_RunOpts_init 0 opts)"

definition PSC_RunOpts_runas :: "int \<Rightarrow> int \<Rightarrow> PSC_RunOpts \<Rightarrow> PSC_RunOpts" where
  "PSC_RunOpts_runas uid gid opts = (runOpts opts)\<lparr>ro_uid := uid, ro_gid := gid\<rparr>"

definition PSC_RunOpts_enableDefaultLogging :: "ptr \<Rightarrow> PSC_RunOpts \<Rightarrow> PSC_RunOpts" where
  "PSC_RunOpts_enableDefaultLogging logident opts = (runOpts opts)\<lparr>ro_logident := logident, ro_logEnabled := True\<rparr>"

definition PSC_RunOpts_foreground :: "PSC_RunOpts \<Rightarrow> PSC_RunOpts" where
  "PSC_RunOpts_foreground opts = (runOpts opts)\<lparr>ro_daemonize := False\<rparr>"

definition PSC_RunOpts_nowait :: "PSC_RunOpts \<Rightarrow> PSC_RunOpts" where
  "PSC_RunOpts_nowait opts = (runOpts opts)\<lparr>ro_waitLaunched := False\<rparr>"

definition PSC_RunOpts_workerThreads :: "int \<Rightarrow> PSC_RunOpts \<Rightarrow> PSC_RunOpts" where
  "PSC_RunOpts_workerThreads n opts = (runOpts opts)\<lparr>ro_workerThreads := n\<rparr>"

text \<open>An option that is set is not lost by setting another, also when \<open>PSC_RunOpts_init\<close> was never called.\<close>

lemma runopts_independent:
  "ro_workerThreads (PSC_RunOpts_foreground (PSC_RunOpts_workerThreads n opts)) = n"
  "ro_uid (PSC_RunOpts_enableDefaultLogging l (PSC_RunOpts_runas u g opts)) = u"
  "\<not> ro_daemonize (PSC_RunOpts_nowait (PSC_RunOpts_foreground opts))"
  by (simp_all add: PSC_RunOpts_foreground_def PSC_RunOpts_workerThreads_def PSC_RunOpts_enableDefaultLogging_def
      PSC_RunOpts_runas_def PSC_RunOpts_nowait_def runOpts_def PSC_RunOpts_init_def)

section \<open>Properties\<close>

text \<open>
  The manager hands out the stack that was returned last, and a new one only when there is
  none: for any sequence of calls the stacks handed out are those of a reference that keeps a
  stack of them, and no access leaves the array, however often it grows.
\<close>
theorem stacks_refine: "\<exists>s. stacks_run ops stackmgr_init = Some (s, stacks_spec ops [])"
  by (rule stacks_run_spec) (simp add: stacks_rep_def stackmgr_init_def)

text \<open>
  After \<open>StackMgr_clean\<close> the pointer to the freed array is kept: returning a stack then passes
  freed memory to \<open>realloc\<close>, and the size cannot be set any more.
\<close>

lemma stacks_clean_dangling:
  "p \<noteq> 0 \<Longrightarrow> Option.bind (StackMgr_returnStack p stackmgr_init) (\<lambda>s. StackMgr_returnStack q (StackMgr_clean s)) = (if q = 0 then Some (StackMgr_clean (the (StackMgr_returnStack p stackmgr_init))) else None)"
  "p \<noteq> 0 \<Longrightarrow> snd (StackMgr_setSize n (StackMgr_clean (the (StackMgr_returnStack p stackmgr_init)))) = -1"
  by (simp_all add: StackMgr_returnStack_def StackMgr_clean_def StackMgr_setSize_def stackmgr_init_def buf_alloc_def buf_write_def STACKSCHUNK_def)

end
