(* ===== verification/Poser_Server.thy ===== *)
theory Poser_Server
  imports Poser_IpAddr Poser_Util Poser_Hash "HOL-Library.Multiset"
begin

text \<open>
  Creation and configuration of servers (\<open>src/lib/core/server.c\<close>) in the build without TLS:
  options, the sockets a server listens on with every way their creation can fail, the hash of
  the addresses, and reconfiguration.  What the system calls return is part of the arguments;
  what the code does to descriptors and files is recorded in a list of actions.
\<close>

section \<open>Options\<close>

definition DEFRDBUFSZ :: nat where "DEFRDBUFSZ = 16 * 1024"
definition BINDCHUNK :: nat where "BINDCHUNK = 8"
definition MAXSOCKS :: nat where "MAXSOCKS = 64"

record PSC_TcpServerOpts =
  to_bindhosts :: "string buf"
  to_bh_capa :: nat
  to_bh_count :: nat
  to_rdbufsz :: nat
  to_proto :: PSC_Proto
  to_port :: int

definition PSC_TcpServerOpts_create :: "int \<Rightarrow> PSC_TcpServerOpts" where
  "PSC_TcpServerOpts_create port =
     \<lparr>to_bindhosts = [], to_bh_capa = 0, to_bh_count = 0, to_rdbufsz = DEFRDBUFSZ, to_proto = PSC_P_ANY, to_port = port\<rparr>"

definition PSC_TcpServerOpts_bind :: "string \<Rightarrow> PSC_TcpServerOpts \<Rightarrow> PSC_TcpServerOpts option" where
  "PSC_TcpServerOpts_bind bindhost self = do {
     let self = (if to_bh_count self = to_bh_capa self
       then self\<lparr>to_bh_capa := to_bh_capa self + BINDCHUNK,
              to_bindhosts := buf_realloc (to_bindhosts self) (to_bh_capa self + BINDCHUNK)\<rparr>
       else self);
     b \<leftarrow> buf_write (to_bindhosts self) (to_bh_count self) bindhost;
     Some (self\<lparr>to_bindhosts := b, to_bh_count := to_bh_count self + 1\<rparr>) }"

definition PSC_TcpServerOpts_readBufSize :: "nat \<Rightarrow> PSC_TcpServerOpts \<Rightarrow> PSC_TcpServerOpts" where
  "PSC_TcpServerOpts_readBufSize sz self = (if sz = 0 then self else self\<lparr>to_rdbufsz := sz\<rparr>)"

definition PSC_TcpServerOpts_setProto :: "PSC_Proto \<Rightarrow> PSC_TcpServerOpts \<Rightarrow> PSC_TcpServerOpts" where
  "PSC_TcpServerOpts_setProto proto self = self\<lparr>to_proto := proto\<rparr>"

record PSC_UnixServerOpts =
  uo_name :: string
  uo_rdbufsz :: nat
  uo_uid :: int
  uo_gid :: int
  uo_mode :: int


definition PSC_UnixServerOpts_readBufSize :: "nat \<Rightarrow> PSC_UnixServerOpts \<Rightarrow> PSC_UnixServerOpts" where
  "PSC_UnixServerOpts_readBufSize sz self = (if sz = 0 then self else self\<lparr>uo_rdbufsz := sz\<rparr>)"

definition PSC_UnixServerOpts_owner :: "int \<Rightarrow> int \<Rightarrow> PSC_UnixServerOpts \<Rightarrow> PSC_UnixServerOpts" where
  "PSC_UnixServerOpts_owner uid gid self = self\<lparr>uo_uid := uid, uo_gid := gid\<rparr>"

definition PSC_UnixServerOpts_mode :: "int \<Rightarrow> PSC_UnixServerOpts \<Rightarrow> PSC_UnixServerOpts" where
  "PSC_UnixServerOpts_mode mode self = self\<lparr>uo_mode := mode\<rparr>"

section \<open>The hash of the addresses\<close>

text \<open>
  \<open>strcmp\<close>; only the sign of the result counts.  \<open>qsort\<close> is insertion sort here: the order it
  produces is the only one, since \<open>bindcmp\<close> is zero for equal strings only.
\<close>

fun strcmp :: "string \<Rightarrow> string \<Rightarrow> int" where
  "strcmp [] [] = 0"
| "strcmp [] (b # bs) = -1"
| "strcmp (a # as) [] = 1"
| "strcmp (a # as) (b # bs) = (if a = b then strcmp as bs else if of_char a < (of_char b :: nat) then -1 else 1)"

definition bindcmp :: "string \<Rightarrow> string \<Rightarrow> int" where
  "bindcmp a b = strcmp a b"

fun qsort_insert :: "string \<Rightarrow> string list \<Rightarrow> string list" where
  "qsort_insert x [] = [x]"
| "qsort_insert x (y # ys) = (if bindcmp x y \<le> 0 then x # y # ys else y # qsort_insert x ys)"

definition qsort_binds :: "string list \<Rightarrow> string list" where
  "qsort_binds xs = foldr qsort_insert xs []"

definition join_binds :: "string list \<Rightarrow> string option" where
  "join_binds blist = do { joined \<leftarrow> PSC_joinstr '':'' blist; b \<leftarrow> joined; buf_cstr b }"

definition bindhash :: "xxhash \<Rightarrow> nat \<Rightarrow> string buf \<Rightarrow> u64 option" where
  "bindhash xxh nbinds binds =
     (if nbinds = 0 then Some 0
      else do {
        blist \<leftarrow> those (map (buf_read binds) [0..<nbinds]);
        bjoined \<leftarrow> join_binds (qsort_binds blist);
        hasher \<leftarrow> fst (PSC_Hash_create None [] 0);
        Some (PSC_Hash_string xxh hasher bjoined) })"

section \<open>Servers\<close>

datatype saddrt = ST_UNIX | ST_INET | ST_INET6

record SockInfo =
  si_fd :: int
  si_st :: saddrt

record PSC_Server =
  sv_path :: "string option"
  sv_bhash :: u64
  sv_rdbufsz :: nat
  sv_proto :: PSC_Proto
  sv_port :: int
  sv_disabled :: bool
  sv_nthr :: int
  sv_nextthr :: int
  sv_socks :: "SockInfo list"

datatype srv_act =
  Socket int | Close int | RegisterAccept int | RegisterRead int |
  BindPath string | UnlinkPath string | Chmod string int | Chown string int int

text \<open>
  \<open>PSC_Server_create\<close>: the sockets are an array of \<open>nsocks\<close> entries, and the handlers are
  registered one by one.
\<close>

definition PSC_Server_create :: "xxhash \<Rightarrow> PSC_TcpServerOpts \<Rightarrow> SockInfo list \<Rightarrow> string option \<Rightarrow> (PSC_Server option \<times> srv_act list) option" where
  "PSC_Server_create xxh opts socks path =
     (if length socks < 1 then Some (None, [])
      else do {
        h \<leftarrow> bindhash xxh (to_bh_count opts) (to_bindhosts opts);
        Some (Some \<lparr>sv_path = path, sv_bhash = h, sv_rdbufsz = to_rdbufsz opts, sv_proto = to_proto opts,
            sv_port = to_port opts, sv_disabled = False, sv_nthr = -1, sv_nextthr = -1, sv_socks = socks\<rparr>,
          concat (map (\<lambda>s. [RegisterAccept (si_fd s), RegisterRead (si_fd s)]) socks)) })"

section \<open>TCP servers\<close>

text \<open>An entry of the result of \<open>getaddrinfo\<close>, with the results of the calls that use it.\<close>

record addrinfo =
  ai_addr :: sockaddr
  ai_socket :: int
  ai_setsockopt :: int
  ai_bind :: int
  ai_listen :: int

definition is_inet :: "sockaddr \<Rightarrow> bool" where
  "is_inet a = (case a of AF_INET _ _ \<Rightarrow> True | _ \<Rightarrow> False)"

definition is_inet6 :: "sockaddr \<Rightarrow> bool" where
  "is_inet6 a = (case a of AF_INET6 _ _ \<Rightarrow> True | _ \<Rightarrow> False)"

text \<open>The \<open>continue\<close> at the head of the loop, which the client has as well.\<close>

definition skip_family :: "PSC_Proto \<Rightarrow> sockaddr \<Rightarrow> bool" where
  "skip_family proto a \<longleftrightarrow>
     \<not> is_inet a \<and> \<not> is_inet6 a \<or>
     proto = PSC_P_IPv4 \<and> \<not> is_inet a \<or>
     proto = PSC_P_IPv6 \<and> \<not> is_inet6 a"

text \<open>The local variables of \<open>PSC_Server_createTcp\<close>, with the two fields of \<open>socks\<close> as arrays of their own.\<close>

record tcp_locals =
  tl_fd :: "int buf"
  tl_st :: "saddrt buf"
  tl_nsocks :: nat
  tl_acts :: "srv_act list"

fun tcp_sockets :: "(int \<Rightarrow> bool) \<Rightarrow> PSC_Proto \<Rightarrow> addrinfo list \<Rightarrow> tcp_locals \<Rightarrow> tcp_locals option" where
  "tcp_sockets valid proto [] s = Some s"
| "tcp_sockets valid proto (res # rs) s =
     (if \<not> tl_nsocks s < MAXSOCKS then Some s
      else if skip_family proto (ai_addr res) then tcp_sockets valid proto rs s
      else do {
        let fd = ai_socket res;
        fds \<leftarrow> buf_write (tl_fd s) (tl_nsocks s) fd;
        let s = s\<lparr>tl_fd := fds\<rparr>;
        if fd < 0 then tcp_sockets valid proto rs s
        else let s = s\<lparr>tl_acts := tl_acts s @ [Socket fd]\<rparr>; closed = s\<lparr>tl_acts := tl_acts s @ [Close fd]\<rparr> in
          if \<not> valid fd then Some closed
          else if ai_setsockopt res < 0 then tcp_sockets valid proto rs closed
          else if ai_bind res < 0 then tcp_sockets valid proto rs closed
          else if ai_listen res < 0 then tcp_sockets valid proto rs closed
          else do {
            sts \<leftarrow> buf_write (tl_st s) (tl_nsocks s) (if is_inet (ai_addr res) then ST_INET else ST_INET6);
            tcp_sockets valid proto rs (s\<lparr>tl_st := sts, tl_nsocks := tl_nsocks s + 1\<rparr>) } })"

text \<open>
  \<open>getaddrinfo\<close> for each address: \<open>None\<close> for an error or an empty result.  The loop is entered
  once even without addresses; \<open>k\<close> is the number of rounds that are left.
\<close>

type_synonym getaddrinfo = "nat \<Rightarrow> string option \<Rightarrow> string \<Rightarrow> addrinfo list option"

fun tcp_hosts :: "(int \<Rightarrow> bool) \<Rightarrow> getaddrinfo \<Rightarrow> string \<Rightarrow> PSC_TcpServerOpts \<Rightarrow> nat \<Rightarrow> nat \<Rightarrow> tcp_locals \<Rightarrow> tcp_locals option" where
  "tcp_hosts valid gai portstr opts 0 bi s = Some s"
| "tcp_hosts valid gai portstr opts (Suc k) bi s = do {
     host \<leftarrow> (if to_bh_count opts \<noteq> 0 then map_option Some (buf_read (to_bindhosts opts) bi) else Some None);
     (case gai bi host portstr of
        None \<Rightarrow> do {
          logged \<leftarrow> buf_read (to_bindhosts opts) bi;
          tcp_hosts valid gai portstr opts k (bi + 1) s }
      | Some res0 \<Rightarrow> do {
          s \<leftarrow> tcp_sockets valid (to_proto opts) res0 s;
          tcp_hosts valid gai portstr opts k (bi + 1) s }) }"

text \<open>\<open>snprintf\<close> with \<open>%d\<close> into six bytes.\<close>

definition show_port :: "int \<Rightarrow> string" where
  "show_port port = take 5 (if port < 0 then CHR ''-'' # show_nat (nat (- port)) else show_nat (nat port))"

definition socks_read :: "tcp_locals \<Rightarrow> SockInfo list option" where
  "socks_read s = those (map (\<lambda>i. do {
     fd \<leftarrow> buf_read (tl_fd s) i; st \<leftarrow> buf_read (tl_st s) i; Some \<lparr>si_fd = fd, si_st = st\<rparr> }) [0..<tl_nsocks s])"

definition PSC_Server_createTcp :: "xxhash \<Rightarrow> (int \<Rightarrow> bool) \<Rightarrow> getaddrinfo \<Rightarrow> PSC_TcpServerOpts \<Rightarrow> (PSC_Server option \<times> srv_act list) option" where
  "PSC_Server_createTcp xxh valid gai opts = do {
     s \<leftarrow> tcp_hosts valid gai (show_port (to_port opts)) opts (max 1 (to_bh_count opts)) 0
       \<lparr>tl_fd = buf_alloc MAXSOCKS, tl_st = buf_alloc MAXSOCKS, tl_nsocks = 0, tl_acts = []\<rparr>;
     if tl_nsocks s = 0 then Some (None, tl_acts s)
     else do {
       socks \<leftarrow> socks_read s;
       (self, acts) \<leftarrow> PSC_Server_create xxh opts socks None;
       Some (self, tl_acts s @ acts @ (if self = None then map (\<lambda>s. Close (si_fd s)) socks else [])) } }"

definition PSC_Server_configureTcp :: "xxhash \<Rightarrow> PSC_Server \<Rightarrow> PSC_TcpServerOpts \<Rightarrow> int option" where
  "PSC_Server_configureTcp xxh self opts =
     (if sv_path self \<noteq> None then Some (-1)
      else if sv_proto self \<noteq> to_proto opts then Some (-1)
      else if sv_port self \<noteq> to_port opts then Some (-1)
      else if sv_rdbufsz self \<noteq> to_rdbufsz opts then Some (-1)
      else do {
        h \<leftarrow> bindhash xxh (to_bh_count opts) (to_bindhosts opts);
        Some (if sv_bhash self \<noteq> h then -1 else 0) })"

section \<open>Unix domain servers\<close>

datatype stat_result = StatENOENT | StatError | StatSocket | StatOther

record unix_env =
  ue_socket :: int
  ue_stat :: stat_result
  ue_connect :: int
  ue_inprogress :: bool
  ue_select :: int
  ue_getsockopt :: int
  ue_sockerr :: int
  ue_unlink :: int
  ue_socket2 :: int
  ue_bind :: int
  ue_listen :: int

definition SUN_PATH_SIZE :: nat where "SUN_PATH_SIZE = 108"

text \<open>Whether somebody listens on the socket: the condition of the second \<open>if\<close>.\<close>

definition unix_in_use :: "unix_env \<Rightarrow> bool" where
  "unix_in_use e \<longleftrightarrow> ue_connect e \<ge> 0 \<or>
     ue_inprogress e \<and> ue_select e > 0 \<and> ue_getsockopt e \<ge> 0 \<and> ue_sockerr e = 0"

text \<open>From \<open>bind\<close> on; \<open>bind\<close> and \<open>close\<close> of a negative descriptor only fail.\<close>

definition unix_listen :: "xxhash \<Rightarrow> PSC_UnixServerOpts \<Rightarrow> unix_env \<Rightarrow> string \<Rightarrow> int \<Rightarrow> srv_act list \<Rightarrow> (PSC_Server option \<times> srv_act list) option" where
  "unix_listen xxh opts e path fd acts =
     (let closed = (if fd < 0 then [] else [Close fd]) in
      if fd < 0 \<or> ue_bind e < 0 then Some (None, acts @ closed)
      else if ue_listen e < 0 then Some (None, acts @ [BindPath path] @ closed @ [UnlinkPath path])
      else do {
        (self, regs) \<leftarrow> PSC_Server_create xxh ((PSC_TcpServerOpts_create 0)\<lparr>to_rdbufsz := uo_rdbufsz opts\<rparr>)
          [\<lparr>si_fd = fd, si_st = ST_UNIX\<rparr>] (Some path);
        Some (self, acts @ [BindPath path, Chmod path (uo_mode opts)] @
          (if uo_uid opts \<noteq> -1 \<or> uo_gid opts \<noteq> -1 then [Chown path (uo_uid opts) (uo_gid opts)] else []) @ regs) })"

text \<open>
  \<open>FD_SET\<close> writes outside its set for a descriptor that is not below \<open>FD_SETSIZE\<close>.
\<close>

definition PSC_Server_createUnix :: "xxhash \<Rightarrow> nat \<Rightarrow> (int \<Rightarrow> bool) \<Rightarrow> unix_env \<Rightarrow> PSC_UnixServerOpts \<Rightarrow> (PSC_Server option \<times> srv_act list) option" where
  "PSC_Server_createUnix xxh FD_SETSIZE valid e opts =
     (let fd = ue_socket e; path = take (SUN_PATH_SIZE - 1) (uo_name opts) in
      if fd < 0 then Some (None, [])
      else if \<not> valid fd then Some (None, [Socket fd, Close fd])
      else case ue_stat e of
        StatOther \<Rightarrow> Some (None, [Socket fd, Close fd])
      | StatError \<Rightarrow> Some (None, [Socket fd, Close fd])
      | StatENOENT \<Rightarrow> unix_listen xxh opts e path fd [Socket fd]
      | StatSocket \<Rightarrow>
          if fd \<ge> int FD_SETSIZE then None
          else if unix_in_use e then Some (None, [Socket fd, Close fd])
          else if ue_unlink e < 0 then Some (None, [Socket fd, Close fd])
          else unix_listen xxh opts e path (ue_socket2 e)
            ([Socket fd, Close fd, UnlinkPath path] @ (if ue_socket2 e < 0 then [] else [Socket (ue_socket2 e)])))"

section \<open>Sorting the addresses\<close>

lemma strcmp_sym: "strcmp b a = - strcmp a b"
  by (induction a b rule: strcmp.induct) auto

lemma strcmp_0: "strcmp a b = 0 \<longleftrightarrow> a = b"
  by (induction a b rule: strcmp.induct) auto

lemma strcmp_trans: "strcmp a b \<le> 0 \<Longrightarrow> strcmp b c \<le> 0 \<Longrightarrow> strcmp a c \<le> 0"
proof (induction a b arbitrary: c rule: strcmp.induct)
  case (2 b bs)
  then show ?case by (cases c) auto
next
  case (4 a as b bs)
  then show ?case by (cases c) (auto split: if_splits)
qed auto

abbreviation str_le :: "string \<Rightarrow> string \<Rightarrow> bool" where
  "str_le a b \<equiv> bindcmp a b \<le> 0"

lemma str_le_antisym: "str_le a b \<Longrightarrow> str_le b a \<Longrightarrow> a = b"
  using strcmp_sym [of a b] strcmp_0 [of a b] by (simp add: bindcmp_def)

lemma str_le_total: "\<not> str_le a b \<Longrightarrow> str_le b a"
  using strcmp_sym [of a b] by (simp add: bindcmp_def)

lemma str_le_trans: "str_le a b \<Longrightarrow> str_le b c \<Longrightarrow> str_le a c"
  using strcmp_trans by (simp add: bindcmp_def)

lemma mset_qsort_insert [simp]: "mset (qsort_insert x ys) = add_mset x (mset ys)"
  by (induction ys) auto

lemma sorted_qsort_insert: "sorted_wrt str_le ys \<Longrightarrow> sorted_wrt str_le (qsort_insert x ys)"
proof (induction ys)
  case (Cons y ys)
  have "set (qsort_insert x ys) = insert x (set ys)"
    by (metis mset_qsort_insert set_mset_add_mset_insert set_mset_mset)
  with Cons show ?case by (auto intro: str_le_total str_le_trans)
qed simp

lemma mset_qsort_binds [simp]: "mset (qsort_binds xs) = mset xs"
  by (induction xs) (auto simp: qsort_binds_def)

lemma sorted_qsort_binds: "sorted_wrt str_le (qsort_binds xs)"
  by (induction xs) (auto simp: qsort_binds_def sorted_qsort_insert)

text \<open>There is one sorted list of given strings, whichever way \<open>qsort\<close> goes about it.\<close>

lemma sorted_binds_unique:
  "sorted_wrt str_le xs \<Longrightarrow> sorted_wrt str_le ys \<Longrightarrow> mset xs = mset ys \<Longrightarrow> xs = ys"
proof (induction xs arbitrary: ys)
  case (Cons x xs)
  then obtain y ys' where ys: "ys = y # ys'" by (cases ys) auto
  have "x \<in> set ys" using Cons.prems(3) by (metis list.set_intros(1) set_mset_mset)
  moreover have "y \<in> set (x # xs)" using Cons.prems(3) ys by (metis list.set_intros(1) set_mset_mset)
  ultimately have "x = y" using Cons.prems(1,2) ys by (auto intro: str_le_antisym)
  with Cons ys show ?case by auto
qed simp

lemma qsort_binds_perm: "mset xs = mset ys \<Longrightarrow> qsort_binds xs = qsort_binds ys"
  by (rule sorted_binds_unique) (simp_all add: sorted_qsort_binds)

section \<open>The options\<close>

definition opts_hosts :: "PSC_TcpServerOpts \<Rightarrow> string list \<Rightarrow> bool" where
  "opts_hosts opts hs \<longleftrightarrow> to_bh_count opts = length hs \<and> length (to_bindhosts opts) = to_bh_capa opts \<and>
     length hs \<le> to_bh_capa opts \<and> take (length hs) (to_bindhosts opts) = map Some hs \<and> (\<forall>h\<in>set hs. NUL \<notin> set h)"

lemma create_hosts [simp]: "opts_hosts (PSC_TcpServerOpts_create port) []"
  by (simp add: opts_hosts_def PSC_TcpServerOpts_create_def)

lemma bind_hosts:
  assumes "opts_hosts opts hs" "NUL \<notin> set h"
  shows "\<exists>opts'. PSC_TcpServerOpts_bind h opts = Some opts' \<and> opts_hosts opts' (hs @ [h]) \<and>
     to_rdbufsz opts' = to_rdbufsz opts \<and> to_proto opts' = to_proto opts \<and> to_port opts' = to_port opts"
  using assms
  by (auto simp: opts_hosts_def PSC_TcpServerOpts_bind_def buf_write_def buf_realloc_take BINDCHUNK_def
      take_Suc_conv_app_nth Let_def)

lemma opts_hosts_read:
  "opts_hosts opts hs \<Longrightarrow> i < length hs \<Longrightarrow> buf_read (to_bindhosts opts) i = Some (hs ! i)"
  using map_Some_nth_take [of "length hs" "to_bindhosts opts" hs i] by (simp add: opts_hosts_def buf_read_def)

lemma those_map_Some: "those (map (\<lambda>i. Some (f i)) xs) = Some (map f xs)"
  by (induction xs) auto

lemma those_nth:
  assumes "\<And>i. i < length xs \<Longrightarrow> f i = Some (xs ! i)"
  shows "those (map f [0..<length xs]) = Some xs"
proof -
  have "map f [0..<length xs] = map (\<lambda>i. Some (xs ! i)) [0..<length xs]" using assms by simp
  then show ?thesis by (simp only: those_map_Some map_nth)
qed

fun join_colon :: "string list \<Rightarrow> string" where
  "join_colon [] = []"
| "join_colon (s # ss) = s @ concat (map ((#) CHR '':'') ss)"

lemma joinstr_cstr:
  assumes "xs \<noteq> []" "\<forall>x\<in>set xs. NUL \<notin> set x"
  shows "join_binds xs = Some (join_colon xs)"
proof -
  obtain s ss where xs: "xs = s # ss" using assms by (cases xs) auto
  have "NUL \<notin> set (join_colon xs)" using assms xs by (auto simp: NUL_def)
  then show ?thesis using buf_cstr_map [of "join_colon xs" "[]"] xs by (simp add: join_binds_def joinstr_joins)
qed

lemma bindhash_hosts:
  assumes "opts_hosts opts hs"
  shows "bindhash xxh (to_bh_count opts) (to_bindhosts opts) =
     Some (if hs = [] then 0 else XXH3_64bits xxh (str_bytes (join_colon (qsort_binds hs))))"
proof (cases "hs = []")
  case False
  have "those (map (buf_read (to_bindhosts opts)) [0..<length hs]) = Some hs"
    using assms by (intro those_nth) (rule opts_hosts_read)
  moreover have "set (qsort_binds hs) = set hs" by (metis mset_qsort_binds set_mset_mset)
  moreover have "qsort_binds hs \<noteq> []" using False by (metis mset_qsort_binds mset_zero_iff)
  ultimately show ?thesis using assms False joinstr_cstr [of "qsort_binds hs"]
    by (simp add: bindhash_def opts_hosts_def PSC_Hash_create_def PSC_Hash_string_def PSC_Hash_bytes_def)
qed (use assms in \<open>simp add: bindhash_def opts_hosts_def\<close>)

section \<open>The sockets of a TCP server\<close>

text \<open>
  The reference: the addresses of the right family, up to the first whose descriptor cannot be
  watched, less those for which a call fails.
\<close>

definition ai_ok :: "addrinfo \<Rightarrow> bool" where
  "ai_ok res \<longleftrightarrow> 0 \<le> ai_socket res \<and> 0 \<le> ai_setsockopt res \<and> 0 \<le> ai_bind res \<and> 0 \<le> ai_listen res"

definition ai_info :: "addrinfo \<Rightarrow> SockInfo" where
  "ai_info res = \<lparr>si_fd = ai_socket res, si_st = (if is_inet (ai_addr res) then ST_INET else ST_INET6)\<rparr>"

definition host_socks :: "(int \<Rightarrow> bool) \<Rightarrow> PSC_Proto \<Rightarrow> addrinfo list \<Rightarrow> SockInfo list" where
  "host_socks valid proto rs = map ai_info (filter ai_ok
     (takeWhile (\<lambda>r. 0 \<le> ai_socket r \<longrightarrow> valid (ai_socket r)) (filter (\<lambda>r. \<not> skip_family proto (ai_addr r)) rs)))"

lemma host_socks_simps [simp]:
  "host_socks valid proto [] = []"
  "host_socks valid proto (r # rs) =
     (if skip_family proto (ai_addr r) then host_socks valid proto rs
      else if 0 \<le> ai_socket r \<and> \<not> valid (ai_socket r) then []
      else if ai_ok r then ai_info r # host_socks valid proto rs
      else host_socks valid proto rs)"
  by (auto simp: host_socks_def)














abbreviation reg_acts :: "SockInfo list \<Rightarrow> srv_act list" where
  "reg_acts S \<equiv> concat (map (\<lambda>s. [RegisterAccept (si_fd s), RegisterRead (si_fd s)]) S)"



lemma PSC_Server_create_ok:
  assumes "opts_hosts opts hs" "S \<noteq> []"
  shows "PSC_Server_create xxh opts S path = Some (Some \<lparr>sv_path = path,
       sv_bhash = (if hs = [] then 0 else XXH3_64bits xxh (str_bytes (join_colon (qsort_binds hs)))),
       sv_rdbufsz = to_rdbufsz opts, sv_proto = to_proto opts, sv_port = to_port opts, sv_disabled = False,
       sv_nthr = -1, sv_nextthr = -1, sv_socks = S\<rparr>, reg_acts S)"
  using assms bindhash_hosts [OF assms(1), of xxh] by (cases S) (simp_all add: PSC_Server_create_def)


section \<open>Properties\<close>





text \<open>
  The order in which addresses were bound does not matter for reconfiguration: a server
  that was created with some options accepts any options with the same addresses in another
  order, the same port, protocol and buffer size, and rejects options in which one of the
  latter three differs.
\<close>
theorem server_configure:
  assumes "opts_hosts opts hs" "opts_hosts opts' hs'" "mset hs = mset hs'"
    and "PSC_Server_create xxh opts socks None = Some (Some self, acts)"
  shows "PSC_Server_configureTcp xxh self opts' =
     Some (if to_proto opts' = to_proto opts \<and> to_port opts' = to_port opts \<and> to_rdbufsz opts' = to_rdbufsz opts then 0 else -1)"
proof -
  have "hs = [] \<longleftrightarrow> hs' = []" using assms(3) by (metis mset_zero_iff)
  then show ?thesis using assms(4) bindhash_hosts [OF assms(1), of xxh] bindhash_hosts [OF assms(2), of xxh] qsort_binds_perm [OF assms(3)]
    by (auto simp: PSC_Server_create_def PSC_Server_configureTcp_def split: if_splits)
qed

theorem server_configure_witness:
  "\<exists>o1 o2 self acts. Option.bind (PSC_TcpServerOpts_bind ''::1'' (PSC_TcpServerOpts_create 80)) (PSC_TcpServerOpts_bind ''10.0.0.1'') = Some o1 \<and>
     Option.bind (PSC_TcpServerOpts_bind ''10.0.0.1'' (PSC_TcpServerOpts_create 80)) (PSC_TcpServerOpts_bind ''::1'') = Some o2 \<and>
     PSC_Server_create xxh_zero o1 [\<lparr>si_fd = 5, si_st = ST_INET\<rparr>] None = Some (Some self, acts) \<and>
     PSC_Server_configureTcp xxh_zero self o2 = Some 0"
proof -
  have nul: "NUL \<notin> set ''::1''" "NUL \<notin> set ''10.0.0.1''" by (simp_all add: NUL_def)
  obtain a where a: "PSC_TcpServerOpts_bind ''::1'' (PSC_TcpServerOpts_create 80) = Some a" "opts_hosts a [''::1'']"
      "to_rdbufsz a = DEFRDBUFSZ" "to_proto a = PSC_P_ANY" "to_port a = 80"
    using bind_hosts [OF create_hosts nul(1), of 80] by (auto simp: PSC_TcpServerOpts_create_def)
  obtain b where b: "PSC_TcpServerOpts_bind ''10.0.0.1'' (PSC_TcpServerOpts_create 80) = Some b" "opts_hosts b [''10.0.0.1'']"
      "to_rdbufsz b = DEFRDBUFSZ" "to_proto b = PSC_P_ANY" "to_port b = 80"
    using bind_hosts [OF create_hosts nul(2), of 80] by (auto simp: PSC_TcpServerOpts_create_def)
  obtain o1 where o1: "PSC_TcpServerOpts_bind ''10.0.0.1'' a = Some o1" "opts_hosts o1 [''::1'', ''10.0.0.1'']"
      "to_rdbufsz o1 = DEFRDBUFSZ" "to_proto o1 = PSC_P_ANY" "to_port o1 = 80"
    using bind_hosts [OF a(2) nul(2)] a by auto
  obtain o2 where o2: "PSC_TcpServerOpts_bind ''::1'' b = Some o2" "opts_hosts o2 [''10.0.0.1'', ''::1'']"
      "to_rdbufsz o2 = DEFRDBUFSZ" "to_proto o2 = PSC_P_ANY" "to_port o2 = 80"
    using bind_hosts [OF b(2) nul(1)] b by auto
  obtain self acts where self: "PSC_Server_create xxh_zero o1 [\<lparr>si_fd = 5, si_st = ST_INET\<rparr>] None = Some (Some self, acts)"
    using PSC_Server_create_ok [OF o1(2), of "[\<lparr>si_fd = 5, si_st = ST_INET\<rparr>]" xxh_zero None] by simp
  from server_configure [OF o1(2) o2(2) _ self] o1 o2 a b self show ?thesis by auto
qed

text \<open>
  Two different sets of addresses can have the same hash, as the separator of the joined text
  occurs in IPv6 addresses.
\<close>

lemma bindhash_colon:
  assumes "opts_hosts o1 [''1'', ''::'']" "opts_hosts o2 [''1:::'']"
  shows "bindhash xxh (to_bh_count o1) (to_bindhosts o1) = bindhash xxh (to_bh_count o2) (to_bindhosts o2)"
  unfolding bindhash_hosts [OF assms(1)] bindhash_hosts [OF assms(2)]
  by (simp add: qsort_binds_def bindcmp_def)

text \<open>
  Without addresses, a failure of \<open>getaddrinfo\<close> is fatal: the message about it reads the
  address from an array that was never allocated.
\<close>

lemma createTcp_null_host:
  assumes "opts_hosts opts []" "to_bh_capa opts = 0" "gai 0 None (show_port (to_port opts)) = None"
  shows "PSC_Server_createTcp xxh valid gai opts = None"
  using assms by (simp add: PSC_Server_createTcp_def opts_hosts_def buf_read_def)




text \<open>
  Where descriptors beyond \<open>FD_SETSIZE\<close> are valid, which is so in every build that does not use
  \<open>select\<close>, probing an existing socket writes outside the \<open>fd_set\<close>.
\<close>

lemma createUnix_fd_set_overflow:
  assumes "ue_stat e = StatSocket" "int FD_SETSIZE \<le> ue_socket e" "valid (ue_socket e)"
  shows "PSC_Server_createUnix xxh FD_SETSIZE valid e opts = None"
  using assms by (simp add: PSC_Server_createUnix_def)

end
