(* ===== verification/Poser_ServerConn.thy ===== *)
theory Poser_ServerConn
  imports Poser_Server
begin

text \<open>
  The connections of a server (\<open>src/lib/core/server.c\<close>): accepting them, handing them to the
  worker threads, counting them, and the end of the server.  Accepting is one function of the
  main thread; what happens to the counters and the semaphore on the threads is a transition
  system whose steps are the atomic accesses of the lock-free build.
\<close>

section \<open>Accepting\<close>

text \<open>
  The choice of a thread.  The variable \<open>nextthr\<close> is both the best thread so far and the
  origin from which the loop counts on.
\<close>

fun pick_loop :: "nat list \<Rightarrow> nat \<Rightarrow> nat \<Rightarrow> nat \<Rightarrow> nat \<Rightarrow> nat" where
  "pick_loop nactive 0 i minactive nextthr = nextthr"
| "pick_loop nactive (Suc k) i minactive nextthr =
     (let thrno = (nextthr + i) mod length nactive; iactive = nactive ! thrno in
      if iactive < minactive then pick_loop nactive k (i + 1) iactive thrno
      else pick_loop nactive k (i + 1) minactive nextthr)"

definition pick_thread :: "nat list \<Rightarrow> nat \<Rightarrow> nat" where
  "pick_thread nactive nextthr = pick_loop nactive (length nactive - 1) 1 (nactive ! nextthr) nextthr"

record live_server = PSC_Server +
  sv_clients :: "nat list"

record AcceptRecord =
  ar_addr :: "PSC_IpAddr option"
  ar_path :: "string option"
  ar_pool :: nat
  ar_rdbufsz :: nat
  ar_fd :: int

datatype accept_result = AcceptFailed | Rejected int | RunOn int AcceptRecord

definition sock_type :: "live_server \<Rightarrow> int \<Rightarrow> saddrt" where
  "sock_type self fd = (case find (\<lambda>s. si_fd s = fd) (sv_socks self) of Some s \<Rightarrow> si_st s | None \<Rightarrow> ST_UNIX)"

text \<open>The first connection sets up a pool for each worker thread, or one for the main thread.\<close>

definition init_clients :: "int \<Rightarrow> live_server \<Rightarrow> live_server" where
  "init_clients workers self =
     (if sv_nthr self < 0 then self\<lparr>sv_nthr := workers, sv_nextthr := (if workers \<noteq> 0 then 0 else sv_nextthr self),
        sv_clients := replicate (nat (if workers < 1 then 1 else workers)) 0\<rparr> else self)"

definition assign_thread :: "live_server \<Rightarrow> live_server option" where
  "assign_thread self =
     (if sv_nthr self = 0 then Some self
      else if sv_nextthr self < 0 \<or> length (sv_clients self) \<le> nat (sv_nextthr self) then None
      else let nextthr = pick_thread (sv_clients self) (nat (sv_nextthr self)) in
        Some (self\<lparr>sv_nextthr := int nextthr, sv_clients := (sv_clients self)[nextthr := sv_clients self ! nextthr + 1]\<rparr>))"

text \<open>
  \<open>connfd\<close> is what \<open>accept\<close> returns and \<open>peer\<close> what it stores, for sockets that are not Unix
  sockets; for those the address is a null pointer, which \<open>PSC_IpAddr_fromSockAddr\<close> reads.
\<close>

definition acceptConnection :: "(int \<Rightarrow> bool) \<Rightarrow> int \<Rightarrow> int \<Rightarrow> int \<Rightarrow> sockaddr \<Rightarrow> live_server \<Rightarrow> (live_server \<times> accept_result) option" where
  "acceptConnection valid workers sockfd connfd peer self =
     (let sa = (if sock_type self sockfd = ST_UNIX then None else Some peer) in
      if connfd < 0 then Some (self, AcceptFailed)
      else if sv_disabled self \<or> \<not> valid connfd then Some (self, Rejected connfd)
      else do {
        self \<leftarrow> assign_thread (init_clients workers self);
        let poolno = (if sv_nextthr self < 0 then 0 else sv_nextthr self);
        a \<leftarrow> sa;
        Some (self, RunOn (sv_nextthr self)
          \<lparr>ar_addr = PSC_IpAddr_fromSockAddr a, ar_path = sv_path self, ar_pool = nat poolno,
           ar_rdbufsz = sv_rdbufsz self, ar_fd = connfd\<rparr>) })"

definition PSC_Server_disable :: "live_server \<Rightarrow> live_server" where
  "PSC_Server_disable self = self\<lparr>sv_disabled := True\<rparr>"

definition PSC_Server_enable :: "live_server \<Rightarrow> live_server" where
  "PSC_Server_enable self = self\<lparr>sv_disabled := False\<rparr>"

section \<open>The counters\<close>

datatype scmd = DoAccept bool | DestroyPool

text \<open>
  Where a worker thread is: between commands, in \<open>sem_wait\<close> of \<open>doaccept\<close>, or in
  \<open>removeConnection\<close> between its two counters or before \<open>sem_post\<close>.  The main thread serves,
  waits in \<open>PSC_Server_destroy\<close>, or has freed the server.
\<close>

datatype wpc = Idle | Waiting | Closing | Posting

datatype mpc = Serving | AwaitClosed | Freed

text \<open>\<open>ss_bad\<close> is set by an access to the server after it was freed.\<close>

record sstate =
  ss_nconn :: nat
  ss_sem :: nat
  ss_nactive :: "nat list"
  ss_next :: nat
  ss_queue :: "nat \<Rightarrow> scmd list"
  ss_live :: "nat \<Rightarrow> nat"
  ss_pc :: "nat \<Rightarrow> wpc"
  ss_main :: mpc
  ss_bad :: bool

definition touch :: "sstate \<Rightarrow> sstate" where
  "touch s = s\<lparr>ss_bad := (ss_bad s \<or> ss_main s = Freed)\<rparr>"

definition accept_hand :: "bool \<Rightarrow> sstate \<Rightarrow> sstate" where
  "accept_hand ok s =
     (let t = pick_thread (ss_nactive s) (ss_next s) in
      s\<lparr>ss_nactive := (ss_nactive s)[t := ss_nactive s ! t + 1], ss_next := t, ss_queue := (ss_queue s)(t := ss_queue s t @ [DoAccept ok])\<rparr>)"

text \<open>
  \<open>doaccept\<close> up to the semaphore; the argument of the command says whether
  \<open>PSC_Connection_create\<close> returns a connection.
\<close>

definition doaccept :: "nat \<Rightarrow> bool \<Rightarrow> sstate \<Rightarrow> sstate" where
  "doaccept t ok s =
     (let s = touch (s\<lparr>ss_queue := (ss_queue s)(t := tl (ss_queue s t))\<rparr>) in
      if \<not> ok then s\<lparr>ss_nactive := (ss_nactive s)[t := ss_nactive s ! t - 1]\<rparr>
      else if ss_nconn s = 0 then s\<lparr>ss_nconn := 1, ss_pc := (ss_pc s)(t := Waiting)\<rparr>
      else s\<lparr>ss_nconn := ss_nconn s + 1, ss_live := (ss_live s)(t := ss_live s t + 1)\<rparr>)"

definition doaccept_wait :: "nat \<Rightarrow> sstate \<Rightarrow> sstate" where
  "doaccept_wait t s =
     (touch s)\<lparr>ss_sem := ss_sem s - 1, ss_pc := (ss_pc s)(t := Idle), ss_live := (ss_live s)(t := ss_live s t + 1)\<rparr>"

text \<open>\<open>removeConnection\<close>\<close>

definition remove_active :: "nat \<Rightarrow> sstate \<Rightarrow> sstate" where
  "remove_active t s =
     (touch s)\<lparr>ss_nactive := (ss_nactive s)[t := ss_nactive s ! t - 1], ss_live := (ss_live s)(t := ss_live s t - 1), ss_pc := (ss_pc s)(t := Closing)\<rparr>"

definition remove_conn :: "nat \<Rightarrow> sstate \<Rightarrow> sstate" where
  "remove_conn t s = (touch s)\<lparr>ss_nconn := ss_nconn s - 1, ss_pc := (ss_pc s)(t := if ss_nconn s = 1 then Posting else Idle)\<rparr>"

definition remove_post :: "nat \<Rightarrow> sstate \<Rightarrow> sstate" where
  "remove_post t s = (touch s)\<lparr>ss_sem := ss_sem s + 1, ss_pc := (ss_pc s)(t := Idle)\<rparr>"

definition destroyPool_done :: "nat \<Rightarrow> sstate \<Rightarrow> sstate" where
  "destroyPool_done t s = s\<lparr>ss_queue := (ss_queue s)(t := tl (ss_queue s t))\<rparr>"

text \<open>\<open>PSC_Server_destroy\<close> up to the semaphore, and from there on.\<close>

definition server_destroy :: "sstate \<Rightarrow> sstate" where
  "server_destroy s =
     (if ss_nconn s = 0 then s\<lparr>ss_main := Freed\<rparr>
      else s\<lparr>ss_queue := (\<lambda>t. if t < length (ss_nactive s) then ss_queue s t @ [DestroyPool] else ss_queue s t), ss_main := AwaitClosed\<rparr>)"

definition server_destroy_wait :: "sstate \<Rightarrow> sstate" where
  "server_destroy_wait s = s\<lparr>ss_sem := ss_sem s - 1, ss_main := Freed\<rparr>"

inductive server_step :: "sstate \<Rightarrow> sstate \<Rightarrow> bool" where
  Accept: "ss_main s = Serving \<Longrightarrow> server_step s (accept_hand ok s)"
| Run: "t < length (ss_nactive s) \<Longrightarrow> ss_pc s t = Idle \<Longrightarrow> ss_queue s t = DoAccept ok # cs \<Longrightarrow> server_step s (doaccept t ok s)"
| Wait: "t < length (ss_nactive s) \<Longrightarrow> ss_pc s t = Waiting \<Longrightarrow> 0 < ss_sem s \<Longrightarrow> server_step s (doaccept_wait t s)"
| Close: "t < length (ss_nactive s) \<Longrightarrow> ss_pc s t = Idle \<Longrightarrow> 0 < ss_live s t \<Longrightarrow> server_step s (remove_active t s)"
| Count: "t < length (ss_nactive s) \<Longrightarrow> ss_pc s t = Closing \<Longrightarrow> server_step s (remove_conn t s)"
| Post: "t < length (ss_nactive s) \<Longrightarrow> ss_pc s t = Posting \<Longrightarrow> server_step s (remove_post t s)"
| Pool: "t < length (ss_nactive s) \<Longrightarrow> ss_pc s t = Idle \<Longrightarrow> ss_queue s t = DestroyPool # cs \<Longrightarrow> ss_live s t = 0 \<Longrightarrow> server_step s (destroyPool_done t s)"
| Destroy: "ss_main s = Serving \<Longrightarrow> server_step s (server_destroy s)"
| DestroyWait: "ss_main s = AwaitClosed \<Longrightarrow> 0 < ss_sem s \<Longrightarrow> server_step s (server_destroy_wait s)"

definition server_init :: "nat \<Rightarrow> sstate" where
  "server_init w = \<lparr>ss_nconn = 0, ss_sem = 1, ss_nactive = replicate w 0, ss_next = 0, ss_queue = (\<lambda>_. []), ss_live = (\<lambda>_. 0),
     ss_pc = (\<lambda>_. Idle), ss_main = Serving, ss_bad = False\<rparr>"

section \<open>The choice of a thread\<close>

lemma pick_loop_bound: "0 < length a \<Longrightarrow> nextthr < length a \<Longrightarrow> pick_loop a k i m nextthr < length a"
  by (induction k arbitrary: i m nextthr) (auto simp: Let_def)

lemma pick_thread_bound: "nextthr < length a \<Longrightarrow> pick_thread a nextthr < length a"
  unfolding pick_thread_def by (rule pick_loop_bound) auto

text \<open>As long as no thread with less load was met, the loop has seen \<open>i - 1\<close> threads behind the start.\<close>

lemma pick_loop_keep:
  "(\<And>j. i \<le> j \<Longrightarrow> j < i + k \<Longrightarrow> m \<le> a ! ((nextthr + j) mod length a)) \<Longrightarrow> pick_loop a k i m nextthr = nextthr"
proof (induction k arbitrary: i)
  case (Suc k)
  have "\<not> a ! ((nextthr + i) mod length a) < m" using Suc.prems [of i] by simp
  moreover have "pick_loop a k (i + 1) m nextthr = nextthr" using Suc.prems by (intro Suc.IH) auto
  ultimately show ?case by (simp add: Let_def)
qed simp

lemma pick_loop_le: "nextthr < length a \<Longrightarrow> m = a ! nextthr \<Longrightarrow> a ! pick_loop a k i m nextthr \<le> m"
proof (induction k arbitrary: i m nextthr)
  case (Suc k)
  let ?t = "(nextthr + i) mod length a"
  have "?t < length a" using Suc.prems(1) by (cases a) auto
  then show ?case using Suc.IH [of nextthr m "i + 1"] Suc.IH [of ?t "a ! ?t" "i + 1"] Suc.prems by (auto simp: Let_def)
qed simp

text \<open>The first thread with less load than the start is found, so the start is kept only if none has less.\<close>

lemma pick_loop_less:
  "nextthr < length a \<Longrightarrow> i \<le> j \<Longrightarrow> j < i + k \<Longrightarrow> a ! ((nextthr + j) mod length a) < a ! nextthr \<Longrightarrow>
   a ! pick_loop a k i (a ! nextthr) nextthr < a ! nextthr"
proof (induction k arbitrary: i)
  case (Suc k)
  let ?t = "(nextthr + i) mod length a"
  show ?case
  proof (cases "a ! ?t < a ! nextthr")
    case True
    have "?t < length a" using Suc.prems(1) by (cases a) auto
    with True show ?thesis using pick_loop_le [of ?t a "a ! ?t" k "i + 1"] by (simp add: Let_def)
  next
    case False
    then have "i \<noteq> j" using Suc.prems(4) by auto
    with False show ?thesis using Suc.IH [of "i + 1"] Suc.prems by (simp add: Let_def)
  qed
qed simp

lemma ring_index:
  assumes "n < l" "t < l" "t \<noteq> n"
  shows "\<exists>j. 1 \<le> j \<and> j < 1 + (l - 1) \<and> (n + j) mod l = (t :: nat)"
proof (cases "n < t")
  case True
  then show ?thesis using assms by (intro exI [of _ "t - n"]) auto
next
  case False
  then have "(n + (l - n + t)) mod l = t" using assms by simp
  then show ?thesis using assms False by (intro exI [of _ "l - n + t"]) auto
qed

lemma pick_thread_less:
  assumes "nextthr < length a" "t < length a" "a ! t < a ! nextthr"
  shows "a ! pick_thread a nextthr < a ! nextthr"
proof -
  obtain j where j: "1 \<le> j" "j < 1 + (length a - 1)" "(nextthr + j) mod length a = t"
    using ring_index [of nextthr "length a" t] assms by blast
  show ?thesis unfolding pick_thread_def by (rule pick_loop_less [OF assms(1) j(1,2)]) (simp add: j(3) assms(3))
qed

definition balanced :: "nat list \<Rightarrow> bool" where
  "balanced a \<longleftrightarrow> (\<forall>i<length a. \<forall>j<length a. a ! i \<le> a ! j + 1)"

text \<open>With balanced loads the choice is a thread with the least load, and the loads stay balanced.\<close>

lemma pick_thread_min:
  assumes "balanced a" "nextthr < length a" "t < length a"
  shows "a ! pick_thread a nextthr \<le> a ! t"
proof (cases "a ! t < a ! nextthr")
  case True
  have "a ! nextthr \<le> a ! t + 1" using assms by (auto simp: balanced_def)
  then show ?thesis using pick_thread_less [OF assms(2,3) True] by linarith
next
  case False
  then show ?thesis using pick_loop_le [of nextthr a "a ! nextthr" "length a - 1" 1] assms(2) by (simp add: pick_thread_def)
qed

lemma balanced_pick:
  assumes "balanced a" "nextthr < length a"
  shows "balanced (a[pick_thread a nextthr := a ! pick_thread a nextthr + 1])"
  using assms pick_thread_min [OF assms] pick_thread_bound [OF assms(2)]
  by (auto simp: balanced_def nth_list_update intro: le_SucI)

lemma sum_others: "i < n \<Longrightarrow> (\<Sum>j<n. if j = i then 0 else 1) = n - (1 :: nat)"
proof -
  assume "i < n"
  then have "(\<Sum>j<n. if j = i then 0 else 1) = (\<Sum>j\<in>{..<n} - {i}. 1 :: nat)"
    by (intro sum.mono_neutral_cong_right) auto
  with \<open>i < n\<close> show ?thesis by simp
qed

lemma balanced_div:
  assumes "balanced a" "i < length a"
  shows "a ! i = sum_list a div length a \<or> a ! i = Suc (sum_list a div length a)"
proof -
  let ?n = "length a"
  let ?o = "\<lambda>j. if j = i then 0 else 1 :: nat"
  have n: "0 < ?n" using assms by linarith
  have sum: "sum_list a = (\<Sum>j<?n. a ! j)" by (simp add: sum_list_sum_nth lessThan_atLeast0)
  have "sum_list a \<le> (\<Sum>j<?n. a ! i + ?o j)"
    unfolding sum using assms by (intro sum_mono) (auto simp: balanced_def)
  also have "\<dots> = ?n * (a ! i) + (?n - 1)" using sum_others [OF assms(2)] by (simp add: sum.distrib)
  finally have "sum_list a < ?n * (a ! i) + ?n" using n by linarith
  then have "sum_list a < Suc (a ! i) * ?n" by (simp add: algebra_simps)
  then have u: "sum_list a div ?n \<le> a ! i" using n by (simp add: div_less_iff_less_mult less_Suc_eq_le [symmetric])
  have "(\<Sum>j<?n. a ! i) \<le> (\<Sum>j<?n. a ! j + ?o j)"
    using assms by (intro sum_mono) (auto simp: balanced_def)
  also have "\<dots> = sum_list a + (?n - 1)" using sum_others [OF assms(2)] by (simp add: sum.distrib sum)
  finally have l: "?n * (a ! i) \<le> sum_list a + (?n - 1)" by simp
  have "a ! i \<le> Suc (sum_list a div ?n)"
  proof (cases "a ! i")
    case (Suc x)
    then have "x * ?n \<le> sum_list a" using l n by (simp add: algebra_simps)
    with n Suc show ?thesis by (simp add: less_eq_div_iff_mult_less_eq)
  qed simp
  with u show ?thesis by linarith
qed

section \<open>The server accepts\<close>

definition accepts_on :: "nat \<Rightarrow> live_server \<Rightarrow> bool" where
  "accepts_on w self \<longleftrightarrow> sv_nthr self = int w \<and> 0 < w \<and> length (sv_clients self) = w \<and> 0 \<le> sv_nextthr self \<and> sv_nextthr self < int w"

fun accept_all :: "(int \<Rightarrow> bool) \<Rightarrow> int \<Rightarrow> (int \<times> int \<times> sockaddr) list \<Rightarrow> live_server \<Rightarrow> (live_server \<times> accept_result list) option" where
  "accept_all valid workers [] self = Some (self, [])"
| "accept_all valid workers ((sockfd, connfd, peer) # cs) self = do {
     (self, r) \<leftarrow> acceptConnection valid workers sockfd connfd peer self;
     (self, rs) \<leftarrow> accept_all valid workers cs self;
     Some (self, r # rs) }"

lemma sum_list_inc: "t < length a \<Longrightarrow> sum_list (a[t := a ! t + 1]) = Suc (sum_list a)"
  by (induction a arbitrary: t) (auto split: nat.splits)

definition good_call :: "(int \<Rightarrow> bool) \<Rightarrow> live_server \<Rightarrow> int \<times> int \<times> sockaddr \<Rightarrow> bool" where
  "good_call valid self c \<longleftrightarrow> sock_type self (fst c) \<noteq> ST_UNIX \<and> 0 \<le> fst (snd c) \<and> valid (fst (snd c))"

lemma acceptConnection_on:
  assumes "accepts_on w self" "balanced (sv_clients self)" "\<not> sv_disabled self" "good_call valid self (sockfd, connfd, peer)"
  shows "\<exists>self' t rec. acceptConnection valid workers sockfd connfd peer self = Some (self', RunOn (int t) rec) \<and>
     t < w \<and> ar_pool rec = t \<and> ar_fd rec = connfd \<and> accepts_on w self' \<and> balanced (sv_clients self') \<and>
     (\<forall>u<w. sv_clients self ! t \<le> sv_clients self ! u) \<and>
     sum_list (sv_clients self') = Suc (sum_list (sv_clients self)) \<and> sv_disabled self' = sv_disabled self \<and> sv_socks self' = sv_socks self"
proof -
  let ?a = "sv_clients self" and ?n = "nat (sv_nextthr self)"
  define t where "t = pick_thread ?a ?n"
  have n: "?n < length ?a" using assms(1) by (auto simp: accepts_on_def)
  have t: "t < length ?a" using pick_thread_bound [OF n] by (simp add: t_def)
  have "init_clients workers self = self" using assms(1) by (simp add: init_clients_def accepts_on_def)
  moreover have "assign_thread self = Some (self\<lparr>sv_nextthr := int t, sv_clients := ?a[t := ?a ! t + 1]\<rparr>)"
    using assms(1) n by (auto simp: assign_thread_def accepts_on_def t_def Let_def)
  ultimately show ?thesis
    using assms t balanced_pick [OF assms(2) n] pick_thread_min [OF assms(2) n] sum_list_inc [OF t]
    by (simp add: acceptConnection_def good_call_def accepts_on_def t_def)
qed

definition run_fd :: "accept_result \<Rightarrow> int option" where
  "run_fd r = (case r of RunOn t rec \<Rightarrow> if 0 \<le> t then Some (ar_fd rec) else None | _ \<Rightarrow> None)"

lemma run_fd_RunOn [simp]: "run_fd (RunOn (int t) r) = Some (ar_fd r)"
  by (simp add: run_fd_def)

lemma good_call_socks: "sv_socks self' = sv_socks self \<Longrightarrow> good_call valid self' c = good_call valid self c"
  by (simp add: good_call_def sock_type_def)

lemma accept_all_on:
  assumes "accepts_on w self" "balanced (sv_clients self)" "\<not> sv_disabled self" "\<forall>c\<in>set cs. good_call valid self c"
  shows "\<exists>self' rs. accept_all valid workers cs self = Some (self', rs) \<and> map run_fd rs = map (Some \<circ> fst \<circ> snd) cs \<and>
     accepts_on w self' \<and> balanced (sv_clients self') \<and> sum_list (sv_clients self') = sum_list (sv_clients self) + length cs"
  using assms
proof (induction cs arbitrary: self)
  case (Cons c cs)
  obtain sockfd connfd peer where c: "c = (sockfd, connfd, peer)" by (cases c)
  then have good: "good_call valid self (sockfd, connfd, peer)" using Cons.prems(4) by simp
  obtain s1 t r where s1: "acceptConnection valid workers sockfd connfd peer self = Some (s1, RunOn (int t) r)"
      "ar_fd r = connfd" "accepts_on w s1" "balanced (sv_clients s1)"
      "sum_list (sv_clients s1) = Suc (sum_list (sv_clients self))" "sv_disabled s1 = sv_disabled self" "sv_socks s1 = sv_socks self"
    using acceptConnection_on [OF Cons.prems(1-3) good] by blast
  have "\<forall>c\<in>set cs. good_call valid s1 c" using Cons.prems(4) good_call_socks [OF s1(7), of valid] by simp
  with Cons.IH [OF s1(3,4)] Cons.prems(3) s1(6) obtain s2 rs where
      "accept_all valid workers cs s1 = Some (s2, rs)" "map run_fd rs = map (Some \<circ> fst \<circ> snd) cs" "accepts_on w s2"
      "balanced (sv_clients s2)" "sum_list (sv_clients s2) = sum_list (sv_clients s1) + length cs" by auto
  with s1 c show ?case by simp
qed simp

lemma init_clients_idem: "0 \<le> workers \<Longrightarrow> init_clients workers (init_clients workers self) = init_clients workers self"
  by (simp add: init_clients_def)

lemma acceptConnection_init:
  assumes "good_call valid self (sockfd, connfd, peer)" "\<not> sv_disabled self" "0 \<le> workers"
  shows "acceptConnection valid workers sockfd connfd peer self = acceptConnection valid workers sockfd connfd peer (init_clients workers self)"
proof -
  have "sock_type (init_clients workers self) = sock_type self" "sv_disabled (init_clients workers self) = sv_disabled self"
    by (auto simp: sock_type_def init_clients_def)
  moreover have "\<not> connfd < 0" "\<not> (sv_disabled self \<or> \<not> valid connfd)" using assms by (auto simp: good_call_def)
  ultimately show ?thesis unfolding acceptConnection_def Let_def by (simp only: init_clients_idem [OF assms(3)] if_False)
qed

section \<open>Sums over the threads\<close>


definition pcs :: "wpc \<Rightarrow> sstate \<Rightarrow> nat" where
  "pcs p s = (\<Sum>u<length (ss_nactive s). of_bool (ss_pc s u = p))"

definition lives :: "sstate \<Rightarrow> nat" where
  "lives s = (\<Sum>u<length (ss_nactive s). ss_live s u)"





section \<open>The invariant of the counters\<close>




lemma touch_simps [simp]:
  "ss_nconn (touch s) = ss_nconn s" "ss_sem (touch s) = ss_sem s" "ss_nactive (touch s) = ss_nactive s" "ss_next (touch s) = ss_next s"
  "ss_queue (touch s) = ss_queue s" "ss_live (touch s) = ss_live s" "ss_pc (touch s) = ss_pc s" "ss_main (touch s) = ss_main s"
  by (simp_all add: touch_def)



lemma pcs_pos: "t < length (ss_nactive s) \<Longrightarrow> ss_pc s t = p \<Longrightarrow> 0 < pcs p s"
  unfolding pcs_def by (rule sum_pos2 [of _ t]) simp_all

lemma lives_pos: "t < length (ss_nactive s) \<Longrightarrow> 0 < ss_live s t \<Longrightarrow> 0 < lives s"
  unfolding lives_def by (rule sum_pos2 [of _ t]) simp_all











section \<open>The end of the server\<close>
















lemma pick_one: "pick_thread [n] 0 = 0"
  by (simp add: pick_thread_def)

text \<open>One connection of a server with one thread, from \<open>accept\<close> to its end.\<close>

definition one_run :: "nat \<Rightarrow> sstate" where
  "one_run n = (case n of 0 \<Rightarrow> server_init 1
     | Suc 0 \<Rightarrow> accept_hand True (server_init 1)
     | Suc (Suc 0) \<Rightarrow> doaccept 0 True (accept_hand True (server_init 1))
     | Suc (Suc (Suc 0)) \<Rightarrow> doaccept_wait 0 (doaccept 0 True (accept_hand True (server_init 1)))
     | Suc (Suc (Suc (Suc 0))) \<Rightarrow> remove_active 0 (doaccept_wait 0 (doaccept 0 True (accept_hand True (server_init 1))))
     | _ \<Rightarrow> remove_conn 0 (remove_active 0 (doaccept_wait 0 (doaccept 0 True (accept_hand True (server_init 1))))))"

lemma one_run_1: "one_run 1 = \<lparr>ss_nconn = 0, ss_sem = 1, ss_nactive = [1], ss_next = 0, ss_queue = (\<lambda>_. [])(0 := [DoAccept True]), ss_live = (\<lambda>_. 0),
     ss_pc = (\<lambda>_. Idle), ss_main = Serving, ss_bad = False\<rparr>"
  by (simp add: one_run_def accept_hand_def server_init_def pick_one Let_def)

lemma one_run_2: "one_run 2 = \<lparr>ss_nconn = 1, ss_sem = 1, ss_nactive = [1], ss_next = 0, ss_queue = (\<lambda>_. []), ss_live = (\<lambda>_. 0),
     ss_pc = (\<lambda>_. Idle)(0 := Waiting), ss_main = Serving, ss_bad = False\<rparr>"
  using one_run_1 by (simp add: one_run_def eval_nat_numeral doaccept_def touch_def fun_upd_idem)

lemma one_run_3: "one_run 3 = \<lparr>ss_nconn = 1, ss_sem = 0, ss_nactive = [1], ss_next = 0, ss_queue = (\<lambda>_. []), ss_live = (\<lambda>_. 0)(0 := 1),
     ss_pc = (\<lambda>_. Idle), ss_main = Serving, ss_bad = False\<rparr>"
  using one_run_2 by (simp add: one_run_def eval_nat_numeral doaccept_wait_def touch_def fun_upd_idem)

lemma one_run_4: "one_run 4 = \<lparr>ss_nconn = 1, ss_sem = 0, ss_nactive = [0], ss_next = 0, ss_queue = (\<lambda>_. []), ss_live = (\<lambda>_. 0),
     ss_pc = (\<lambda>_. Idle)(0 := Closing), ss_main = Serving, ss_bad = False\<rparr>"
  using one_run_3 by (simp add: one_run_def eval_nat_numeral remove_active_def touch_def fun_upd_idem)

lemma one_run_5: "one_run 5 = \<lparr>ss_nconn = 0, ss_sem = 0, ss_nactive = [0], ss_next = 0, ss_queue = (\<lambda>_. []), ss_live = (\<lambda>_. 0),
     ss_pc = (\<lambda>_. Idle)(0 := Posting), ss_main = Serving, ss_bad = False\<rparr>"
  using one_run_4 by (simp add: one_run_def eval_nat_numeral remove_conn_def touch_def)

lemma one_run_ops:
  "one_run 0 = server_init 1" "one_run 1 = accept_hand True (one_run 0)" "one_run 2 = doaccept 0 True (one_run 1)"
  "one_run 3 = doaccept_wait 0 (one_run 2)" "one_run 4 = remove_active 0 (one_run 3)" "one_run 5 = remove_conn 0 (one_run 4)"
  by (simp_all add: one_run_def eval_nat_numeral)

lemma one_run_steps:
  "server_step (one_run 0) (one_run 1)" "server_step (one_run 1) (one_run 2)" "server_step (one_run 2) (one_run 3)"
  "server_step (one_run 3) (one_run 4)" "server_step (one_run 4) (one_run 5)"
proof -
  show "server_step (one_run 0) (one_run 1)" unfolding one_run_ops(2) by (rule Accept) (simp add: one_run_ops(1) server_init_def)
  show "server_step (one_run 1) (one_run 2)" unfolding one_run_ops(3) by (rule Run [where cs = "[]"]) (simp_all add: one_run_1 del: One_nat_def)
  show "server_step (one_run 2) (one_run 3)" unfolding one_run_ops(4) by (rule Wait) (simp_all add: one_run_2)
  show "server_step (one_run 3) (one_run 4)" unfolding one_run_ops(5) by (rule Close) (simp_all add: one_run_3)
  show "server_step (one_run 4) (one_run 5)" unfolding one_run_ops(6) by (rule Count) (simp_all add: one_run_4)
qed

lemma one_run_reach:
  "server_step\<^sup>*\<^sup>* (server_init 1) (one_run 1)" "server_step\<^sup>*\<^sup>* (server_init 1) (one_run 3)" "server_step\<^sup>*\<^sup>* (server_init 1) (one_run 5)"
proof -
  note into = rtranclp.rtrancl_into_rtrancl [of server_step "server_init 1"]
  show 1: "server_step\<^sup>*\<^sup>* (server_init 1) (one_run 1)" using one_run_steps(1) unfolding one_run_ops(1) by (rule r_into_rtranclp)
  show 3: "server_step\<^sup>*\<^sup>* (server_init 1) (one_run 3)" by (rule into [OF into [OF 1 one_run_steps(2)] one_run_steps(3)])
  show "server_step\<^sup>*\<^sup>* (server_init 1) (one_run 5)" by (rule into [OF into [OF 3 one_run_steps(4)] one_run_steps(5)])
qed

section \<open>Properties\<close>

text \<open>
  C11: Connections are spread evenly.  A new server with \<open>w\<close> worker threads that accepts any
  number of connections, none of which ends meanwhile, hands every one of them to a worker,
  and then each worker has its share of them, up to one.
\<close>
theorem server_spreads:
  assumes "sv_nthr self = -1" "0 < w" "\<not> sv_disabled self" "cs \<noteq> []" "\<forall>c\<in>set cs. good_call valid self c"
  shows "\<exists>self' rs. accept_all valid (int w) cs self = Some (self', rs) \<and> map run_fd rs = map (Some \<circ> fst \<circ> snd) cs \<and>
     length (sv_clients self') = w \<and> sum_list (sv_clients self') = length cs \<and>
     (\<forall>t<w. sv_clients self' ! t = length cs div w \<or> sv_clients self' ! t = Suc (length cs div w))"
proof -
  let ?s = "init_clients (int w) self"
  have init: "accepts_on w ?s" "balanced (sv_clients ?s)" "sum_list (sv_clients ?s) = 0" "sv_disabled ?s = sv_disabled self" "sv_socks ?s = sv_socks self"
    using assms(1,2) by (simp_all add: init_clients_def accepts_on_def balanced_def sum_list_replicate)
  obtain sockfd connfd peer cs' where cs: "cs = (sockfd, connfd, peer) # cs'" using assms(4) by (cases cs) auto
  have "acceptConnection valid (int w) sockfd connfd peer self = acceptConnection valid (int w) sockfd connfd peer ?s"
    using assms(3,5) cs by (intro acceptConnection_init) auto
  then have eq: "accept_all valid (int w) cs self = accept_all valid (int w) cs ?s" by (simp add: cs)
  have "\<forall>c\<in>set cs. good_call valid ?s c" using assms(5) good_call_socks [OF init(5), of valid] by simp
  from accept_all_on [OF init(1,2) _ this, of "int w"] assms(3) init(3,4) obtain s2 rs where
    s2: "accept_all valid (int w) cs ?s = Some (s2, rs)" "map run_fd rs = map (Some \<circ> fst \<circ> snd) cs" "accepts_on w s2"
      "balanced (sv_clients s2)" "sum_list (sv_clients s2) = length cs" by auto
  moreover have "length (sv_clients s2) = w" using s2(3) by (simp add: accepts_on_def)
  ultimately show ?thesis using balanced_div [OF s2(4)] eq by (intro exI [of _ s2] exI [of _ rs]) auto
qed

definition example_server :: live_server where
  "example_server = \<lparr>sv_path = None, sv_bhash = 0, sv_rdbufsz = 16384, sv_proto = PSC_P_ANY, sv_port = 80, sv_disabled = False,
     sv_nthr = -1, sv_nextthr = -1, sv_socks = [\<lparr>si_fd = 5, si_st = ST_INET\<rparr>], sv_clients = []\<rparr>"

definition example_calls :: "(int \<times> int \<times> sockaddr) list" where
  "example_calls = [(5, 7, AF_INET [10, 0, 0, 1] 9), (5, 8, AF_INET [10, 0, 0, 2] 9), (5, 9, AF_INET [10, 0, 0, 3] 9)]"

theorem server_spreads_witness:
  "\<exists>self' rs. accept_all (\<lambda>_. True) (int 2) example_calls example_server = Some (self', rs) \<and>
     map run_fd rs = map (Some \<circ> fst \<circ> snd) example_calls \<and> (\<forall>t<2. sv_clients self' ! t = 1 \<or> sv_clients self' ! t = 2)"
proof -
  have p: "sv_nthr example_server = -1" "\<not> sv_disabled example_server" "example_calls \<noteq> []" "length example_calls div 2 = 1"
      "\<forall>c\<in>set example_calls. good_call (\<lambda>_. True) example_server c"
    by (simp_all add: example_server_def example_calls_def good_call_def sock_type_def)
  obtain self' rs where "accept_all (\<lambda>_. True) (int 2) example_calls example_server = Some (self', rs)"
      "map run_fd rs = map (Some \<circ> fst \<circ> snd) example_calls"
      "\<forall>t<2. sv_clients self' ! t = length example_calls div 2 \<or> sv_clients self' ! t = Suc (length example_calls div 2)"
    using server_spreads [OF p(1) _ p(2,3,5), of 2] by auto
  then show ?thesis unfolding p(4) by (intro exI [of _ self'] exI [of _ rs]) (simp add: numeral_2_eq_2)
qed

text \<open>
  The choice is not always a thread with the fewest connections: the loop counts on from
  each better thread it finds, so with five, four and no connections it takes the second of
  three threads.
\<close>
theorem server_choice_not_least:
  "\<exists>self' rec. acceptConnection (\<lambda>_. True) 3 5 7 (AF_INET [10, 0, 0, 1] 9)
      (example_server\<lparr>sv_nthr := 3, sv_nextthr := 0, sv_clients := [5, 4, 0]\<rparr>) = Some (self', RunOn 1 rec) \<and>
     sv_clients self' = [5, 5, 0]"
proof -
  define s where "s = example_server\<lparr>sv_nthr := 3, sv_nextthr := 0, sv_clients := [5, 4, 0]\<rparr>"
  have f: "sv_nthr s = 3" "sv_nextthr s = 0" "sv_clients s = [5, 4, 0]" "\<not> sv_disabled s" "sock_type s 5 = ST_INET"
    by (simp_all add: s_def example_server_def sock_type_def)
  have "pick_thread [5, 4, 0] 0 = 1" by code_simp
  then have a: "assign_thread s = Some (s\<lparr>sv_nextthr := 1, sv_clients := [5, 5, 0]\<rparr>)" by (simp add: assign_thread_def f)
  have i: "init_clients 3 s = s" by (simp add: init_clients_def f)
  show ?thesis unfolding s_def [symmetric] by (simp add: acceptConnection_def i a f)
qed

text \<open>
  A server on a Unix socket cannot accept a connection: the address of the peer is a null
  pointer, and \<open>PSC_IpAddr_fromSockAddr\<close> reads through it.
\<close>
theorem unix_accept_crashes:
  assumes "sv_socks self = [\<lparr>si_fd = sockfd, si_st = ST_UNIX\<rparr>]" "0 \<le> connfd" "valid connfd" "\<not> sv_disabled self"
  shows "acceptConnection valid workers sockfd connfd peer self = None"
  using assms by (simp add: acceptConnection_def sock_type_def Let_def split: option.splits)

theorem unix_accept_crashes_witness:
  "acceptConnection (\<lambda>_. True) 2 6 7 AF_OTHER (example_server\<lparr>sv_path := Some ''/run/x'', sv_socks := [\<lparr>si_fd = 6, si_st = ST_UNIX\<rparr>]\<rparr>) = None"
  by (rule unix_accept_crashes) (simp_all add: example_server_def)





text \<open>
  Without that condition the server is used after it was freed.  Destroying it when a
  connection was accepted that its thread has not taken over yet frees it at once, since
  \<open>nconn\<close> is still zero, and \<open>doaccept\<close> then runs on freed memory; and destroying it just after
  the last connection was counted out frees the semaphore before \<open>removeConnection\<close> posts it.
\<close>
theorem server_destroy_races:
  "(let s = server_destroy (one_run 1); s' = doaccept 0 True s in
     server_step\<^sup>*\<^sup>* (server_init 1) s' \<and> ss_main s = Freed \<and> ss_bad s') \<and>
   (let s = server_destroy (one_run 5); s' = remove_post 0 s in
     server_step\<^sup>*\<^sup>* (server_init 1) s' \<and> ss_main s = Freed \<and> ss_bad s')"
proof -
  define a where "a = server_destroy (one_run 1)"
  have a: "ss_main a = Freed" "ss_nactive a = [1]" "ss_pc a 0 = Idle" "ss_queue a 0 = [DoAccept True]"
    by (simp_all add: a_def one_run_1 server_destroy_def del: One_nat_def)
  have "server_step (one_run 1) a" unfolding a_def by (rule Destroy) (simp add: one_run_1 del: One_nat_def)
  moreover have "server_step a (doaccept 0 True a)" by (rule Run [where cs = "[]"]) (simp_all add: a)
  moreover have "ss_bad (doaccept 0 True a)" using a by (simp add: doaccept_def touch_def Let_def)
  ultimately have 1: "server_step\<^sup>*\<^sup>* (server_init 1) (doaccept 0 True a) \<and> ss_main a = Freed \<and> ss_bad (doaccept 0 True a)"
    using one_run_reach(1) a(1) rtranclp.rtrancl_into_rtrancl by metis
  define b where "b = server_destroy (one_run 5)"
  have b: "ss_main b = Freed" "ss_nactive b = [0]" "ss_pc b 0 = Posting"
    by (simp_all add: b_def one_run_5 server_destroy_def)
  have "server_step (one_run 5) b" unfolding b_def by (rule Destroy) (simp add: one_run_5)
  moreover have "server_step b (remove_post 0 b)" by (rule Post) (simp_all add: b)
  moreover have "ss_bad (remove_post 0 b)" using b by (simp add: remove_post_def touch_def)
  ultimately have 2: "server_step\<^sup>*\<^sup>* (server_init 1) (remove_post 0 b) \<and> ss_main b = Freed \<and> ss_bad (remove_post 0 b)"
    using one_run_reach(3) b(1) rtranclp.rtrancl_into_rtrancl by metis
  show ?thesis using 1 2 unfolding Let_def a_def b_def by blast
qed

end
