(* ===== verification/Poser_ServerEnd.thy ===== *)
theory Poser_ServerEnd
  imports Prelude
begin

text \<open>
  Shutting down and destroying a server (\<open>src/lib/core/server.c\<close>), as the main thread sees it:
  \<open>PSC_Server_shutdown\<close>, \<open>PSC_Server_destroy\<close> and the handler \<open>forceDestroy\<close>, as functions that
  return the calls they make.  What the worker threads do meanwhile is in \<open>Poser_ServerConn\<close>.
\<close>

section \<open>Model\<close>

datatype end_act =
  UnregRead int | UnregAccept int | CloseSock int | RegForce | UnregForce | TimerCreated | TimerSetMs nat | RegTimer | TimerStart |
  TimerDestroyed | PostDestroyPool nat | DestroyPoolNow | SemWait | FreeClients | SemDestroy | ShutdownComplete | UnlinkSocket string | FreeServer

record end_server =
  es_socks :: "int list"
  es_timer :: bool
  es_nthr :: int
  es_complete :: bool
  es_path :: "string option"

text \<open>The loop over the sockets has an 8-bit counter.\<close>

partial_function (option) close_socks :: "int list \<Rightarrow> 8 word \<Rightarrow> end_act list \<Rightarrow> end_act list option" where
  "close_socks fds i acts =
     (if unat i < length fds
      then close_socks fds (i + 1) (acts @ [UnregRead (fds ! unat i), UnregAccept (fds ! unat i), CloseSock (fds ! unat i)])
      else Some acts)"

text \<open>\<open>nconn\<close> is the number of connections that the function reads.\<close>

definition PSC_Server_destroy :: "nat \<Rightarrow> end_server \<Rightarrow> end_act list \<Rightarrow> end_act list option" where
  "PSC_Server_destroy nconn self acts = do {
     let acts = acts @ (if es_timer self then [TimerDestroyed] else []);
     let acts = acts @ (if nconn \<noteq> 0
       then (if es_nthr self \<noteq> 0 then map PostDestroyPool [0..<nat (es_nthr self)] else [DestroyPoolNow]) @ [SemWait, FreeClients]
       else []);
     acts \<leftarrow> (if es_socks self = [] then Some (acts @ [UnregForce]) else close_socks (es_socks self) 0 acts);
     Some (acts @ [SemDestroy] @ (if es_complete self then [ShutdownComplete] else []) @
       (case es_path self of None \<Rightarrow> [] | Some p \<Rightarrow> [UnlinkSocket p]) @ [FreeServer]) }"

text \<open>The result is the server, unless it was destroyed.  \<open>timer\<close> says whether a timer could be created.\<close>

definition PSC_Server_shutdown :: "bool \<Rightarrow> nat \<Rightarrow> nat \<Rightarrow> end_server \<Rightarrow> end_act list \<Rightarrow> (end_server option \<times> end_act list) option" where
  "PSC_Server_shutdown timer timeout nconn self acts =
     (if nconn = 0 then map_option (Pair None) (PSC_Server_destroy nconn self acts)
      else do {
        acts \<leftarrow> close_socks (es_socks self) 0 acts;
        let self = self\<lparr>es_socks := []\<rparr>;
        let acts = acts @ [RegForce];
        if timeout = 0 then Some (Some self, acts)
        else if \<not> timer then map_option (Pair None) (PSC_Server_destroy nconn self acts)
        else Some (Some (self\<lparr>es_timer := True\<rparr>), acts @ [TimerCreated, TimerSetMs timeout, RegTimer, TimerStart]) })"

definition forceDestroy :: "nat \<Rightarrow> end_server \<Rightarrow> end_act list \<Rightarrow> end_act list option" where
  "forceDestroy nconn self acts = PSC_Server_destroy nconn self acts"

section \<open>The loop\<close>

definition sock_acts :: "int list \<Rightarrow> end_act list" where
  "sock_acts fds = concat (map (\<lambda>fd. [UnregRead fd, UnregAccept fd, CloseSock fd]) fds)"

lemma close_socks_from:
  "length fds \<le> 255 \<Longrightarrow> unat i + k = length fds \<Longrightarrow> close_socks fds i acts = Some (acts @ sock_acts (drop (unat i) fds))"
proof (induction k arbitrary: i acts)
  case 0
  then show ?case by (subst close_socks.simps) (simp add: sock_acts_def)
next
  case (Suc k)
  then have i: "unat i < length fds" by simp
  have u: "unat (i + 1) = unat i + 1"
  proof -
    have "unat i + unat (1 :: 8 word) < 2 ^ LENGTH(8)" using Suc.prems i by simp
    then show ?thesis by (simp add: unat_add_lem [THEN iffD1])
  qed
  have "drop (unat i) fds = fds ! unat i # drop (unat (i + 1)) fds" using i u by (simp add: Cons_nth_drop_Suc)
  with Suc.IH [of "i + 1" "acts @ [UnregRead (fds ! unat i), UnregAccept (fds ! unat i), CloseSock (fds ! unat i)]"] Suc.prems i u
  show ?case by (subst close_socks.simps) (simp add: sock_acts_def)
qed

lemma close_socks_all: "length fds \<le> 255 \<Longrightarrow> close_socks fds 0 acts = Some (acts @ sock_acts fds)"
  using close_socks_from [of fds 0 "length fds" acts] by simp

lemma close_socks_end:
  assumes "close_socks fds i acts = Some r"
  shows "length fds \<le> 255"
  using assms
proof (rule close_socks.raw_induct [where P = "\<lambda>fds i acts r. length fds \<le> 255", rotated])
  fix rec :: "int list \<Rightarrow> 8 word \<Rightarrow> end_act list \<Rightarrow> end_act list option" and fds i acts r
  assume ih: "\<And>fds i acts r. rec fds i acts = Some r \<Longrightarrow> length fds \<le> 255"
    and body: "(if unat i < length fds
      then rec fds (i + 1) (acts @ [UnregRead (fds ! unat i), UnregAccept (fds ! unat i), CloseSock (fds ! unat i)])
      else Some acts) = Some r"
  have "unat i < 2 ^ LENGTH(8)" by (rule unsigned_less)
  then show "length fds \<le> 255" using body ih by (cases "unat i < length fds") auto
qed

lemma sock_acts_count:
  "count_list (sock_acts fds) (CloseSock fd) = count_list fds fd" "count_list (sock_acts fds) (UnregAccept fd) = count_list fds fd"
  by (induction fds) (auto simp: sock_acts_def)

lemma sock_acts_others: "a \<in> set (sock_acts fds) \<Longrightarrow> \<exists>fd. a = UnregRead fd \<or> a = UnregAccept fd \<or> a = CloseSock fd"
  by (auto simp: sock_acts_def)

lemma sock_acts_zero [simp]:
  "count_list (sock_acts fds) RegForce = 0" "count_list (sock_acts fds) UnregForce = 0" "count_list (sock_acts fds) TimerCreated = 0"
  "count_list (sock_acts fds) TimerDestroyed = 0" "count_list (sock_acts fds) ShutdownComplete = 0" "count_list (sock_acts fds) FreeServer = 0"
  "count_list (sock_acts fds) FreeClients = 0" "count_list (sock_acts fds) SemWait = 0"
  by (induction fds) (auto simp: sock_acts_def)

lemma posts_zero [simp]:
  "(\<And>t. a \<noteq> PostDestroyPool t) \<Longrightarrow> count_list (map PostDestroyPool ts) a = 0"
  by (induction ts) auto

text \<open>From \<open>PSC_Server_shutdown\<close> to the end, which the timer or the end of the service brings when there are connections.\<close>

definition end_run :: "bool \<Rightarrow> nat \<Rightarrow> nat \<Rightarrow> nat \<Rightarrow> end_server \<Rightarrow> end_act list option" where
  "end_run timer timeout nconn nconn' self = do {
     (r, acts) \<leftarrow> PSC_Server_shutdown timer timeout nconn self [];
     (case r of None \<Rightarrow> Some acts | Some self' \<Rightarrow> forceDestroy nconn' self' acts) }"

definition end_tail :: "end_server \<Rightarrow> end_act list" where
  "end_tail self = [SemDestroy] @ (if es_complete self then [ShutdownComplete] else []) @
     (case es_path self of None \<Rightarrow> [] | Some p \<Rightarrow> [UnlinkSocket p]) @ [FreeServer]"

definition end_conns :: "nat \<Rightarrow> end_server \<Rightarrow> end_act list" where
  "end_conns nconn self = (if nconn \<noteq> 0
       then (if es_nthr self \<noteq> 0 then map PostDestroyPool [0..<nat (es_nthr self)] else [DestroyPoolNow]) @ [SemWait, FreeClients]
       else [])"

lemma destroy_acts:
  "length (es_socks self) \<le> 255 \<Longrightarrow> PSC_Server_destroy nconn self acts =
     Some (acts @ (if es_timer self then [TimerDestroyed] else []) @ end_conns nconn self @
       (if es_socks self = [] then [UnregForce] else sock_acts (es_socks self)) @ end_tail self)"
  by (simp add: PSC_Server_destroy_def end_conns_def end_tail_def close_socks_all Let_def)

lemma end_conns_zero [simp]:
  "count_list (end_conns n self) (CloseSock fd) = 0" "count_list (end_conns n self) (UnregAccept fd) = 0"
  "count_list (end_conns n self) RegForce = 0" "count_list (end_conns n self) UnregForce = 0"
  "count_list (end_conns n self) TimerCreated = 0" "count_list (end_conns n self) TimerDestroyed = 0"
  "count_list (end_conns n self) ShutdownComplete = 0" "count_list (end_conns n self) FreeServer = 0"
  by (simp_all add: end_conns_def)

lemma end_tail_count [simp]:
  "count_list (end_tail self) (CloseSock fd) = 0" "count_list (end_tail self) (UnregAccept fd) = 0"
  "count_list (end_tail self) RegForce = 0" "count_list (end_tail self) UnregForce = 0"
  "count_list (end_tail self) TimerCreated = 0" "count_list (end_tail self) TimerDestroyed = 0"
  "count_list (end_tail self) ShutdownComplete = of_bool (es_complete self)" "count_list (end_tail self) FreeServer = 1"
  by (simp_all add: end_tail_def split: option.splits)

lemma end_tail_last [simp]: "end_tail self \<noteq> []" "last (end_tail self) = FreeServer" "end_tail (self\<lparr>es_socks := x\<rparr>) = end_tail self"
  "end_tail (self\<lparr>es_timer := b\<rparr>) = end_tail self"
  by (simp_all add: end_tail_def)

lemma end_run_acts:
  assumes "length (es_socks self) \<le> 255" "es_socks self \<noteq> []" "\<not> es_timer self"
  shows "\<exists>pre c. end_run timer timeout nconn nconn' self = Some (pre @ end_conns c self @
      (if nconn = 0 then sock_acts (es_socks self) else [UnregForce]) @ end_tail self) \<and>
    (pre = (if nconn = 0 then [] else sock_acts (es_socks self) @ [RegForce] @
       (if timeout = 0 \<or> \<not> timer then [] else [TimerCreated, TimerSetMs timeout, RegTimer, TimerStart, TimerDestroyed])))"
  using assms
  by (auto simp: end_run_def PSC_Server_shutdown_def forceDestroy_def destroy_acts close_socks_all end_conns_def Let_def)

section \<open>Properties\<close>

text \<open>
  C13: However a server is shut down, with or without connections, with or without a timeout,
  and also when no timer can be created: in the end each of its sockets has been closed once
  and its handler has been removed once, the handler for the end of the service has been
  removed as often as it was registered, the timer has been destroyed if there was one, the
  callback has been called once, and freeing the server is the last thing that happens.
\<close>
theorem server_ends_once:
  assumes "length (es_socks self) \<le> 255" "es_socks self \<noteq> []" "\<not> es_timer self"
  shows "\<exists>acts. end_run timer timeout nconn nconn' self = Some acts \<and>
     (\<forall>fd. count_list acts (CloseSock fd) = count_list (es_socks self) fd \<and> count_list acts (UnregAccept fd) = count_list (es_socks self) fd) \<and>
     count_list acts RegForce = count_list acts UnregForce \<and> count_list acts TimerCreated = count_list acts TimerDestroyed \<and>
     count_list acts ShutdownComplete = of_bool (es_complete self) \<and> count_list acts FreeServer = 1 \<and> last acts = FreeServer"
proof -
  obtain pre c where run: "end_run timer timeout nconn nconn' self = Some (pre @ end_conns c self @
      (if nconn = 0 then sock_acts (es_socks self) else [UnregForce]) @ end_tail self)"
    and pre: "pre = (if nconn = 0 then [] else sock_acts (es_socks self) @ [RegForce] @
       (if timeout = 0 \<or> \<not> timer then [] else [TimerCreated, TimerSetMs timeout, RegTimer, TimerStart, TimerDestroyed]))"
    using end_run_acts [OF assms] by blast
  show ?thesis unfolding run pre by (simp add: sock_acts_count)
qed

theorem server_ends_once_witness:
  "\<exists>acts. end_run True 500 2 1 \<lparr>es_socks = [5, 6], es_timer = False, es_nthr = 2, es_complete = True, es_path = None\<rparr> = Some acts \<and>
     count_list acts (CloseSock 5) = 1 \<and> count_list acts ShutdownComplete = 1 \<and> last acts = FreeServer"
  using server_ends_once [of "\<lparr>es_socks = [5, 6], es_timer = False, es_nthr = 2, es_complete = True, es_path = None\<rparr>" True 500 2 1] by auto

text \<open>
  A build with more than 255 sockets would never leave the loop; the limit \<open>MAXSOCKS\<close> of the
  code is 64.
\<close>

lemma server_end_loops: "255 < length fds \<Longrightarrow> close_socks fds 0 acts = None"
  using close_socks_end [of fds 0 acts] by (cases "close_socks fds 0 acts") auto

text \<open>
  A server that has no connection left when it is destroyed does not release the pools and
  the array of the threads, which the first connection created.
\<close>

lemma server_end_leaks_pools:
  assumes "PSC_Server_destroy 0 self [] = Some acts" "length (es_socks self) \<le> 255"
  shows "FreeClients \<notin> set acts \<and> (\<forall>t. PostDestroyPool t \<notin> set acts) \<and> DestroyPoolNow \<notin> set acts"
  using assms(1) unfolding destroy_acts [OF assms(2)]
  by (auto simp: end_conns_def end_tail_def dest: sock_acts_others split: option.splits if_splits)

end
