(* ===== verification/Poser_Client.thy ===== *)
theory Poser_Client
  imports Poser_Server
begin

text \<open>
  Client connections (\<open>src/lib/core/client.c\<close>): options, the list of blacklisted addresses, the
  choice of an address to connect to, Unix sockets, and asynchronous creation with the objects
  that are counted or owned on the way.  Results of system calls are part of the arguments.
\<close>

section \<open>The blacklist\<close>

definition BLACKLISTSIZE :: nat where "BLACKLISTSIZE = 32"

record BlacklistEntry =
  be_addr :: PSC_IpAddr
  be_hits :: int

text \<open>The static array; a null address marks a free entry.\<close>

type_synonym blacklist = "BlacklistEntry option list"

definition blacklist_init :: blacklist where
  "blacklist_init = replicate BLACKLISTSIZE None"

fun blacklistAddress :: "int \<Rightarrow> PSC_IpAddr \<Rightarrow> blacklist \<Rightarrow> blacklist" where
  "blacklistAddress hits addr [] = []"
| "blacklistAddress hits addr (Some e # bl) = Some e # blacklistAddress hits addr bl"
| "blacklistAddress hits addr (None # bl) = Some \<lparr>be_addr = PSC_IpAddr_ref addr, be_hits = hits\<rparr> # bl"

text \<open>
  The loop of \<open>blacklistcheck\<close>.  The address is converted at the first entry in use; comparing
  with the null pointer that the conversion returns for other families is undefined.
\<close>

fun check_loop :: "sockaddr \<Rightarrow> blacklist \<Rightarrow> (bool \<times> blacklist) option" where
  "check_loop a [] = Some (True, [])"
| "check_loop a (None # bl) = map_option (\<lambda>(ok, bl'). (ok, None # bl')) (check_loop a bl)"
| "check_loop a (Some e # bl) = do {
     ip \<leftarrow> PSC_IpAddr_fromSockAddr a;
     (ok, bl') \<leftarrow> check_loop a bl;
     if PSC_IpAddr_equals ip (be_addr e)
     then Some (False, (if be_hits e - 1 = 0 then None else Some (e\<lparr>be_hits := be_hits e - 1\<rparr>)) # bl')
     else Some (ok, Some e # bl') }"

definition blacklistcheck :: "sockaddr option \<Rightarrow> blacklist \<Rightarrow> (bool \<times> blacklist) option" where
  "blacklistcheck addr bl = (case addr of None \<Rightarrow> Some (False, bl) | Some a \<Rightarrow> check_loop a bl)"

section \<open>Options\<close>

record PSC_TcpClientOpts =
  co_rdbufsz :: nat
  co_proto :: PSC_Proto
  co_port :: int
  co_blacklisthits :: int
  co_refcnt :: int
  co_remotehost :: string

definition PSC_TcpClientOpts_create :: "string \<Rightarrow> int \<Rightarrow> PSC_TcpClientOpts" where
  "PSC_TcpClientOpts_create remotehost port =
     \<lparr>co_rdbufsz = DEFRDBUFSZ, co_proto = PSC_P_ANY, co_port = port, co_blacklisthits = 0, co_refcnt = 1, co_remotehost = remotehost\<rparr>"

definition PSC_TcpClientOpts_readBufSize :: "nat \<Rightarrow> PSC_TcpClientOpts \<Rightarrow> PSC_TcpClientOpts" where
  "PSC_TcpClientOpts_readBufSize sz self = (if sz = 0 then self else self\<lparr>co_rdbufsz := sz\<rparr>)"

definition PSC_TcpClientOpts_setProto :: "PSC_Proto \<Rightarrow> PSC_TcpClientOpts \<Rightarrow> PSC_TcpClientOpts" where
  "PSC_TcpClientOpts_setProto proto self = self\<lparr>co_proto := proto\<rparr>"

definition PSC_TcpClientOpts_setBlacklistHits :: "int \<Rightarrow> PSC_TcpClientOpts \<Rightarrow> PSC_TcpClientOpts" where
  "PSC_TcpClientOpts_setBlacklistHits n self = self\<lparr>co_blacklisthits := n\<rparr>"

text \<open>\<^const>\<open>None\<close> when the options are freed.\<close>

definition PSC_TcpClientOpts_destroy :: "PSC_TcpClientOpts \<Rightarrow> PSC_TcpClientOpts option" where
  "PSC_TcpClientOpts_destroy self =
     (if co_refcnt self - 1 \<noteq> 0 then Some (self\<lparr>co_refcnt := co_refcnt self - 1\<rparr>) else None)"

record PSC_UnixClientOpts =
  cu_rdbufsz :: nat
  cu_sockname :: string

definition PSC_UnixClientOpts_create :: "string \<Rightarrow> PSC_UnixClientOpts" where
  "PSC_UnixClientOpts_create sockname = \<lparr>cu_rdbufsz = DEFRDBUFSZ, cu_sockname = sockname\<rparr>"

definition PSC_UnixClientOpts_readBufSize :: "nat \<Rightarrow> PSC_UnixClientOpts \<Rightarrow> PSC_UnixClientOpts" where
  "PSC_UnixClientOpts_readBufSize sz self = (if sz = 0 then self else self\<lparr>cu_rdbufsz := sz\<rparr>)"

section \<open>Connecting\<close>

text \<open>An address with the results of \<open>socket\<close> and \<open>connect\<close> for it.\<close>

record client_ai =
  ci_addr :: sockaddr
  ci_socket :: int
  ci_connect :: int
  ci_inprogress :: bool

datatype cli_act = CSocket int | CClose int | CConnection int "PSC_IpAddr option"

text \<open>
  The loop of \<open>createFromAddrinfo\<close>: the descriptor and address it ends with, if any.
\<close>

fun connect_loop :: "(int \<Rightarrow> bool) \<Rightarrow> PSC_Proto \<Rightarrow> client_ai list \<Rightarrow> blacklist \<Rightarrow> cli_act list \<Rightarrow> ((int \<times> sockaddr) option \<times> blacklist \<times> cli_act list) option" where
  "connect_loop valid proto [] bl acts = Some (None, bl, acts)"
| "connect_loop valid proto (res # rs) bl acts =
     (if skip_family proto (ci_addr res) then connect_loop valid proto rs bl acts
      else do {
        (ok, bl) \<leftarrow> blacklistcheck (Some (ci_addr res)) bl;
        if \<not> ok then connect_loop valid proto rs bl acts
        else if ci_socket res < 0 then connect_loop valid proto rs bl acts
        else if \<not> valid (ci_socket res) then Some (None, bl, acts @ [CSocket (ci_socket res), CClose (ci_socket res)])
        else if ci_connect res < 0 \<and> \<not> ci_inprogress res
        then connect_loop valid proto rs bl (acts @ [CSocket (ci_socket res), CClose (ci_socket res)])
        else Some (Some (ci_socket res, ci_addr res), bl, acts @ [CSocket (ci_socket res)]) })"

text \<open>
  \<open>conn\<close> says whether \<open>PSC_Connection_create\<close> returns a connection; it does not when there is
  no timer for the time limit, and the address is then set on a null pointer.
\<close>

definition createFromAddrinfo :: "(int \<Rightarrow> bool) \<Rightarrow> bool \<Rightarrow> PSC_TcpClientOpts \<Rightarrow> client_ai list \<Rightarrow> blacklist \<Rightarrow> (bool \<times> blacklist \<times> cli_act list) option" where
  "createFromAddrinfo valid conn opts res0 bl = do {
     (r, bl, acts) \<leftarrow> connect_loop valid (co_proto opts) res0 bl [];
     (case r of
        None \<Rightarrow> Some (False, bl, acts)
      | Some (fd, a) \<Rightarrow> if conn then Some (True, bl, acts @ [CConnection fd (PSC_IpAddr_fromSockAddr a)]) else None) }"

text \<open>
  \<open>getaddrinfo\<close>: its return value and what it stores; \<open>None\<close> when it leaves the variable
  \<open>res0\<close>, which is not initialised, alone, \<open>Some None\<close> for a null pointer.
\<close>

definition resolveAddress :: "(string \<Rightarrow> string \<Rightarrow> int \<times> client_ai list option option) \<Rightarrow> PSC_TcpClientOpts \<Rightarrow> client_ai list option option" where
  "resolveAddress gai opts =
     (case gai (co_remotehost opts) (show_port (co_port opts)) of
        (rc, res0) \<Rightarrow> if rc < 0 then Some None else res0)"

definition PSC_Connection_createTcpClient :: "(int \<Rightarrow> bool) \<Rightarrow> (string \<Rightarrow> string \<Rightarrow> int \<times> client_ai list option option) \<Rightarrow> bool \<Rightarrow> PSC_TcpClientOpts \<Rightarrow> blacklist \<Rightarrow>
    (bool \<times> blacklist \<times> cli_act list) option" where
  "PSC_Connection_createTcpClient valid gai conn opts bl = do {
     r \<leftarrow> resolveAddress gai opts;
     (case r of None \<Rightarrow> Some (False, bl, []) | Some res0 \<Rightarrow> createFromAddrinfo valid conn opts res0 bl) }"

definition PSC_Connection_createUnixClient :: "int \<Rightarrow> int \<Rightarrow> bool \<Rightarrow> bool \<Rightarrow> PSC_UnixClientOpts \<Rightarrow> (bool \<times> cli_act list) option" where
  "PSC_Connection_createUnixClient fd rc inprogress conn opts =
     (if fd < 0 then Some (False, [])
      else if rc < 0 \<and> \<not> inprogress then Some (False, [CSocket fd, CClose fd])
      else if conn then Some (True, [CSocket fd, CConnection fd None]) else None)"

section \<open>Certificates of clients\<close>

text \<open>
  Objects of the TLS library, as far as the code owns them.  Freeing a null pointer does
  nothing, freeing twice is undefined.
\<close>

datatype owned = ONull | OLive | OFreed

definition obj_free :: "owned \<Rightarrow> owned option" where
  "obj_free x = (case x of ONull \<Rightarrow> Some ONull | OLive \<Rightarrow> Some OFreed | OFreed \<Rightarrow> None)"

record cert_env =
  ce_certfile :: bool
  ce_keyfile :: bool
  ce_opencert :: bool
  ce_openkey :: bool
  ce_readcert :: bool
  ce_readkey :: bool

text \<open>The result, and the two objects behind the pointers that the caller passed.\<close>

definition fetchCert :: "cert_env \<Rightarrow> (int \<times> owned \<times> owned) option" where
  "fetchCert e =
     (let error = (\<lambda>cert key. do { key \<leftarrow> obj_free key; cert \<leftarrow> obj_free cert; Some (-1, cert, key) }) in
      if ce_certfile e \<and> \<not> ce_keyfile e then Some (-1, ONull, ONull)
      else if ce_keyfile e \<and> \<not> ce_certfile e then Some (-1, ONull, ONull)
      else if \<not> ce_certfile e then Some (0, ONull, ONull)
      else if \<not> ce_opencert e then error ONull ONull
      else if \<not> ce_openkey e then error ONull ONull
      else if \<not> ce_readcert e then error ONull ONull
      else if \<not> ce_readkey e then error OLive ONull
      else Some (0, OLive, OLive))"

section \<open>Asynchronous creation\<close>

record async_state =
  as_opts :: "PSC_TcpClientOpts option"
  as_callbacks :: "bool list"
  as_pending :: bool
  as_data :: owned

text \<open>
  Options that were freed are \<^const>\<open>None\<close>, and using them is undefined.
  \<open>PSC_Connection_createTcpClientAsync\<close>: \<open>active\<close> is whether there is a thread pool, \<open>queued\<close>
  whether it takes the job; the code does not look at the latter.
\<close>

definition createTcpClientAsync :: "bool \<Rightarrow> bool \<Rightarrow> async_state \<Rightarrow> (async_state \<times> int) option" where
  "createTcpClientAsync active queued s =
     (if \<not> active then Some (s, -1)
      else do {
        opts \<leftarrow> as_opts s;
        Some (s\<lparr>as_opts := Some (opts\<lparr>co_refcnt := co_refcnt opts + 1\<rparr>), as_pending := queued, as_data := OLive\<rparr>, 0) })"

text \<open>
  \<open>doResolve\<close> on a pool thread and \<open>resolveDone\<close> when the job has finished, in the build with
  TLS: \<open>addrs\<close> is the result of the name resolution and \<open>created\<close> that of \<open>createFromAddrinfo\<close>,
  which owns the objects from then on.
\<close>

definition doResolve :: "cert_env \<Rightarrow> bool \<Rightarrow> (bool \<times> owned \<times> owned) option" where
  "doResolve e addrs = do {
     (rc, cert, key) \<leftarrow> fetchCert e;
     Some (if rc < 0 then (False, cert, key) else (addrs, cert, key)) }"

definition resolveDone :: "bool \<times> owned \<times> owned \<Rightarrow> bool \<Rightarrow> async_state \<Rightarrow> async_state option" where
  "resolveDone d created s = (case d of (res0, cert, key) \<Rightarrow> do {
     r \<leftarrow> (if \<not> res0 then do { key \<leftarrow> obj_free key; cert \<leftarrow> obj_free cert; Some False } else Some created);
     data \<leftarrow> obj_free (as_data s);
     opts \<leftarrow> as_opts s;
     Some (s\<lparr>as_opts := PSC_TcpClientOpts_destroy opts, as_callbacks := as_callbacks s @ [r], as_pending := False, as_data := data\<rparr>) })"

section \<open>How long an address is refused\<close>

definition ip_key :: "PSC_IpAddr \<Rightarrow> PSC_Proto \<times> nat \<times> u8 list" where
  "ip_key ip = (ip_proto ip, ip_prefixlen ip, ip_data ip)"

lemma equals_key: "PSC_IpAddr_equals a b \<longleftrightarrow> ip_key a = ip_key b"
  by (auto simp: PSC_IpAddr_equals_def ip_key_def)

definition bl_wf :: "blacklist \<Rightarrow> bool" where
  "bl_wf bl \<longleftrightarrow> (\<forall>e. Some e \<in> set bl \<longrightarrow> 0 < be_hits e)"

text \<open>The reference: for each address the number of times it will be refused.\<close>

fun block :: "blacklist \<Rightarrow> PSC_Proto \<times> nat \<times> u8 list \<Rightarrow> int" where
  "block [] k = 0"
| "block (None # bl) k = block bl k"
| "block (Some e # bl) k = (if ip_key (be_addr e) = k then max (be_hits e) (block bl k) else block bl k)"

lemma block_nonneg: "0 \<le> block bl k"
  by (induction bl k rule: block.induct) auto

lemma bl_wf_simps [simp]:
  "bl_wf []" "bl_wf (None # bl) = bl_wf bl" "bl_wf (Some e # bl) = (0 < be_hits e \<and> bl_wf bl)"
  by (auto simp: bl_wf_def)

lemma check_loop_block:
  assumes "PSC_IpAddr_fromSockAddr a = Some ip"
  shows "bl_wf bl \<Longrightarrow> \<exists>bl'. check_loop a bl = Some (block bl (ip_key ip) = 0, bl') \<and> bl_wf bl' \<and>
     (\<forall>k. block bl' k = (if k = ip_key ip then max 0 (block bl k - 1) else block bl k))"
proof (induction bl)
  case (Cons x bl)
  then have "bl_wf bl" by (cases x) auto
  then obtain bl' where bl': "check_loop a bl = Some (block bl (ip_key ip) = 0, bl')" "bl_wf bl'"
      "\<forall>k. block bl' k = (if k = ip_key ip then max 0 (block bl k - 1) else block bl k)"
    using Cons.IH by blast
  show ?case
  proof (cases x)
    case None
    with bl' show ?thesis by auto
  next
    case (Some e)
    have e: "0 < be_hits e" using Cons.prems Some by simp
    show ?thesis
    proof (cases "ip_key ip = ip_key (be_addr e)")
      case True
      show ?thesis
      proof (cases "be_hits e = 1")
        case h: True
        show ?thesis using Some True h bl' assms block_nonneg [of bl "ip_key ip"]
          by (auto simp: equals_key intro!: exI [of _ "None # bl'"])
      next
        case False
        let ?bl = "Some (e\<lparr>be_hits := be_hits e - 1\<rparr>) # bl'"
        have "block ?bl k = (if k = ip_key ip then max 0 (block (Some e # bl) k - 1) else block (Some e # bl) k)" for k
          using bl'(3) [rule_format, of k] True e False block_nonneg [of bl k] by auto
        moreover have "check_loop a (Some e # bl) = Some (False, ?bl)" "block (Some e # bl) (ip_key ip) \<noteq> 0" "bl_wf ?bl"
          using True False bl'(1,2) assms e by (auto simp: equals_key)
        ultimately show ?thesis unfolding Some by (intro exI [of _ ?bl]) simp
      qed
    next
      case False
      have "block (Some e # bl') k = (if k = ip_key ip then max 0 (block (Some e # bl) k - 1) else block (Some e # bl) k)" for k
        using bl'(3) [rule_format, of k] False by auto
      moreover have "check_loop a (Some e # bl) = Some (block (Some e # bl) (ip_key ip) = 0, Some e # bl')" "bl_wf (Some e # bl')"
        using False bl'(1,2) assms e by (auto simp: equals_key)
      ultimately show ?thesis unfolding Some by (intro exI [of _ "Some e # bl'"]) simp
    qed
  qed
qed simp

lemma blacklistAddress_block:
  "None \<in> set bl \<Longrightarrow> 0 < h \<Longrightarrow>
   block (blacklistAddress h addr bl) k = (if k = ip_key addr then max h (block bl k) else block bl k)"
  by (induction h addr bl rule: blacklistAddress.induct) (auto simp: ip_key_def PSC_IpAddr_ref_def)

lemma blacklistAddress_full: "None \<notin> set bl \<Longrightarrow> blacklistAddress h addr bl = bl"
  by (induction h addr bl rule: blacklistAddress.induct) auto

lemma blacklistAddress_wf: "bl_wf bl \<Longrightarrow> 0 < h \<Longrightarrow> bl_wf (blacklistAddress h addr bl)"
  by (induction h addr bl rule: blacklistAddress.induct) auto

lemma blacklist_init_wf [simp]: "bl_wf blacklist_init" "block blacklist_init k = 0"
proof -
  show "bl_wf blacklist_init" by (simp add: bl_wf_def blacklist_init_def)
  have "block (replicate n None) k = 0" for n by (induction n) auto
  then show "block blacklist_init k = 0" by (simp add: blacklist_init_def)
qed

text \<open>A sequence of addresses that are checked one after the other.\<close>

fun checks :: "sockaddr list \<Rightarrow> blacklist \<Rightarrow> (bool list \<times> blacklist) option" where
  "checks [] bl = Some ([], bl)"
| "checks (a # as) bl = do {
     (ok, bl) \<leftarrow> blacklistcheck (Some a) bl;
     (oks, bl) \<leftarrow> checks as bl;
     Some (ok # oks, bl) }"

definition addr_key :: "sockaddr \<Rightarrow> (PSC_Proto \<times> nat \<times> u8 list) option" where
  "addr_key a = map_option ip_key (PSC_IpAddr_fromSockAddr a)"

lemma checks_block:
  "bl_wf bl \<Longrightarrow> \<forall>a\<in>set as. addr_key a \<noteq> None \<Longrightarrow>
   \<exists>oks bl'. checks as bl = Some (oks, bl') \<and> length oks = length as \<and> bl_wf bl' \<and>
     (\<forall>i<length as. oks ! i \<longleftrightarrow> block bl (the (addr_key (as ! i))) \<le> int (count_list (map addr_key (take i as)) (addr_key (as ! i))))"
proof (induction as arbitrary: bl)
  case (Cons a as)
  obtain ip where ip: "PSC_IpAddr_fromSockAddr a = Some ip" "addr_key a = Some (ip_key ip)"
    using Cons.prems(2) by (auto simp: addr_key_def)
  obtain bl1 where bl1: "check_loop a bl = Some (block bl (ip_key ip) = 0, bl1)" "bl_wf bl1"
      "\<forall>k. block bl1 k = (if k = ip_key ip then max 0 (block bl k - 1) else block bl k)"
    using check_loop_block [OF ip(1) Cons.prems(1)] by blast
  obtain oks bl2 where r: "checks as bl1 = Some (oks, bl2)" "length oks = length as" "bl_wf bl2"
      "\<forall>i<length as. oks ! i \<longleftrightarrow> block bl1 (the (addr_key (as ! i))) \<le> int (count_list (map addr_key (take i as)) (addr_key (as ! i)))"
    using Cons.IH [OF bl1(2)] Cons.prems(2) by auto
  let ?oks = "(block bl (ip_key ip) = 0) # oks"
  have "?oks ! i \<longleftrightarrow> block bl (the (addr_key ((a # as) ! i))) \<le> int (count_list (map addr_key (take i (a # as))) (addr_key ((a # as) ! i)))"
    if "i < length (a # as)" for i
  proof (cases i)
    case 0
    then show ?thesis using ip block_nonneg [of bl "ip_key ip"] by simp
  next
    case (Suc j)
    then have j: "j < length as" using that by simp
    have "addr_key (as ! j) \<noteq> None" using Cons.prems(2) j by simp
    then obtain k where k: "addr_key (as ! j) = Some k" by auto
    have "oks ! j \<longleftrightarrow> block bl1 k \<le> int (count_list (map addr_key (take j as)) (Some k))" using r(4) j k by simp
    also have "\<dots> \<longleftrightarrow> block bl k \<le> int (count_list (map addr_key (take j as)) (Some k)) + (if k = ip_key ip then 1 else 0)"
      using bl1(3) [rule_format, of k] by auto
    finally show ?thesis using Suc k ip(2) by auto
  qed
  then show ?case using bl1(1) r(1-3) by (simp add: blacklistcheck_def)
qed simp

section \<open>Descriptors\<close>

lemma connect_loop_acts:
  assumes "connect_loop valid proto rs bl acts = Some (r, bl', acts')"
    "\<forall>fd. count_list acts (CSocket fd) = count_list acts (CClose fd)"
  shows "(\<forall>fd. count_list acts' (CSocket fd) = count_list acts' (CClose fd) + of_bool (map_option fst r = Some fd)) \<and>
     (\<forall>fd a. r = Some (fd, a) \<longrightarrow> 0 \<le> fd \<and> valid fd \<and> (\<exists>res\<in>set rs. ci_addr res = a \<and> ci_socket res = fd \<and> \<not> skip_family proto a \<and> (0 \<le> ci_connect res \<or> ci_inprogress res)))"
  using assms
proof (induction rs arbitrary: bl acts)
  case (Cons res rs)
  show ?case
  proof (cases "skip_family proto (ci_addr res)")
    case True
    then have "connect_loop valid proto rs bl acts = Some (r, bl', acts')" using Cons.prems(1) by simp
    from Cons.IH [OF this Cons.prems(2)] show ?thesis by auto
  next
    case fam: False
    with Cons.prems(1) obtain ok bl1 where c: "blacklistcheck (Some (ci_addr res)) bl = Some (ok, bl1)"
      by (cases "blacklistcheck (Some (ci_addr res)) bl") auto
    let ?acts = "acts @ [CSocket (ci_socket res), CClose (ci_socket res)]"
    have bal: "\<forall>fd. count_list ?acts (CSocket fd) = count_list ?acts (CClose fd)" using Cons.prems(2) by simp
    consider (skip) "\<not> ok \<or> ci_socket res < 0" | (invalid) "ok" "0 \<le> ci_socket res" "\<not> valid (ci_socket res)"
      | (refused) "ok" "0 \<le> ci_socket res" "valid (ci_socket res)" "ci_connect res < 0" "\<not> ci_inprogress res"
      | (good) "ok" "0 \<le> ci_socket res" "valid (ci_socket res)" "0 \<le> ci_connect res \<or> ci_inprogress res" by linarith
    then show ?thesis
    proof cases
      case skip
      then have "connect_loop valid proto rs bl1 acts = Some (r, bl', acts')" using Cons.prems(1) fam c by (auto split: if_splits)
      from Cons.IH [OF this Cons.prems(2)] show ?thesis by auto
    next
      case invalid
      then show ?thesis using Cons.prems fam c bal by auto
    next
      case refused
      then have "connect_loop valid proto rs bl1 ?acts = Some (r, bl', acts')" using Cons.prems(1) fam c by auto
      from Cons.IH [OF this bal] show ?thesis by auto
    next
      case good
      then show ?thesis using Cons.prems fam c by auto
    qed
  qed
qed auto

lemma check_loop_total: "addr_key a \<noteq> None \<Longrightarrow> check_loop a bl \<noteq> None"
proof (induction a bl rule: check_loop.induct)
  case (3 a e bl)
  then obtain ip r where "PSC_IpAddr_fromSockAddr a = Some ip" "check_loop a bl = Some r" by (auto simp: addr_key_def)
  then show ?case by (cases r) (simp del: not_None_eq)
qed auto

definition conn_fds :: "cli_act list \<Rightarrow> (int \<times> PSC_IpAddr option) list" where
  "conn_fds acts = concat (map (\<lambda>a. case a of CConnection fd ip \<Rightarrow> [(fd, ip)] | _ \<Rightarrow> []) acts)"

lemma conn_fds_simps [simp]:
  "conn_fds [] = []" "conn_fds (acts @ acts') = conn_fds acts @ conn_fds acts'" "conn_fds (CSocket fd # acts) = conn_fds acts"
  "conn_fds (CClose fd # acts) = conn_fds acts" "conn_fds (CConnection fd ip # acts) = (fd, ip) # conn_fds acts"
  by (simp_all add: conn_fds_def)

lemma connect_loop_conns: "connect_loop valid proto rs bl acts = Some (r, bl', acts') \<Longrightarrow> conn_fds acts' = conn_fds acts"
proof (induction rs arbitrary: bl acts)
  case (Cons res rs)
  show ?case
  proof (cases "skip_family proto (ci_addr res)")
    case False
    with Cons.prems obtain ok bl1 where c: "blacklistcheck (Some (ci_addr res)) bl = Some (ok, bl1)"
      by (cases "blacklistcheck (Some (ci_addr res)) bl") auto
    let ?acts = "acts @ [CSocket (ci_socket res), CClose (ci_socket res)]"
    from Cons.prems False c show ?thesis using Cons.IH [of bl1 acts] Cons.IH [of bl1 ?acts] by (auto split: if_splits)
  qed (use Cons in simp)
qed simp

lemma family_key: "\<not> skip_family proto a \<Longrightarrow> addr_key a \<noteq> None"
  by (cases a) (auto simp: skip_family_def is_inet_def is_inet6_def addr_key_def PSC_IpAddr_fromSockAddr_def)

lemma connect_loop_total: "connect_loop valid proto rs bl acts \<noteq> None"
proof (induction rs arbitrary: bl acts)
  case (Cons res rs)
  show ?case
  proof (cases "skip_family proto (ci_addr res)")
    case False
    then obtain r where "check_loop (ci_addr res) bl = Some r" using check_loop_total [OF family_key [OF False]] by blast
    with False Cons.IH show ?thesis by (cases r) (auto simp: blacklistcheck_def)
  qed (use Cons.IH in simp)
qed simp

section \<open>Properties\<close>

text \<open>
  C17: An address is refused exactly as often as it was blacklisted for: in any sequence of
  checks, whatever other addresses are checked in between, a check succeeds if and only if the
  same address was checked at least as often before as the largest number of hits in an entry
  for it.
\<close>
theorem blacklist_refuses:
  assumes "bl_wf bl" "\<forall>a\<in>set as. addr_key a \<noteq> None"
  shows "\<exists>oks bl'. checks as bl = Some (oks, bl') \<and> length oks = length as \<and>
     (\<forall>i<length as. oks ! i \<longleftrightarrow> block bl (the (addr_key (as ! i))) \<le> int (count_list (map addr_key (take i as)) (addr_key (as ! i))))"
  using checks_block [OF assms] by blast

definition example_peer :: sockaddr where
  "example_peer = AF_INET [10, 0, 0, 1] 80"

theorem blacklist_refuses_witness:
  "\<exists>oks bl'. checks [example_peer, AF_INET [10, 0, 0, 2] 80, example_peer, example_peer]
       (blacklistAddress 2 (the (PSC_IpAddr_fromSockAddr example_peer)) blacklist_init) = Some (oks, bl') \<and>
     \<not> oks ! 0 \<and> oks ! 1 \<and> \<not> oks ! 2 \<and> oks ! 3"
proof -
  let ?as = "[example_peer, AF_INET [10, 0, 0, 2] 80, example_peer, example_peer]"
  let ?ip = "the (PSC_IpAddr_fromSockAddr example_peer)"
  define bl where "bl = blacklistAddress 2 ?ip blacklist_init"
  define k where "k = (PSC_P_IPv4, 32 :: nat, replicate 12 0 @ [10, 0, 0, 1 :: u8])"
  define k2 where "k2 = (PSC_P_IPv4, 32 :: nat, replicate 12 0 @ [10, 0, 0, 2 :: u8])"
  have free: "None \<in> set blacklist_init" by (simp add: blacklist_init_def BLACKLISTSIZE_def)
  have wf: "bl_wf bl" unfolding bl_def by (rule blacklistAddress_wf) simp_all
  have key: "ip_key ?ip = k" "addr_key example_peer = Some k" "addr_key (AF_INET [10, 0, 0, 2] 80) = Some k2" "k \<noteq> k2"
    by (simp_all add: k_def k2_def example_peer_def addr_key_def ip_key_def PSC_IpAddr_fromSockAddr_def new_addr_def toString_def Let_def)
  have block: "block bl k = 2" "block bl k2 = 0"
    unfolding bl_def blacklistAddress_block [OF free zero_less_numeral] using key(1,4) by (simp_all del: split_paired_Ex)
  have "\<forall>a\<in>set ?as. addr_key a \<noteq> None" using key by (simp del: not_None_eq)
  from blacklist_refuses [OF wf this] obtain oks bl' where r: "checks ?as bl = Some (oks, bl')"
      "\<And>i. i < 4 \<Longrightarrow> oks ! i \<longleftrightarrow> block bl (the (addr_key (?as ! i))) \<le> int (count_list (map addr_key (take i ?as)) (addr_key (?as ! i)))"
    by auto
  have "\<not> oks ! 0" "oks ! 1" "\<not> oks ! 2" "oks ! 3"
    using r(2) [of 0] r(2) [of 1] r(2) [of 2] r(2) [of 3] key block by (simp_all add: numeral_2_eq_2 numeral_3_eq_3)
  with r(1) show ?thesis unfolding bl_def by blast
qed

text \<open>
  C18: Creating a client always returns, unless the connection object cannot be created, and
  leaks no descriptor: each one that is opened is closed, except for the one of the connection,
  and that one is connected or connecting to an address of the list of the right family and
  can be watched by the service.
\<close>
theorem client_descriptors:
  "\<exists>r bl' acts. createFromAddrinfo valid True opts rs bl = Some (r, bl', acts) \<and>
     (\<forall>fd. count_list acts (CSocket fd) = count_list acts (CClose fd) + count_list (map fst (conn_fds acts)) fd) \<and>
     length (conn_fds acts) = of_bool r \<and>
     (\<forall>(fd, ip)\<in>set (conn_fds acts). 0 \<le> fd \<and> valid fd \<and>
        (\<exists>res\<in>set rs. ci_socket res = fd \<and> PSC_IpAddr_fromSockAddr (ci_addr res) = ip \<and> \<not> skip_family (co_proto opts) (ci_addr res)))"
proof -
  obtain r bl' acts where loop: "connect_loop valid (co_proto opts) rs bl [] = Some (r, bl', acts)"
    using connect_loop_total [of valid "co_proto opts" rs bl "[]"] by (cases "connect_loop valid (co_proto opts) rs bl []") auto
  note p = connect_loop_acts [OF loop]
  have noconn: "conn_fds acts = []" using connect_loop_conns [OF loop] by simp
  show ?thesis
  proof (cases r)
    case None
    then show ?thesis using loop p noconn by (intro exI [of _ False] exI [of _ bl'] exI [of _ acts]) (simp add: createFromAddrinfo_def)
  next
    case (Some fa)
    obtain fd a where fa: "fa = (fd, a)" by (cases fa)
    with Some loop have "createFromAddrinfo valid True opts rs bl = Some (True, bl', acts @ [CConnection fd (PSC_IpAddr_fromSockAddr a)])"
      by (simp add: createFromAddrinfo_def)
    moreover have "0 \<le> fd \<and> valid fd \<and> (\<exists>res\<in>set rs. ci_addr res = a \<and> ci_socket res = fd \<and> \<not> skip_family (co_proto opts) a)"
      using p Some fa by auto
    ultimately show ?thesis using p Some fa noconn by auto
  qed
qed

theorem client_descriptors_witness:
  "\<exists>r bl' acts. createFromAddrinfo (\<lambda>_. True) True (PSC_TcpClientOpts_create ''localhost'' 80)
       [\<lparr>ci_addr = example_peer, ci_socket = 5, ci_connect = -1, ci_inprogress = False\<rparr>,
        \<lparr>ci_addr = example_peer, ci_socket = 6, ci_connect = -1, ci_inprogress = True\<rparr>] blacklist_init = Some (r, bl', acts) \<and>
     count_list acts (CSocket 5) = count_list acts (CClose 5) + count_list (map fst (conn_fds acts)) 5"
  using client_descriptors [of "\<lambda>_. True" "PSC_TcpClientOpts_create ''localhost'' 80"
       "[\<lparr>ci_addr = example_peer, ci_socket = 5, ci_connect = -1, ci_inprogress = False\<rparr>,
        \<lparr>ci_addr = example_peer, ci_socket = 6, ci_connect = -1, ci_inprogress = True\<rparr>]" blacklist_init]
  by blast

text \<open>
  Asynchronous creation that the thread pool takes on calls back exactly once, with a
  connection only if the name was resolved, releases its data, and gives back its reference
  to the options; but in the build with TLS a certificate that can be read with a private key
  that cannot is freed twice.
\<close>
theorem client_async:
  assumes "as_opts s = Some opts" "as_callbacks s = []" "1 \<le> co_refcnt opts"
  shows "\<exists>s1. createTcpClientAsync True True s = Some (s1, 0) \<and>
     Option.bind (doResolve e addrs) (\<lambda>d. resolveDone d created s1) =
       (if ce_certfile e \<and> ce_keyfile e \<and> ce_opencert e \<and> ce_openkey e \<and> ce_readcert e \<and> \<not> ce_readkey e then None
        else Some (s1\<lparr>as_opts := Some opts, as_pending := False, as_data := OFreed,
          as_callbacks := [addrs \<and> created \<and> (ce_certfile e \<longleftrightarrow> ce_keyfile e) \<and> (ce_certfile e \<longrightarrow> ce_opencert e \<and> ce_openkey e \<and> ce_readcert e \<and> ce_readkey e)]\<rparr>))"
  using assms
  by (auto simp: createTcpClientAsync_def doResolve_def fetchCert_def resolveDone_def obj_free_def PSC_TcpClientOpts_destroy_def Let_def)

theorem client_async_witness:
  "\<exists>s1. createTcpClientAsync True True \<lparr>as_opts = Some (PSC_TcpClientOpts_create ''h'' 1), as_callbacks = [], as_pending = False, as_data = ONull\<rparr> = Some (s1, 0) \<and>
     Option.bind (doResolve \<lparr>ce_certfile = True, ce_keyfile = True, ce_opencert = True, ce_openkey = True, ce_readcert = True, ce_readkey = False\<rparr> True)
       (\<lambda>d. resolveDone d True s1) = None"
  using client_async [of "\<lparr>as_opts = Some (PSC_TcpClientOpts_create ''h'' 1), as_callbacks = [], as_pending = False, as_data = ONull\<rparr>"
      "PSC_TcpClientOpts_create ''h'' 1" "\<lparr>ce_certfile = True, ce_keyfile = True, ce_opencert = True, ce_openkey = True, ce_readcert = True, ce_readkey = False\<rparr>" True True]
  by (simp add: PSC_TcpClientOpts_create_def)

text \<open>
  A job that the thread pool does not take is not noticed: the function reports success, the
  callback never comes, and the reference to the options is kept.
\<close>

lemma client_async_lost:
  "as_opts s = Some opts \<Longrightarrow> \<exists>s1. createTcpClientAsync True False s = Some (s1, 0) \<and> \<not> as_pending s1 \<and> as_callbacks s1 = as_callbacks s \<and>
     map_option co_refcnt (as_opts s1) = Some (co_refcnt opts + 1)"
  by (simp add: createTcpClientAsync_def)

text \<open>A full list drops further addresses, and an entry with a negative number of hits would never leave it.\<close>

lemma blacklist_negative_stays:
  assumes "PSC_IpAddr_fromSockAddr a = Some ip" "ip_key (be_addr e) = ip_key ip" "be_hits e < 0"
  shows "check_loop a [Some e] = Some (False, [Some (e\<lparr>be_hits := be_hits e - 1\<rparr>)])"
  using assms by (simp add: equals_key)

end
