(* ===== verification/Poser_Process.thy ===== *)
theory Poser_Process
  imports Poser_Service
begin

text \<open>
  Child processes (\<open>src/lib/core/process.c\<close>): options and arguments, the pipes of the parent with
  every way their creation can fail, the descriptors of the child, and the life of a process
  object from its start to the event \<open>done\<close>.
\<close>

section \<open>Options\<close>

datatype PSC_StreamAction = PSC_SA_LEAVE | PSC_SA_CLOSE | PSC_SA_NULL | PSC_SA_PIPE

record PSC_ProcessOpts =
  po_args :: "string option buf"
  po_argc :: nat
  po_argscapa :: nat
  po_execError :: int
  po_actions :: "PSC_StreamAction list"

definition PSC_ERR_EXEC :: int where "PSC_ERR_EXEC = 127"

definition PSC_ProcessOpts_create :: PSC_ProcessOpts where
  "PSC_ProcessOpts_create = \<lparr>po_args = [], po_argc = 0, po_argscapa = 0, po_execError = PSC_ERR_EXEC,
     po_actions = [PSC_SA_LEAVE, PSC_SA_LEAVE, PSC_SA_LEAVE]\<rparr>"

definition addArg :: "string option \<Rightarrow> PSC_ProcessOpts \<Rightarrow> PSC_ProcessOpts option" where
  "addArg arg self = do {
     let self = (if po_argc self = po_argscapa self
       then self\<lparr>po_argscapa := po_argscapa self + 16, po_args := buf_realloc (po_args self) (po_argscapa self + 16)\<rparr> else self);
     b \<leftarrow> buf_write (po_args self) (po_argc self) arg;
     Some (self\<lparr>po_args := b, po_argc := po_argc self + 1\<rparr>) }"

definition PSC_ProcessOpts_setName :: "string \<Rightarrow> PSC_ProcessOpts \<Rightarrow> PSC_ProcessOpts option" where
  "PSC_ProcessOpts_setName name self =
     (if po_argc self = 0 then addArg (Some name) self
      else map_option (\<lambda>b. self\<lparr>po_args := b\<rparr>) (buf_write (po_args self) 0 (Some name)))"

definition PSC_ProcessOpts_addArg :: "string \<Rightarrow> PSC_ProcessOpts \<Rightarrow> PSC_ProcessOpts option" where
  "PSC_ProcessOpts_addArg arg self = do {
     self \<leftarrow> (if po_argc self = 0 then addArg None self else Some self);
     addArg (Some arg) self }"

text \<open>Streams and actions arrive as integers.\<close>

definition action_of :: "int \<Rightarrow> PSC_StreamAction option" where
  "action_of a = (if a < 0 \<or> a > 3 then None else Some ([PSC_SA_LEAVE, PSC_SA_CLOSE, PSC_SA_NULL, PSC_SA_PIPE] ! nat a))"

definition PSC_ProcessOpts_streamAction :: "int \<Rightarrow> int \<Rightarrow> PSC_ProcessOpts \<Rightarrow> PSC_ProcessOpts \<times> int" where
  "PSC_ProcessOpts_streamAction stream action self =
     (if stream < 0 \<or> stream > 2 then (self, -1)
      else case action_of action of
        None \<Rightarrow> (self, -1)
      | Some a \<Rightarrow> (self\<lparr>po_actions := (po_actions self)[nat stream := a]\<rparr>, 0))"

definition PSC_ProcessOpts_setExecError :: "int \<Rightarrow> PSC_ProcessOpts \<Rightarrow> PSC_ProcessOpts \<times> int" where
  "PSC_ProcessOpts_setExecError execError self =
     (if execError < -128 \<or> execError > 127 then (self, -1) else (self\<lparr>po_execError := execError\<rparr>, 0))"

text \<open>
  The array \<open>args\<close> of a new process, with the null pointer that ends it.
\<close>

definition process_args :: "PSC_ProcessOpts \<Rightarrow> string option list option" where
  "process_args opts = do {
     let argc = (if po_argc opts = 0 then 1 else po_argc opts);
     args \<leftarrow> (if po_argc opts = 0 then Some [None] else those (map (buf_read (po_args opts)) [0..<argc]));
     Some (args @ [None]) }"

section \<open>Descriptors of the child\<close>

datatype ofile = Inherited int | PipeRead nat | PipeWrite nat | DevNull

type_synonym fdtable = "int \<Rightarrow> ofile option"

definition fd_close :: "int \<Rightarrow> fdtable \<Rightarrow> fdtable" where
  "fd_close fd t = t(fd := None)"

definition dup2 :: "int \<Rightarrow> int \<Rightarrow> fdtable \<Rightarrow> fdtable option" where
  "dup2 old new t = (case t old of None \<Rightarrow> None | Some f \<Rightarrow> Some (t(new := Some f)))"

definition stdfddir :: "nat \<Rightarrow> nat" where
  "stdfddir i = (if i = 0 then 1 else 0)"

text \<open>The ends of the pipe of stream \<open>i\<close>: \<open>pipefd[i][0]\<close> and \<open>pipefd[i][1]\<close>.\<close>

type_synonym pipes = "nat \<Rightarrow> int \<times> int"

definition pipe_end :: "pipes \<Rightarrow> nat \<Rightarrow> nat \<Rightarrow> int" where
  "pipe_end p i d = (if d = 0 then fst (p i) else snd (p i))"

text \<open>
  One stream in \<open>prepareChild\<close>; \<open>nulldev\<close> is what \<open>open\<close> returns for the null device.  The code
  assigns \<open>open ("/dev/null", O_RDWR) < 0\<close> to \<open>nullfd\<close>, which is zero or one.  The result
  \<^const>\<open>None\<close> stands for \<open>exit (execError)\<close>.
\<close>

definition prepare_stream :: "int \<Rightarrow> PSC_StreamAction \<Rightarrow> pipes \<Rightarrow> nat \<Rightarrow> int \<times> fdtable \<Rightarrow> (int \<times> fdtable) option" where
  "prepare_stream nulldev action p i s = (case s of (nullfd, t) \<Rightarrow>
     (case action of
        PSC_SA_LEAVE \<Rightarrow> Some (nullfd, t)
      | PSC_SA_CLOSE \<Rightarrow> Some (nullfd, fd_close (int i) t)
      | PSC_SA_NULL \<Rightarrow> do {
          (nullfd, t) \<leftarrow> (if nullfd < 0
            then if nulldev < 0 then None else Some (0, t(nulldev := Some DevNull))
            else Some (nullfd, t));
          t \<leftarrow> dup2 nullfd (int i) t;
          Some (nullfd, t) }
      | PSC_SA_PIPE \<Rightarrow> do {
          t \<leftarrow> dup2 (pipe_end p i (1 - stdfddir i)) (int i) t;
          Some (nullfd, fd_close (pipe_end p i (stdfddir i)) t) }))"

definition prepareChild :: "int \<Rightarrow> PSC_StreamAction list \<Rightarrow> pipes \<Rightarrow> fdtable \<Rightarrow> fdtable option" where
  "prepareChild nulldev actions p t = do {
     s \<leftarrow> prepare_stream nulldev (actions ! 0) p 0 (-1, t);
     s \<leftarrow> prepare_stream nulldev (actions ! 1) p 1 s;
     (nullfd, t) \<leftarrow> prepare_stream nulldev (actions ! 2) p 2 s;
     Some (if nullfd \<ge> 0 then fd_close nullfd t else t) }"

section \<open>Starting\<close>

text \<open>
  What \<open>pipe\<close> returns for each stream (\<open>None\<close> for an error), whether the service can watch the
  end of the parent, and what \<open>fork\<close> returns in the parent.
\<close>

record run_env =
  re_pipe :: "nat \<Rightarrow> (int \<times> int) option"
  re_valid :: "int \<Rightarrow> bool"
  re_fork :: int

datatype run_act = PipeMade int int | FdClose int | HandOver nat int | RunTryDestroy

definition createPipe :: "run_env \<Rightarrow> nat \<Rightarrow> pipes \<Rightarrow> pipes \<times> int \<times> run_act list" where
  "createPipe e i p = (case re_pipe e i of
     None \<Rightarrow> (p, -1, [])
   | Some (r, w) \<Rightarrow> (p(i := (r, w)), (if re_valid e (if stdfddir i = 0 then r else w) then 0 else -1), [PipeMade r w]))"

fun make_pipes :: "run_env \<Rightarrow> bool \<Rightarrow> PSC_StreamAction list \<Rightarrow> nat list \<Rightarrow> pipes \<Rightarrow> run_act list \<Rightarrow> pipes \<times> bool \<times> run_act list" where
  "make_pipes e cb actions [] p acts = (p, True, acts)"
| "make_pipes e cb actions (i # js) p acts =
     (if actions ! i \<noteq> PSC_SA_PIPE then make_pipes e cb actions js p acts
      else if \<not> cb then (p, False, acts)
      else case createPipe e i p of
        (p, rc, made) \<Rightarrow> if rc < 0 then (p, False, acts @ made) else make_pipes e cb actions js p (acts @ made))"

definition hand_over :: "PSC_StreamAction list \<Rightarrow> pipes \<Rightarrow> nat \<Rightarrow> pipes \<times> run_act list" where
  "hand_over actions p i =
     (if actions ! i = PSC_SA_PIPE
      then (p(i := (if stdfddir i = 0 then (-1, snd (p i)) else (fst (p i), -1))), [HandOver i (pipe_end p i (stdfddir i))])
      else (p, []))"

definition close_pipe :: "pipes \<Rightarrow> nat \<Rightarrow> run_act list" where
  "close_pipe p i = (if fst (p i) \<ge> 0 then [FdClose (fst (p i))] else []) @ (if snd (p i) \<ge> 0 then [FdClose (snd (p i))] else [])"

text \<open>The parent's side of \<open>runprocess\<close>: whether the process was started, and what was done.\<close>

definition runprocess :: "run_env \<Rightarrow> bool \<Rightarrow> int \<Rightarrow> PSC_StreamAction list \<Rightarrow> bool \<times> run_act list" where
  "runprocess e cb pid actions =
     (if pid \<noteq> 0 then (False, [])
      else case make_pipes e cb actions [0, 1, 2] (\<lambda>_. (-1, -1)) [] of
        (p, ok, acts) \<Rightarrow>
          if \<not> ok \<or> re_fork e < 0 then (False, acts @ concat (map (close_pipe p) [0, 1, 2]) @ [RunTryDestroy])
          else (let (p0, h0) = hand_over actions p 0; (p1, h1) = hand_over actions p0 1; (p2, h2) = hand_over actions p1 2
                in (True, acts @ h0 @ h1 @ h2 @ concat (map (close_pipe p2) [0, 1, 2]))))"

section \<open>The life of a process object\<close>

datatype ChildStatus = CS_NONE | CS_RUNNING | CS_EXITED | CS_SIGNALED

text \<open>
  \<open>pr_streams\<close> are the streams with a connection; \<open>pr_done\<close> records the arguments with which
  the event \<open>done\<close> was raised.  Using a freed object is undefined.
\<close>

record PSC_Process =
  pr_pid :: int
  pr_status :: ChildStatus
  pr_exitval :: int
  pr_streams :: "bool list"
  pr_killtimer :: bool
  pr_done :: "(ChildStatus \<times> int) list"
  pr_freed :: bool

definition tryDestroy :: "PSC_Process \<Rightarrow> PSC_Process option" where
  "tryDestroy self =
     (if pr_freed self then None
      else if pr_status self = CS_RUNNING then Some self
      else if pr_streams self ! 0 then Some self
      else if pr_streams self ! 1 then Some self
      else if pr_streams self ! 2 then Some self
      else Some (self\<lparr>pr_done := pr_done self @ [(pr_status self, pr_exitval self)], pr_freed := True\<rparr>))"

definition streamClosed :: "nat \<Rightarrow> PSC_Process \<Rightarrow> PSC_Process option" where
  "streamClosed i self =
     (if pr_freed self then None else tryDestroy (self\<lparr>pr_streams := (pr_streams self)[i := False]\<rparr>))"

text \<open>\<open>PSC_Connection_close\<close> raises the event of the connection at once, so \<open>streamClosed\<close> runs inside.\<close>

definition endprocess :: "int \<Rightarrow> int \<Rightarrow> int \<Rightarrow> PSC_Process \<Rightarrow> PSC_Process option" where
  "endprocess pid signo status self =
     (if pr_freed self then None
      else if pid \<noteq> pr_pid self then Some self
      else do {
        let self = self\<lparr>pr_killtimer := False\<rparr>;
        self \<leftarrow> (if pr_streams self ! 0 then streamClosed 0 self else Some self);
        tryDestroy (if signo \<noteq> 0 then self\<lparr>pr_status := CS_SIGNALED, pr_exitval := signo\<rparr>
          else self\<lparr>pr_status := CS_EXITED, pr_exitval := status\<rparr>) })"

definition childExited :: "PSC_EAChildExited \<Rightarrow> PSC_Process \<Rightarrow> PSC_Process option" where
  "childExited ea self = endprocess (ea_pid ea) (PSC_EAChildExited_signal ea) (PSC_EAChildExited_status ea) self"


definition PSC_Process_pid :: "PSC_Process \<Rightarrow> int" where
  "PSC_Process_pid self = (if pr_status self = CS_RUNNING then pr_pid self else -1)"






section \<open>Arguments\<close>

text \<open>The reference: the name, if it was given, and the arguments in order.\<close>

datatype arg_op = SetName string | AddArg string

fun args_run :: "arg_op list \<Rightarrow> PSC_ProcessOpts \<Rightarrow> PSC_ProcessOpts option" where
  "args_run [] self = Some self"
| "args_run (SetName n # os) self = Option.bind (PSC_ProcessOpts_setName n self) (args_run os)"
| "args_run (AddArg a # os) self = Option.bind (PSC_ProcessOpts_addArg a self) (args_run os)"

definition last_name :: "arg_op list \<Rightarrow> string option \<Rightarrow> string option" where
  "last_name os = fold (\<lambda>x n. case x of SetName m \<Rightarrow> Some m | AddArg a \<Rightarrow> n) os"

definition added_args :: "arg_op list \<Rightarrow> string option list" where
  "added_args os = concat (map (\<lambda>x. case x of AddArg a \<Rightarrow> [Some a] | SetName n \<Rightarrow> []) os)"

definition args_spec :: "arg_op list \<Rightarrow> string option list" where
  "args_spec os = last_name os None # added_args os"

definition args_rep :: "PSC_ProcessOpts \<Rightarrow> string option list \<Rightarrow> bool" where
  "args_rep self xs \<longleftrightarrow> po_argc self = length xs \<and> length (po_args self) = po_argscapa self \<and> length xs \<le> po_argscapa self \<and>
     take (length xs) (po_args self) = map Some xs"

lemma addArg_rep:
  assumes "args_rep self xs"
  shows "\<exists>self'. addArg a self = Some self' \<and> args_rep self' (xs @ [a])"
  using assms by (auto simp: args_rep_def addArg_def buf_write_def buf_realloc_take take_Suc_conv_app_nth Let_def)

lemma setName_rep:
  assumes "args_rep self xs"
  shows "\<exists>self'. PSC_ProcessOpts_setName n self = Some self' \<and> args_rep self' (Some n # tl xs)"
proof (cases xs)
  case Nil
  with assms addArg_rep [OF assms] show ?thesis by (simp add: PSC_ProcessOpts_setName_def args_rep_def)
next
  case (Cons x ys)
  with assms have "0 < length (po_args self)" "take (length xs) ((po_args self)[0 := Some (Some n)]) = map Some (Some n # ys)"
    by (auto simp: args_rep_def take_update_swap)
  with assms Cons show ?thesis by (auto simp: PSC_ProcessOpts_setName_def args_rep_def buf_write_def)
qed

lemma addArg_op_rep:
  assumes "args_rep self xs"
  shows "\<exists>self'. PSC_ProcessOpts_addArg a self = Some self' \<and> args_rep self' ((if xs = [] then [None] else xs) @ [Some a])"
proof (cases "xs = []")
  case True
  obtain s1 where "addArg None self = Some s1" "args_rep s1 [None]" using addArg_rep [OF assms, of None] True by auto
  with addArg_rep [of s1 "[None]" "Some a"] assms True show ?thesis by (auto simp: PSC_ProcessOpts_addArg_def args_rep_def)
next
  case False
  with assms addArg_rep [OF assms] show ?thesis by (auto simp: PSC_ProcessOpts_addArg_def args_rep_def)
qed

fun args_fold :: "arg_op list \<Rightarrow> string option list \<Rightarrow> string option list" where
  "args_fold [] xs = xs"
| "args_fold (SetName n # os) xs = args_fold os (Some n # tl xs)"
| "args_fold (AddArg a # os) xs = args_fold os ((if xs = [] then [None] else xs) @ [Some a])"

lemma args_run_rep: "args_rep self xs \<Longrightarrow> \<exists>self'. args_run os self = Some self' \<and> args_rep self' (args_fold os xs)"
proof (induction os arbitrary: self xs)
  case (Cons x os)
  show ?case
  proof (cases x)
    case (SetName n)
    with setName_rep [OF Cons.prems, of n] Cons.IH show ?thesis by fastforce
  next
    case (AddArg a)
    with addArg_op_rep [OF Cons.prems, of a] Cons.IH show ?thesis by fastforce
  qed
qed simp

lemma args_fold_spec:
  "args_fold os xs = (if os = [] then xs else last_name os (case xs of [] \<Rightarrow> None | x # _ \<Rightarrow> x) # tl xs @ added_args os)"
proof (induction os xs rule: args_fold.induct)
  case (2 n os xs)
  then show ?case by (cases os) (auto simp: last_name_def added_args_def)
next
  case (3 a os xs)
  then show ?case by (cases os; cases xs) (auto simp: last_name_def added_args_def)
qed simp

lemma process_args_rep:
  assumes "args_rep opts xs"
  shows "process_args opts = Some ((if xs = [] then [None] else xs) @ [None])"
proof (cases "xs = []")
  case False
  have "those (map (buf_read (po_args opts)) [0..<length xs]) = Some xs"
  proof -
    have "buf_read (po_args opts) i = Some (xs ! i)" if "i < length xs" for i
      using map_Some_nth_take [of "length xs" "po_args opts" xs i] assms that by (simp add: args_rep_def buf_read_def)
    then have "map (buf_read (po_args opts)) [0..<length xs] = map Some (map ((!) xs) [0..<length xs])" by simp
    moreover have "those (map Some ys) = Some ys" for ys :: "string option list" by (induction ys) auto
    ultimately show ?thesis by (simp only: map_nth)
  qed
  with assms False show ?thesis by (simp add: process_args_def args_rep_def)
qed (use assms in \<open>simp add: process_args_def args_rep_def\<close>)

section \<open>The life of a process\<close>


lemma less3: "i < 3 \<longleftrightarrow> i = 0 \<or> i = 1 \<or> i = (2 :: nat)"
  by auto








section \<open>Pipes of the parent\<close>

definition fdl :: "pipes \<Rightarrow> nat \<Rightarrow> int list" where
  "fdl p i = filter (\<lambda>x. 0 \<le> x) [fst (p i), snd (p i)]"

definition pipe_cnt :: "pipes \<Rightarrow> int \<Rightarrow> nat" where
  "pipe_cnt p fd = count_list (fdl p 0) fd + count_list (fdl p 1) fd + count_list (fdl p 2) fd"

fun made_fds :: "run_act list \<Rightarrow> int list" where
  "made_fds [] = []"
| "made_fds (PipeMade r w # acts) = r # w # made_fds acts"
| "made_fds (_ # acts) = made_fds acts"

lemma made_fds_append [simp]: "made_fds (xs @ ys) = made_fds xs @ made_fds ys"
  by (induction xs rule: made_fds.induct) auto

definition good_env :: "run_env \<Rightarrow> bool" where
  "good_env e \<longleftrightarrow> (\<forall>i r w. re_pipe e i = Some (r, w) \<longrightarrow> 0 \<le> r \<and> 0 \<le> w)"

lemma close_pipe_fdl: "close_pipe p i = map FdClose (fdl p i)"
  by (simp add: close_pipe_def fdl_def)

lemma make_pipes_cnt:
  assumes "good_env e"
  shows "make_pipes e cb actions js p acts = (p', ok, acts') \<Longrightarrow> set js \<subseteq> {0, 1, 2} \<Longrightarrow> distinct js \<Longrightarrow> \<forall>j\<in>set js. p j = (-1, -1) \<Longrightarrow>
     count_list (made_fds acts') fd + pipe_cnt p fd = count_list (made_fds acts) fd + pipe_cnt p' fd \<and>
     (\<forall>fd. FdClose fd \<in> set acts' \<longrightarrow> FdClose fd \<in> set acts) \<and> (\<forall>i fd. HandOver i fd \<in> set acts' \<longrightarrow> HandOver i fd \<in> set acts) \<and>
     (\<forall>j. j \<notin> set js \<longrightarrow> p' j = p j) \<and>
     (ok \<longrightarrow> (\<forall>j\<in>set js. if actions ! j = PSC_SA_PIPE then 0 \<le> fst (p' j) \<and> 0 \<le> snd (p' j) \<and> re_pipe e j = Some (p' j) else p' j = (-1, -1)))"
proof (induction js arbitrary: p acts)
  case (Cons i js)
  consider (other) "actions ! i \<noteq> PSC_SA_PIPE" | (nocb) "actions ! i = PSC_SA_PIPE" "\<not> cb" | (none) "actions ! i = PSC_SA_PIPE" cb "re_pipe e i = None"
    | (made) r w where "actions ! i = PSC_SA_PIPE" cb "re_pipe e i = Some (r, w)" by fastforce
  then show ?case
  proof cases
    case other
    then have "make_pipes e cb actions js p acts = (p', ok, acts')" using Cons.prems(1) by simp
    then have ih: "count_list (made_fds acts') fd + pipe_cnt p fd = count_list (made_fds acts) fd + pipe_cnt p' fd \<and>
         (\<forall>fd. FdClose fd \<in> set acts' \<longrightarrow> FdClose fd \<in> set acts) \<and> (\<forall>i fd. HandOver i fd \<in> set acts' \<longrightarrow> HandOver i fd \<in> set acts) \<and>
         (\<forall>j. j \<notin> set js \<longrightarrow> p' j = p j) \<and>
         (ok \<longrightarrow> (\<forall>j\<in>set js. if actions ! j = PSC_SA_PIPE then 0 \<le> fst (p' j) \<and> 0 \<le> snd (p' j) \<and> re_pipe e j = Some (p' j) else p' j = (-1, -1)))"
      using Cons.IH [of p acts] Cons.prems(2-4) by simp
    moreover have "p' i = (-1, -1)" using ih Cons.prems(3,4) by simp
    ultimately show ?thesis using other by simp
  next
    case nocb
    then show ?thesis using Cons.prems(1) by auto
  next
    case none
    then show ?thesis using Cons.prems(1) by (auto simp: createPipe_def)
  next
    case made
    have rw: "0 \<le> r" "0 \<le> w" using assms made(3) by (auto simp: good_env_def)
    define p1 where "p1 = p(i := (r, w))"
    have i: "i = 0 \<or> i = 1 \<or> i = 2" and pi: "p i = (-1, -1)" using Cons.prems(2,4) by auto
    have cnt: "pipe_cnt p1 fd = pipe_cnt p fd + count_list [r, w] fd"
    proof -
      have f: "\<And>j. fdl p1 j = (if j = i then [r, w] else fdl p j)" "fdl p i = []" using rw pi by (simp_all add: fdl_def p1_def)
      show ?thesis using i f(2) unfolding pipe_cnt_def f(1) by (elim disjE) simp_all
    qed
    show ?thesis
    proof (cases "re_valid e (if stdfddir i = 0 then r else w)")
      case True
      then have "make_pipes e cb actions js p1 (acts @ [PipeMade r w]) = (p', ok, acts')"
        using Cons.prems(1) made by (simp add: createPipe_def p1_def)
      moreover have "\<forall>j\<in>set js. p1 j = (-1, -1)" using Cons.prems(3,4) by (auto simp: p1_def)
      ultimately have ih: "count_list (made_fds acts') fd + pipe_cnt p1 fd = count_list (made_fds (acts @ [PipeMade r w])) fd + pipe_cnt p' fd \<and>
         (\<forall>fd. FdClose fd \<in> set acts' \<longrightarrow> FdClose fd \<in> set (acts @ [PipeMade r w])) \<and>
         (\<forall>i fd. HandOver i fd \<in> set acts' \<longrightarrow> HandOver i fd \<in> set (acts @ [PipeMade r w])) \<and>
         (\<forall>j. j \<notin> set js \<longrightarrow> p' j = p1 j) \<and>
         (ok \<longrightarrow> (\<forall>j\<in>set js. if actions ! j = PSC_SA_PIPE then 0 \<le> fst (p' j) \<and> 0 \<le> snd (p' j) \<and> re_pipe e j = Some (p' j) else p' j = (-1, -1)))"
        using Cons.IH [of p1 "acts @ [PipeMade r w]"] Cons.prems(2,3) by simp
      have pi': "p' i = (r, w)" using ih Cons.prems(3) by (simp add: p1_def)
      have "count_list (made_fds acts') fd + pipe_cnt p fd = count_list (made_fds acts) fd + pipe_cnt p' fd" using ih cnt by (simp split: if_splits)
      then show ?thesis using ih pi' rw made by (auto simp: p1_def)
    next
      case False
      then have "p' = p1" "\<not> ok" "acts' = acts @ [PipeMade r w]" using Cons.prems(1) made by (auto simp: createPipe_def p1_def)
      moreover have "\<forall>j. j \<noteq> i \<longrightarrow> p1 j = p j" by (simp add: p1_def)
      ultimately show ?thesis using cnt by simp
    qed
  qed
qed simp

lemma hand_over_cnt:
  assumes "i = 0 \<or> i = 1 \<or> i = 2" "actions ! i = PSC_SA_PIPE \<Longrightarrow> 0 \<le> fst (p i) \<and> 0 \<le> snd (p i)"
    "hand_over actions p i = (p', h)"
  shows "pipe_cnt p fd = pipe_cnt p' fd + count_list (map (\<lambda>a. case a of HandOver _ fd \<Rightarrow> fd | _ \<Rightarrow> -1) h) fd \<and> (\<forall>j. j \<noteq> i \<longrightarrow> p' j = p j) \<and>
     h = (if actions ! i = PSC_SA_PIPE then [HandOver i (pipe_end p i (stdfddir i))] else [])"
proof (cases "actions ! i = PSC_SA_PIPE")
  case True
  then have nn: "0 \<le> fst (p i)" "0 \<le> snd (p i)" using assms(2) by simp_all
  have h: "h = [HandOver i (pipe_end p i (stdfddir i))]"
      "p' = p(i := (if stdfddir i = 0 then (-1, snd (p i)) else (fst (p i), -1)))" using True assms(3) by (auto simp: hand_over_def)
  have f: "\<And>j. j \<noteq> i \<Longrightarrow> fdl p' j = fdl p j" "count_list (fdl p i) fd = count_list (fdl p' i) fd + count_list [pipe_end p i (stdfddir i)] fd"
    using nn by (auto simp: h(2) fdl_def pipe_end_def)
  have "pipe_cnt p fd = pipe_cnt p' fd + count_list [pipe_end p i (stdfddir i)] fd"
    using assms(1)
  proof (elim disjE)
    assume "i = 0" then show ?thesis using f(2) f(1) [of 1] f(1) [of 2] by (simp add: pipe_cnt_def)
  next
    assume "i = 1" then show ?thesis using f(2) f(1) [of 0] f(1) [of 2] by (simp add: pipe_cnt_def)
  next
    assume "i = 2" then show ?thesis using f(2) f(1) [of 0] f(1) [of 1] by (simp add: pipe_cnt_def)
  qed
  then show ?thesis using True h by simp
next
  case False
  then show ?thesis using assms(3) by (auto simp: hand_over_def)
qed

fun act_fds :: "run_act list \<Rightarrow> int list" where
  "act_fds [] = []"
| "act_fds (FdClose fd # acts) = fd # act_fds acts"
| "act_fds (HandOver i fd # acts) = fd # act_fds acts"
| "act_fds (_ # acts) = act_fds acts"

lemma act_fds_append [simp]: "act_fds (xs @ ys) = act_fds xs @ act_fds ys"
  by (induction xs rule: act_fds.induct) auto

lemma act_fds_none: "(\<forall>fd. FdClose fd \<notin> set acts) \<Longrightarrow> (\<forall>i fd. HandOver i fd \<notin> set acts) \<Longrightarrow> act_fds acts = []"
  by (induction acts rule: act_fds.induct) auto

lemma act_fds_close: "act_fds (concat (map (close_pipe p) [0, 1, 2])) = fdl p 0 @ fdl p 1 @ fdl p 2" "made_fds (concat (map (close_pipe p) [0, 1, 2])) = []"
proof -
  have "act_fds (map FdClose xs) = xs" "made_fds (map FdClose xs) = []" for xs by (induction xs) auto
  then show "act_fds (concat (map (close_pipe p) [0, 1, 2])) = fdl p 0 @ fdl p 1 @ fdl p 2" "made_fds (concat (map (close_pipe p) [0, 1, 2])) = []"
    by (simp_all add: close_pipe_fdl)
qed

lemma make_pipes_start:
  assumes "good_env e" "make_pipes e cb actions [0, 1, 2] (\<lambda>_. (-1, -1)) [] = (p, ok, acts)"
  shows "count_list (made_fds acts) fd = pipe_cnt p fd" "act_fds acts = []" "\<forall>fd. FdClose fd \<notin> set acts" "\<forall>i fd. HandOver i fd \<notin> set acts"
    "ok \<Longrightarrow> i < 3 \<Longrightarrow> actions ! i = PSC_SA_PIPE \<Longrightarrow> 0 \<le> fst (p i) \<and> 0 \<le> snd (p i) \<and> re_pipe e i = Some (p i)"
    "ok \<Longrightarrow> i < 3 \<Longrightarrow> actions ! i \<noteq> PSC_SA_PIPE \<Longrightarrow> p i = (-1, -1)"
proof -
  have z: "pipe_cnt (\<lambda>_. (-1, -1)) fd = 0" by (simp add: pipe_cnt_def fdl_def)
  note m = make_pipes_cnt [OF assms, of fd]
  show "count_list (made_fds acts) fd = pipe_cnt p fd" using m z by simp
  show n: "\<forall>fd. FdClose fd \<notin> set acts" "\<forall>i fd. HandOver i fd \<notin> set acts" using m by simp_all
  then show "act_fds acts = []" by (rule act_fds_none)
  show "ok \<Longrightarrow> i < 3 \<Longrightarrow> actions ! i = PSC_SA_PIPE \<Longrightarrow> 0 \<le> fst (p i) \<and> 0 \<le> snd (p i) \<and> re_pipe e i = Some (p i)"
    using m by (auto simp: less3)
  show "ok \<Longrightarrow> i < 3 \<Longrightarrow> actions ! i \<noteq> PSC_SA_PIPE \<Longrightarrow> p i = (-1, -1)"
    using m by (auto simp: less3)
qed

definition parent_end :: "run_env \<Rightarrow> nat \<Rightarrow> int \<Rightarrow> bool" where
  "parent_end e i fd \<longleftrightarrow> (\<exists>r w. re_pipe e i = Some (r, w) \<and> fd = (if i = 0 then w else r))"

lemma run_failed:
  assumes "good_env e" "make_pipes e cb actions [0, 1, 2] (\<lambda>_. (-1, -1)) [] = (p, ok, acts)"
  shows "count_list (made_fds (acts @ concat (map (close_pipe p) [0, 1, 2]) @ [RunTryDestroy])) fd =
      count_list (act_fds (acts @ concat (map (close_pipe p) [0, 1, 2]) @ [RunTryDestroy])) fd"
  using make_pipes_start(1) [OF assms, of fd] make_pipes_start(2) [OF assms] unfolding act_fds_append made_fds_append act_fds_close by (simp add: pipe_cnt_def)

lemma run_started:
  assumes "good_env e" "make_pipes e cb actions [0, 1, 2] (\<lambda>_. (-1, -1)) [] = (p, True, acts)"
    and h: "hand_over actions p 0 = (p0, h0)" "hand_over actions p0 1 = (p1, h1)" "hand_over actions p1 2 = (p2, h2)"
  shows "count_list (made_fds (acts @ h0 @ h1 @ h2 @ concat (map (close_pipe p2) [0, 1, 2]))) fd =
      count_list (act_fds (acts @ h0 @ h1 @ h2 @ concat (map (close_pipe p2) [0, 1, 2]))) fd \<and>
    set h0 \<union> set h1 \<union> set h2 = {HandOver i (pipe_end p i (stdfddir i)) | i. i < 3 \<and> actions ! i = PSC_SA_PIPE}"
proof -
  note st = make_pipes_start [OF assms(1,2)]
  have nn: "\<And>i. i < 3 \<Longrightarrow> actions ! i = PSC_SA_PIPE \<Longrightarrow> 0 \<le> fst (p i) \<and> 0 \<le> snd (p i)" using st(5) by auto
  have a0: "pipe_cnt p fd = pipe_cnt p0 fd + count_list (map (\<lambda>a. case a of HandOver _ fd \<Rightarrow> fd | _ \<Rightarrow> -1) h0) fd \<and> (\<forall>j. j \<noteq> 0 \<longrightarrow> p0 j = p j) \<and>
     h0 = (if actions ! 0 = PSC_SA_PIPE then [HandOver 0 (pipe_end p 0 (stdfddir 0))] else [])"
    using hand_over_cnt [OF _ _ h(1)] nn [of 0] by simp
  then have e1: "p0 1 = p 1" "p0 2 = p 2" by simp_all
  have a1: "pipe_cnt p0 fd = pipe_cnt p1 fd + count_list (map (\<lambda>a. case a of HandOver _ fd \<Rightarrow> fd | _ \<Rightarrow> -1) h1) fd \<and> (\<forall>j. j \<noteq> 1 \<longrightarrow> p1 j = p0 j) \<and>
     h1 = (if actions ! 1 = PSC_SA_PIPE then [HandOver 1 (pipe_end p0 1 (stdfddir 1))] else [])"
    using hand_over_cnt [OF _ _ h(2)] nn [of 1] e1 by simp
  then have e2: "p1 2 = p 2" using e1 by simp
  have a2: "pipe_cnt p1 fd = pipe_cnt p2 fd + count_list (map (\<lambda>a. case a of HandOver _ fd \<Rightarrow> fd | _ \<Rightarrow> -1) h2) fd \<and>
     h2 = (if actions ! 2 = PSC_SA_PIPE then [HandOver 2 (pipe_end p1 2 (stdfddir 2))] else [])"
    using hand_over_cnt [OF _ _ h(3)] nn [of 2] e2 by simp
  have hf: "act_fds h = map (\<lambda>a. case a of HandOver _ fd \<Rightarrow> fd | _ \<Rightarrow> -1) h \<and> made_fds h = []" if "h = (if b then [HandOver i x] else [])" for h b i x
    using that by simp
  have f: "act_fds h0 = map (\<lambda>a. case a of HandOver _ fd \<Rightarrow> fd | _ \<Rightarrow> -1) h0 \<and> made_fds h0 = []"
    "act_fds h1 = map (\<lambda>a. case a of HandOver _ fd \<Rightarrow> fd | _ \<Rightarrow> -1) h1 \<and> made_fds h1 = []"
    "act_fds h2 = map (\<lambda>a. case a of HandOver _ fd \<Rightarrow> fd | _ \<Rightarrow> -1) h2 \<and> made_fds h2 = []"
    using a0 a1 a2 hf by blast+
  have "count_list (made_fds acts) fd = pipe_cnt p fd" by (rule st(1))
  then have "count_list (made_fds (acts @ h0 @ h1 @ h2 @ concat (map (close_pipe p2) [0, 1, 2]))) fd =
      count_list (act_fds (acts @ h0 @ h1 @ h2 @ concat (map (close_pipe p2) [0, 1, 2]))) fd"
    using a0 a1 a2 f st(2) unfolding act_fds_append made_fds_append act_fds_close by (simp add: pipe_cnt_def)
  moreover have "pipe_end p0 1 (stdfddir 1) = pipe_end p 1 (stdfddir 1)" "pipe_end p1 2 (stdfddir 2) = pipe_end p 2 (stdfddir 2)"
    using e1 e2 by (simp_all add: pipe_end_def)
  ultimately show ?thesis using a0 a1 a2 by (auto simp: less3)
qed

section \<open>Streams of the child\<close>

definition stream_upd :: "PSC_StreamAction list \<Rightarrow> pipes \<Rightarrow> nat \<Rightarrow> fdtable \<Rightarrow> fdtable" where
  "stream_upd actions p i t = (case actions ! i of
     PSC_SA_CLOSE \<Rightarrow> t(int i := None)
   | PSC_SA_PIPE \<Rightarrow> (t(int i := t (pipe_end p i (1 - stdfddir i))))(pipe_end p i (stdfddir i) := None)
   | _ \<Rightarrow> t)"

lemma prepare_stream_upd:
  "actions ! i \<noteq> PSC_SA_NULL \<Longrightarrow> (actions ! i = PSC_SA_PIPE \<Longrightarrow> t (pipe_end p i (1 - stdfddir i)) \<noteq> None) \<Longrightarrow>
   prepare_stream nulldev (actions ! i) p i (n, t) = Some (n, stream_upd actions p i t)"
  by (cases "actions ! i") (auto simp: prepare_stream_def stream_upd_def fd_close_def dup2_def)

lemma stream_upd_other: "x \<noteq> int i \<Longrightarrow> (actions ! i = PSC_SA_PIPE \<Longrightarrow> x \<noteq> pipe_end p i (stdfddir i)) \<Longrightarrow> stream_upd actions p i t x = t x"
  by (cases "actions ! i") (auto simp: stream_upd_def)

text \<open>What one stream has become is not changed by the others.\<close>

lemma stream_upd_std:
  "(actions ! i = PSC_SA_PIPE \<Longrightarrow> 2 < pipe_end p i (stdfddir i)) \<Longrightarrow> j < 3 \<Longrightarrow> i \<noteq> j \<Longrightarrow> stream_upd actions p i t (int j) = t (int j)"
  by (rule stream_upd_other) auto

lemma stream_upd_none: "t x = None \<Longrightarrow> x \<noteq> int i \<Longrightarrow> stream_upd actions p i t x = None"
  by (cases "actions ! i") (auto simp: stream_upd_def)

lemma stream_upd_self:
  "actions ! i = PSC_SA_LEAVE \<Longrightarrow> stream_upd actions p i t (int i) = t (int i)"
  "actions ! i = PSC_SA_CLOSE \<Longrightarrow> stream_upd actions p i t (int i) = None"
  "actions ! i = PSC_SA_PIPE \<Longrightarrow> int i \<noteq> pipe_end p i (stdfddir i) \<Longrightarrow> stream_upd actions p i t (int i) = t (pipe_end p i (1 - stdfddir i))"
  "actions ! i = PSC_SA_PIPE \<Longrightarrow> stream_upd actions p i t (pipe_end p i (stdfddir i)) = None"
  by (simp_all add: stream_upd_def)

section \<open>Properties\<close>

text \<open>
  C16: Starting a process leaks no pipe: every descriptor of a pipe that was created is closed
  or handed over to a connection, once, whatever fails.  If the process was started, exactly
  the ends of the parent for the streams with a pipe are handed over; if not, none is, and the
  object is told about the failure.
\<close>
theorem process_pipes:
  assumes "good_env e"
  shows "case runprocess e cb 0 actions of (ok, acts) \<Rightarrow>
     (\<forall>fd. count_list (made_fds acts) fd = count_list (act_fds acts) fd) \<and>
     (if ok then \<forall>i fd. HandOver i fd \<in> set acts \<longleftrightarrow> i < 3 \<and> actions ! i = PSC_SA_PIPE \<and> parent_end e i fd
      else (\<forall>i fd. HandOver i fd \<notin> set acts) \<and> last acts = RunTryDestroy)"
proof -
  obtain p ok acts where m: "make_pipes e cb actions [0, 1, 2] (\<lambda>_. (-1, -1)) [] = (p, ok, acts)" by (metis prod_cases3)
  have nc: "HandOver i fd \<notin> set (concat (map (close_pipe q) [0, 1, 2]))" for i fd q by (auto simp: close_pipe_def)
  show ?thesis
  proof (cases "\<not> ok \<or> re_fork e < 0")
    case True
    then have "runprocess e cb 0 actions = (False, acts @ concat (map (close_pipe p) [0, 1, 2]) @ [RunTryDestroy])"
      using m by (simp add: runprocess_def)
    then show ?thesis using run_failed [OF assms m] make_pipes_start(4) [OF assms m] nc [of _ _ p] by (simp del: concat.simps list.map)
  next
    case False
    then have ok: "ok" by simp
    note m' = m [unfolded ok [THEN eqTrueI]]
    obtain p0 h0 p1 h1 p2 h2 where h: "hand_over actions p 0 = (p0, h0)" "hand_over actions p0 1 = (p1, h1)" "hand_over actions p1 2 = (p2, h2)"
      by (metis prod.exhaust)
    have run: "runprocess e cb 0 actions = (True, acts @ h0 @ h1 @ h2 @ concat (map (close_pipe p2) [0, 1, 2]))"
      using m False h by (simp add: runprocess_def)
    note r = run_started [OF assms m' h]
    have "HandOver i fd \<in> set (acts @ h0 @ h1 @ h2 @ concat (map (close_pipe p2) [0, 1, 2])) \<longleftrightarrow> HandOver i fd \<in> set h0 \<union> set h1 \<union> set h2" for i fd
      using make_pipes_start(4) [OF assms m'] nc [of i fd p2] unfolding set_append by blast
    moreover have "i < 3 \<Longrightarrow> actions ! i = PSC_SA_PIPE \<Longrightarrow> parent_end e i fd \<longleftrightarrow> fd = pipe_end p i (stdfddir i)" for i fd
      using make_pipes_start(5) [OF assms m', of i] by (cases "p i") (auto simp: parent_end_def pipe_end_def stdfddir_def)
    ultimately show ?thesis using r unfolding run by auto
  qed
qed

definition example_run :: run_env where
  "example_run = \<lparr>re_pipe = (\<lambda>i. if i = 0 then Some (5, 6) else if i = 1 then Some (7, 8) else None), re_valid = (\<lambda>_. True), re_fork = 100\<rparr>"

theorem process_pipes_witness:
  "good_env example_run \<and> (case runprocess example_run True 0 [PSC_SA_PIPE, PSC_SA_PIPE, PSC_SA_LEAVE] of (ok, acts) \<Rightarrow>
     ok \<and> HandOver 0 6 \<in> set acts \<and> HandOver 1 7 \<in> set acts \<and> (\<forall>fd. count_list (made_fds acts) fd = count_list (act_fds acts) fd))"
proof -
  have g: "good_env example_run" by (auto simp: good_env_def example_run_def split: if_splits)
  have "fst (runprocess example_run True 0 [PSC_SA_PIPE, PSC_SA_PIPE, PSC_SA_LEAVE])"
    by (simp add: runprocess_def example_run_def createPipe_def hand_over_def stdfddir_def)
  with process_pipes [where cb = True and actions = "[PSC_SA_PIPE, PSC_SA_PIPE, PSC_SA_LEAVE]", OF g] g show ?thesis
    by (auto simp: parent_end_def example_run_def split: prod.splits)
qed



text \<open>
  The arguments of a child are the name, or a null pointer if none was given, and then the
  arguments in the order in which they were added, ended by a null pointer, however the
  calls that set them are mixed; the array never overflows.
\<close>
theorem process_arguments:
  "Option.bind (args_run os PSC_ProcessOpts_create) process_args = Some (args_spec os @ [None])"
proof -
  have "args_rep PSC_ProcessOpts_create []" by (simp add: args_rep_def PSC_ProcessOpts_create_def)
  then obtain self where self: "args_run os PSC_ProcessOpts_create = Some self" "args_rep self (args_fold os [])"
    using args_run_rep by blast
  then show ?thesis using process_args_rep [OF self(2)]
    by (cases os) (simp_all add: args_fold_spec args_spec_def last_name_def added_args_def)
qed

text \<open>
  In the child, each standard stream is what was asked for, as long as no stream is to be
  redirected to the null device: left alone, closed, or the end of its pipe; and the other ends
  of the pipes are closed.
\<close>
theorem process_child_streams:
  assumes "length actions = 3" "PSC_SA_NULL \<notin> set actions"
    and "\<forall>i<3. actions ! i = PSC_SA_PIPE \<longrightarrow> 2 < fst (p i) \<and> 2 < snd (p i) \<and> t (fst (p i)) = Some (PipeRead i) \<and> t (snd (p i)) = Some (PipeWrite i)"
  shows "\<exists>t'. prepareChild nulldev actions p t = Some t' \<and>
     (\<forall>i<3. (actions ! i = PSC_SA_LEAVE \<longrightarrow> t' (int i) = t (int i)) \<and> (actions ! i = PSC_SA_CLOSE \<longrightarrow> t' (int i) = None) \<and>
       (actions ! i = PSC_SA_PIPE \<longrightarrow> t' (int i) = Some (if i = 0 then PipeRead 0 else PipeWrite i) \<and> t' (pipe_end p i (stdfddir i)) = None))"
proof -
  let ?c = "\<lambda>i. pipe_end p i (1 - stdfddir i)" and ?r = "\<lambda>i. pipe_end p i (stdfddir i)"
  have act: "actions ! 0 \<noteq> PSC_SA_NULL" "actions ! 1 \<noteq> PSC_SA_NULL" "actions ! 2 \<noteq> PSC_SA_NULL"
    using assms(1,2) by (metis less3 nth_mem)+
  have pos: "2 < ?c i \<and> 2 < ?r i \<and> t (?c i) = Some (if i = 0 then PipeRead 0 else PipeWrite i) \<and> t (?r i) = Some (if i = 0 then PipeWrite 0 else PipeRead i)"
    if "i < 3" "actions ! i = PSC_SA_PIPE" for i
    using assms(3) that by (simp add: pipe_end_def stdfddir_def)
  have diff: "?c i \<noteq> ?r j" if "i < 3" "j < 3" "actions ! i = PSC_SA_PIPE" "actions ! j = PSC_SA_PIPE" for i j
    using pos [of i] pos [of j] that by (auto split: if_splits)
  define t0 where "t0 = stream_upd actions p 0 t"
  define t1 where "t1 = stream_upd actions p 1 t0"
  have c1: "t0 (?c 1) = t (?c 1)" if "actions ! 1 = PSC_SA_PIPE"
    unfolding t0_def using pos [of 1] diff [of 1 0] that by (intro stream_upd_other) auto
  have c2: "t1 (?c 2) = t (?c 2)" if "actions ! 2 = PSC_SA_PIPE"
  proof -
    have "t1 (?c 2) = t0 (?c 2)" unfolding t1_def using pos [of 2] diff [of 2 1] that by (intro stream_upd_other) auto
    also have "\<dots> = t (?c 2)" unfolding t0_def using pos [of 2] diff [of 2 0] that by (intro stream_upd_other) auto
    finally show ?thesis .
  qed
  have "prepare_stream nulldev (actions ! 0) p 0 (-1, t) = Some (-1, t0)" unfolding t0_def
    using act pos [of 0] by (intro prepare_stream_upd) auto
  moreover have "prepare_stream nulldev (actions ! 1) p 1 (-1, t0) = Some (-1, t1)" unfolding t1_def
    using act pos [of 1] c1 by (intro prepare_stream_upd) auto
  moreover have "prepare_stream nulldev (actions ! 2) p 2 (-1, t1) = Some (-1, stream_upd actions p 2 t1)"
    using act pos [of 2] c2 by (intro prepare_stream_upd) auto
  ultimately have run: "prepareChild nulldev actions p t = Some (stream_upd actions p 2 t1)" by (simp add: prepareChild_def)
  note r = pos [THEN conjunct2, THEN conjunct1]
  have std: "\<And>i j u. i < 3 \<Longrightarrow> j < 3 \<Longrightarrow> i \<noteq> j \<Longrightarrow> stream_upd actions p i u (int j) = u (int j)" using r by (intro stream_upd_std) auto
  have v: "stream_upd actions p 2 t1 0 = t0 0" "stream_upd actions p 2 t1 1 = t1 1" "t1 0 = t0 0" "t0 1 = t 1" "t1 2 = t 2"
    using std [of 2 0 t1] std [of 1 0 t0] std [of 2 1 t1] std [of 0 1 t] std [of 1 2 t0] std [of 0 2 t] by (simp_all add: t0_def t1_def)
  have none: "actions ! 0 = PSC_SA_PIPE \<Longrightarrow> stream_upd actions p 2 t1 (?r 0) = None" "actions ! 1 = PSC_SA_PIPE \<Longrightarrow> stream_upd actions p 2 t1 (?r 1) = None"
  proof -
    assume a: "actions ! 0 = PSC_SA_PIPE"
    have "t0 (?r 0) = None" unfolding t0_def by (rule stream_upd_self(4) [OF a])
    then have "t1 (?r 0) = None" unfolding t1_def using r [of 0] a by (intro stream_upd_none) auto
    then show "stream_upd actions p 2 t1 (?r 0) = None" using r [of 0] a by (intro stream_upd_none) auto
  next
    assume a: "actions ! 1 = PSC_SA_PIPE"
    have "t1 (?r 1) = None" unfolding t1_def by (rule stream_upd_self(4) [OF a])
    then show "stream_upd actions p 2 t1 (?r 1) = None" using r [of 1] a by (intro stream_upd_none) auto
  qed
  have "(actions ! i = PSC_SA_LEAVE \<longrightarrow> stream_upd actions p 2 t1 (int i) = t (int i)) \<and>
       (actions ! i = PSC_SA_CLOSE \<longrightarrow> stream_upd actions p 2 t1 (int i) = None) \<and>
       (actions ! i = PSC_SA_PIPE \<longrightarrow> stream_upd actions p 2 t1 (int i) = Some (if i = 0 then PipeRead 0 else PipeWrite i) \<and>
          stream_upd actions p 2 t1 (?r i) = None)" if i: "i < 3" for i
  proof -
    consider "i = 0" | "i = 1" | "i = 2" using i by linarith
    then show ?thesis
    proof cases
      case 1
      then show ?thesis using v none(1) stream_upd_self [of actions 0 p t] pos [of 0] by (auto simp: t0_def)
    next
      case 2
      then show ?thesis using v none(2) stream_upd_self [of actions 1 p t0] pos [of 1] c1 by (auto simp: t1_def)
    next
      case 3
      then show ?thesis using v stream_upd_self [of actions 2 p t1] pos [of 2] c2 by auto
    qed
  qed
  with run show ?thesis by blast
qed

definition example_table :: fdtable where
  "example_table fd = (if fd = 5 then Some (PipeRead 1) else if fd = 6 then Some (PipeWrite 1) else if 0 \<le> fd \<and> fd < 3 then Some (Inherited fd) else None)"

theorem process_child_streams_witness:
  "\<exists>t'. prepareChild (-1) [PSC_SA_CLOSE, PSC_SA_PIPE, PSC_SA_LEAVE] (\<lambda>_. (5, 6)) example_table = Some t' \<and>
     t' 0 = None \<and> t' 1 = Some (PipeWrite 1) \<and> t' 2 = Some (Inherited 2)"
proof -
  have "\<forall>i<3. [PSC_SA_CLOSE, PSC_SA_PIPE, PSC_SA_LEAVE] ! i = PSC_SA_PIPE \<longrightarrow>
      2 < fst (5 :: int, 6 :: int) \<and> 2 < snd (5 :: int, 6 :: int) \<and> example_table (fst (5, 6)) = Some (PipeRead i) \<and> example_table (snd (5, 6)) = Some (PipeWrite i)"
    by (auto simp: less3 example_table_def)
  from process_child_streams [OF _ _ this, of "-1"] obtain t' where
    t': "prepareChild (-1) [PSC_SA_CLOSE, PSC_SA_PIPE, PSC_SA_LEAVE] (\<lambda>_. (5, 6)) example_table = Some t'"
    and all: "\<forall>i<3. ([PSC_SA_CLOSE, PSC_SA_PIPE, PSC_SA_LEAVE] ! i = PSC_SA_LEAVE \<longrightarrow> t' (int i) = example_table (int i)) \<and>
       ([PSC_SA_CLOSE, PSC_SA_PIPE, PSC_SA_LEAVE] ! i = PSC_SA_CLOSE \<longrightarrow> t' (int i) = None) \<and>
       ([PSC_SA_CLOSE, PSC_SA_PIPE, PSC_SA_LEAVE] ! i = PSC_SA_PIPE \<longrightarrow> t' (int i) = Some (if i = 0 then PipeRead 0 else PipeWrite i))"
    by auto
  show ?thesis using t' all [rule_format, of 0] all [rule_format, of 1] all [rule_format, of 2] by (auto simp: example_table_def)
qed

text \<open>
  Redirecting to the null device does not work: the result of the comparison is stored
  instead of the descriptor.  A child whose standard input is to be the null device has it
  closed, and one whose standard output is to be the null device writes to the standard input
  of the parent and has its own standard input closed.
\<close>
theorem process_null_device:
  assumes "t 0 = Some f" "3 \<le> nulldev"
  shows "(\<exists>t'. prepareChild nulldev [PSC_SA_NULL, PSC_SA_LEAVE, PSC_SA_LEAVE] p t = Some t' \<and> t' 0 = None) \<and>
    (\<exists>t'. prepareChild nulldev [PSC_SA_LEAVE, PSC_SA_NULL, PSC_SA_LEAVE] p t = Some t' \<and> t' 0 = None \<and> t' 1 = Some f)"
  using assms by (simp add: prepareChild_def prepare_stream_def dup2_def fd_close_def)

theorem process_null_device_witness:
  "\<exists>t'. prepareChild 3 [PSC_SA_NULL, PSC_SA_LEAVE, PSC_SA_LEAVE] (\<lambda>_. (-1, -1)) example_table = Some t' \<and> t' 0 = None"
  using process_null_device [of example_table "Inherited 0" 3 "\<lambda>_. (-1, -1)"] by (auto simp: example_table_def)

text \<open>
  The handler for exited children is never unregistered.  When the number of a process is used
  again after its object was freed, the handler runs on freed memory.
\<close>

lemma process_pid_reused: "pr_freed p \<Longrightarrow> childExited ea p = None"
  by (simp add: childExited_def endprocess_def)


end
