(* ===== verification/Poser_Random.thy ===== *)
theory Poser_Random
  imports Poser_Base64
begin

text \<open>
  Random data (\<open>src/lib/core/random.c\<close>), in the builds without \<open>arc4random\<close>: the loop around
  \<open>getrandom\<close> with its two sets of flags, the one that reads the devices, the internal generator for the
  case that it fails, and random strings.
\<close>

section \<open>Flags\<close>

definition PSC_RF_NONBLOCK :: u32 where "PSC_RF_NONBLOCK = 1"
definition PSC_RF_WLOGPSEUDO :: u32 where "PSC_RF_WLOGPSEUDO = 2"
definition PSC_RF_ELOGPSEUDO :: u32 where "PSC_RF_ELOGPSEUDO = 4"
definition PSC_RF_SECURE :: u32 where "PSC_RF_SECURE = 8"
definition GRND_NONBLOCK :: u32 where "GRND_NONBLOCK = 1"
definition GRND_RANDOM :: u32 where "GRND_RANDOM = 2"

section \<open>The internal generator\<close>

text \<open>
  The static variables of \<open>prng\<close>: the mutex, the flag and the four words.  Locking a mutex that
  the same thread holds does not return; that is \<^const>\<open>None\<close>.  \<open>fuel\<close> bounds the depth of the
  calls of the function by itself.
\<close>

record prng_state =
  pg_locked :: bool
  pg_seeded :: bool
  pg_s0 :: u64
  pg_s1 :: u64
  pg_s2 :: u64
  pg_s3 :: u64

definition prng_init :: prng_state where
  "prng_init = \<lparr>pg_locked = False, pg_seeded = False, pg_s0 = 0, pg_s1 = 0, pg_s2 = 0, pg_s3 = 0\<rparr>"

definition prng_next :: "prng_state \<Rightarrow> u64 \<times> prng_state" where
  "prng_next g =
     (let num = pg_s0 g + pg_s3 g;
          tmp = push_bit 17 (pg_s1 g);
          s2 = pg_s2 g XOR pg_s0 g;
          s3 = pg_s3 g XOR pg_s1 g;
          s1 = pg_s1 g XOR s2;
          s0 = pg_s0 g XOR s3;
          s2 = s2 XOR tmp;
          s3 = push_bit 45 s3 OR drop_bit 19 s3
      in (num, g\<lparr>pg_s0 := s0, pg_s1 := s1, pg_s2 := s2, pg_s3 := s3\<rparr>))"

fun times :: "nat \<Rightarrow> ('a \<Rightarrow> 'a option) \<Rightarrow> 'a \<Rightarrow> 'a option" where
  "times 0 f x = Some x"
| "times (Suc n) f x = Option.bind (f x) (times n f)"

fun prng :: "nat \<Rightarrow> u64 \<Rightarrow> prng_state \<Rightarrow> (u64 \<times> prng_state) option" where
  "prng 0 now g = None"
| "prng (Suc fuel) now g =
     (if pg_locked g then None
      else do {
        let g = g\<lparr>pg_locked := True\<rparr>;
        g \<leftarrow> (if \<not> pg_seeded g
          then times 100 (\<lambda>g. map_option snd (prng fuel now g)) (g\<lparr>pg_seeded := True, pg_s0 := now\<rparr>)
          else Some g);
        let (num, g) = prng_next g;
        Some (num, g\<lparr>pg_locked := False\<rparr>) })"

section \<open>Random bytes\<close>

text \<open>The result of one call of \<open>getrandom\<close>.\<close>

datatype gr_result = Got bytes | E_INTR | E_AGAIN | E_OTHER

record gr_state =
  gr_bytes :: bytes
  gr_dolog :: nat
  gr_flags :: u32
  gr_logs :: nat
  gr_used :: "u32 list"

text \<open>
  The loop consumes the results of the calls it makes; \<^const>\<open>None\<close> means that it is still
  running when the given results are used up.  \<open>gr_used\<close> records the flags of the calls.
\<close>

fun gr_loop :: "nat \<Rightarrow> u32 \<Rightarrow> u32 \<Rightarrow> gr_result list \<Rightarrow> gr_state \<Rightarrow> gr_state option" where
  "gr_loop count flags grflags2 rs st =
     (if count \<le> length (gr_bytes st) then Some st
      else case rs of
        [] \<Rightarrow> None
      | r # rs \<Rightarrow>
          let st = (if gr_dolog st = 1 \<and> flags AND (PSC_RF_WLOGPSEUDO OR PSC_RF_ELOGPSEUDO) \<noteq> 0
                then st\<lparr>gr_logs := gr_logs st + 1, gr_dolog := gr_dolog st + 1\<rparr> else st);
              st = st\<lparr>gr_used := gr_used st @ [gr_flags st]\<rparr>
          in case r of
            E_INTR \<Rightarrow> gr_loop count flags grflags2 rs st
          | E_OTHER \<Rightarrow> Some st
          | E_AGAIN \<Rightarrow> gr_loop count flags grflags2 rs
              (if gr_dolog st = 0 then st\<lparr>gr_flags := grflags2, gr_dolog := 1\<rparr> else st)
          | Got bs \<Rightarrow> gr_loop count flags grflags2 rs
              ((if gr_dolog st = 0 then st\<lparr>gr_flags := grflags2, gr_dolog := 1\<rparr> else st)\<lparr>gr_bytes := gr_bytes st @ bs\<rparr>))"

declare gr_loop.simps [simp del]

definition gr_flags2 :: "u32 \<Rightarrow> u32" where
  "gr_flags2 flags = (if flags AND PSC_RF_NONBLOCK \<noteq> 0 then GRND_NONBLOCK else 0) OR (if flags AND PSC_RF_SECURE \<noteq> 0 then GRND_RANDOM else 0)"

definition gr_flags1 :: "u32 \<Rightarrow> u32" where
  "gr_flags1 flags = (if flags AND PSC_RF_NONBLOCK \<noteq> 0 then GRND_NONBLOCK else 0) OR
     (if flags AND (PSC_RF_WLOGPSEUDO OR PSC_RF_ELOGPSEUDO) \<noteq> 0 then GRND_RANDOM else 0)"

definition gr_start :: "u32 \<Rightarrow> gr_state" where
  "gr_start flags = \<lparr>gr_bytes = [], gr_dolog = 0, gr_flags = gr_flags1 flags, gr_logs = 0, gr_used = []\<rparr>"

text \<open>The bytes of a 64-bit number in memory (the generator is used for whole numbers and a rest).\<close>

definition u64_bytes :: "u64 \<Rightarrow> bytes" where
  "u64_bytes x = map (\<lambda>i. ucast (drop_bit (8 * i) x)) [0..<8]"

fun prng_chunks :: "nat \<Rightarrow> u64 \<Rightarrow> prng_state \<Rightarrow> bytes \<Rightarrow> (bytes \<times> prng_state) option" where
  "prng_chunks 0 now g bs = Some (bs, g)"
| "prng_chunks (Suc n) now g bs = do { (rn, g) \<leftarrow> prng 2 now g; prng_chunks n now g (bs @ u64_bytes rn) }"

text \<open>The end of \<open>PSC_Random_bytes\<close>: what is missing comes from the internal generator.\<close>

definition prng_fill :: "nat \<Rightarrow> u32 \<Rightarrow> u64 \<Rightarrow> bytes \<Rightarrow> prng_state \<Rightarrow> (bytes \<times> prng_state) option" where
  "prng_fill count flags now b g =
     (if length b < count then
       if flags AND PSC_RF_SECURE \<noteq> 0 then Some (b, g)
       else do {
         let chunks = (count - length b) div 8; let rest = (count - length b) mod 8;
         (b, g) \<leftarrow> (if rest \<noteq> 0 then do { (rn, g) \<leftarrow> prng 2 now g; Some (b @ take rest (u64_bytes rn), g) } else Some (b, g));
         prng_chunks chunks now g b }
     else Some (b, g))"

definition PSC_Random_bytes :: "nat \<Rightarrow> u32 \<Rightarrow> gr_result list \<Rightarrow> u64 \<Rightarrow> prng_state \<Rightarrow> (bytes \<times> prng_state) option" where
  "PSC_Random_bytes count flags rs now g = do {
     st \<leftarrow> gr_loop count flags (gr_flags2 flags) rs (gr_start flags);
     prng_fill count flags now (gr_bytes st) g }"

text \<open>
  The build without \<open>getrandom\<close> reads \<open>/dev/random\<close> and after the first read \<open>/dev/urandom\<close>;
  \<open>open2\<close> is whether the latter can be opened.  A result with \<^const>\<open>True\<close> is returned at once,
  the other ones go on to the internal generator.
\<close>

fun dev_loop :: "nat \<Rightarrow> u32 \<Rightarrow> bool \<Rightarrow> gr_result list \<Rightarrow> bytes \<Rightarrow> nat \<Rightarrow> (bool \<times> bytes) option" where
  "dev_loop count flags open2 rs b doswitch =
     (if count \<le> length b then Some (False, b)
      else case rs of
        [] \<Rightarrow> None
      | r # rs \<Rightarrow>
          let doswitch = (if doswitch = 1 \<and> flags AND (PSC_RF_WLOGPSEUDO OR PSC_RF_ELOGPSEUDO) \<noteq> 0 then doswitch + 1 else doswitch)
          in case r of
            E_INTR \<Rightarrow> dev_loop count flags open2 rs b doswitch
          | E_OTHER \<Rightarrow> Some (False, b)
          | _ \<Rightarrow>
            let b = b @ (case r of Got bs \<Rightarrow> bs | _ \<Rightarrow> [])
            in if length b < count \<and> doswitch = 0 then
                 if flags AND PSC_RF_SECURE \<noteq> 0 then Some (True, b)
                 else if \<not> open2 then Some (False, b)
                 else dev_loop count flags open2 rs b (doswitch + 1)
               else dev_loop count flags open2 rs b doswitch)"

declare dev_loop.simps [simp del]

definition PSC_Random_bytes_dev :: "nat \<Rightarrow> u32 \<Rightarrow> bool \<Rightarrow> bool \<Rightarrow> gr_result list \<Rightarrow> u64 \<Rightarrow> prng_state \<Rightarrow> (bytes \<times> prng_state) option" where
  "PSC_Random_bytes_dev count flags open1 open2 rs now g = do {
     (ret, b) \<leftarrow> (if \<not> open1
       then if flags AND PSC_RF_SECURE \<noteq> 0 then Some (True, [])
            else if \<not> open2 then Some (False, [])
            else dev_loop count flags open2 rs [] 1
       else dev_loop count flags open2 rs [] 0);
     if ret then Some (b, g) else prng_fill count flags now b g }"

section \<open>Random strings\<close>

text \<open>
  \<open>str\<close> has room for \<open>size\<close> characters; \<open>random\<close> stands for the call of \<open>PSC_Random_bytes\<close>.  The
  size is positive, as \<open>size - 1\<close> of zero is not representable.
\<close>

definition PSC_Random_string :: "(nat \<Rightarrow> bytes) \<Rightarrow> nat \<Rightarrow> u32 \<Rightarrow> (char buf \<times> nat) option" where
  "PSC_Random_string random size1 b64flags = do {
     let count = PSC_Base64_decodedSize (size1 - 1);
     let got = random count;
     let size2 = (if length got < count then PSC_Base64_encodedLen (length got) + 1 else size1);
     str \<leftarrow> PSC_Base64_encodeTo (buf_alloc size1) 0 got b64flags;
     Some (str, size2) }"

definition PSC_Random_createStr :: "(nat \<Rightarrow> bytes) \<Rightarrow> nat \<Rightarrow> u32 \<Rightarrow> char buf option option" where
  "PSC_Random_createStr random count b64flags =
     (let got = random count in
      if length got = count then map_option Some (PSC_Base64_encode got b64flags) else Some None)"

section \<open>Lemmas\<close>

lemma prng_locked: "pg_locked g \<Longrightarrow> prng fuel now g = None"
  by (cases fuel) auto

lemma times_none: "f x = None \<Longrightarrow> 0 < n \<Longrightarrow> times n f x = None"
  by (cases n) auto

lemma prng_unseeded: "\<not> pg_seeded g \<Longrightarrow> prng fuel now g = None"
proof (cases fuel)
  case (Suc f)
  assume "\<not> pg_seeded g"
  moreover have "times 100 (\<lambda>g. map_option snd (prng f now g)) (g\<lparr>pg_locked := True, pg_seeded := True, pg_s0 := now\<rparr>) = None"
    by (rule times_none) (simp_all add: prng_locked)
  ultimately show ?thesis using Suc by (simp add: Let_def)
qed simp

fun delivered :: "gr_result list \<Rightarrow> bytes" where
  "delivered [] = []"
| "delivered (Got bs # rs) = bs @ delivered rs"
| "delivered (_ # rs) = delivered rs"

lemma gr_loop_result:
  "gr_loop count flags f2 rs st = Some st' \<Longrightarrow>
   \<exists>n\<le>length rs. gr_bytes st' = gr_bytes st @ delivered (take n rs) \<and>
     (length (gr_bytes st') < count \<longrightarrow> n \<noteq> 0 \<and> rs ! (n - 1) = E_OTHER)"
proof (induction rs arbitrary: st)
  case Nil
  then show ?case by (simp add: gr_loop.simps [of _ _ _ "[]"] split: if_splits)
next
  case (Cons r rs)
  show ?case
  proof (cases "count \<le> length (gr_bytes st)")
    case True
    with Cons.prems show ?thesis by (intro exI [of _ 0]) (simp add: gr_loop.simps [of _ _ _ "r # rs"])
  next
    case False
    define s1 where "s1 = (let st = (if gr_dolog st = 1 \<and> flags AND (PSC_RF_WLOGPSEUDO OR PSC_RF_ELOGPSEUDO) \<noteq> 0
                then st\<lparr>gr_logs := gr_logs st + 1, gr_dolog := gr_dolog st + 1\<rparr> else st) in st\<lparr>gr_used := gr_used st @ [gr_flags st]\<rparr>)"
    have s1: "gr_bytes s1 = gr_bytes st" by (simp add: s1_def Let_def)
    define s2 where "s2 = (if gr_dolog s1 = 0 then s1\<lparr>gr_flags := f2, gr_dolog := 1\<rparr> else s1)"
    have s2: "gr_bytes s2 = gr_bytes st" by (simp add: s2_def s1)
    have eq: "gr_loop count flags f2 (r # rs) st = (case r of E_INTR \<Rightarrow> gr_loop count flags f2 rs s1 | E_OTHER \<Rightarrow> Some s1
        | E_AGAIN \<Rightarrow> gr_loop count flags f2 rs s2 | Got bs \<Rightarrow> gr_loop count flags f2 rs (s2\<lparr>gr_bytes := gr_bytes s1 @ bs\<rparr>))"
      using False unfolding s2_def s1_def by (simp add: gr_loop.simps [of _ _ _ "r # rs"] Let_def cong: gr_result.case_cong)
    have step: "\<exists>n\<le>length (r # rs). gr_bytes st' = gr_bytes st @ delivered (take n (r # rs)) \<and>
        (length (gr_bytes st') < count \<longrightarrow> n \<noteq> 0 \<and> (r # rs) ! (n - 1) = E_OTHER)"
      if g: "gr_loop count flags f2 rs s = Some st'" and b: "gr_bytes s = gr_bytes st @ delivered [r]" for s
    proof -
      obtain n where n: "n \<le> length rs" "gr_bytes st' = gr_bytes s @ delivered (take n rs)"
          "length (gr_bytes st') < count \<longrightarrow> n \<noteq> 0 \<and> rs ! (n - 1) = E_OTHER" using Cons.IH [OF g] by blast
      have "delivered (r # take n rs) = delivered [r] @ delivered (take n rs)" by (cases r) simp_all
      with n b show ?thesis by (intro exI [of _ "Suc n"]) (auto simp: nth_Cons')
    qed
    show ?thesis
    proof (cases r)
      case (Got bs)
      then show ?thesis using Cons.prems eq step [of "s2\<lparr>gr_bytes := gr_bytes s1 @ bs\<rparr>"] s1 by simp
    next
      case E_INTR
      then show ?thesis using Cons.prems eq step [of s1] s1 by simp
    next
      case E_AGAIN
      then show ?thesis using Cons.prems eq step [of s2] s2 by simp
    next
      case E_OTHER
      then have "st' = s1" using Cons.prems eq by simp
      then show ?thesis using E_OTHER s1 by (intro exI [of _ 1]) simp
    qed
  qed
qed

lemma gr_loop_again: "length (gr_bytes st) < count \<Longrightarrow> gr_loop count flags f2 (replicate n E_AGAIN) st = None"
proof (induction n arbitrary: st)
  case (Suc n)
  then show ?case by (simp add: gr_loop.simps [of _ _ _ "E_AGAIN # replicate n E_AGAIN"] Let_def)
qed (simp add: gr_loop.simps [of _ _ _ "[]"])

lemma encoded_decoded:
  assumes "0 < size1"
  shows "PSC_Base64_encodedLen (PSC_Base64_decodedSize (size1 - 1)) = size1 - 1 + (if size1 mod 4 = 2 then 1 else 0)"
proof -
  define q r where "q = (size1 - 1) div 4" and "r = (size1 - 1) mod 4"
  have n: "size1 - 1 = 4 * q + r" "r < 4" by (simp_all add: q_def r_def)
  then have s: "size1 = 4 * q + (r + 1)" using assms by linarith
  have m: "size1 mod 4 = 2 \<longleftrightarrow> r = 1" unfolding s using n(2) by (cases "r = 0"; cases "r = 1"; cases "r = 2"; auto simp: mod_Suc)
  consider "r = 0" | "r = 1" | "r = 2" | "r = 3" using n(2) by linarith
  then show ?thesis unfolding m n(1)
  proof cases
    case 3
    have "(4 * q + 2) mod 4 = 2" "(4 * q + 2) div 4 = q" "(3 * q + 1) mod 3 = 1" "(3 * q + 1) div 3 = q" by presburger+
    with 3 show "PSC_Base64_encodedLen (PSC_Base64_decodedSize (4 * q + r)) = 4 * q + r + (if r = 1 then 1 else 0)"
      by (simp add: PSC_Base64_decodedSize_def PSC_Base64_encodedLen_def Let_def)
  next
    case 4
    have "(4 * q + 3) mod 4 = 3" "(4 * q + 3) div 4 = q" "(3 * q + 2) mod 3 = 2" "(3 * q + 2) div 3 = q" by presburger+
    with 4 show "PSC_Base64_encodedLen (PSC_Base64_decodedSize (4 * q + r)) = 4 * q + r + (if r = 1 then 1 else 0)"
      by (simp add: PSC_Base64_decodedSize_def PSC_Base64_encodedLen_def Let_def)
  qed (simp_all add: PSC_Base64_decodedSize_def PSC_Base64_encodedLen_def Let_def)
qed

section \<open>Properties\<close>

text \<open>
  A request for secure random data never falls back to the internal generator: the result
  is what the system delivered, in order, and it is complete unless a call failed for good.
\<close>
theorem random_secure:
  assumes "flags AND PSC_RF_SECURE \<noteq> 0" "PSC_Random_bytes count flags rs now g = Some (b, g')"
  shows "g' = g \<and> (\<exists>n\<le>length rs. b = delivered (take n rs) \<and> (length b < count \<longrightarrow> n \<noteq> 0 \<and> rs ! (n - 1) = E_OTHER))"
proof -
  obtain st where st: "gr_loop count flags (gr_flags2 flags) rs (gr_start flags) = Some st" "b = gr_bytes st" "g' = g"
    using assms by (auto simp: PSC_Random_bytes_def prng_fill_def Let_def split: if_splits bind_splits)
  show ?thesis using gr_loop_result [OF st(1)] st(2,3) by (simp add: gr_start_def)
qed

theorem random_secure_witness:
  "PSC_Random_bytes 3 PSC_RF_SECURE [E_INTR, Got [7, 8], E_AGAIN, Got [9]] 0 prng_init = Some ([7, 8, 9], prng_init) \<and>
   (\<exists>n\<le>4. [7, 8, 9] = delivered (take n [E_INTR, Got [7, 8], E_AGAIN, Got [9]]))"
proof -
  have "PSC_RF_SECURE AND PSC_RF_SECURE \<noteq> 0" by (simp add: PSC_RF_SECURE_def)
  moreover have r: "PSC_Random_bytes 3 PSC_RF_SECURE [E_INTR, Got [7, 8], E_AGAIN, Got [9]] 0 prng_init = Some ([7, 8, 9], prng_init)"
    by (simp add: PSC_Random_bytes_def prng_fill_def gr_start_def gr_loop.simps Let_def PSC_RF_SECURE_def PSC_RF_WLOGPSEUDO_def PSC_RF_ELOGPSEUDO_def)
  ultimately show ?thesis using random_secure [of PSC_RF_SECURE 3 "[E_INTR, Got [7, 8], E_AGAIN, Got [9]]" 0 prng_init "[7, 8, 9]" prng_init] by auto
qed

text \<open>
  The internal generator cannot be used: its first call locks the mutex and then calls
  itself to warm up, which waits for the same mutex for ever.  So a request that is not for
  secure data never returns when the system fails.
\<close>
theorem random_prng_deadlocks:
  assumes "flags AND PSC_RF_SECURE = 0" "0 < count"
  shows "prng fuel now prng_init = None \<and> PSC_Random_bytes count flags [E_OTHER] now prng_init = None"
proof -
  have p: "prng f now prng_init = None" for f by (rule prng_unseeded) (simp add: prng_init_def)
  have l: "gr_loop count flags (gr_flags2 flags) [E_OTHER] (gr_start flags) = Some ((gr_start flags)\<lparr>gr_used := [gr_flags1 flags]\<rparr>)"
    using assms(2) by (simp add: gr_loop.simps gr_start_def)
  have b: "gr_bytes ((gr_start flags)\<lparr>gr_used := [gr_flags1 flags]\<rparr>) = []" by (simp add: gr_start_def)
  have c: "prng_chunks n now prng_init bs = None" if "0 < n" for n bs using that p [of 2] by (cases n) simp_all
  have "PSC_Random_bytes count flags [E_OTHER] now prng_init = None"
  proof (cases "count mod 8 = 0")
    case True
    then have "0 < count div 8" using assms(2) by auto
    then show ?thesis using True assms c [of "count div 8" "[]"] unfolding PSC_Random_bytes_def l by (simp add: b prng_fill_def Let_def)
  next
    case False
    then show ?thesis using assms p [of 2] unfolding PSC_Random_bytes_def l by (simp add: b prng_fill_def Let_def)
  qed
  with p show ?thesis by blast
qed

theorem random_prng_deadlocks_witness: "PSC_Random_bytes 4 0 [E_OTHER] 0 prng_init = None"
  using random_prng_deadlocks [of 0 4 1 0] by simp

text \<open>
  C22: A random string fits its buffer and fills it, terminator included, exactly if the size
  is not two more than a multiple of four; for those sizes the encoding is one character too
  long and is written beyond the end of the buffer.
\<close>
theorem random_string_fits:
  assumes "0 < size1" "\<And>n. length (random n) = n"
  shows "if size1 mod 4 = 2 then PSC_Random_string random size1 b64flags = None
     else \<exists>s. PSC_Random_string random size1 b64flags = Some (map Some (s @ [NUL]), size1) \<and> length s = size1 - 1 \<and> NUL \<notin> set s"
proof -
  define count where "count = PSC_Base64_decodedSize (size1 - 1)"
  define s where "s = enc_chars (random count) b64flags"
  have len: "length s = size1 - 1 + (if size1 mod 4 = 2 then 1 else 0)"
    using encoded_decoded [OF assms(1)] by (simp add: s_def length_enc_chars assms(2) count_def)
  have run: "PSC_Random_string random size1 b64flags = Option.bind (buf_store (buf_alloc size1) 0 (s @ [NUL])) (\<lambda>str. Some (str, size1))"
    by (simp add: PSC_Random_string_def count_def assms(2) encodeTo_store s_def Let_def)
  show ?thesis
  proof (cases "size1 mod 4 = 2")
    case True
    then have "buf_store (buf_alloc size1) 0 (s @ [NUL]) = None" using len assms(1) by (intro buf_store_overflow) auto
    with True run show ?thesis by simp
  next
    case False
    then have "buf_store (buf_alloc size1) 0 (s @ [NUL]) = Some (map Some (s @ [NUL]))"
      using len assms(1) by (subst buf_store_eq) auto
    then show ?thesis using False run len enc_chars_nonNUL by (auto simp: s_def)
  qed
qed

theorem random_string_fits_witness:
  "PSC_Random_string (\<lambda>n. replicate n 0) 6 PSC_B64_DEFAULT = None \<and>
   (\<exists>s. PSC_Random_string (\<lambda>n. replicate n 0) 9 PSC_B64_DEFAULT = Some (map Some (s @ [NUL]), 9) \<and> length s = 8)"
  using random_string_fits [of 6 "\<lambda>n. replicate n 0" PSC_B64_DEFAULT] random_string_fits [of 9 "\<lambda>n. replicate n 0" PSC_B64_DEFAULT] by auto

text \<open>
  With \<open>PSC_RF_NONBLOCK\<close> the loop does not give up while the system has no random data yet: it
  calls again at once, however often it is told to try again.
\<close>

lemma random_nonblock_spins: "0 < count \<Longrightarrow> PSC_Random_bytes count flags (replicate n E_AGAIN) now g = None"
  using gr_loop_again [of "gr_start flags" count flags "gr_flags2 flags" n] by (simp add: PSC_Random_bytes_def gr_start_def)

text \<open>
  The build that reads the devices gives up a secure request after the first read that is too
  short, and never falls back either.
\<close>

lemma dev_loop_secure:
  "flags AND PSC_RF_SECURE \<noteq> 0 \<Longrightarrow> dev_loop count flags open2 rs b doswitch = Some (ret, b') \<Longrightarrow>
   \<exists>n\<le>length rs. b' = b @ delivered (take n rs)"
proof (induction rs arbitrary: b doswitch)
  case Nil
  then show ?case by (simp add: dev_loop.simps [of _ _ _ "[]"] split: if_splits)
next
  case (Cons r rs)
  have step: ?case if run: "dev_loop count flags open2 rs (b @ delivered [r]) d = Some (ret, b')" for d
  proof -
    obtain n where n: "n \<le> length rs" "b' = (b @ delivered [r]) @ delivered (take n rs)" using Cons.IH [OF Cons.prems(1) run] by blast
    have "delivered (r # take n rs) = delivered [r] @ delivered (take n rs)" by (cases r) simp_all
    with n show ?thesis by (intro exI [of _ "Suc n"]) simp
  qed
  have stop: ?case if "b' = b" using that by (intro exI [of _ 0]) simp
  have stop1: ?case if "b' = b @ delivered [r]" using that by (intro exI [of _ 1]) simp
  have run: "dev_loop count flags open2 (r # rs) b doswitch = Some (ret, b')" using Cons.prems(2) .
  have "b' = b \<or> b' = b @ delivered [r] \<or> (\<exists>d. dev_loop count flags open2 rs (b @ delivered [r]) d = Some (ret, b'))"
    using Cons.prems(1) run [unfolded dev_loop.simps [of _ _ _ "r # rs"]] by (cases r) (simp_all add: Let_def split: if_splits, blast+)
  then show ?case using step stop stop1 by blast
qed

lemma random_dev_secure:
  assumes "flags AND PSC_RF_SECURE \<noteq> 0" "PSC_Random_bytes_dev count flags open1 open2 rs now g = Some (b, g')"
  shows "g' = g \<and> (\<exists>n\<le>length rs. b = delivered (take n rs))"
proof -
  have "g' = g \<and> (b = [] \<or> (\<exists>ret d. dev_loop count flags open2 rs [] d = Some (ret, b)))"
    using assms by (auto simp: PSC_Random_bytes_dev_def prng_fill_def split: if_splits bind_splits)
  then show ?thesis using dev_loop_secure [OF assms(1), of count open2 rs "[]"] by (fastforce intro: exI [of _ 0])
qed

end
