(* ===== verification/Poser_Daemon.thy ===== *)
theory Poser_Daemon
  imports Poser_StackMgr
begin

text \<open>
  Running as a daemon (\<open>src/lib/core/daemon.c\<close>): the pidfile with its locks, the two forks with
  the three processes that come out of them, the pipe over which the daemon reports to the
  process that started it, and what that process shows and returns.
\<close>

section \<open>The pidfile\<close>

text \<open>
  Results of the system calls of \<open>openpidfile\<close>, in the order of the calls.  A result of
  \<open>F_GETLK\<close> is \<^const>\<open>None\<close> when the call fails, otherwise the owner of a conflicting lock, if
  there is one; \<open>pe_scan\<close> is the number in the file.
\<close>

record pid_env =
  pe_fopen_r :: bool
  pe_getlk :: "int option option"
  pe_setlk_r :: bool
  pe_getlk2 :: "int option option"
  pe_scan :: "int option"
  pe_unlink :: bool
  pe_fopen_w :: bool
  pe_setlk_w :: bool

datatype pid_act =
    OpenRead | OpenWrite | CloseRead | CloseWrite | RemoveFile | WriteLock
  | ErrLockInfo | ErrRemove | ErrDisagree int int | ErrRunning int | ErrOpen | ErrLock

text \<open>The owner in the structure after \<open>F_GETLK\<close>; it stays zero when there is no lock.\<close>

definition lock_pid :: "int option option \<Rightarrow> int" where
  "lock_pid r = (case r of Some (Some p) \<Rightarrow> p | _ \<Rightarrow> 0)"

definition pid_locked :: "pid_env \<Rightarrow> int \<Rightarrow> pid_act list" where
  "pid_locked env l_pid =
     CloseRead # (case pe_scan env of
         None \<Rightarrow> [ErrDisagree (-1) l_pid]
       | Some pid \<Rightarrow> if pid \<noteq> l_pid then [ErrDisagree pid l_pid] else [ErrRunning pid])"

definition pid_create :: "pid_env \<Rightarrow> pid_act list \<Rightarrow> bool \<times> pid_act list" where
  "pid_create env acts =
     (if \<not> pe_fopen_w env then (False, acts @ [ErrOpen])
      else if \<not> pe_setlk_w env then (False, acts @ [OpenWrite, CloseWrite, ErrLock])
      else (True, acts @ [OpenWrite, WriteLock]))"

definition openpidfile :: "pid_env \<Rightarrow> bool \<times> pid_act list" where
  "openpidfile env =
     (if pe_fopen_r env then
        case pe_getlk env of
          None \<Rightarrow> (False, [OpenRead, ErrLockInfo])
        | Some (Some p) \<Rightarrow> (False, OpenRead # pid_locked env p)
        | Some None \<Rightarrow>
            if \<not> pe_setlk_r env then (False, OpenRead # pid_locked env (lock_pid (pe_getlk2 env)))
            else if \<not> pe_unlink env then (False, [OpenRead, ErrRemove])
            else pid_create env [OpenRead, RemoveFile, CloseRead]
      else pid_create env [])"

text \<open>Waiting for the lock repeats interrupted calls; \<^const>\<open>None\<close>: it still waits.\<close>

datatype lock_result = LockOk | LockIntr | LockErr

fun waitpflock :: "lock_result list \<Rightarrow> int option" where
  "waitpflock [] = None"
| "waitpflock (LockOk # _) = Some 0"
| "waitpflock (LockErr # _) = Some (-1)"
| "waitpflock (LockIntr # rs) = waitpflock rs"

section \<open>The parent\<close>

definition EXIT_SUCCESS :: int where "EXIT_SUCCESS = 0"
definition EXIT_FAILURE :: int where "EXIT_FAILURE = 1"

text \<open>
  The parent copies what it reads from the pipe to its standard error.  \<open>ws\<close> are the results of
  its calls of \<open>write\<close>, each at most the number of bytes given; with none left the parent is
  still in the loop (\<^const>\<open>None\<close>).
\<close>

fun write_loop :: "int list \<Rightarrow> bytes \<Rightarrow> bytes \<Rightarrow> (bytes \<times> int list) option" where
  "write_loop [] b shown = None"
| "write_loop (wrc # ws) b shown =
     (if wrc < 0 then Some (shown, ws)
      else if drop (nat wrc) b \<noteq> [] then write_loop ws (drop (nat wrc) b) (shown @ take (nat wrc) b)
      else Some (shown @ take (nat wrc) b, ws))"

text \<open>The results of \<open>read\<close>; an empty one, or the end of the list, is the end of the input.\<close>

fun parent_loop :: "bytes list \<Rightarrow> int list \<Rightarrow> bytes \<Rightarrow> (int \<times> bytes) option" where
  "parent_loop [] ws shown = Some (EXIT_SUCCESS, shown)"
| "parent_loop (buf # rs) ws shown =
     (if buf = [] then Some (EXIT_SUCCESS, shown)
      else if last buf = 0 then
        (if 1 < length buf then map_option (\<lambda>(shown, ws). (EXIT_FAILURE, shown)) (write_loop ws (butlast buf) shown)
         else Some (EXIT_FAILURE, shown))
      else Option.bind (write_loop ws buf shown) (\<lambda>(shown, ws). parent_loop rs ws shown))"

section \<open>The processes\<close>

datatype target = Inherited | NullDev | PipeEnd | NoFile

text \<open>What a process has open: the pidfile, the ends of the pipe, the standard streams.\<close>

record dproc =
  dp_pf :: bool
  dp_rd :: bool
  dp_wr :: bool
  dp_stdin :: target
  dp_stdout :: target
  dp_stderr :: target

text \<open>The main function of the daemon: what it writes to standard error and when it reports.\<close>

datatype dm_act = Say bytes | Launched

record daemon_env =
  de_pid :: pid_env
  de_pipe :: bool
  de_fork1 :: bool
  de_lock1 :: "lock_result list"
  de_setsid :: bool
  de_fork2 :: bool
  de_lock2 :: "lock_result list"
  de_chdir :: bool
  de_null :: bool
  de_log :: bytes
  de_main :: "dm_act list"
  de_rc :: int

text \<open>The part of the first child before the second fork; \<^const>\<open>Inl\<close>: it goes to \<open>done\<close>.\<close>

definition middle_process :: "daemon_env \<Rightarrow> dproc \<Rightarrow> (int \<times> dproc + dproc) option" where
  "middle_process env p = do {
     lrc \<leftarrow> (if dp_pf p then waitpflock (de_lock1 env) else Some 0);
     if lrc < 0 then Some (Inl (EXIT_FAILURE, p\<lparr>dp_pf := False\<rparr>))
     else do {
       let p = p\<lparr>dp_rd := False\<rparr>;
       if \<not> de_setsid env \<or> \<not> de_fork2 env then Some (Inl (EXIT_FAILURE, p\<lparr>dp_pf := False\<rparr>))
       else Some (Inr p) } }"

definition redirect :: "bool \<Rightarrow> dproc \<Rightarrow> dproc" where
  "redirect null p =
     (let p = (if \<not> null then p\<lparr>dp_stdout := NoFile, dp_stderr := (if dp_wr p then dp_stderr p else NoFile)\<rparr>
               else p\<lparr>dp_stdin := NullDev, dp_stdout := NullDev, dp_stderr := (if dp_wr p then dp_stderr p else NullDev)\<rparr>)
      in if dp_wr p then p\<lparr>dp_stderr := PipeEnd, dp_wr := False\<rparr> else p)"

definition PSC_Daemon_launched :: "dproc \<Rightarrow> dproc" where
  "PSC_Daemon_launched p = p\<lparr>dp_stderr := dp_stdin p\<rparr>"

text \<open>The bytes that get into the pipe.\<close>

definition say :: "bytes \<Rightarrow> dproc \<times> bytes \<Rightarrow> dproc \<times> bytes" where
  "say bs = (\<lambda>(p, out). (p, if dp_stderr p = PipeEnd then out @ bs else out))"

fun run_main :: "dm_act list \<Rightarrow> dproc \<times> bytes \<Rightarrow> dproc \<times> bytes" where
  "run_main [] s = s"
| "run_main (Say bs # as) s = run_main as (say bs s)"
| "run_main (Launched # as) (p, out) = run_main as (PSC_Daemon_launched p, out)"

text \<open>
  The daemon: the result, whether the main function ran, the process at the end, what it
  wrote into the pipe, and whether it removed the pidfile.
\<close>

record daemon_end =
  dd_rc :: int
  dd_ran :: bool
  dd_proc :: dproc
  dd_piped :: bytes
  dd_unlinked :: bool

definition daemon_process :: "bool \<Rightarrow> daemon_env \<Rightarrow> dproc \<Rightarrow> daemon_end option" where
  "daemon_process pidfile env p = do {
     lrc \<leftarrow> (if dp_pf p then waitpflock (de_lock2 env) else Some 0);
     if lrc < 0 \<or> \<not> de_chdir env
     then Some \<lparr>dd_rc = EXIT_FAILURE, dd_ran = False, dd_proc = p\<lparr>dp_pf := False\<rparr>, dd_piped = [], dd_unlinked = False\<rparr>
     else do {
       let s = run_main (de_main env) (say (de_log env) (redirect (de_null env) p, []));
       let (p, out) = (if de_rc env \<noteq> EXIT_SUCCESS then say [0] s else s);
       Some \<lparr>dd_rc = de_rc env, dd_ran = True, dd_proc = p\<lparr>dp_pf := False\<rparr>, dd_piped = out, dd_unlinked = pidfile\<rparr> } }"

text \<open>
  What becomes of a call of \<open>PSC_Daemon_run\<close>: the results in the process that called it, in the
  intermediate process and in the daemon; what the first one showed; whether the main function
  ran; whether the pid was written to the file and the file removed at the end.  \<open>chunks\<close> says
  how the contents of the pipe are split by the calls of \<open>read\<close>.
\<close>

record daemon_result =
  dr_rc :: int
  dr_shown :: bytes
  dr_middle :: "int option"
  dr_daemon :: "int option"
  dr_ran :: bool
  dr_pid :: bool
  dr_unlinked :: bool

definition dr_fail :: daemon_result where
  "dr_fail = \<lparr>dr_rc = EXIT_FAILURE, dr_shown = [], dr_middle = None, dr_daemon = None, dr_ran = False, dr_pid = False, dr_unlinked = False\<rparr>"

definition daemon_start :: "PSC_RunOpts \<Rightarrow> daemon_env \<Rightarrow> dproc" where
  "daemon_start opts env =
     (let piped = (ro_waitLaunched opts \<and> de_pipe env)
      in \<lparr>dp_pf = ro_pidfile opts \<noteq> NULL, dp_rd = piped, dp_wr = piped, dp_stdin = Inherited, dp_stdout = Inherited, dp_stderr = Inherited\<rparr>)"

definition parent_process :: "(bytes \<Rightarrow> bytes list) \<Rightarrow> int list \<Rightarrow> dproc \<Rightarrow> bytes \<Rightarrow> (int \<times> bytes) option" where
  "parent_process chunks ws p piped = (if dp_rd p then parent_loop (chunks piped) ws [] else Some (EXIT_SUCCESS, []))"

definition PSC_Daemon_run :: "PSC_RunOpts \<Rightarrow> daemon_env \<Rightarrow> (bytes \<Rightarrow> bytes list) \<Rightarrow> int list \<Rightarrow> daemon_result option" where
  "PSC_Daemon_run opts0 env chunks ws =
     (let opts = runOpts opts0 in
      if \<not> ro_daemonize opts then Some (dr_fail\<lparr>dr_rc := de_rc env, dr_ran := True\<rparr>)
      else if ro_pidfile opts \<noteq> NULL \<and> \<not> fst (openpidfile (de_pid env)) then Some dr_fail
      else if \<not> de_fork1 env then Some dr_fail
      else do {
        let p = daemon_start opts env;
        m \<leftarrow> middle_process env p;
        case m of
          Inl (mrc, _) \<Rightarrow> do {
            (rc, shown) \<leftarrow> parent_process chunks ws p [];
            Some (dr_fail\<lparr>dr_rc := rc, dr_shown := shown, dr_middle := Some mrc\<rparr>) }
        | Inr q \<Rightarrow> do {
            d \<leftarrow> daemon_process (ro_pidfile opts \<noteq> NULL) env q;
            (rc, shown) \<leftarrow> parent_process chunks ws p (dd_piped d);
            Some \<lparr>dr_rc = rc, dr_shown = shown, dr_middle = Some EXIT_SUCCESS, dr_daemon = Some (dd_rc d), dr_ran = dd_ran d,
                  dr_pid = dp_pf q, dr_unlinked = dd_unlinked d\<rparr> } })"

section \<open>Lemmas\<close>









section \<open>Properties\<close>


definition example_denv :: daemon_env where
  "example_denv = \<lparr>de_pid = \<lparr>pe_fopen_r = False, pe_getlk = None, pe_setlk_r = True, pe_getlk2 = None, pe_scan = None, pe_unlink = True,
       pe_fopen_w = True, pe_setlk_w = True\<rparr>, de_pipe = True, de_fork1 = True, de_lock1 = [LockIntr, LockOk], de_setsid = True, de_fork2 = True,
     de_lock2 = [LockOk], de_chdir = True, de_null = True, de_log = [65], de_main = [Say [66, 67]], de_rc = 3\<rparr>"

definition byte_reads :: "bytes \<Rightarrow> bytes list" where
  "byte_reads s = map (\<lambda>b. [b]) s"




text \<open>
  When the intermediate process or the daemon fails before the main function is called,
  the process that waits for the start sees the end of the pipe only, and succeeds.
\<close>
theorem daemon_early_failure:
  assumes "ro_daemonize (runOpts opts)" "ro_pidfile (runOpts opts) = NULL" "de_fork1 env" "\<not> de_setsid env \<or> \<not> de_fork2 env \<or> \<not> de_chdir env"
    and "chunks [] = []"
  shows "\<exists>r. PSC_Daemon_run opts env chunks ws = Some r \<and> dr_rc r = EXIT_SUCCESS \<and> dr_shown r = [] \<and> \<not> dr_ran r \<and>
    (dr_middle r = Some EXIT_FAILURE \<or> dr_daemon r = Some EXIT_FAILURE)"
  using assms by (auto simp: PSC_Daemon_run_def Let_def middle_process_def daemon_process_def parent_process_def daemon_start_def dr_fail_def)

theorem daemon_early_failure_witness:
  "\<exists>r. PSC_Daemon_run (PSC_RunOpts_init 0 runopts_static) (example_denv\<lparr>de_setsid := False\<rparr>) byte_reads [] = Some r \<and> dr_rc r = EXIT_SUCCESS \<and> \<not> dr_ran r"
  using daemon_early_failure [of "PSC_RunOpts_init 0 runopts_static" "example_denv\<lparr>de_setsid := False\<rparr>" byte_reads "[]"]
  by (auto simp: runOpts_def PSC_RunOpts_init_def example_denv_def byte_reads_def)

text \<open>
  The pidfile is removed only when nobody holds a lock on it and the lock for reading was
  obtained; when another process holds a lock the start is refused and the file stays, and
  that the daemon is already running is reported exactly if its pid is in the file.  A start
  that goes on holds the lock for writing.  The only failures that leave a file open are the
  one of asking for the lock and the one of removing the file.
\<close>
theorem daemon_pidfile:
  assumes "openpidfile env = (ok, acts)"
  shows "(RemoveFile \<in> set acts \<longrightarrow> pe_getlk env = Some None \<and> pe_setlk_r env) \<and>
    (pe_fopen_r env \<and> pe_getlk env = Some (Some p) \<longrightarrow> \<not> ok \<and> RemoveFile \<notin> set acts \<and> (ErrRunning p \<in> set acts \<longleftrightarrow> pe_scan env = Some p)) \<and>
    (ok \<longleftrightarrow> WriteLock \<in> set acts) \<and> (ok \<longrightarrow> CloseWrite \<notin> set acts) \<and>
    (OpenRead \<in> set acts \<and> CloseRead \<notin> set acts \<longleftrightarrow> ErrLockInfo \<in> set acts \<or> ErrRemove \<in> set acts) \<and>
    (\<not> ok \<and> OpenWrite \<in> set acts \<longrightarrow> CloseWrite \<in> set acts)"
  using assms by (auto simp: openpidfile_def pid_create_def pid_locked_def split: if_splits option.splits)

theorem daemon_pidfile_witness:
  "ErrRunning 42 \<in> set (snd (openpidfile \<lparr>pe_fopen_r = True, pe_getlk = Some (Some 42), pe_setlk_r = True, pe_getlk2 = None, pe_scan = Some 42,
     pe_unlink = True, pe_fopen_w = True, pe_setlk_w = True\<rparr>))"
  using daemon_pidfile [OF prod.collapse [symmetric], of "\<lparr>pe_fopen_r = True, pe_getlk = Some (Some 42), pe_setlk_r = True, pe_getlk2 = None,
     pe_scan = Some 42, pe_unlink = True, pe_fopen_w = True, pe_setlk_w = True\<rparr>" 42] by simp

end
