(* ===== verification/Poser_Resolver.thy ===== *)
theory Poser_Resolver
  imports Poser_IpAddr
begin

text \<open>
  The resolver for names of addresses (\<open>src/lib/core/resolver.c\<close>): the entries, resolving them
  in a job of the thread pool or at once, the event for the result, and how the object is
  destroyed at any of these moments, also from within a handler of its own event.
\<close>

section \<open>Entries\<close>

record PSC_ResolverEntry =
  re_addr :: PSC_IpAddr
  re_name :: "string option"

text \<open>The sizes of \<open>struct sockaddr_in\<close> and \<open>struct sockaddr_in6\<close>.\<close>

definition saddrlen :: "PSC_IpAddr \<Rightarrow> nat" where
  "saddrlen addr = (if ip_proto addr = PSC_P_IPv4 then 16 else 28)"

text \<open>
  Whether the current job was cancelled (\<open>src/lib/core/threadpool.c\<close>): \<open>currentJob\<close> is the job the
  calling thread runs, if any, given by its flag \<open>hasCompleted\<close>.
\<close>

definition PSC_ThreadJob_canceled :: "bool option \<Rightarrow> bool" where
  "PSC_ThreadJob_canceled currentJob = (case currentJob of None \<Rightarrow> True | Some hasCompleted \<Rightarrow> \<not> hasCompleted)"

text \<open>
  The loop over the entries: \<open>getnameinfo\<close> is given the address with its length; \<open>canceled n\<close>
  is the result of call \<open>n\<close> of \<open>PSC_ThreadJob_canceled\<close>.
\<close>

fun resolveProc :: "(sockaddr \<Rightarrow> nat \<Rightarrow> string option) \<Rightarrow> (nat \<Rightarrow> bool) \<Rightarrow> nat \<Rightarrow> PSC_ResolverEntry list \<Rightarrow> PSC_ResolverEntry list" where
  "resolveProc getnameinfo canceled n [] = []"
| "resolveProc getnameinfo canceled n (entry # es) =
     (if re_name entry = None then
        case PSC_IpAddr_sockAddr (re_addr entry) of
          None \<Rightarrow> entry # resolveProc getnameinfo canceled n es
        | Some saddr \<Rightarrow>
            case getnameinfo saddr (saddrlen (re_addr entry)) of
              None \<Rightarrow> entry # resolveProc getnameinfo canceled n es
            | Some nbuf \<Rightarrow>
                if canceled n then entry # es
                else entry\<lparr>re_name := Some nbuf\<rparr> # resolveProc getnameinfo canceled (Suc n) es
      else entry # resolveProc getnameinfo canceled n es)"

section \<open>The resolver\<close>

text \<open>\<open>rv_pool\<close>: the pool of the event is set, so the event was not destroyed.\<close>

record PSC_Resolver =
  rv_pool :: bool
  rv_job :: bool
  rv_entries :: "PSC_ResolverEntry list"
  rv_handling :: int


definition PSC_Resolver_addAddr :: "PSC_IpAddr \<Rightarrow> PSC_Resolver \<Rightarrow> PSC_Resolver \<times> int" where
  "PSC_Resolver_addAddr addr self =
     (if rv_job self then (self, -1)
      else (self\<lparr>rv_entries := rv_entries self @ [\<lparr>re_addr = addr, re_name = None\<rparr>]\<rparr>, 0))"

text \<open>
  The object with what happens around it: \<open>rz_self\<close> is \<^const>\<open>None\<close> once it is freed, and then any
  access is \<^const>\<open>None\<close>, undefined.  The last two fields are no part of the program: the user has
  called \<open>PSC_Resolver_destroy\<close>, and a job of the resolver is with the thread pool.
\<close>

record resolver_sys =
  rz_self :: "PSC_Resolver option"
  rz_raised :: nat
  rz_cancelled :: nat
  rz_destroyed :: bool
  rz_pending :: bool

definition rz_set :: "(PSC_Resolver \<Rightarrow> PSC_Resolver) \<Rightarrow> resolver_sys \<Rightarrow> resolver_sys" where
  "rz_set f z = z\<lparr>rz_self := map_option f (rz_self z)\<rparr>"

definition PSC_Resolver_destroy :: "resolver_sys \<Rightarrow> resolver_sys option" where
  "PSC_Resolver_destroy z = do {
     self \<leftarrow> rz_self z;
     if rv_handling self \<noteq> 0 then Some (rz_set (rv_handling_update (\<lambda>_. -1)) z)
     else do {
       let z = rz_set (rv_pool_update (\<lambda>_. False)) z;
       if rv_job self then Some (z\<lparr>rz_cancelled := rz_cancelled z + 1\<rparr>)
       else Some (z\<lparr>rz_self := None\<rparr>) } }"

text \<open>
  The calls a user makes, from outside or from a handler of the event: \<open>rn_handler n\<close> are the
  calls of the handlers when the event is raised for the \<open>n\<close>-th time.  \<open>PSC_Event_raise\<close> goes on
  with the event after the handlers return, so the object must still exist then.  \<open>fuel\<close>
  bounds the depth of the calls.
\<close>

datatype rcall = RAdd PSC_IpAddr | RResolve bool | RDestroy

record res_env =
  rn_getnameinfo :: "sockaddr \<Rightarrow> nat \<Rightarrow> string option"
  rn_current :: "bool option"
  rn_active :: bool
  rn_enqueue :: bool
  rn_handler :: "nat \<Rightarrow> rcall list"

fun PSC_Resolver_resolve :: "nat \<Rightarrow> res_env \<Rightarrow> bool \<Rightarrow> resolver_sys \<Rightarrow> (resolver_sys \<times> int) option"
  and raise_done :: "nat \<Rightarrow> res_env \<Rightarrow> resolver_sys \<Rightarrow> resolver_sys option"
  and do_calls :: "nat \<Rightarrow> res_env \<Rightarrow> rcall list \<Rightarrow> resolver_sys \<Rightarrow> resolver_sys option" where
  "PSC_Resolver_resolve 0 env forceAsync z = None"
| "PSC_Resolver_resolve (Suc fuel) env forceAsync z = do {
     self \<leftarrow> rz_self z;
     if rv_job self \<or> rv_entries self = [] then Some (z, -1)
     else if rn_active env \<and> rn_enqueue env then Some ((rz_set (rv_job_update (\<lambda>_. True)) z)\<lparr>rz_pending := True\<rparr>, 0)
     else if forceAsync then Some (z, -1)
     else do {
       z \<leftarrow> raise_done fuel env (rz_set (rv_entries_update (resolveProc (rn_getnameinfo env) (\<lambda>_. PSC_ThreadJob_canceled (rn_current env)) 0)) z);
       Some (z, 0) } }"
| "raise_done 0 env z = None"
| "raise_done (Suc fuel) env z = do {
     z \<leftarrow> do_calls fuel env (rn_handler env (rz_raised z)) (z\<lparr>rz_raised := rz_raised z + 1\<rparr>);
     self \<leftarrow> rz_self z;
     Some z }"
| "do_calls 0 env cs z = None"
| "do_calls (Suc fuel) env [] z = Some z"
| "do_calls (Suc fuel) env (c # cs) z = do {
     z \<leftarrow> (case c of
         RAdd addr \<Rightarrow> do { self \<leftarrow> rz_self z; Some (rz_set (\<lambda>_. fst (PSC_Resolver_addAddr addr self)) z) }
       | RResolve forceAsync \<Rightarrow> map_option fst (PSC_Resolver_resolve fuel env forceAsync z)
       | RDestroy \<Rightarrow> PSC_Resolver_destroy (z\<lparr>rz_destroyed := True\<rparr>));
     do_calls fuel env cs z }"


text \<open>The job: a thread of the pool runs the procedure on the resolver.\<close>

definition job_runs :: "res_env \<Rightarrow> (nat \<Rightarrow> bool) \<Rightarrow> resolver_sys \<Rightarrow> resolver_sys option" where
  "job_runs env canceled z = do {
     self \<leftarrow> rz_self z;
     Some (rz_set (rv_entries_update (resolveProc (rn_getnameinfo env) canceled 0)) z) }"

section \<open>Sequences of events\<close>







lemma rz_set_simps [simp]:
  "rz_self (rz_set f z) = map_option f (rz_self z)" "rz_raised (rz_set f z) = rz_raised z"
  "rz_destroyed (rz_set f z) = rz_destroyed z" "rz_pending (rz_set f z) = rz_pending z" "rz_cancelled (rz_set f z) = rz_cancelled z"
  by (simp_all add: rz_set_def)











section \<open>Resolving\<close>

definition lookup_name :: "(sockaddr \<Rightarrow> nat \<Rightarrow> string option) \<Rightarrow> PSC_ResolverEntry \<Rightarrow> PSC_ResolverEntry" where
  "lookup_name getnameinfo e =
     (if re_name e = None then e\<lparr>re_name := Option.bind (PSC_IpAddr_sockAddr (re_addr e)) (\<lambda>sa. getnameinfo sa (saddrlen (re_addr e)))\<rparr> else e)"

lemma name_None [simp]: "re_name e = None \<Longrightarrow> e\<lparr>re_name := None\<rparr> = e"
  by (cases e) simp

lemma resolveProc_prefix:
  "\<exists>k\<le>length es. resolveProc getnameinfo canceled n es = map (lookup_name getnameinfo) (take k es) @ drop k es \<and>
     (k < length es \<longrightarrow> (\<exists>m\<ge>n. canceled m))"
proof (induction es arbitrary: n)
  case (Cons e es)
  have step: ?case if "resolveProc getnameinfo canceled n (e # es) = lookup_name getnameinfo e # resolveProc getnameinfo canceled m es" "n \<le> m" for m
  proof -
    obtain k where k: "k \<le> length es" "resolveProc getnameinfo canceled m es = map (lookup_name getnameinfo) (take k es) @ drop k es"
        "k < length es \<longrightarrow> (\<exists>j\<ge>m. canceled j)" using Cons.IH by blast
    with that show ?thesis by (intro exI [of _ "Suc k"]) (auto intro: order_trans)
  qed
  show ?case
  proof (cases "Option.bind (PSC_IpAddr_sockAddr (re_addr e)) (\<lambda>sa. getnameinfo sa (saddrlen (re_addr e)))")
    case None
    then have "resolveProc getnameinfo canceled n (e # es) = e # resolveProc getnameinfo canceled n es" "lookup_name getnameinfo e = e"
      by (auto simp: lookup_name_def split: option.splits bind_splits)
    then show ?thesis using step [of n] by simp
  next
    case (Some nm)
    then obtain sa where sa: "PSC_IpAddr_sockAddr (re_addr e) = Some sa" "getnameinfo sa (saddrlen (re_addr e)) = Some nm" by (auto split: bind_splits)
    consider "re_name e \<noteq> None" | "re_name e = None" "canceled n" | "re_name e = None" "\<not> canceled n" by blast
    then show ?thesis
    proof cases
      case 1
      then show ?thesis using step [of n] by (auto simp: lookup_name_def)
    next
      case 2
      then show ?thesis using sa by (intro exI [of _ 0]) auto
    next
      case 3
      then show ?thesis using step [of "Suc n"] sa by (auto simp: lookup_name_def)
    qed
  qed
qed simp

lemma resolveProc_cancelled: "resolveProc getnameinfo (\<lambda>_. True) n es = es"
  by (induction es) (auto split: option.splits)

section \<open>Properties\<close>


definition example_renv :: res_env where
  "example_renv = \<lparr>rn_getnameinfo = (\<lambda>_ _. Some ''host''), rn_current = None, rn_active = True, rn_enqueue = True, rn_handler = (\<lambda>_. [RDestroy])\<rparr>"

definition example_raddr :: PSC_IpAddr where
  "example_raddr = \<lparr>ip_refcnt = 1, ip_proto = PSC_P_IPv4, ip_prefixlen = 32, ip_port = None, ip_data = replicate 16 1, ip_str = ''1.1.1.1''\<rparr>"

definition example_rsys :: "bool \<Rightarrow> bool \<Rightarrow> resolver_sys" where
  "example_rsys job pending = \<lparr>rz_self = Some \<lparr>rv_pool = True, rv_job = job, rv_entries = [\<lparr>re_addr = example_raddr, re_name = None\<rparr>], rv_handling = 0\<rparr>,
     rz_raised = 0, rz_cancelled = 0, rz_destroyed = False, rz_pending = pending\<rparr>"



text \<open>
  C20: A job that is not cancelled gives every entry that has no name yet the one that
  \<open>getnameinfo\<close> returns for its address, and changes nothing else; a cancelled one does so for the
  first entries only.  Without a thread pool, resolving succeeds and raises the event, but no
  entry gets a name: the check for a cancelled job stops the loop when there is no job at all.
\<close>
theorem resolver_names:
  assumes "rz_self z = Some self"
  shows "(\<exists>k z'. job_runs env canceled z = Some z' \<and> k \<le> length (rv_entries self) \<and>
       rz_self z' = Some (self\<lparr>rv_entries := map (lookup_name (rn_getnameinfo env)) (take k (rv_entries self)) @ drop k (rv_entries self)\<rparr>) \<and>
       ((\<forall>n. \<not> canceled n) \<longrightarrow> k = length (rv_entries self))) \<and>
    (\<not> rv_job self \<and> rv_entries self \<noteq> [] \<and> \<not> rn_active env \<and> rn_current env = None \<and> rn_handler env (rz_raised z) = [] \<longrightarrow>
       (\<exists>z'. PSC_Resolver_resolve 3 env False z = Some (z', 0) \<and> rz_raised z' = rz_raised z + 1 \<and> rz_self z' = Some self))"
proof -
  obtain k where "k \<le> length (rv_entries self)"
      "resolveProc (rn_getnameinfo env) canceled 0 (rv_entries self) = map (lookup_name (rn_getnameinfo env)) (take k (rv_entries self)) @ drop k (rv_entries self)"
      "k < length (rv_entries self) \<longrightarrow> (\<exists>m\<ge>0. canceled m)" using resolveProc_prefix [where n = 0] by blast
  then have "\<exists>z'. job_runs env canceled z = Some z' \<and> k \<le> length (rv_entries self) \<and>
       rz_self z' = Some (self\<lparr>rv_entries := map (lookup_name (rn_getnameinfo env)) (take k (rv_entries self)) @ drop k (rv_entries self)\<rparr>) \<and>
       ((\<forall>n. \<not> canceled n) \<longrightarrow> k = length (rv_entries self))"
    using assms by (auto simp: job_runs_def)
  moreover have "\<not> rv_job self \<and> rv_entries self \<noteq> [] \<and> \<not> rn_active env \<and> rn_current env = None \<and> rn_handler env (rz_raised z) = [] \<longrightarrow>
       (\<exists>z'. PSC_Resolver_resolve 3 env False z = Some (z', 0) \<and> rz_raised z' = rz_raised z + 1 \<and> rz_self z' = Some self)"
    using assms by (auto simp: eval_nat_numeral PSC_ThreadJob_canceled_def resolveProc_cancelled)
  ultimately show ?thesis by blast
qed

theorem resolver_names_witness:
  "\<exists>z'. PSC_Resolver_resolve 3 (example_renv\<lparr>rn_active := False, rn_handler := \<lambda>_. []\<rparr>) False (example_rsys False False) = Some (z', 0) \<and>
     rz_self z' = rz_self (example_rsys False False)"
  using resolver_names [of "example_rsys False False" "the (rz_self (example_rsys False False))" "example_renv\<lparr>rn_active := False, rn_handler := \<lambda>_. []\<rparr>"]
  by (auto simp: example_rsys_def example_renv_def)

text \<open>
  The other difference of resolving at once: there a handler must not destroy the resolver,
  since \<open>handling\<close> is not set and the object is freed while its event is raised.
\<close>

lemma resolver_sync_destroy:
  assumes "rz_self z = Some self" "\<not> rv_job self" "rv_handling self = 0" "rv_entries self \<noteq> []" "\<not> rn_active env" "rn_handler env (rz_raised z) = [RDestroy]"
  shows "PSC_Resolver_resolve fuel env False z = None"
proof -
  have "raise_done f env (rz_set (rv_entries_update g) z) = None" for f g
    using assms by (cases f; cases "f - 1"; cases "f - 2") (auto simp: PSC_Resolver_destroy_def)
  with assms show ?thesis by (cases fuel) simp_all
qed

end
