(* ===== verification/Poser_Log.thy ===== *)
theory Poser_Log
  imports Prelude
begin

text \<open>
  Logging (\<open>src/lib/core/log.c\<close>): the writers, the filter by level, formatted messages and those
  with an error of the system, and the way of a message through the thread pool when logging is
  asynchronous.
\<close>

section \<open>Levels and writers\<close>

datatype PSC_LogLevel = PSC_L_FATAL | PSC_L_ERROR | PSC_L_WARNING | PSC_L_INFO | PSC_L_DEBUG

fun level_no :: "PSC_LogLevel \<Rightarrow> nat" where
  "level_no PSC_L_FATAL = 0"
| "level_no PSC_L_ERROR = 1"
| "level_no PSC_L_WARNING = 2"
| "level_no PSC_L_INFO = 3"
| "level_no PSC_L_DEBUG = 4"

text \<open>The levels are compared as the numbers of the enumeration.\<close>

lemma level_no_inj: "level_no a = level_no b \<longleftrightarrow> a = b"
  by (cases a; cases b) simp_all

instantiation PSC_LogLevel :: linorder
begin

definition less_eq_PSC_LogLevel :: "PSC_LogLevel \<Rightarrow> PSC_LogLevel \<Rightarrow> bool" where
  "less_eq_PSC_LogLevel a b \<longleftrightarrow> level_no a \<le> level_no b"

definition less_PSC_LogLevel :: "PSC_LogLevel \<Rightarrow> PSC_LogLevel \<Rightarrow> bool" where
  "less_PSC_LogLevel a b \<longleftrightarrow> level_no a < level_no b"

instance
  by standard (auto simp: less_eq_PSC_LogLevel_def less_PSC_LogLevel_def level_no_inj)

end

fun levels :: "PSC_LogLevel \<Rightarrow> string" where
  "levels PSC_L_FATAL = ''[FATAL]''"
| "levels PSC_L_ERROR = ''[ERROR]''"
| "levels PSC_L_WARNING = ''[WARN ]''"
| "levels PSC_L_INFO = ''[INFO ]''"
| "levels PSC_L_DEBUG = ''[DEBUG]''"

text \<open>\<open>LOG_CRIT\<close>, \<open>LOG_ERR\<close>, \<open>LOG_WARNING\<close>, \<open>LOG_INFO\<close> and \<open>LOG_DEBUG\<close>.\<close>

fun syslogLevels :: "PSC_LogLevel \<Rightarrow> int" where
  "syslogLevels PSC_L_FATAL = 2"
| "syslogLevels PSC_L_ERROR = 3"
| "syslogLevels PSC_L_WARNING = 4"
| "syslogLevels PSC_L_INFO = 6"
| "syslogLevels PSC_L_DEBUG = 7"

datatype PSC_LogWriter = WriteFile | WriteSyslog | CustomWriter nat

text \<open>The data of a writer: the null pointer, an open file, or anything else that is not null.\<close>

datatype writer_data = NullData | FileData nat | OtherData ptr

definition STDERR_FILE :: nat where "STDERR_FILE = 2"

datatype log_out = ToFile nat string | ToSyslog int string | ToCustom nat PSC_LogLevel string writer_data

text \<open>Writing to anything but an open file is undefined.\<close>

definition writeFile :: "PSC_LogLevel \<Rightarrow> string \<Rightarrow> writer_data \<Rightarrow> log_out list option" where
  "writeFile level message dat = (case dat of FileData f \<Rightarrow> Some [ToFile f (levels level @ ''  '' @ message @ [CHR 0x0A])] | _ \<Rightarrow> None)"

definition writeSyslog :: "PSC_LogLevel \<Rightarrow> string \<Rightarrow> writer_data \<Rightarrow> log_out list option" where
  "writeSyslog level message dat =
     (if dat \<noteq> NullData
      then map_option (\<lambda>outs. ToSyslog (syslogLevels level) message # outs) (writeFile level message (FileData STDERR_FILE))
      else Some [ToSyslog (syslogLevels level) message])"

definition call_writer :: "PSC_LogWriter \<Rightarrow> PSC_LogLevel \<Rightarrow> string \<Rightarrow> writer_data \<Rightarrow> log_out list option" where
  "call_writer w level message dat =
     (case w of WriteFile \<Rightarrow> writeFile level message dat | WriteSyslog \<Rightarrow> writeSyslog level message dat
        | CustomWriter n \<Rightarrow> Some [ToCustom n level message dat])"

section \<open>State and settings\<close>

record log_state =
  lg_currentwriter :: "PSC_LogWriter option"
  lg_writerdata :: writer_data
  lg_maxlevel :: PSC_LogLevel
  lg_logsilent :: bool
  lg_logasync :: bool

record LogJobArgs =
  lj_level :: PSC_LogLevel
  lj_writer :: PSC_LogWriter
  lj_writerdata :: writer_data
  lj_message :: string

text \<open>
  What is written, the messages sent to threads of the service, and the jobs in the thread
  pool, each in its order.
\<close>

record log_sys = log_state +
  ls_out :: "log_out list"
  ls_sent :: "(int \<times> LogJobArgs) list"
  ls_jobs :: "LogJobArgs list"









definition PSC_Log_setPanic :: "log_sys \<Rightarrow> log_sys" where
  "PSC_Log_setPanic s0 =
     (let s = s0\<lparr>lg_logasync := False\<rparr>
      in if lg_currentwriter s = None then s\<lparr>lg_currentwriter := Some WriteFile, lg_writerdata := FileData STDERR_FILE\<rparr> else s)"

section \<open>Messages\<close>

text \<open>
  The state of the service at a call: whether it runs, whether the thread pool is active, and
  the number of the calling thread.
\<close>

record log_env =
  le_running :: bool
  le_active :: bool
  le_threadNo :: int

definition PSC_Log_msg :: "log_env \<Rightarrow> PSC_LogLevel \<Rightarrow> string \<Rightarrow> log_sys \<Rightarrow> log_sys option" where
  "PSC_Log_msg env level message s =
     (case lg_currentwriter s of
        None \<Rightarrow> Some s
      | Some w \<Rightarrow>
          if lg_logsilent s \<and> level > PSC_L_ERROR then Some s
          else if level > lg_maxlevel s then Some s
          else if lg_logasync s \<and> le_running env \<and> le_active env then
            Some (s\<lparr>ls_sent := ls_sent s @ [(if le_threadNo env < -1 then -1 else le_threadNo env,
               \<lparr>lj_level = level, lj_writer = w, lj_writerdata = lg_writerdata s, lj_message = message\<rparr>)]\<rparr>)
          else map_option (\<lambda>outs. s\<lparr>ls_out := ls_out s @ outs\<rparr>) (call_writer w level message (lg_writerdata s)))"

definition PSC_MAXLOGLINE :: nat where "PSC_MAXLOGLINE = 16384"

text \<open>
  \<open>render\<close> is the formatting of \<open>vsnprintf\<close> with the arguments of the call, applied to the format;
  the buffer cuts it.
\<close>

definition snprintf_buf :: "nat \<Rightarrow> string \<Rightarrow> string" where
  "snprintf_buf n s = take (n - 1) s"

definition PSC_Log_fmt :: "log_env \<Rightarrow> PSC_LogLevel \<Rightarrow> (string \<Rightarrow> string) \<Rightarrow> string \<Rightarrow> log_sys \<Rightarrow> log_sys option" where
  "PSC_Log_fmt env level render format s =
     (if lg_currentwriter s = None then Some s
      else if lg_logsilent s \<and> level > PSC_L_ERROR then Some s
      else if level > lg_maxlevel s then Some s
      else PSC_Log_msg env level (snprintf_buf PSC_MAXLOGLINE (render format)) s)"

text \<open>\<open>errstr\<close> is the result of \<open>strerror_r\<close>.\<close>

definition PSC_Log_err :: "log_env \<Rightarrow> PSC_LogLevel \<Rightarrow> string \<Rightarrow> string \<Rightarrow> log_sys \<Rightarrow> log_sys option" where
  "PSC_Log_err env level message errstr s =
     (if lg_currentwriter s = None then Some s
      else if lg_logsilent s \<and> level > PSC_L_ERROR then Some s
      else if level > lg_maxlevel s then Some s
      else PSC_Log_fmt env level (\<lambda>_. message @ '': '' @ errstr) ''%s: %s'' s)"


section \<open>The way through the thread pool\<close>

text \<open>A thread of the service takes the next message; the result of \<open>PSC_ThreadPool_enqueue\<close> is ignored.\<close>

definition enqueueLogJob :: "bool \<Rightarrow> log_sys \<Rightarrow> log_sys" where
  "enqueueLogJob room s =
     (case ls_sent s of [] \<Rightarrow> s
      | (thrno, lja) # ms \<Rightarrow> s\<lparr>ls_sent := ms, ls_jobs := (if room then ls_jobs s @ [lja] else ls_jobs s)\<rparr>)"



section \<open>Programs that log\<close>




section \<open>Lemmas\<close>









text \<open>A message with an error is a message like any other, cut to the size of the buffer.\<close>

definition errfmt_text :: "(string \<Rightarrow> string) \<Rightarrow> string \<Rightarrow> string \<Rightarrow> string" where
  "errfmt_text render format errstr =
     snprintf_buf PSC_MAXLOGLINE (render (if length format < PSC_MAXLOGLINE - 4 then snprintf_buf PSC_MAXLOGLINE (format @ '': '' @ errstr) else format))"


lemma err_msg: "PSC_Log_err env level m errstr s = PSC_Log_msg env level (snprintf_buf PSC_MAXLOGLINE (m @ '': '' @ errstr)) s"
  by (simp add: PSC_Log_err_def PSC_Log_fmt_def PSC_Log_msg_def split: option.splits)

lemma errfmt_text_bounds:
  "length (errfmt_text render format errstr) < PSC_MAXLOGLINE"
  "length format < PSC_MAXLOGLINE - 4 \<Longrightarrow> \<exists>e. snprintf_buf PSC_MAXLOGLINE (format @ '': '' @ errstr) = format @ '': '' @ e"
  by (simp_all add: errfmt_text_def snprintf_buf_def PSC_MAXLOGLINE_def take_Cons')








section \<open>Properties\<close>



text \<open>
  The result of the call that puts a message into the pool is ignored: with a full queue, the
  message and its job are lost.
\<close>

lemma log_lost:
  "ls_sent s = (thr, lja) # ms \<Longrightarrow> enqueueLogJob False s = s\<lparr>ls_sent := ms\<rparr>"
  by (simp add: enqueueLogJob_def)

end
