(* ===== verification/Poser_CertInfo.thy ===== *)
theory Poser_CertInfo
  imports C_Numbers
begin

text \<open>
  Information about a certificate (\<open>src/lib/core/certinfo.c\<close>, the build with TLS): the values
  are computed at the first call and kept.  \<open>X509_digest\<close> and the name of the subject are
  functions of the TLS library, given as parameters.
\<close>

section \<open>Operations\<close>

record PSC_CertInfo =
  ci_cert :: ptr
  ci_subject :: "string option"
  ci_fpstr :: "char buf option"
  ci_fingerprint :: "bytes option"

definition PSC_CertInfo_create :: "ptr \<Rightarrow> PSC_CertInfo" where
  "PSC_CertInfo_create cert = \<lparr>ci_cert = cert, ci_subject = None, ci_fpstr = None, ci_fingerprint = None\<rparr>"

text \<open>\<open>ci_fingerprint\<close> holds a value exactly if \<open>havefingerprint\<close> is set.\<close>

definition PSC_CertInfo_fingerprint :: "(ptr \<Rightarrow> bytes) \<Rightarrow> PSC_CertInfo \<Rightarrow> bytes \<times> PSC_CertInfo" where
  "PSC_CertInfo_fingerprint digest self =
     (case ci_fingerprint self of
        Some fp \<Rightarrow> (fp, self)
      | None \<Rightarrow> (digest (ci_cert self), self\<lparr>ci_fingerprint := Some (digest (ci_cert self))\<rparr>))"

text \<open>\<open>sprintf\<close> with \<open>%02hhx\<close>.\<close>

definition hex_byte :: "u8 \<Rightarrow> string" where
  "hex_byte b = [xdigit_char (unat b div 16), xdigit_char (unat b mod 16)]"

fun fp_loop :: "bytes \<Rightarrow> nat \<Rightarrow> char buf \<Rightarrow> char buf option" where
  "fp_loop [] fppos buf = Some buf"
| "fp_loop (b # bs) fppos buf = do { buf \<leftarrow> buf_strcpy buf fppos (hex_byte b); fp_loop bs (fppos + 2) buf }"

definition PSC_CertInfo_fingerprintStr :: "(ptr \<Rightarrow> bytes) \<Rightarrow> PSC_CertInfo \<Rightarrow> (char buf \<times> PSC_CertInfo) option" where
  "PSC_CertInfo_fingerprintStr digest self =
     (case ci_fpstr self of
        Some s \<Rightarrow> Some (s, self)
      | None \<Rightarrow> do {
          let (fp, self) = PSC_CertInfo_fingerprint digest self;
          s \<leftarrow> fp_loop fp 0 (buf_alloc 129);
          Some (s, self\<lparr>ci_fpstr := Some s\<rparr>) })"

definition PSC_CertInfo_subject :: "(ptr \<Rightarrow> string) \<Rightarrow> PSC_CertInfo \<Rightarrow> string \<times> PSC_CertInfo" where
  "PSC_CertInfo_subject oneline self =
     (case ci_subject self of
        Some s \<Rightarrow> (s, self)
      | None \<Rightarrow> (oneline (ci_cert self), self\<lparr>ci_subject := Some (oneline (ci_cert self))\<rparr>))"

section \<open>Lemmas\<close>

fun hex_string :: "bytes \<Rightarrow> string" where
  "hex_string [] = []"
| "hex_string (b # bs) = hex_byte b @ hex_string bs"

lemma length_hex_string [simp]: "length (hex_string bs) = 2 * length bs"
  by (induction bs) (simp_all add: hex_byte_def)

lemma fp_loop_ok:
  "i + 2 * length bs < length b \<Longrightarrow> take i b = map Some t \<Longrightarrow> length t = i \<Longrightarrow> bs \<noteq> [] \<Longrightarrow>
   \<exists>b'. fp_loop bs i b = Some b' \<and> length b' = length b \<and> take (i + 2 * length bs) b' = map Some (t @ hex_string bs) \<and>
     b' ! (i + 2 * length bs) = Some NUL"
proof (induction bs arbitrary: i b t)
  case (Cons x bs)
  have h: "length (hex_byte x) = 2" by (simp add: hex_byte_def)
  obtain b1 where b1: "buf_strcpy b i (hex_byte x) = Some b1" "length b1 = length b" "take (i + 2) b1 = map Some (t @ hex_byte x)" "b1 ! (i + 2) = Some NUL"
    using buf_strcpy_append [of i "hex_byte x" b t] Cons.prems h by auto
  show ?case
  proof (cases "bs = []")
    case True
    with b1 h show ?thesis by simp
  next
    case False
    then obtain b' where "fp_loop bs (i + 2) b1 = Some b'" "length b' = length b1"
        "take (i + 2 + 2 * length bs) b' = map Some ((t @ hex_byte x) @ hex_string bs)" "b' ! (i + 2 + 2 * length bs) = Some NUL"
      using Cons.IH [of "i + 2" b1 "t @ hex_byte x"] Cons.prems b1 h by auto
    with b1 show ?thesis by (simp add: add.assoc)
  qed
qed simp

lemma unat_lt_u8: "unat (b :: u8) < 256"
  by (rule order_less_le_trans [OF unsigned_less]) simp

text \<open>The bytes that a string of hexadecimal digits stands for.\<close>

fun hex_parse :: "string \<Rightarrow> bytes" where
  "hex_parse (h # l # s) = word_of_nat (hex_val [h, l]) # hex_parse s"
| "hex_parse _ = []"

lemma hex_parse_string: "hex_parse (hex_string bs) = bs"
proof (induction bs)
  case (Cons b bs)
  have "unat b < 256" using unat_lt_u8 [of b] by simp
  then have "unat b div 16 < 16" by simp
  then have "hex_val (hex_byte b) = unat b" using xdigit_char_ok(2) by (simp add: hex_val_def hex_byte_def)
  then show ?case using Cons by (simp add: hex_byte_def)
qed simp

lemma hex_string_digits: "list_all is_xdigit (hex_string bs)"
proof (induction bs)
  case (Cons b bs)
  have "unat b < 256" using unat_lt_u8 [of b] by simp
  then have "unat b div 16 < 16" by simp
  then show ?case using Cons xdigit_char_ok(1) by (simp add: hex_byte_def)
qed simp

section \<open>Properties\<close>

text \<open>
  The fingerprint of a certificate as a string fits its buffer of 129 characters exactly:
  it is 128 hexadecimal digits that stand for the 64 bytes of the fingerprint, and later calls
  return the same string.
\<close>
theorem fingerprint_string:
  assumes "length (digest cert) = 64"
  shows "\<exists>s b self. PSC_CertInfo_fingerprintStr digest (PSC_CertInfo_create cert) = Some (b, self) \<and> b = map Some (s @ [NUL]) \<and>
    length s = 128 \<and> list_all is_xdigit s \<and> hex_parse s = digest cert \<and>
    PSC_CertInfo_fingerprintStr other self = Some (b, self) \<and> PSC_CertInfo_fingerprint other self = (digest cert, self)"
proof -
  let ?s = "hex_string (digest cert)"
  have "digest cert \<noteq> []" using assms by auto
  then obtain b where b: "fp_loop (digest cert) 0 (buf_alloc 129) = Some b" "length b = 129" "take 128 b = map Some ?s" "b ! 128 = Some NUL"
    using fp_loop_ok [of 0 "digest cert" "buf_alloc 129" "[]"] assms by auto
  have "b = take 128 b @ [b ! 128]" using b(2) take_Suc_conv_app_nth [of 128 b] by simp
  then have "b = map Some (?s @ [NUL])" using b(3,4) by simp
  then show ?thesis using b(1) assms hex_parse_string hex_string_digits
    by (intro exI [of _ ?s] exI [of _ b]) (auto simp: PSC_CertInfo_fingerprintStr_def PSC_CertInfo_fingerprint_def PSC_CertInfo_create_def)
qed

theorem fingerprint_string_witness:
  "\<exists>s b self. PSC_CertInfo_fingerprintStr (\<lambda>_. replicate 64 0xAB) (PSC_CertInfo_create 1) = Some (b, self) \<and> b = map Some (s @ [NUL]) \<and>
    length s = 128 \<and> hex_parse s = replicate 64 0xAB"
  using fingerprint_string [of "\<lambda>_. replicate 64 0xAB" 1 "\<lambda>_. []"] by auto

end
