(* ===== verification/Spec2Isabelle.thy ===== *)
theory Spec2Isabelle
  imports Poser_List Poser_Queue Poser_HashTable Poser_Dictionary Poser_Util Poser_Base64 Poser_RateLimit
    Poser_Json Poser_JsonParse Poser_IpAddr Poser_ObjectPool Poser_Event
    Poser_JobQueue Poser_ThreadPool Poser_Connection Poser_ConnWrite Poser_ConnRead Poser_ConnLife
    Poser_SvcQueue Poser_SvcLockfree Poser_SvcWatch Poser_SvcDispatch Poser_Service Poser_Timer Poser_SharedObj Poser_StackMgr
    Poser_Server Poser_ServerConn Poser_ServerEnd Poser_Client Poser_Process Poser_Random Poser_Daemon Poser_Resolver Poser_Log Poser_CertInfo
begin

text \<open>
  Verification of \<open>libposercore\<close>, the core library of poser (\<open>src/src/lib/core\<close>, public headers
  in \<open>src/include/poser/core\<close>): a C framework for network services on POSIX systems.

  \<^bold>\<open>The program.\<close>  A service runs an event loop on its main thread and on a number of
  worker threads (\<open>service.c\<close>).  Each of these threads watches file descriptors through one
  of five system interfaces, raises events (\<open>event.c\<close>) when they are ready, and runs commands
  that other threads put into its queue.  Timers (\<open>timer.c\<close>) are descriptors or signals that
  end up in the same loop.  Connections (\<open>connection.c\<close>) are registered with the loop of one
  thread; they are created by a server (\<open>server.c\<close>), by a client (\<open>client.c\<close>) or for the pipes
  of a child process (\<open>process.c\<close>).  A thread pool (\<open>threadpool.c\<close>) takes jobs from service
  threads through a queue and reports their completion as a command; asynchronous jobs run on
  stacks from a cache (\<open>stackmgr.c\<close>).  The lock-free queues free their nodes through epochs
  (\<open>sharedobj.c\<close>).  Below that are containers (\<open>list.c\<close>, \<open>queue.c\<close>, \<open>hashtable.c\<close>,
  \<open>dictionary.c\<close>, \<open>objectpool.c\<close>) and formats (\<open>json.c\<close>, \<open>base64.c\<close>, \<open>ipaddr.c\<close>, \<open>util.c\<close>,
  \<open>stringbuilder.c\<close>), and the rate limiter (\<open>ratelimit.c\<close>), which is built on the dictionary.
  Logging (\<open>log.c\<close>), daemons (\<open>daemon.c\<close>), random data (\<open>random.c\<close>) and names of addresses
  (\<open>resolver.c\<close>) serve the application and the components above.

  \<^bold>\<open>How the code is modelled.\<close>  Structures are records, enumerations and unions are data types,
  and every C function is one HOL function of the same name over an explicit state, with each
  early return and error code.  Undefined behaviour (an access outside an array, a read of
  memory that was never written, a dereferenced null or dangling pointer) is the value
  \<open>None\<close>.  Machine integers have their width (\<open>w word\<close>) where the code depends on it and are
  \<open>int\<close> or \<open>nat\<close> where it does not.  The results of system calls are arguments, so a theorem
  holds for every behaviour of the kernel; effects that matter are recorded in a history.
  Callbacks of the application are arguments too, and may call back into the model.  Code that
  runs on several threads is a transition system whose steps are the atomic accesses of the
  code, and properties of it hold for every interleaving (sequentially consistent: the weak
  memory orders of the atomics are not modelled).  The hash function xxHash is a git submodule
  and is a parameter of everything that hashes.

  \<^bold>\<open>Theories.\<close>
  \<^item> \<open>Prelude\<close>: machine types, heap buffers, C strings.  \<open>C_Numbers\<close>: \<open>strtol\<close> and decimal and
    hexadecimal \<open>printf\<close>, with their round trips.  \<open>Interfaces\<close>: the locales of iterators and
    finite maps, which the containers interpret.
  \<^item> \<open>Poser_List\<close>, \<open>Poser_Queue\<close>, \<open>Poser_HashTable\<close> (\<open>list.c\<close>, \<open>queue.c\<close>, \<open>hashtable.c\<close>): each
    operation on the array, the ring buffer and the chains refines its abstract counterpart.
  \<^item> \<open>Poser_Hash\<close>, \<open>Poser_Dictionary\<close> (\<open>hash.c\<close>, \<open>dictionary.c\<close>): the hash trie refines a finite
    map for every hash function, and destroys each object exactly once.
  \<^item> \<open>Poser_ObjectPool\<close> (\<open>objectpool.c\<close>): the pool with its chunks refines a set of live objects.
  \<^item> \<open>Poser_Util\<close>, \<open>Poser_Base64\<close>, \<open>Poser_IpAddr\<close>, \<open>Poser_Json\<close>, \<open>Poser_JsonParse\<close>: buffers are
    never overrun, parsing terminates, and what is written is read back.
  \<^item> \<open>Poser_RateLimit\<close> (\<open>ratelimit.c\<close>): the ring of counters refines a sliding window; the spin
    lock of an entry excludes.
  \<^item> \<open>Poser_Event\<close> (\<open>event.c\<close>): handlers that register, unregister and raise while the event is
    being raised.
  \<^item> \<open>Poser_JobQueue\<close>, \<open>Poser_ThreadPool\<close>, \<open>Poser_StackMgr\<close> (\<open>threadpool.c\<close>, \<open>stackmgr.c\<close>,
    \<open>runopts.c\<close>): the two job queues, the life of a job, the sizes of the pool, spare stacks.
  \<^item> \<open>Poser_SharedObj\<close> (\<open>sharedobj.c\<close>): no object is freed while a thread holds a reservation.
  \<^item> \<open>Poser_SvcWatch\<close>, \<open>Poser_SvcDispatch\<close> (\<open>service.c\<close>, registration and \<open>processEvents\<close>): the
    locale \<open>fd_watcher\<close> is interpreted on the five back ends, which report the same descriptors;
    one round of the loop raises the events it should.
  \<^item> \<open>Poser_SvcQueue\<close>, \<open>Poser_SvcLockfree\<close> (\<open>service.c\<close>, commands): the queue with a lock loses
    neither commands nor wakeups; the lock-free one does.
  \<^item> \<open>Poser_Service\<close>, \<open>Poser_Timer\<close> (\<open>service.c\<close>, \<open>timer.c\<close>): start and end of the loop on every
    path, signals, children, shutdown, and timers.
  \<^item> \<open>Poser_Connection\<close>, \<open>Poser_ConnWrite\<close>, \<open>Poser_ConnRead\<close>, \<open>Poser_ConnLife\<close> (\<open>connection.c\<close>):
    data of a connection; output and input are complete and in order; life cycle.
  \<^item> \<open>Poser_Server\<close>, \<open>Poser_ServerConn\<close>, \<open>Poser_ServerEnd\<close> (\<open>server.c\<close>): listening sockets whatever
    the system calls return, accepting and counting connections as interleaved steps of the
    threads, the choice of a thread, shutdown and destruction.
  \<^item> \<open>Poser_Client\<close> (\<open>client.c\<close>): the blacklist, the descriptors of a connection attempt, and
    ownership in asynchronous creation.  \<open>Poser_Resolver\<close> (\<open>resolver.c\<close>): names of addresses, and
    destruction at any moment, also by a handler of the resolver's own event.
  \<^item> \<open>Poser_Process\<close> (\<open>process.c\<close>): arguments, pipes and the descriptors of a child, and that its
    end is reported once.  \<open>Poser_Daemon\<close> (\<open>daemon.c\<close>): pidfile, the two forks, and what the process
    that started a daemon shows and returns.
  \<^item> \<open>Poser_Log\<close> (\<open>log.c\<close>): asynchronous logging is equivalent to synchronous logging.
    \<open>Poser_Random\<close> (\<open>random.c\<close>): sources of random data and random strings.  \<open>Poser_CertInfo\<close>
    (\<open>certinfo.c\<close>): the fingerprint as a string.

  \<^bold>\<open>Loops and fuel.\<close>  Loops are structural or have a termination proof.  The parser takes fuel
  and is shown to return with the length of the text as fuel; the input loop of a connection is
  shown to end.  The calls of a resolver that its handlers make are bounded by fuel, and enough fuel
  is shown to give a result.  The transition systems need no bound.

  \<^bold>\<open>Not modelled.\<close>  TLS (OpenSSL is not part of the repository, and the connection, server and
  client are modelled in the build without it).  The reservations of dictionaries that
  several threads share.  The TLS context of clients and certificate checks of servers.  The
  build of \<open>random.c\<close> with \<open>arc4random\<close>, which is one system call.  The loops of kqueue and event ports, which also carry timers.  The
  assembler switch of stacks in \<open>threadpool.c\<close>.  Memory that is only freed has no effect in the
  model except where freeing it twice or using it afterwards is the question.
\<close>

end
